(* ===== verification/Prelude.thy ===== *)
theory Prelude
  imports Main "HOL-Library.Signed_Division" "HOL-Library.Multiset" "HOL-Library.AList"
begin

text \<open>
  Shared ground of the development: the fixed-width integer arithmetic of the source language
  (\<open>i64\<close> with its checked and wrapping operations), three-way comparison, a comparator-driven
  sort, and hash maps as association lists. The generic lemmas about them are collected in
  \<open>i64_defs\<close>, \<open>checked_simps\<close> and \<open>hmap_simps\<close>, which the component theories pass to the
  simplifier.
\<close>

named_theorems i64_defs \<open>unfolding the width of machine integers\<close>
named_theorems checked_simps \<open>when a checked operation returns a value\<close>
named_theorems hmap_simps \<open>lookup after insert and remove on hash maps\<close>

section \<open>Definitions\<close>

subsection \<open>64-bit signed integers\<close>

text \<open>
  An \<open>i64\<close> is an \<open>int\<close> inside \<open>in_i64\<close>. A \<open>checked_*\<close> operation returns \<open>None\<close> when the exact
  result leaves the range; an unchecked operator wraps, as release builds do
  (\<open>src/Cargo.toml\<close> leaves \<open>overflow-checks\<close> off), which is \<open>wrap_i64\<close> of the exact result.
\<close>

definition i64_min :: int where "i64_min = - 9223372036854775808"
definition i64_max :: int where "i64_max = 9223372036854775807"

definition in_i64 :: "int \<Rightarrow> bool" where
  "in_i64 x \<longleftrightarrow> i64_min \<le> x \<and> x \<le> i64_max"

definition try_i64 :: "int \<Rightarrow> int option" where
  "try_i64 x = (if in_i64 x then Some x else None)"

definition checked_add_i64 :: "int \<Rightarrow> int \<Rightarrow> int option" where
  "checked_add_i64 a b = try_i64 (a + b)"

definition checked_sub_i64 :: "int \<Rightarrow> int \<Rightarrow> int option" where
  "checked_sub_i64 a b = try_i64 (a - b)"

definition checked_mul_i64 :: "int \<Rightarrow> int \<Rightarrow> int option" where
  "checked_mul_i64 a b = try_i64 (a * b)"

definition wrap_i64 :: "int \<Rightarrow> int" where
  "wrap_i64 x = (x + 9223372036854775808) mod 18446744073709551616 - 9223372036854775808"

text \<open>Euclidean division and remainder of the source language (non-negative remainder).\<close>

definition div_euclid :: "int \<Rightarrow> int \<Rightarrow> int" where
  "div_euclid a b = (if 0 < b then a div b else - (a div (- b)))"

definition rem_euclid :: "int \<Rightarrow> int \<Rightarrow> int" where
  "rem_euclid a b = a mod \<bar>b\<bar>"

definition checked_div_euclid_i64 :: "int \<Rightarrow> int \<Rightarrow> int option" where
  "checked_div_euclid_i64 a b = (if b = 0 then None else try_i64 (div_euclid a b))"

text \<open>
  A call that may panic returns an \<open>outcome\<close>: \<open>Panic\<close> for a failed assertion, an \<open>unwrap\<close> of
  nothing or an index out of range, \<open>Ret v\<close> for a normal return.
\<close>

datatype 'a outcome = Panic | Ret 'a

fun bind_outcome :: "'a outcome \<Rightarrow> ('a \<Rightarrow> 'b outcome) \<Rightarrow> 'b outcome" where
  "bind_outcome Panic f = Panic"
| "bind_outcome (Ret x) f = f x"

text \<open>A \<open>for\<close> loop over a state, left by the first panic.\<close>

fun fold_outcome :: "('a \<Rightarrow> 's \<Rightarrow> 's outcome) \<Rightarrow> 'a list \<Rightarrow> 's \<Rightarrow> 's outcome" where
  "fold_outcome f [] s = Ret s"
| "fold_outcome f (x # xs) s = bind_outcome (f x s) (fold_outcome f xs)"

text \<open>A call that may panic or return an error; the \<open>?\<close> operator is the bind.\<close>

type_synonym ('e, 'a) fallible = "('e + 'a) outcome"

fun bind_fallible :: "('e, 'a) fallible \<Rightarrow> ('a \<Rightarrow> ('e, 'b) fallible) \<Rightarrow> ('e, 'b) fallible" where
  "bind_fallible Panic f = Panic"
| "bind_fallible (Ret (Inl e)) f = Ret (Inl e)"
| "bind_fallible (Ret (Inr x)) f = f x"

fun fold_fallible :: "('a \<Rightarrow> 's \<Rightarrow> ('e, 's) fallible) \<Rightarrow> 'a list \<Rightarrow> 's \<Rightarrow> ('e, 's) fallible" where
  "fold_fallible f [] s = Ret (Inr s)"
| "fold_fallible f (x # xs) s = bind_fallible (f x s) (fold_fallible f xs)"

definition unwrap :: "'a option \<Rightarrow> 'a outcome" where
  "unwrap x = (case x of None \<Rightarrow> Panic | Some v \<Rightarrow> Ret v)"

text \<open>Unsigned arithmetic of \<open>usize\<close> and \<open>u64\<close>, which are natural numbers below \<open>2 ^ 64\<close>.\<close>

definition usize_max :: nat where "usize_max = 18446744073709551615"

definition wrap_usize :: "nat \<Rightarrow> nat" where
  "wrap_usize n = n mod 18446744073709551616"

definition usize_add :: "nat \<Rightarrow> nat \<Rightarrow> nat" where
  "usize_add a b = wrap_usize (a + b)"

definition usize_sub :: "nat \<Rightarrow> nat \<Rightarrow> nat" where
  "usize_sub a b = (if b \<le> a then a - b else wrap_usize (a + 18446744073709551616 - b))"

definition saturating_add_usize :: "nat \<Rightarrow> nat \<Rightarrow> nat" where
  "saturating_add_usize a b = min usize_max (a + b)"

definition saturating_mul_usize :: "nat \<Rightarrow> nat \<Rightarrow> nat" where
  "saturating_mul_usize a b = min usize_max (a * b)"

subsection \<open>Three-way comparison\<close>

datatype ordering = Less | Equal | Greater

definition cmp_of :: "'a::linorder \<Rightarrow> 'a \<Rightarrow> ordering" where
  "cmp_of a b = (if a < b then Less else if a = b then Equal else Greater)"

fun then_cmp :: "ordering \<Rightarrow> ordering \<Rightarrow> ordering" where
  "then_cmp Equal o2 = o2"
| "then_cmp o1 o2 = o1"

subsection \<open>Sorting by a comparator\<close>

text \<open>
  \<open>sort_by le\<close> is a stable insertion sort for the total preorder \<open>le\<close>. The source sorts with
  \<open>sort_unstable_by\<close>, whose result is some permutation sorted by the comparator: the lemmas on
  the sorted list (\<open>sorted_wrt_sort_by\<close>, \<open>mset_sort_by\<close>) use only that.
\<close>

fun insort_by :: "('a \<Rightarrow> 'a \<Rightarrow> bool) \<Rightarrow> 'a \<Rightarrow> 'a list \<Rightarrow> 'a list" where
  "insort_by le x [] = [x]"
| "insort_by le x (y # ys) = (if le x y then x # y # ys else y # insort_by le x ys)"

fun sort_by :: "('a \<Rightarrow> 'a \<Rightarrow> bool) \<Rightarrow> 'a list \<Rightarrow> 'a list" where
  "sort_by le [] = []"
| "sort_by le (x # xs) = insort_by le x (sort_by le xs)"

text \<open>The position of the first element that satisfies a predicate.\<close>

fun position :: "('a \<Rightarrow> bool) \<Rightarrow> 'a list \<Rightarrow> nat option" where
  "position P [] = None"
| "position P (x # xs) = (if P x then Some 0 else map_option Suc (position P xs))"

subsection \<open>Hash maps\<close>

text \<open>
  A \<open>HashMap\<close> is an association list with distinct keys; the order of the list stands for the
  iteration order, which the source language leaves open.
\<close>

type_synonym ('k, 'v) hmap = "('k \<times> 'v) list"

abbreviation hmap_get :: "('k, 'v) hmap \<Rightarrow> 'k \<Rightarrow> 'v option" where
  "hmap_get m k \<equiv> map_of m k"

abbreviation hmap_insert :: "'k \<Rightarrow> 'v \<Rightarrow> ('k, 'v) hmap \<Rightarrow> ('k, 'v) hmap" where
  "hmap_insert k v m \<equiv> AList.update k v m"

abbreviation hmap_remove :: "'k \<Rightarrow> ('k, 'v) hmap \<Rightarrow> ('k, 'v) hmap" where
  "hmap_remove k m \<equiv> AList.delete k m"

definition hmap_keys :: "('k, 'v) hmap \<Rightarrow> 'k list" where
  "hmap_keys m = map fst m"

definition hmap_values :: "('k, 'v) hmap \<Rightarrow> 'v list" where
  "hmap_values m = map snd m"

definition hmap_wf :: "('k, 'v) hmap \<Rightarrow> bool" where
  "hmap_wf m \<longleftrightarrow> distinct (map fst m)"

section \<open>Lemmas\<close>

lemma fold_invariant_set:
  assumes "P s" and "\<And>x s. x \<in> set xs \<Longrightarrow> P s \<Longrightarrow> P (f x s)"
  shows "P (fold f xs s)"
  using assms by (induction xs arbitrary: s) auto

lemmas [i64_defs] = in_i64_def i64_min_def i64_max_def

lemma try_i64_Some [checked_simps]: "try_i64 x = Some y \<longleftrightarrow> y = x \<and> in_i64 x"
  by (auto simp: try_i64_def)

lemma try_i64_None [checked_simps]: "try_i64 x = None \<longleftrightarrow> \<not> in_i64 x"
  by (simp add: try_i64_def)

lemmas checked_ops = checked_add_i64_def checked_sub_i64_def checked_mul_i64_def

lemma wrap_i64_id [simp]: "in_i64 x \<Longrightarrow> wrap_i64 x = x"
  by (simp add: wrap_i64_def i64_defs)

lemma wrap_i64_in [simp]: "in_i64 (wrap_i64 x)"
proof -
  have "0 \<le> (x + 9223372036854775808) mod 18446744073709551616"
    and "(x + 9223372036854775808) mod 18446744073709551616 < 18446744073709551616"
    by simp_all
  then show ?thesis by (simp add: wrap_i64_def i64_defs)
qed

lemma fold_outcome_append:
  "fold_outcome f (xs @ ys) s = bind_outcome (fold_outcome f xs s) (fold_outcome f ys)"
proof (induction xs arbitrary: s)
  case (Cons x xs)
  then show ?case by (cases "f x s") auto
qed simp

lemma bind_fallible_Ok_iff:
  "bind_fallible r f = Ret (Inr y) \<longleftrightarrow> (\<exists>x. r = Ret (Inr x) \<and> f x = Ret (Inr y))"
proof (cases r)
  case (Ret v)
  then show ?thesis by (cases v) auto
qed simp

lemma fold_fallible_invariant:
  assumes "fold_fallible f xs s = Ret (Inr s')" and "P [] s"
    and "\<And>ys x s s'. P ys s \<Longrightarrow> x \<in> set xs \<Longrightarrow> f x s = Ret (Inr s') \<Longrightarrow> P (ys @ [x]) s'"
  shows "P xs s'"
proof -
  have "P (ys @ zs) s'" if "fold_fallible f zs s = Ret (Inr s')" and "P ys s" and "set zs \<subseteq> set xs" for ys zs s
    using that
  proof (induction zs arbitrary: ys s)
    case (Cons z zs)
    then obtain s1 where s1: "f z s = Ret (Inr s1)" "fold_fallible f zs s1 = Ret (Inr s')"
      by (auto simp: bind_fallible_Ok_iff)
    with Cons.prems assms(3) have "P (ys @ [z]) s1" by auto
    with Cons.IH [OF s1(2) this] Cons.prems show ?case by simp
  qed simp
  from this [OF assms(1,2)] show ?thesis by simp
qed

lemma fold_outcome_Ret: "fold_outcome (\<lambda>x s. Ret (f x s)) xs s = Ret (fold f xs s)"
  by (induction xs arbitrary: s) auto

lemma fold_outcome_invariant:
  assumes "fold_outcome f xs s = Ret s'" and "P s"
    and "\<And>x s s'. x \<in> set xs \<Longrightarrow> P s \<Longrightarrow> f x s = Ret s' \<Longrightarrow> P s'"
  shows "P s'"
  using assms
proof (induction xs arbitrary: s)
  case (Cons x xs)
  then obtain s1 where s1: "f x s = Ret s1" "fold_outcome f xs s1 = Ret s'"
    by (cases "f x s") auto
  have "P s1" by (rule Cons.prems(3) [OF _ Cons.prems(2) s1(1)]) simp
  from Cons.IH [OF s1(2) this] Cons.prems(3) show ?case by (meson list.set_intros(2))
qed simp

lemma unwrap_simps [simp]: "unwrap None = Panic" "unwrap (Some v) = Ret v"
  by (simp_all add: unwrap_def)

lemma bind_outcome_Ret_iff:
  "bind_outcome x f = Ret y \<longleftrightarrow> (\<exists>v. x = Ret v \<and> f v = Ret y)"
  by (cases x) auto

lemma div_euclid_pos [simp]: "0 < b \<Longrightarrow> div_euclid a b = a div b"
  by (simp add: div_euclid_def)

lemma rem_euclid_pos [simp]: "0 < b \<Longrightarrow> rem_euclid a b = a mod b"
  by (simp add: rem_euclid_def)

lemma in_i64_div:
  assumes "in_i64 a" and "0 < b"
  shows "in_i64 (a div b)"
proof (cases "0 \<le> a")
  case True
  with assms have "0 \<le> a div b" and "a div b \<le> a"
    using zdiv_mono2 [of a 1 b] by (simp_all add: pos_imp_zdiv_nonneg_iff)
  with assms show ?thesis by (simp add: i64_defs)
next
  case False
  with assms have "a div b < 0" and "a \<le> a div b"
    using zdiv_mono2_neg [of a 1 b] by (simp_all add: pos_imp_zdiv_neg_iff)
  with assms show ?thesis by (simp add: i64_defs)
qed

subsection \<open>Comparison\<close>

lemma cmp_of_Less [simp]: "cmp_of a b = Less \<longleftrightarrow> a < b"
  by (simp add: cmp_of_def)

lemma cmp_of_Equal [simp]: "cmp_of a b = Equal \<longleftrightarrow> a = b"
  by (auto simp: cmp_of_def)

lemma cmp_of_Greater [simp]: "cmp_of a b = Greater \<longleftrightarrow> b < a"
  by (auto simp: cmp_of_def)

lemma then_cmp_Less: "then_cmp o1 o2 = Less \<longleftrightarrow> o1 = Less \<or> o1 = Equal \<and> o2 = Less"
  by (cases o1) auto

lemma then_cmp_Equal: "then_cmp o1 o2 = Equal \<longleftrightarrow> o1 = Equal \<and> o2 = Equal"
  by (cases o1) auto

lemma then_cmp_Greater:
  "then_cmp o1 o2 = Greater \<longleftrightarrow> o1 = Greater \<or> o1 = Equal \<and> o2 = Greater"
  by (cases o1) auto

lemmas then_cmp_iffs = then_cmp_Less then_cmp_Equal then_cmp_Greater

lemma position_Some_iff:
  "position P xs = Some i \<longleftrightarrow> i < length xs \<and> P (xs ! i) \<and> (\<forall>j < i. \<not> P (xs ! j))"
proof (induction xs arbitrary: i)
  case (Cons x xs)
  then show ?case by (cases i) (auto simp: less_Suc_eq_0_disj)
qed simp

lemma position_None_iff: "position P xs = None \<longleftrightarrow> (\<forall>x \<in> set xs. \<not> P x)"
  by (induction xs) auto

subsection \<open>Sorting\<close>

lemma mset_insort_by [simp]: "mset (insort_by le x xs) = add_mset x (mset xs)"
  by (induction xs) auto

lemma mset_sort_by [simp]: "mset (sort_by le xs) = mset xs"
  by (induction xs) auto

lemma set_insort_by [simp]: "set (insort_by le x xs) = insert x (set xs)"
  by (induction xs) auto

lemma set_sort_by [simp]: "set (sort_by le xs) = set xs"
  by (induction xs) auto

lemma length_sort_by [simp]: "length (sort_by le xs) = length xs"
  by (metis mset_sort_by size_mset)

lemma sort_by_Nil_iff [simp]: "sort_by le xs = [] \<longleftrightarrow> xs = []"
  by (metis length_0_conv length_sort_by)

lemma distinct_sort_by [simp]: "distinct (sort_by le xs) \<longleftrightarrow> distinct xs"
  by (metis mset_eq_imp_distinct_iff mset_sort_by)

lemma sorted_wrt_insort_by:
  assumes total: "\<And>a b. le a b \<or> le b a" and trans: "\<And>a b c. le a b \<Longrightarrow> le b c \<Longrightarrow> le a c"
    and sorted: "sorted_wrt le xs"
  shows "sorted_wrt le (insort_by le x xs)"
  using sorted
proof (induction xs)
  case Nil
  then show ?case by simp
next
  case (Cons y ys)
  show ?case
  proof (cases "le x y")
    case True
    with Cons.prems trans show ?thesis by auto
  next
    case False
    with total have "le y x" by blast
    with False Cons show ?thesis by auto
  qed
qed

lemma sorted_wrt_sort_by:
  assumes "\<And>a b. le a b \<or> le b a" and "\<And>a b c. le a b \<Longrightarrow> le b c \<Longrightarrow> le a c"
  shows "sorted_wrt le (sort_by le xs)"
proof (induction xs)
  case (Cons x xs)
  then show ?case using sorted_wrt_insort_by [of le "sort_by le xs" x] assms by auto
qed simp

subsection \<open>Hash maps\<close>

lemma hmap_wf_Nil [simp]: "hmap_wf []"
  by (simp add: hmap_wf_def)

lemma hmap_wf_insert [simp]: "hmap_wf m \<Longrightarrow> hmap_wf (hmap_insert k v m)"
  by (simp add: hmap_wf_def distinct_update)

lemma hmap_wf_remove [simp]: "hmap_wf m \<Longrightarrow> hmap_wf (hmap_remove k m)"
  by (simp add: hmap_wf_def distinct_delete)

lemma hmap_get_insert [hmap_simps]:
  "hmap_get (hmap_insert k v m) k' = (if k' = k then Some v else hmap_get m k')"
  by (simp add: update_conv')

lemma hmap_get_remove [hmap_simps]:
  "hmap_get (hmap_remove k m) k' = (if k' = k then None else hmap_get m k')"
  by (simp add: delete_conv')

lemma hmap_values_get: "hmap_wf m \<Longrightarrow> v \<in> set (hmap_values m) \<longleftrightarrow> (\<exists>k. hmap_get m k = Some v)"
  by (force simp: hmap_wf_def hmap_values_def dest: map_of_SomeD)

end
