(* ===== verification/Timestamp.thy ===== *)
theory Timestamp
  imports Prelude "HOL-Library.Char_ord"
begin

text \<open>
  Time units, timestamps and their arithmetic: \<open>src/src/common/time/src/timestamp.rs\<close>, the rounding
  helper of \<open>util.rs\<close>, the bucket alignment of \<open>timestamp_millis.rs\<close> and the time-to-live of
  \<open>ttl.rs\<close>. A timestamp is a count of units since the epoch; \<open>instant_ns\<close> is the point of time it
  denotes, in nanoseconds, and is what every operation is specified against.
\<close>

section \<open>Definitions\<close>

subsection \<open>Units\<close>

datatype time_unit = Second | Millisecond | Microsecond | Nanosecond

fun factor :: "time_unit \<Rightarrow> int" where
  "factor Second = 1000000000"
| "factor Millisecond = 1000000"
| "factor Microsecond = 1000"
| "factor Nanosecond = 1"

fun short_name :: "time_unit \<Rightarrow> string" where
  "short_name Second = ''s''"
| "short_name Millisecond = ''ms''"
| "short_name Microsecond = ''us''"
| "short_name Nanosecond = ''ns''"

fun timestamp_unit_scale :: "time_unit \<Rightarrow> int" where
  "timestamp_unit_scale Second = 1"
| "timestamp_unit_scale Millisecond = 1000"
| "timestamp_unit_scale Microsecond = 1000000"
| "timestamp_unit_scale Nanosecond = 1000000000"

text \<open>The derived order of the enum is the declaration order, i.e. the precision order.\<close>

fun unit_rank :: "time_unit \<Rightarrow> nat" where
  "unit_rank Second = 0"
| "unit_rank Millisecond = 1"
| "unit_rank Microsecond = 2"
| "unit_rank Nanosecond = 3"

lemma unit_rank_inj [simp]: "unit_rank a = unit_rank b \<longleftrightarrow> a = b"
  by (cases a; cases b) simp_all

instantiation time_unit :: linorder
begin

definition less_eq_time_unit :: "time_unit \<Rightarrow> time_unit \<Rightarrow> bool" where
  "less_eq_time_unit a b \<longleftrightarrow> unit_rank a \<le> unit_rank b"

definition less_time_unit :: "time_unit \<Rightarrow> time_unit \<Rightarrow> bool" where
  "less_time_unit a b \<longleftrightarrow> unit_rank a < unit_rank b"

instance
proof
  fix a b c :: time_unit
  show "a < b \<longleftrightarrow> a \<le> b \<and> \<not> b \<le> a" by (auto simp: less_eq_time_unit_def less_time_unit_def)
  show "a \<le> a" by (simp add: less_eq_time_unit_def)
  show "a \<le> b \<Longrightarrow> b \<le> c \<Longrightarrow> a \<le> c" by (simp add: less_eq_time_unit_def)
  show "a \<le> b \<Longrightarrow> b \<le> a \<Longrightarrow> a = b" by (simp add: less_eq_time_unit_def flip: unit_rank_inj)
  show "a \<le> b \<or> b \<le> a" by (auto simp: less_eq_time_unit_def)
qed

end

subsection \<open>Timestamps\<close>

record timestamp =
  ts_value :: int
  ts_unit :: time_unit

definition ts_new :: "int \<Rightarrow> time_unit \<Rightarrow> timestamp" where
  "ts_new v u = \<lparr>ts_value = v, ts_unit = u\<rparr>"

definition new_second :: "int \<Rightarrow> timestamp" where
  "new_second v = \<lparr>ts_value = v, ts_unit = Second\<rparr>"

definition new_millisecond :: "int \<Rightarrow> timestamp" where
  "new_millisecond v = \<lparr>ts_value = v, ts_unit = Millisecond\<rparr>"

definition new_microsecond :: "int \<Rightarrow> timestamp" where
  "new_microsecond v = \<lparr>ts_value = v, ts_unit = Microsecond\<rparr>"

definition new_nanosecond :: "int \<Rightarrow> timestamp" where
  "new_nanosecond v = \<lparr>ts_value = v, ts_unit = Nanosecond\<rparr>"

text \<open>\<open>Timestamp::default()\<close> and the conversions from and to \<open>i64\<close>.\<close>

definition ts_default :: timestamp where
  "ts_default = \<lparr>ts_value = 0, ts_unit = Millisecond\<rparr>"

definition ts_from_i64 :: "int \<Rightarrow> timestamp" where
  "ts_from_i64 v = \<lparr>ts_value = v, ts_unit = Millisecond\<rparr>"

definition i64_from_ts :: "timestamp \<Rightarrow> int" where
  "i64_from_ts t = ts_value t"

subsection \<open>Conversion between units\<close>

text \<open>
  \<open>div_ceil\<close> of \<open>util.rs\<close>: the language's \<open>/\<close> and \<open>%\<close> truncate towards zero (\<open>sdiv\<close> and
  \<open>smod\<close>).
\<close>

definition div_ceil :: "int \<Rightarrow> int \<Rightarrow> int" where
  "div_ceil this rhs =
     (let d = this sdiv rhs; r = this smod rhs in if r > 0 \<and> rhs > 0 then d + 1 else d)"

definition convert_to :: "timestamp \<Rightarrow> time_unit \<Rightarrow> timestamp option" where
  "convert_to t u =
     (if factor (ts_unit t) \<ge> factor u
      then (let mul = factor (ts_unit t) div factor u
            in case checked_mul_i64 (ts_value t) mul of
                 None \<Rightarrow> None
               | Some value \<Rightarrow> Some (ts_new value u))
      else (let mul = factor u div factor (ts_unit t)
            in Some (ts_new (div_euclid (ts_value t) mul) u)))"

definition convert_to_ceil :: "timestamp \<Rightarrow> time_unit \<Rightarrow> timestamp option" where
  "convert_to_ceil t u =
     (if factor (ts_unit t) \<ge> factor u
      then (let mul = factor (ts_unit t) div factor u
            in case checked_mul_i64 (ts_value t) mul of
                 None \<Rightarrow> None
               | Some value \<Rightarrow> Some (ts_new value u))
      else (let mul = factor u div factor (ts_unit t)
            in Some (ts_new (div_ceil (ts_value t) mul) u)))"

record unit_quotient =
  quotient :: int
  remainder :: int

definition div_mod_units :: "int \<Rightarrow> time_unit \<Rightarrow> time_unit \<Rightarrow> unit_quotient option" where
  "div_mod_units value from_unit to_unit =
     (let from_scale = timestamp_unit_scale from_unit;
          to_scale = timestamp_unit_scale to_unit;
          instant = value * to_scale
      in case try_i64 (div_euclid instant from_scale) of
           None \<Rightarrow> None
         | Some q \<Rightarrow> Some \<lparr>quotient = q, remainder = rem_euclid instant from_scale\<rparr>)"

subsection \<open>Seconds and nanoseconds\<close>

definition split :: "timestamp \<Rightarrow> int \<times> int" where
  "split t =
     (let sec_mul = factor Second div factor (ts_unit t);
          nsec_mul = factor (ts_unit t) div factor Nanosecond;
          sec_div = div_euclid (ts_value t) sec_mul;
          sec_mod = rem_euclid (ts_value t) sec_mul
      in (sec_div, wrap_i64 (sec_mod * nsec_mul)))"

definition from_splits :: "int \<Rightarrow> int \<Rightarrow> timestamp option" where
  "from_splits sec nsec =
     (if nsec = 0 then Some (new_second sec)
      else if nsec mod 1000000 = 0 then
        (let millis = nsec div 1000000
         in map_option new_millisecond
              (Option.bind (checked_mul_i64 sec 1000) (\<lambda>v. checked_add_i64 v millis)))
      else if nsec mod 1000 = 0 then
        (let micros = nsec div 1000
         in map_option new_microsecond
              (Option.bind (checked_mul_i64 sec 1000000) (\<lambda>v. checked_add_i64 v micros)))
      else
        (let (sec, nsec) = (if sec < 0 \<and> nsec > 0 then (sec + 1, nsec - 1000000000) else (sec, nsec))
         in map_option new_nanosecond
              (Option.bind (checked_mul_i64 sec 1000000000) (\<lambda>v. checked_add_i64 v nsec))))"

subsection \<open>Order\<close>

definition ts_cmp :: "timestamp \<Rightarrow> timestamp \<Rightarrow> ordering" where
  "ts_cmp self other =
     (if ts_unit self = ts_unit other then cmp_of (ts_value self) (ts_value other)
      else
        (let (s_sec, s_nsec) = split self; (o_sec, o_nsec) = split other
         in case cmp_of s_sec o_sec of
              Less \<Rightarrow> Less
            | Greater \<Rightarrow> Greater
            | Equal \<Rightarrow> cmp_of s_nsec o_nsec))"

definition ts_eq :: "timestamp \<Rightarrow> timestamp \<Rightarrow> bool" where
  "ts_eq a b \<longleftrightarrow> ts_cmp a b = Equal"

text \<open>
  \<open>instant_ns\<close> is the specification side: the point of time, in nanoseconds since the epoch. The
  order \<open>PartialOrd\<close> is an instance of the library's preorders: \<open>a \<le> b\<close> is \<open>cmp\<close> not
  \<open>Greater\<close>. It is not antisymmetric on the record, since 1 second and 1000 milliseconds are
  different values that compare equal.
\<close>

definition instant_ns :: "timestamp \<Rightarrow> int" where
  "instant_ns t = ts_value t * factor (ts_unit t)"

definition ts_wf :: "timestamp \<Rightarrow> bool" where
  "ts_wf t \<longleftrightarrow> in_i64 (ts_value t)"

lemma factor_pos [simp]: "0 < factor u"
  by (cases u) simp_all

lemma factor_nonneg [simp]: "0 \<le> factor u" "factor u \<noteq> 0" "\<not> factor u \<le> 0" "\<not> factor u < 0"
  by (cases u; simp)+

lemma factor_div_mult: "factor a \<ge> factor b \<Longrightarrow> factor b * (factor a div factor b) = factor a"
  by (cases a; cases b) simp_all

lemma split_eq: "split t = (instant_ns t div 1000000000, instant_ns t mod 1000000000)"
proof -
  obtain m where m: "0 < m" "m * factor (ts_unit t) = 1000000000"
      "factor Second div factor (ts_unit t) = m"
    by (cases "ts_unit t") auto
  have nsec: "(ts_value t mod m) * factor (ts_unit t) = instant_ns t mod 1000000000"
    by (simp add: instant_ns_def mod_mult_mult2 flip: m(2))
  have "0 \<le> instant_ns t mod 1000000000" "instant_ns t mod 1000000000 < 1000000000" by simp_all
  then have "in_i64 (instant_ns t mod 1000000000)" unfolding i64_defs by linarith
  moreover have "ts_value t div m = instant_ns t div 1000000000"
    by (simp add: instant_ns_def flip: m(2))
  ultimately show ?thesis using m nsec by (simp add: split_def)
qed

lemma cmp_div_mod:
  fixes a b :: int
  shows "(case cmp_of (a div 1000000000) (b div 1000000000) of Less \<Rightarrow> Less | Greater \<Rightarrow> Greater
          | Equal \<Rightarrow> cmp_of (a mod 1000000000) (b mod 1000000000)) = cmp_of a b"
proof -
  have a: "a = 1000000000 * (a div 1000000000) + a mod 1000000000" by simp
  have b: "b = 1000000000 * (b div 1000000000) + b mod 1000000000" by simp
  have "0 \<le> a mod 1000000000" "a mod 1000000000 < 1000000000"
    "0 \<le> b mod 1000000000" "b mod 1000000000 < 1000000000" by simp_all
  with a b show ?thesis unfolding cmp_of_def
    by (smt (verit) ordering.simps)
qed

lemma ts_cmp_instant: "ts_cmp a b = cmp_of (instant_ns a) (instant_ns b)"
proof (cases "ts_unit a = ts_unit b")
  case True
  then show ?thesis
    by (auto simp: ts_cmp_def cmp_of_def instant_ns_def mult_less_cancel_right)
next
  case False
  then show ?thesis by (simp add: ts_cmp_def split_eq cmp_div_mod)
qed

instantiation timestamp_ext :: (type) preorder
begin

definition less_eq_timestamp_ext :: "'a timestamp_scheme \<Rightarrow> 'a timestamp_scheme \<Rightarrow> bool" where
  "less_eq_timestamp_ext a b \<longleftrightarrow> ts_cmp (timestamp.truncate a) (timestamp.truncate b) \<noteq> Greater"

definition less_timestamp_ext :: "'a timestamp_scheme \<Rightarrow> 'a timestamp_scheme \<Rightarrow> bool" where
  "less_timestamp_ext a b \<longleftrightarrow> ts_cmp (timestamp.truncate a) (timestamp.truncate b) = Less"

instance
  by standard (auto simp: less_eq_timestamp_ext_def less_timestamp_ext_def ts_cmp_instant)

end

text \<open>\<open>Ord::min\<close> and \<open>Ord::max\<close>: of equal instants, the minimum is the first and the maximum the second.\<close>

definition ts_min :: "timestamp \<Rightarrow> timestamp \<Rightarrow> timestamp" where
  "ts_min a b = (if b < a then b else a)"

definition ts_max :: "timestamp \<Rightarrow> timestamp \<Rightarrow> timestamp" where
  "ts_max a b = (if b < a then a else b)"

subsection \<open>Durations and arithmetic\<close>

text \<open>
  \<open>std::time::Duration\<close>: whole seconds (a \<open>u64\<close>) and nanoseconds below one second. Its \<open>as_*\<close>
  accessors truncate.
\<close>

record duration =
  dur_secs :: nat
  dur_nanos :: nat

fun duration_as :: "time_unit \<Rightarrow> duration \<Rightarrow> int" where
  "duration_as Second d = int (dur_secs d)"
| "duration_as Millisecond d = int (dur_secs d * 1000 + dur_nanos d div 1000000)"
| "duration_as Microsecond d = int (dur_secs d * 1000000 + dur_nanos d div 1000)"
| "duration_as Nanosecond d = int (dur_secs d * 1000000000 + dur_nanos d)"

definition duration_is_zero :: "duration \<Rightarrow> bool" where
  "duration_is_zero d \<longleftrightarrow> dur_secs d = 0 \<and> dur_nanos d = 0"

datatype time_error = TimestampOverflow | ArithmeticOverflow | ParseDuration | InvalidDatabaseTtl

definition sub_duration :: "timestamp \<Rightarrow> duration \<Rightarrow> time_error + timestamp" where
  "sub_duration t d =
     (case try_i64 (duration_as (ts_unit t) d) of
        None \<Rightarrow> Inl TimestampOverflow
      | Some n \<Rightarrow>
          (case checked_sub_i64 (ts_value t) n of
             None \<Rightarrow> Inl ArithmeticOverflow
           | Some v \<Rightarrow> Inr \<lparr>ts_value = v, ts_unit = ts_unit t\<rparr>))"

definition add_duration :: "timestamp \<Rightarrow> duration \<Rightarrow> time_error + timestamp" where
  "add_duration t d =
     (case try_i64 (duration_as (ts_unit t) d) of
        None \<Rightarrow> Inl TimestampOverflow
      | Some n \<Rightarrow>
          (case checked_add_i64 (ts_value t) n of
             None \<Rightarrow> Inl ArithmeticOverflow
           | Some v \<Rightarrow> Inr \<lparr>ts_value = v, ts_unit = ts_unit t\<rparr>))"

definition ts_negative :: "timestamp \<Rightarrow> timestamp" where
  "ts_negative t = t\<lparr>ts_value := wrap_i64 (- ts_value t)\<rparr>"

definition ts_checked_negative :: "timestamp \<Rightarrow> timestamp option" where
  "ts_checked_negative t = map_option (\<lambda>v. t\<lparr>ts_value := v\<rparr>) (try_i64 (- ts_value t))"

fun ts_min_max :: "time_unit \<Rightarrow> timestamp \<times> timestamp" where
  "ts_min_max Second = (new_second (- 8334601228800), new_second 8210266876799)"
| "ts_min_max Millisecond =
     (new_millisecond (- 8334601228800000), new_millisecond 8210266876799999)"
| "ts_min_max Microsecond =
     (new_microsecond (- 8334601228800000000), new_microsecond 8210266876799999999)"
| "ts_min_max Nanosecond = (new_nanosecond i64_min, new_nanosecond i64_max)"

definition is_overflow :: "int \<Rightarrow> time_unit \<Rightarrow> bool" where
  "is_overflow value u =
     (let (min_val, max_val) = (ts_value (fst (ts_min_max u)), ts_value (snd (ts_min_max u)))
      in value < min_val \<or> value > max_val)"

subsection \<open>Bucket alignment\<close>

definition align_by_bucket :: "int \<Rightarrow> int \<Rightarrow> int option outcome" where
  "align_by_bucket x bucket =
     (if bucket > 0
      then Ret (Option.bind (checked_div_euclid_i64 x bucket) (\<lambda>v. checked_mul_i64 v bucket))
      else Panic)"

definition align_to_ceil_by_bucket :: "int \<Rightarrow> int \<Rightarrow> int option outcome" where
  "align_to_ceil_by_bucket x bucket =
     (if bucket > 0 then Ret (checked_mul_i64 (div_ceil x bucket) bucket) else Panic)"

definition ts_align_by_bucket :: "timestamp \<Rightarrow> int \<Rightarrow> timestamp option outcome" where
  "ts_align_by_bucket t bucket =
     bind_outcome (align_by_bucket (ts_value t) bucket)
       (\<lambda>v. Ret (map_option (\<lambda>v. ts_new v (ts_unit t)) v))"

definition ts_align_to_ceil_by_bucket :: "timestamp \<Rightarrow> int \<Rightarrow> timestamp option outcome" where
  "ts_align_to_ceil_by_bucket t bucket =
     bind_outcome (align_to_ceil_by_bucket (ts_value t) bucket)
       (\<lambda>v. Ret (map_option (\<lambda>v. ts_new v (ts_unit t)) v))"

subsection \<open>Time to live\<close>

datatype time_to_live = Instant | Forever | TtlDuration duration

datatype database_time_to_live = DbForever | DbDuration duration

definition ttl_from_duration :: "duration \<Rightarrow> time_to_live" where
  "ttl_from_duration d = (if duration_is_zero d then Forever else TtlDuration d)"

definition db_ttl_from_duration :: "duration \<Rightarrow> database_time_to_live" where
  "db_ttl_from_duration d = (if duration_is_zero d then DbForever else DbDuration d)"

fun db_ttl_try_from :: "time_to_live \<Rightarrow> time_error + database_time_to_live" where
  "db_ttl_try_from Instant = Inl InvalidDatabaseTtl"
| "db_ttl_try_from Forever = Inr DbForever"
| "db_ttl_try_from (TtlDuration d) = Inr (db_ttl_from_duration d)"

fun ttl_from_db :: "database_time_to_live \<Rightarrow> time_to_live" where
  "ttl_from_db DbForever = Forever"
| "ttl_from_db (DbDuration d) = ttl_from_duration d"

fun is_expired :: "time_to_live \<Rightarrow> timestamp \<Rightarrow> timestamp \<Rightarrow> time_error + bool" where
  "is_expired Instant created_at now = Inr True"
| "is_expired Forever created_at now = Inr False"
| "is_expired (TtlDuration d) created_at now =
     (case sub_duration now d of Inl e \<Rightarrow> Inl e | Inr t \<Rightarrow> Inr (t > created_at))"

text \<open>
  Parsing. \<open>parse_duration\<close> is the third-party parser \<open>humantime::parse_duration\<close>. The literals
  are ASCII, so lower-casing is done on the ASCII letters of the string.
\<close>

definition ascii_lower :: "char \<Rightarrow> char" where
  "ascii_lower c = (if CHR ''A'' \<le> c \<and> c \<le> CHR ''Z'' then char_of (of_char c + (32::nat)) else c)"

definition ttl_from_humantime_or_str ::
    "(string \<Rightarrow> duration option) \<Rightarrow> string \<Rightarrow> time_error + time_to_live" where
  "ttl_from_humantime_or_str parse_duration s =
     (let l = map ascii_lower s
      in if l = ''instant'' then Inr Instant
         else if l = ''forever'' \<or> l = [] then Inr Forever
         else case parse_duration s of
                None \<Rightarrow> Inl ParseDuration
              | Some d \<Rightarrow> Inr (ttl_from_duration d))"

definition db_ttl_from_humantime_or_str ::
    "(string \<Rightarrow> duration option) \<Rightarrow> string \<Rightarrow> time_error + database_time_to_live" where
  "db_ttl_from_humantime_or_str parse_duration s =
     (let l = map ascii_lower s
      in if l = ''instant'' then Inl InvalidDatabaseTtl
         else if l = ''forever'' \<or> l = [] then Inr DbForever
         else case parse_duration s of
                None \<Rightarrow> Inl ParseDuration
              | Some d \<Rightarrow> Inr (db_ttl_from_duration d))"

section \<open>Lemmas\<close>

lemmas ts_constructors [simp] =
  ts_new_def new_second_def new_millisecond_def new_microsecond_def new_nanosecond_def

lemma ts_less_eq_iff: "(a::timestamp) \<le> b \<longleftrightarrow> instant_ns a \<le> instant_ns b"
  by (auto simp: less_eq_timestamp_ext_def timestamp.truncate_def ts_cmp_instant instant_ns_def)

lemma ts_less_iff: "(a::timestamp) < b \<longleftrightarrow> instant_ns a < instant_ns b"
  by (simp add: less_timestamp_ext_def timestamp.truncate_def ts_cmp_instant instant_ns_def)

lemma ts_eq_iff: "ts_eq a b \<longleftrightarrow> instant_ns a = instant_ns b"
  by (simp add: ts_eq_def ts_cmp_instant)

lemmas ts_order = ts_less_eq_iff ts_less_iff ts_eq_iff

lemma instant_ns_same_unit:
  "ts_unit a = ts_unit b \<Longrightarrow> instant_ns a < instant_ns b \<longleftrightarrow> ts_value a < ts_value b"
  "ts_unit a = ts_unit b \<Longrightarrow> instant_ns a \<le> instant_ns b \<longleftrightarrow> ts_value a \<le> ts_value b"
  "ts_unit a = ts_unit b \<Longrightarrow> instant_ns a = instant_ns b \<longleftrightarrow> ts_value a = ts_value b"
  by (simp_all add: instant_ns_def mult_less_cancel_right mult_le_cancel_right)

lemma ts_wf_new [simp]: "ts_wf (ts_new v u) \<longleftrightarrow> in_i64 v"
  by (simp add: ts_wf_def)

lemma div_ceil_eq:
  assumes "0 < b"
  shows "div_ceil a b = - ((- a) div b)"
proof -
  have *: "a = b * (a sdiv b) + a smod b" by (simp add: mult_sdiv_smod_eq)
  have bound: "\<bar>a smod b\<bar> < b" using assms
    by (simp add: signed_modulo_int_def abs_mult)
  have "(- a) div b = - (a sdiv b) + (- (a smod b)) div b"
  proof -
    have "- a = - (a smod b) + (- (a sdiv b)) * b" using * by (simp add: algebra_simps)
    then have "(- a) div b = (- (a smod b) + (- (a sdiv b)) * b) div b" by (rule arg_cong)
    also have "\<dots> = - (a sdiv b) + (- (a smod b)) div b"
      using assms by (intro div_mult_self1) simp
    finally show ?thesis .
  qed
  moreover have "(- (a smod b)) div b = (if a smod b > 0 then - 1 else 0)"
    using bound assms
    by (auto intro: div_pos_pos_trivial int_div_pos_eq [where r = "b - a smod b"])
  ultimately show ?thesis using assms by (simp add: div_ceil_def Let_def)
qed

lemma convert_to_eq:
  assumes "ts_wf t"
  shows "convert_to t u = map_option (\<lambda>q. ts_new q u) (try_i64 (instant_ns t div factor u))"
proof (cases "factor (ts_unit t) \<ge> factor u")
  case True
  let ?m = "factor (ts_unit t) div factor u"
  have "instant_ns t = factor u * (ts_value t * ?m)"
    using factor_div_mult [OF True] by (simp add: instant_ns_def mult.left_commute)
  then have "instant_ns t div factor u = ts_value t * ?m" by simp
  with True show ?thesis
    by (simp add: convert_to_def checked_ops split: option.split)
next
  case False
  let ?m = "factor u div factor (ts_unit t)"
  have m: "factor u = ?m * factor (ts_unit t)"
    using False factor_div_mult [of "ts_unit t" u] by (simp add: mult.commute)
  then have pos: "0 < ?m" using factor_pos [of u] by (metis factor_pos zero_less_mult_pos2)
  have "instant_ns t div factor u = ts_value t div ?m"
    unfolding instant_ns_def by (subst m) simp
  moreover have "in_i64 (ts_value t div ?m)"
    using assms pos by (simp add: ts_wf_def in_i64_div)
  ultimately show ?thesis using False pos
    by (simp add: convert_to_def try_i64_def)
qed

lemma convert_to_ceil_eq:
  assumes "ts_wf t"
  shows "convert_to_ceil t u =
    map_option (\<lambda>q. ts_new q u) (try_i64 (- ((- instant_ns t) div factor u)))"
proof (cases "factor (ts_unit t) \<ge> factor u")
  case True
  let ?m = "factor (ts_unit t) div factor u"
  have "- instant_ns t = factor u * (- (ts_value t * ?m))"
    using factor_div_mult [OF True] by (simp add: instant_ns_def mult.left_commute)
  then have "- ((- instant_ns t) div factor u) = ts_value t * ?m"
    by (simp only: nonzero_mult_div_cancel_left [OF factor_nonneg(2)] minus_minus)
  with True show ?thesis
    by (simp add: convert_to_ceil_def checked_ops split: option.split)
next
  case False
  let ?m = "factor u div factor (ts_unit t)"
  have m: "factor u = ?m * factor (ts_unit t)"
    using False factor_div_mult [of "ts_unit t" u] by (simp add: mult.commute)
  then have pos: "1 < ?m" using False by (cases "ts_unit t"; cases u) simp_all
  have "(- instant_ns t) div factor u = (- ts_value t) div ?m"
    unfolding instant_ns_def by (subst m) (simp flip: mult_minus_left)
  moreover have "in_i64 (- ((- ts_value t) div ?m))"
  proof -
    have "?m = 1000 \<or> ?m = 1000000 \<or> ?m = 1000000000"
      using False by (cases "ts_unit t"; cases u) simp_all
    moreover have "- 9223372036854775808 \<le> ts_value t" "ts_value t \<le> 9223372036854775807"
      using assms by (simp_all add: ts_wf_def i64_defs)
    ultimately show ?thesis unfolding i64_defs by (elim disjE) (simp_all, linarith+)
  qed
  ultimately show ?thesis using False pos
    by (simp add: convert_to_ceil_def div_ceil_eq try_i64_def)
qed

lemma convert_to_SomeD:
  assumes "ts_wf t" and "convert_to t u = Some r"
  shows "ts_unit r = u" "ts_wf r" "ts_value r = instant_ns t div factor u"
  using assms by (auto simp: convert_to_eq try_i64_def ts_wf_def split: if_splits)

lemma convert_to_second:
  assumes "ts_wf t"
  shows "convert_to t Second = Some (new_second (instant_ns t div 1000000000))"
    and "in_i64 (instant_ns t div 1000000000)"
proof -
  obtain m where "0 < m" "m * factor (ts_unit t) = 1000000000"
    by (cases "ts_unit t") (auto intro: that [of 1])
  then have "instant_ns t div 1000000000 = ts_value t div m" "0 < m"
    by (simp_all add: instant_ns_def flip: \<open>m * factor (ts_unit t) = 1000000000\<close>)
  then show *: "in_i64 (instant_ns t div 1000000000)"
    using assms by (simp add: ts_wf_def in_i64_div)
  then show "convert_to t Second = Some (new_second (instant_ns t div 1000000000))"
    using assms by (simp add: convert_to_eq try_i64_def)
qed

lemma align_by_bucket_eq:
  assumes "0 < b" and "in_i64 x"
  shows "align_by_bucket x b = Ret (try_i64 (x div b * b))"
  using assms in_i64_div [of x b]
  by (simp add: align_by_bucket_def checked_div_euclid_i64_def checked_ops try_i64_def)

lemma align_to_ceil_by_bucket_eq:
  "0 < b \<Longrightarrow> align_to_ceil_by_bucket x b = Ret (try_i64 (- ((- x) div b) * b))"
  by (simp add: align_to_ceil_by_bucket_def div_ceil_eq checked_ops)

lemma align_panics: "b \<le> 0 \<Longrightarrow> align_by_bucket x b = Panic"
    "b \<le> 0 \<Longrightarrow> align_to_ceil_by_bucket x b = Panic"
  by (simp_all add: align_by_bucket_def align_to_ceil_by_bucket_def)

lemma floor_bucket_bounds:
  fixes x b :: int
  assumes "0 < b"
  shows "x div b * b \<le> x" "x < x div b * b + b"
proof -
  have "x = x div b * b + x mod b" by simp
  moreover have "0 \<le> x mod b" "x mod b < b" using assms by simp_all
  ultimately show "x div b * b \<le> x" "x < x div b * b + b" by linarith+
qed

lemma ceil_bucket_bounds:
  fixes x b :: int
  assumes "0 < b"
  shows "x \<le> - ((- x) div b) * b" "- ((- x) div b) * b < x + b"
  using floor_bucket_bounds [OF assms, of "- x"] by simp_all

lemma from_splits_ok:
  assumes n: "0 \<le> n" "n < 1000000000"
    and s: "- 8334601228800 \<le> s" "s \<le> 8210266876799"
    and fits: "n mod 1000 = 0 \<or> in_i64 (s * 1000000000 + n)"
  shows "\<exists>t. from_splits s n = Some t \<and> instant_ns t = s * 1000000000 + n"
proof -
  consider "n = 0" | "n \<noteq> 0" "n mod 1000000 = 0" | "n mod 1000000 \<noteq> 0" "n mod 1000 = 0"
    | "n mod 1000000 \<noteq> 0" "n mod 1000 \<noteq> 0" by blast
  then show ?thesis
  proof cases
    case 1
    then show ?thesis by (simp add: from_splits_def instant_ns_def)
  next
    case 2
    then obtain k where k: "n = 1000000 * k" by (auto simp: mod_eq_0_iff_dvd)
    with n have "0 \<le> k" "k < 1000" by simp_all
    then have "in_i64 (s * 1000)" "in_i64 (s * 1000 + k)" using s unfolding i64_defs by linarith+
    with 2 k show ?thesis
      by (simp add: from_splits_def checked_ops try_i64_def instant_ns_def)
  next
    case 3
    then obtain k where k: "n = 1000 * k" by (auto simp: mod_eq_0_iff_dvd)
    with n have "0 \<le> k" "k < 1000000" by simp_all
    then have "in_i64 (s * 1000000)" "in_i64 (s * 1000000 + k)" using s unfolding i64_defs by linarith+
    with 3 k show ?thesis
      by (simp add: from_splits_def checked_ops try_i64_def instant_ns_def)
  next
    case 4
    with fits have in64: "in_i64 (s * 1000000000 + n)" by simp
    have pos: "n > 0" using 4 n by (cases "n = 0") auto
    show ?thesis
    proof (cases "s < 0")
      case True
      have "in_i64 ((s + 1) * 1000000000)"
        and "(s + 1) * 1000000000 + (n - 1000000000) = s * 1000000000 + n"
        using True in64 n unfolding i64_defs by (auto simp: algebra_simps)
      with 4 True pos in64 show ?thesis
        by (simp add: from_splits_def checked_ops try_i64_def instant_ns_def)
    next
      case False
      have "in_i64 (s * 1000000000)" using False in64 n unfolding i64_defs by linarith
      with 4 False pos in64 show ?thesis
        by (simp add: from_splits_def checked_ops try_i64_def instant_ns_def)
    qed
  qed
qed

lemma split_in_chrono_range:
  assumes "\<not> is_overflow (ts_value t) (ts_unit t)"
  shows "- 8334601228800 \<le> fst (split t)" "fst (split t) \<le> 8210266876799"
    and "snd (split t) mod 1000 = 0 \<or> in_i64 (instant_ns t)"
proof -
  consider "ts_unit t = Second" | "ts_unit t = Millisecond" | "ts_unit t = Microsecond"
    | "ts_unit t = Nanosecond" by (cases "ts_unit t") auto
  then have "- 8334601228800 \<le> fst (split t) \<and> fst (split t) \<le> 8210266876799
    \<and> (snd (split t) mod 1000 = 0 \<or> in_i64 (instant_ns t))"
  proof cases
    case 1
    with assms show ?thesis by (simp add: split_eq instant_ns_def is_overflow_def)
  next
    case 2
    have "(ts_value t * 1000000) mod 1000000000 mod 1000 = 0" by (simp add: mod_mod_cancel)
    with 2 assms show ?thesis by (simp add: split_eq instant_ns_def is_overflow_def) linarith
  next
    case 3
    have "(ts_value t * 1000) mod 1000000000 mod 1000 = 0" by (simp add: mod_mod_cancel)
    with 3 assms show ?thesis by (simp add: split_eq instant_ns_def is_overflow_def) linarith
  next
    case 4
    with assms show ?thesis
      by (simp add: split_eq instant_ns_def is_overflow_def i64_defs) linarith
  qed
  then show "- 8334601228800 \<le> fst (split t)" "fst (split t) \<le> 8210266876799"
    and "snd (split t) mod 1000 = 0 \<or> in_i64 (instant_ns t)" by blast+
qed

section \<open>Properties\<close>

text \<open>C40. The order of timestamps, with its fast path for equal units and its comparison of
  seconds and nanoseconds otherwise, is the order of the points of time they denote, for every
  mix of units; equality of the source is equality of those points.\<close>

theorem timestamp_order_exact:
  "((a::timestamp) < b \<longleftrightarrow> instant_ns a < instant_ns b)
   \<and> (a \<le> b \<longleftrightarrow> instant_ns a \<le> instant_ns b)
   \<and> (ts_eq a b \<longleftrightarrow> instant_ns a = instant_ns b)
   \<and> ts_cmp a b = cmp_of (instant_ns a) (instant_ns b)"
  by (simp add: ts_order ts_cmp_instant)

text \<open>Converting a timestamp to a unit rounds down (\<open>convert_to\<close>) or up
  (\<open>convert_to_ceil\<close>) by less than one target unit, stays within \<open>i64\<close>, and fails exactly when
  the rounded count is no \<open>i64\<close>.\<close>

theorem convert_to_rounds:
  assumes "ts_wf t"
  shows "(case convert_to t u of
      None \<Rightarrow> \<not> in_i64 (instant_ns t div factor u)
    | Some r \<Rightarrow> ts_unit r = u \<and> ts_wf r \<and> instant_ns r \<le> instant_ns t
        \<and> instant_ns t < instant_ns r + factor u)
    \<and> (case convert_to_ceil t u of
      None \<Rightarrow> \<not> in_i64 (- ((- instant_ns t) div factor u))
    | Some r \<Rightarrow> ts_unit r = u \<and> ts_wf r \<and> instant_ns t \<le> instant_ns r
        \<and> instant_ns r < instant_ns t + factor u)"
  using assms floor_bucket_bounds [of "factor u" "instant_ns t"]
    ceil_bucket_bounds [of "factor u" "instant_ns t"]
  by (simp add: convert_to_eq convert_to_ceil_eq try_i64_def ts_wf_def instant_ns_def
      split: option.split)

text \<open>The exact unit division agrees with the documented equation of \<open>UnitQuotient\<close> (quotient
  and non-negative remainder of \<open>value * to_scale\<close> by \<open>from_scale\<close>), and its quotient is the
  value \<open>convert_to\<close> computes through its multiply-or-divide branches.\<close>

theorem div_mod_units_agrees_with_convert_to:
  assumes "in_i64 v"
  shows "map_option quotient (div_mod_units v f u) = map_option ts_value (convert_to (ts_new v f) u)
    \<and> (\<forall>q. div_mod_units v f u = Some q \<longrightarrow>
          quotient q * timestamp_unit_scale f + remainder q = v * timestamp_unit_scale u
          \<and> 0 \<le> remainder q \<and> remainder q < timestamp_unit_scale f)"
proof -
  have pos: "0 < timestamp_unit_scale f" by (cases f) simp_all
  have "v * timestamp_unit_scale u div timestamp_unit_scale f = v * factor f div factor u"
    by (cases f; cases u) simp_all
  moreover from this have "v * factor f div factor u * timestamp_unit_scale f
      + v * timestamp_unit_scale u mod timestamp_unit_scale f = v * timestamp_unit_scale u"
    by (metis div_mult_mod_eq)
  moreover have "ts_wf (ts_new v f)" "instant_ns (ts_new v f) = v * factor f"
    using assms by (simp_all add: ts_wf_def instant_ns_def)
  ultimately show ?thesis using pos
    by (auto simp: div_mod_units_def Let_def convert_to_eq try_i64_def split: option.splits if_splits)
qed

theorem div_mod_units_agrees_witness:
  "in_i64 1500 \<and> map_option quotient (div_mod_units 1500 Millisecond Second) = Some 1
   \<and> map_option ts_value (convert_to (ts_new 1500 Millisecond) Second) = Some 1"
proof -
  have "in_i64 1500" by (simp add: i64_defs)
  moreover have "map_option ts_value (convert_to (ts_new 1500 Millisecond) Second) = Some 1"
    by (simp add: convert_to_def)
  ultimately show ?thesis
    using div_mod_units_agrees_with_convert_to [of 1500 Millisecond Second] by simp
qed

text \<open>Splitting a timestamp into seconds and nanoseconds gives a floor and a nanosecond part
  that fits the \<open>u32\<close> the source casts it to, and reading the parts back gives a timestamp equal
  to the first, for every value inside the documented range of its unit (for nanoseconds, every
  \<open>i64\<close>): the intermediate products never overflow.\<close>

theorem split_from_splits_roundtrip:
  assumes "\<not> is_overflow (ts_value t) (ts_unit t)"
  shows "0 \<le> snd (split t) \<and> snd (split t) < 1000000000
    \<and> (\<exists>r. from_splits (fst (split t)) (snd (split t)) = Some r \<and> ts_eq r t)"
  using split_in_chrono_range [OF assms]
    from_splits_ok [of "snd (split t)" "fst (split t)"]
  by (simp add: split_eq ts_eq_iff)

text \<open>For a positive bucket, alignment returns the greatest multiple of the bucket not after
  the value (rounding down) or the least one not before it (rounding up), and fails exactly when
  that multiple is no \<open>i64\<close>; a bucket of zero or less panics.\<close>

theorem bucket_alignment_contract:
  assumes "in_i64 x"
  shows "if 0 < b
    then (\<exists>lo hi. align_by_bucket x b = Ret (try_i64 lo) \<and> align_to_ceil_by_bucket x b = Ret (try_i64 hi)
        \<and> b dvd lo \<and> lo \<le> x \<and> x < lo + b \<and> b dvd hi \<and> x \<le> hi \<and> hi < x + b)
    else align_by_bucket x b = Panic \<and> align_to_ceil_by_bucket x b = Panic"
proof (cases "0 < b")
  case True
  with assms have "align_by_bucket x b = Ret (try_i64 (x div b * b))"
    and "align_to_ceil_by_bucket x b = Ret (try_i64 (- ((- x) div b) * b))"
    by (simp_all add: align_by_bucket_eq align_to_ceil_by_bucket_eq)
  with True floor_bucket_bounds [OF True, of x] ceil_bucket_bounds [OF True, of x] show ?thesis
    by (metis dvd_triv_right)
qed (simp add: align_panics)

text \<open>Whenever the duration can be subtracted, data created at \<open>c\<close> has expired at \<open>now\<close> exactly
  when its age exceeds the duration, the duration counted in whole units of \<open>now\<close>'s unit; the two
  errors are the two overflows, in the order the source checks them.\<close>

theorem ttl_is_expired_iff:
  "case is_expired (TtlDuration d) c now of
     Inr b \<Rightarrow> in_i64 (duration_as (ts_unit now) d) \<and> in_i64 (ts_value now - duration_as (ts_unit now) d)
       \<and> b = (instant_ns c + duration_as (ts_unit now) d * factor (ts_unit now) < instant_ns now)
   | Inl e \<Rightarrow>
       (if in_i64 (duration_as (ts_unit now) d)
        then e = ArithmeticOverflow \<and> \<not> in_i64 (ts_value now - duration_as (ts_unit now) d)
        else e = TimestampOverflow)"
  by (auto simp: sub_duration_def checked_ops try_i64_def ts_less_iff instant_ns_def algebra_simps
      split: option.splits if_splits sum.splits)

end
