(* ===== verification/Region_Id.thy ===== *)
theory Region_Id
  imports Prelude "HOL-Library.Word"
begin

text \<open>
  Region identifiers of \<open>src/src/store-api/src/storage/descriptors.rs\<close>: the packing of a table id,
  a region group and a region sequence into 64 bits, kept at the widths of the code, and the two
  functions of the metric engine (\<open>src/src/metric-engine/src/utils.rs\<close>) that move a region id
  between the groups of data regions and of metadata regions.
\<close>

unbundle bit_operations_syntax

section \<open>Definitions\<close>

type_synonym table_id = "32 word"
type_synonym region_number = "32 word"
type_synonym region_group = "8 word"
type_synonym region_seq = "32 word"

definition REGION_GROUP_MASK :: "32 word" where
  "REGION_GROUP_MASK = 0xFF000000"

definition REGION_SEQ_MASK :: "32 word" where
  "REGION_SEQ_MASK = 0x00FFFFFF"

datatype region_id = RegionId (as_u64: "64 word")

instantiation region_id :: linorder
begin

definition less_eq_region_id :: "region_id \<Rightarrow> region_id \<Rightarrow> bool" where
  "less_eq_region_id a b \<longleftrightarrow> as_u64 a \<le> as_u64 b"

definition less_region_id :: "region_id \<Rightarrow> region_id \<Rightarrow> bool" where
  "less_region_id a b \<longleftrightarrow> as_u64 a < as_u64 b"

instance
  by standard (auto simp: less_eq_region_id_def less_region_id_def region_id.expand)

end

definition region_new :: "table_id \<Rightarrow> region_number \<Rightarrow> region_id" where
  "region_new t n = RegionId (push_bit 32 (ucast t) OR ucast n)"

definition table_id :: "region_id \<Rightarrow> table_id" where
  "table_id r = ucast (drop_bit 32 (as_u64 r))"

definition region_number :: "region_id \<Rightarrow> region_number" where
  "region_number r = ucast (as_u64 r)"

definition region_group :: "region_id \<Rightarrow> region_group" where
  "region_group r = ucast (drop_bit 24 (region_number r AND REGION_GROUP_MASK))"

definition region_sequence :: "region_id \<Rightarrow> region_seq" where
  "region_sequence r = region_number r AND REGION_SEQ_MASK"

definition from_u64 :: "64 word \<Rightarrow> region_id" where
  "from_u64 i = RegionId i"

definition with_group_and_seq :: "table_id \<Rightarrow> region_group \<Rightarrow> region_seq \<Rightarrow> region_id" where
  "with_group_and_seq t g s =
     RegionId (push_bit 32 (ucast t) OR ucast (push_bit 24 (ucast g :: 32 word))
               OR ucast (s AND REGION_SEQ_MASK))"

definition METRIC_DATA_REGION_GROUP :: region_group where
  "METRIC_DATA_REGION_GROUP = 0"

definition METRIC_METADATA_REGION_GROUP :: region_group where
  "METRIC_METADATA_REGION_GROUP = 1"

definition to_metadata_region_id :: "region_id \<Rightarrow> region_id" where
  "to_metadata_region_id r =
     with_group_and_seq (table_id r) METRIC_METADATA_REGION_GROUP (region_sequence r)"

definition to_data_region_id :: "region_id \<Rightarrow> region_id" where
  "to_data_region_id r =
     with_group_and_seq (table_id r) METRIC_DATA_REGION_GROUP (region_sequence r)"

lemmas region_id_defs = region_new_def table_id_def region_number_def region_group_def
  region_sequence_def with_group_and_seq_def

section \<open>Packing and unpacking\<close>

lemma mask_bits:
  "REGION_SEQ_MASK = mask 24" "REGION_GROUP_MASK = push_bit 24 (mask 8)"
  by (simp_all add: REGION_SEQ_MASK_def REGION_GROUP_MASK_def mask_eq_exp_minus_1 push_bit_eq_mult)

lemma table_id_new [simp]: "table_id (region_new t n) = t"
  by (rule bit_word_eqI) (auto simp: region_id_defs bit_simps dest: bit_imp_le_length)

lemma region_number_new [simp]: "region_number (region_new t n) = n"
  by (rule bit_word_eqI) (auto simp: region_id_defs bit_simps dest: bit_imp_le_length)

lemma new_of_parts [simp]: "region_new (table_id r) (region_number r) = r"
  by (rule region_id.expand, rule bit_word_eqI) (auto simp: region_id_defs bit_simps dest: bit_imp_le_length)

lemma table_id_with [simp]: "table_id (with_group_and_seq t g s) = t"
  by (rule bit_word_eqI) (auto simp: region_id_defs mask_bits bit_simps dest: bit_imp_le_length)

lemma region_group_with [simp]: "region_group (with_group_and_seq t g s) = g"
  by (rule bit_word_eqI) (auto simp: region_id_defs mask_bits bit_simps dest: bit_imp_le_length)

lemma region_sequence_with [simp]: "region_sequence (with_group_and_seq t g s) = s AND mask 24"
  by (rule bit_word_eqI) (auto simp: region_id_defs mask_bits bit_simps dest: bit_imp_le_length)

lemma with_of_parts [simp]:
  "with_group_and_seq (table_id r) (region_group r) (region_sequence r) = r"
proof (rule region_id.expand, rule bit_word_eqI)
  fix n
  assume "n < LENGTH(64)"
  then consider "n < 24" | "24 \<le> n \<and> n < 32" | "32 \<le> n \<and> n < 64" by fastforce
  then show "bit (as_u64 (with_group_and_seq (table_id r) (region_group r) (region_sequence r))) n
      = bit (as_u64 r) n"
    by cases (auto simp: region_id_defs mask_bits bit_simps dest: bit_imp_le_length)
qed

lemma region_sequence_mask [simp]: "region_sequence r AND mask 24 = region_sequence r"
  by (rule bit_word_eqI) (auto simp: region_id_defs mask_bits bit_simps dest: bit_imp_le_length)

lemma uint_region_new: "uint (as_u64 (region_new t n)) = uint t * 2 ^ 32 + uint n"
proof -
  have t: "uint t < 2 ^ 32" and n: "uint n < 2 ^ 32"
    using uint_lt2p [of t] uint_lt2p [of n] by simp_all
  have "uint (push_bit 32 (ucast t :: 64 word)) = push_bit 32 (uint t)"
    using t by (simp add: unsigned_push_bit_eq unsigned_ucast_eq take_bit_push_bit take_bit_int_eq_self)
  moreover have "uint (ucast n :: 64 word) = take_bit 32 (uint n)"
    using n by (simp add: unsigned_ucast_eq take_bit_int_eq_self)
  ultimately have "uint (as_u64 (region_new t n)) = concat_bit 32 (uint n) (uint t)"
    by (simp add: region_new_def unsigned_or_eq concat_bit_def or.commute)
  also have "\<dots> = uint t * 2 ^ 32 + uint n"
    using n by (simp add: concat_bit_eq push_bit_eq_mult take_bit_int_eq_self)
  finally show ?thesis .
qed

lemma lex_pack:
  fixes a b a' b' M :: int
  assumes "b < M" and "b' < M" and "0 \<le> b" and "0 \<le> b'"
  shows "a * M + b \<le> a' * M + b' \<longleftrightarrow> a < a' \<or> a = a' \<and> b \<le> b'"
proof (cases a a' rule: linorder_cases)
  case less
  then have "(a + 1) * M \<le> a' * M" using assms by (intro mult_right_mono) auto
  with less assms show ?thesis by (simp add: algebra_simps)
next
  case greater
  then have "(a' + 1) * M \<le> a * M" using assms by (intro mult_right_mono) auto
  with greater assms show ?thesis by (simp add: algebra_simps)
qed auto

lemma region_order_lex:
  "region_new t n \<le> region_new t' n' \<longleftrightarrow> t < t' \<or> t = t' \<and> n \<le> n'"
proof -
  have "uint n < 2 ^ 32" "uint n' < 2 ^ 32" "0 \<le> uint n" "0 \<le> uint n'"
    using uint_lt2p [of n] uint_lt2p [of n'] by simp_all
  then have "uint t * 2 ^ 32 + uint n \<le> uint t' * 2 ^ 32 + uint n'
      \<longleftrightarrow> uint t < uint t' \<or> uint t = uint t' \<and> uint n \<le> uint n'"
    by (intro lex_pack)
  then show ?thesis
    by (simp only: less_eq_region_id_def word_le_def word_less_def uint_region_new word_uint_eq_iff)
qed

lemma distinct_groups [simp]: "METRIC_DATA_REGION_GROUP \<noteq> METRIC_METADATA_REGION_GROUP"
  by (simp add: METRIC_DATA_REGION_GROUP_def METRIC_METADATA_REGION_GROUP_def)

text \<open>
  A region id is a packing of its parts: a table id and a region number are read back from
  the id made of them, every 64-bit id is made of its own parts, and the order of ids is the
  lexicographic order of table id and region number.
\<close>

theorem region_id_packing:
  "table_id (region_new t n) = t \<and> region_number (region_new t n) = n
   \<and> region_new (table_id r) (region_number r) = r
   \<and> (region_new t n \<le> region_new t' n' \<longleftrightarrow> t < t' \<or> t = t' \<and> n \<le> n')"
  by (simp add: region_order_lex)

text \<open>
  The metadata region and the data region of a metric engine region share its table and
  sequence and differ in the group, so the two ids never collide, each is computed from the other,
  and the data region of a data region is the region itself. Building an id from a group and a
  sequence keeps the low 24 bits of the sequence only.
\<close>

theorem metric_region_groups:
  "table_id (to_metadata_region_id r) = table_id r \<and> table_id (to_data_region_id r) = table_id r
   \<and> region_sequence (to_metadata_region_id r) = region_sequence r
   \<and> region_sequence (to_data_region_id r) = region_sequence r
   \<and> to_metadata_region_id r \<noteq> to_data_region_id r'
   \<and> to_data_region_id (to_metadata_region_id r) = to_data_region_id r
   \<and> to_metadata_region_id (to_data_region_id r) = to_metadata_region_id r
   \<and> (to_data_region_id r = r \<longleftrightarrow> region_group r = METRIC_DATA_REGION_GROUP)
   \<and> region_sequence (with_group_and_seq t g s) = s AND mask 24
   \<and> region_group (with_group_and_seq t g s) = g"
proof -
  have "region_group (to_metadata_region_id r) \<noteq> region_group (to_data_region_id r')"
    by (simp add: to_metadata_region_id_def to_data_region_id_def del: distinct_groups)
      (metis distinct_groups)
  then have "to_metadata_region_id r \<noteq> to_data_region_id r'" by auto
  moreover have "to_data_region_id r = r \<longleftrightarrow> region_group r = METRIC_DATA_REGION_GROUP"
    by (metis region_group_with to_data_region_id_def with_of_parts)
  ultimately show ?thesis
    by (simp add: to_metadata_region_id_def to_data_region_id_def)
qed

end
