(* ===== verification/Sst_File.thy ===== *)
theory Sst_File
  imports Timestamp Region_Id "HOL-Library.List_Lexorder"
begin

text \<open>
  Metadata and handles of SST files, from \<open>src/src/mito2/src/sst/file.rs\<close>. A \<open>FileId\<close> is the 128-bit
  value of its UUID, byte strings are lists of 8-bit words in lexicographic order, a partition
  expression is the JSON text it is stored as. A \<open>FileHandle\<close> is a record of the metadata and the
  flags that the code keeps in atomics; an operation that sets a flag returns the updated handle.
\<close>

section \<open>Definitions\<close>

type_synonym file_id = "128 word"
type_synonym level = nat
type_synonym bytes = "8 word list"
type_synonym file_time_range = "timestamp \<times> timestamp"
type_synonym column_id = nat

definition MAX_LEVEL :: level where
  "MAX_LEVEL = 2"

record region_file_id =
  rf_region_id :: region_id
  rf_file_id :: file_id

record region_index_id =
  ri_file_id :: region_file_id
  ri_version :: nat

definition overlaps :: "file_time_range \<Rightarrow> file_time_range \<Rightarrow> bool" where
  "overlaps l r = (let (l, r) = (if fst l \<le> fst r then (l, r) else (r, l)) in fst r \<le> snd l)"

datatype index_type = InvertedIndex | FulltextIndex | BloomFilterIndex

record column_index_metadata =
  cim_column_id :: column_id
  cim_created_indexes :: "index_type list"

record file_meta =
  fm_region_id :: region_id
  fm_file_id :: file_id
  fm_time_range :: file_time_range
  fm_level :: level
  fm_file_size :: nat
  fm_max_row_group_uncompressed_size :: nat
  fm_available_indexes :: "index_type list"
  fm_indexes :: "column_index_metadata list"
  fm_index_file_size :: nat
  fm_index_version :: nat
  fm_num_rows :: nat
  fm_num_row_groups :: nat
  fm_sequence :: "nat option"
  fm_partition_expr :: "string option"
  fm_num_series :: nat
  fm_primary_key_min :: "bytes option"
  fm_primary_key_max :: "bytes option"
  fm_preserve_row_sequence :: bool

definition file_meta_default :: file_meta where
  "file_meta_default =
     \<lparr>fm_region_id = RegionId 0, fm_file_id = 0, fm_time_range = (ts_default, ts_default),
      fm_level = 0, fm_file_size = 0, fm_max_row_group_uncompressed_size = 0,
      fm_available_indexes = [], fm_indexes = [], fm_index_file_size = 0, fm_index_version = 0,
      fm_num_rows = 0, fm_num_row_groups = 0, fm_sequence = None, fm_partition_expr = None,
      fm_num_series = 0, fm_primary_key_min = None, fm_primary_key_max = None,
      fm_preserve_row_sequence = False\<rparr>"

text \<open>
  Derived equality of \<open>FileMeta\<close>: fields are compared with their own equality, which on the
  timestamps of the range is equality of instants.
\<close>

definition file_meta_eq :: "file_meta \<Rightarrow> file_meta \<Rightarrow> bool" where
  "file_meta_eq a b \<longleftrightarrow>
     a\<lparr>fm_time_range := fm_time_range b\<rparr> = b
     \<and> ts_eq (fst (fm_time_range a)) (fst (fm_time_range b))
     \<and> ts_eq (snd (fm_time_range a)) (snd (fm_time_range b))"

definition primary_key_range :: "file_meta \<Rightarrow> (bytes \<times> bytes) option" where
  "primary_key_range m =
     (case (fm_primary_key_min m, fm_primary_key_max m) of
        (Some lo, Some hi) \<Rightarrow> Some (lo, hi)
      | _ \<Rightarrow> None)"

definition exists_index :: "file_meta \<Rightarrow> bool" where
  "exists_index m \<longleftrightarrow> fm_available_indexes m \<noteq> []"

definition index_version :: "file_meta \<Rightarrow> nat option" where
  "index_version m = (if exists_index m then Some (fm_index_version m) else None)"

definition is_index_up_to_date :: "file_meta \<Rightarrow> file_meta \<Rightarrow> bool" where
  "is_index_up_to_date m other \<longleftrightarrow>
     exists_index m \<and> exists_index other \<and> fm_index_version m \<ge> fm_index_version other"

definition inverted_index_available :: "file_meta \<Rightarrow> bool" where
  "inverted_index_available m \<longleftrightarrow> InvertedIndex \<in> set (fm_available_indexes m)"

definition fulltext_index_available :: "file_meta \<Rightarrow> bool" where
  "fulltext_index_available m \<longleftrightarrow> FulltextIndex \<in> set (fm_available_indexes m)"

definition bloom_filter_index_available :: "file_meta \<Rightarrow> bool" where
  "bloom_filter_index_available m \<longleftrightarrow> BloomFilterIndex \<in> set (fm_available_indexes m)"

text \<open>
  A column of the region metadata, as far as the index check reads it: the id and what the
  column schema answers to \<open>is_inverted_indexed\<close>, \<open>is_fulltext_indexed\<close>, \<open>is_skipping_indexed\<close>.
\<close>

record column_metadata =
  cm_column_id :: column_id
  cm_inverted_indexed :: bool
  cm_fulltext_indexed :: bool
  cm_skipping_indexed :: bool

definition cm_is_indexed :: "column_metadata \<Rightarrow> bool" where
  "cm_is_indexed c \<longleftrightarrow> cm_inverted_indexed c \<or> cm_fulltext_indexed c \<or> cm_skipping_indexed c"

text \<open>
  The map built by \<open>collect\<close> keeps the last entry of a repeated column id; the loop leaves at
  the first column whose indexes are missing.
\<close>

fun columns_consistent :: "(column_id, index_type list) hmap \<Rightarrow> column_metadata list \<Rightarrow> bool" where
  "columns_consistent m [] = True"
| "columns_consistent m (c # cs) =
     (if \<not> cm_is_indexed c then columns_consistent m cs
      else (case hmap_get m (cm_column_id c) of
              None \<Rightarrow> False
            | Some indexes \<Rightarrow>
                if cm_inverted_indexed c \<and> InvertedIndex \<notin> set indexes then False
                else if cm_fulltext_indexed c \<and> FulltextIndex \<notin> set indexes then False
                else if cm_skipping_indexed c \<and> BloomFilterIndex \<notin> set indexes then False
                else columns_consistent m cs))"

definition is_index_consistent_with_region :: "file_meta \<Rightarrow> column_metadata list \<Rightarrow> bool" where
  "is_index_consistent_with_region m metadata =
     columns_consistent
       (fold (\<lambda>i. hmap_insert (cim_column_id i) (cim_created_indexes i)) (fm_indexes m) []) metadata"

definition fm_region_file_id :: "file_meta \<Rightarrow> region_file_id" where
  "fm_region_file_id m = \<lparr>rf_region_id = fm_region_id m, rf_file_id = fm_file_id m\<rparr>"

definition fm_index_id :: "file_meta \<Rightarrow> region_index_id" where
  "fm_index_id m = \<lparr>ri_file_id = fm_region_file_id m, ri_version = fm_index_version m\<rparr>"

subsection \<open>File handles\<close>

record file_handle =
  fh_meta :: file_meta
  fh_compacting :: bool
  fh_deleted :: bool
  fh_index_outdated :: bool
  fh_primary_key_range :: "(bytes \<times> bytes) option"

definition fh_new :: "file_meta \<Rightarrow> file_handle" where
  "fh_new m =
     \<lparr>fh_meta = m, fh_compacting = False, fh_deleted = False, fh_index_outdated = False,
      fh_primary_key_range = primary_key_range m\<rparr>"

definition fh_file_id :: "file_handle \<Rightarrow> region_file_id" where
  "fh_file_id h = \<lparr>rf_region_id = fm_region_id (fh_meta h), rf_file_id = fm_file_id (fh_meta h)\<rparr>"

definition fh_index_id :: "file_handle \<Rightarrow> region_index_id" where
  "fh_index_id h = \<lparr>ri_file_id = fh_file_id h, ri_version = fm_index_version (fh_meta h)\<rparr>"

abbreviation fh_time_range :: "file_handle \<Rightarrow> file_time_range" where
  "fh_time_range h \<equiv> fm_time_range (fh_meta h)"

abbreviation fh_level :: "file_handle \<Rightarrow> level" where
  "fh_level h \<equiv> fm_level (fh_meta h)"

definition is_effective_target_sequence_trusted :: "file_handle \<Rightarrow> region_id \<Rightarrow> bool" where
  "is_effective_target_sequence_trusted h target =
     (if fm_region_id (fh_meta h) \<noteq> target then fm_sequence (fh_meta h) \<noteq> None
      else fm_preserve_row_sequence (fh_meta h))"

definition mark_deleted :: "file_handle \<Rightarrow> file_handle" where
  "mark_deleted h = h\<lparr>fh_deleted := True\<rparr>"

definition set_compacting :: "bool \<Rightarrow> file_handle \<Rightarrow> file_handle" where
  "set_compacting b h = h\<lparr>fh_compacting := b\<rparr>"

text \<open>The compare-and-exchange: the result says whether this call took the flag.\<close>

definition try_set_compacting :: "file_handle \<Rightarrow> bool \<times> file_handle" where
  "try_set_compacting h =
     (if fh_compacting h = False then (True, h\<lparr>fh_compacting := True\<rparr>) else (False, h))"

definition set_index_outdated :: "bool \<Rightarrow> file_handle \<Rightarrow> file_handle" where
  "set_index_outdated b h = h\<lparr>fh_index_outdated := b\<rparr>"

definition set_primary_key_range :: "bytes \<times> bytes \<Rightarrow> file_handle \<Rightarrow> file_handle" where
  "set_primary_key_range r h = h\<lparr>fh_primary_key_range := Some r\<rparr>"

text \<open>What dropping the last reference to a handle hands to the purger.\<close>

definition fh_drop :: "file_handle \<Rightarrow> file_meta \<times> bool \<times> bool" where
  "fh_drop h = (fh_meta h, fh_deleted h, fh_index_outdated h)"

section \<open>Lemmas\<close>

lemma fh_new_simps [simp]:
  "fh_meta (fh_new m) = m" "fh_deleted (fh_new m) = False" "fh_compacting (fh_new m) = False"
  by (simp_all add: fh_new_def)

lemma mark_deleted_simps [simp]: "fh_meta (mark_deleted h) = fh_meta h" "fh_deleted (mark_deleted h)"
  by (simp_all add: mark_deleted_def)

lemma file_meta_eq_refl [simp]: "file_meta_eq m m"
  by (simp add: file_meta_eq_def ts_order)

lemma file_meta_eq_fields:
  assumes "file_meta_eq a b"
  shows "fm_file_id a = fm_file_id b" "fm_level a = fm_level b" "fm_region_id a = fm_region_id b"
    "fm_index_version a = fm_index_version b" "fm_available_indexes a = fm_available_indexes b"
  using assms by (cases a; cases b; simp add: file_meta_eq_def)+

lemma overlaps_order: "overlaps l r \<longleftrightarrow> (if fst l \<le> fst r then fst r \<le> snd l else fst l \<le> snd r)"
  by (simp add: overlaps_def)

text \<open>
  Two inclusive time ranges with ordered ends overlap, as the code decides it, exactly when
  some instant lies in both, whatever the units of their four timestamps.
\<close>

theorem overlaps_iff_common_instant:
  assumes "fst l \<le> snd l" and "fst r \<le> snd r"
  shows "overlaps l r \<longleftrightarrow>
    (\<exists>k. instant_ns (fst l) \<le> k \<and> k \<le> instant_ns (snd l)
       \<and> instant_ns (fst r) \<le> k \<and> k \<le> instant_ns (snd r))"
proof
  assume "overlaps l r"
  with assms have "instant_ns (fst l) \<le> max (instant_ns (fst l)) (instant_ns (fst r))
      \<and> max (instant_ns (fst l)) (instant_ns (fst r)) \<le> instant_ns (snd l)
      \<and> instant_ns (fst r) \<le> max (instant_ns (fst l)) (instant_ns (fst r))
      \<and> max (instant_ns (fst l)) (instant_ns (fst r)) \<le> instant_ns (snd r)"
    by (auto simp: overlaps_order ts_order split: if_splits)
  then show "\<exists>k. instant_ns (fst l) \<le> k \<and> k \<le> instant_ns (snd l)
       \<and> instant_ns (fst r) \<le> k \<and> k \<le> instant_ns (snd r)" by blast
qed (auto simp: overlaps_order ts_order)

subsection \<open>Index consistency\<close>

lemma collect_get:
  "hmap_get (fold (\<lambda>i. hmap_insert (f i) (g i)) xs m) k
     = (case map_of (rev (map (\<lambda>i. (f i, g i)) xs)) k of None \<Rightarrow> hmap_get m k | Some v \<Rightarrow> Some v)"
  by (induction xs arbitrary: m) (auto simp: hmap_simps map_add_Some_iff map_add_def split: option.splits)

lemma columns_consistent_iff:
  "columns_consistent m cs \<longleftrightarrow>
    (\<forall>c \<in> set cs. cm_is_indexed c \<longrightarrow>
       (\<exists>indexes. hmap_get m (cm_column_id c) = Some indexes
          \<and> (cm_inverted_indexed c \<longrightarrow> InvertedIndex \<in> set indexes)
          \<and> (cm_fulltext_indexed c \<longrightarrow> FulltextIndex \<in> set indexes)
          \<and> (cm_skipping_indexed c \<longrightarrow> BloomFilterIndex \<in> set indexes)))"
  by (induction cs) (auto split: option.splits)

end
