(* ===== verification/Sst_Version.thy ===== *)
theory Sst_Version
  imports Sst_File
begin

text \<open>
  The set of SST files of a region, \<open>SstVersion\<close> of \<open>src/src/mito2/src/sst/version.rs\<close>: an array of
  levels, each a map from file id to handle. Indexing the array out of range panics. Removing
  files returns, beside the new version, the handles it marked as deleted. The locale \<open>file_store\<close>
  is the contract of a keyed store of files that region versions rely on; it is interpreted here
  on the operations of the code.
\<close>

section \<open>Definitions\<close>

record level_meta =
  lm_level :: level
  lm_files :: "(file_id, file_handle) hmap"

record sst_version =
  sv_levels :: "level_meta list"

definition level_meta_new :: "level \<Rightarrow> level_meta" where
  "level_meta_new l = \<lparr>lm_level = l, lm_files = []\<rparr>"

definition new_level_meta_vec :: "level_meta list" where
  "new_level_meta_vec = map level_meta_new [0..<MAX_LEVEL]"

definition sst_version_new :: sst_version where
  "sst_version_new = \<lparr>sv_levels = new_level_meta_vec\<rparr>"

definition level_get :: "sst_version \<Rightarrow> level \<Rightarrow> level_meta option" where
  "level_get v l = (if l < length (sv_levels v) then Some (sv_levels v ! l) else None)"

definition file_for_compaction :: "sst_version \<Rightarrow> file_handle \<Rightarrow> file_handle option" where
  "file_for_compaction v selected =
     Option.bind (level_get v (fh_level selected)) (\<lambda>lm.
     Option.bind (hmap_get (lm_files lm) (rf_file_id (fh_file_id selected))) (\<lambda>current.
     if fh_file_id current = fh_file_id selected then Some current else None))"

text \<open>\<open>and_modify\<close> and \<open>or_insert_with\<close> on the entry of the file.\<close>

definition upsert_handle :: "file_handle option \<Rightarrow> file_meta \<Rightarrow> file_handle" where
  "upsert_handle entry file =
     (case entry of
        Some f \<Rightarrow>
          (if file_meta_eq (fh_meta f) file \<or> is_index_up_to_date (fh_meta f) file then f
           else fh_new file)
      | None \<Rightarrow> fh_new file)"

definition add_file :: "file_meta \<Rightarrow> sst_version \<Rightarrow> sst_version outcome" where
  "add_file file v =
     (let level = fm_level file
      in case level_get v level of
           None \<Rightarrow> Panic
         | Some lm \<Rightarrow>
             (let h = upsert_handle (hmap_get (lm_files lm) (fm_file_id file)) file;
                  lm' = lm\<lparr>lm_files := hmap_insert (fm_file_id file) h (lm_files lm)\<rparr>
              in Ret (v\<lparr>sv_levels := (sv_levels v)[level := lm']\<rparr>)))"

definition add_files :: "file_meta list \<Rightarrow> sst_version \<Rightarrow> sst_version outcome" where
  "add_files = fold_outcome add_file"

definition remove_file :: "file_meta \<Rightarrow> sst_version \<Rightarrow> (sst_version \<times> file_handle list) outcome" where
  "remove_file file v =
     (let level = fm_level file
      in case level_get v level of
           None \<Rightarrow> Panic
         | Some lm \<Rightarrow>
             (case hmap_get (lm_files lm) (fm_file_id file) of
                None \<Rightarrow> Ret (v, [])
              | Some h \<Rightarrow>
                  Ret (v\<lparr>sv_levels := (sv_levels v)[level :=
                           lm\<lparr>lm_files := hmap_remove (fm_file_id file) (lm_files lm)\<rparr>]\<rparr>,
                       [mark_deleted h])))"

text \<open>The loop carries the handles marked so far.\<close>

definition remove_files ::
  "file_meta list \<Rightarrow> sst_version \<Rightarrow> (sst_version \<times> file_handle list) outcome" where
  "remove_files fs v =
     fold_outcome (\<lambda>f (v, marked).
       bind_outcome (remove_file f v) (\<lambda>(v', d). Ret (v', marked @ d))) fs (v, [])"

definition all_handles :: "sst_version \<Rightarrow> file_handle list" where
  "all_handles v = concat (map (\<lambda>lm. hmap_values (lm_files lm)) (sv_levels v))"

text \<open>The handles that \<open>mark_all_deleted\<close> leaves marked.\<close>

definition mark_all_deleted :: "sst_version \<Rightarrow> file_handle list" where
  "mark_all_deleted v = map mark_deleted (all_handles v)"

text \<open>Sums of \<open>u64\<close> values wrap.\<close>

definition sum_u64 :: "nat list \<Rightarrow> nat" where
  "sum_u64 xs = fold (\<lambda>x acc. (acc + x) mod 2 ^ 64) xs 0"

definition owned_sum :: "(file_handle \<Rightarrow> nat) \<Rightarrow> sst_version \<Rightarrow> region_id \<Rightarrow> nat" where
  "owned_sum f v region =
     sum_u64 (map (\<lambda>lm. sum_u64 (map f
       (filter (\<lambda>h. fm_region_id (fh_meta h) = region) (hmap_values (lm_files lm))))) (sv_levels v))"

definition owned_num_rows :: "sst_version \<Rightarrow> region_id \<Rightarrow> nat" where
  "owned_num_rows = owned_sum (\<lambda>h. fm_num_rows (fh_meta h))"

definition owned_num_files :: "sst_version \<Rightarrow> region_id \<Rightarrow> nat" where
  "owned_num_files v region =
     sum_u64 (map (\<lambda>lm. length
       (filter (\<lambda>h. fm_region_id (fh_meta h) = region) (hmap_values (lm_files lm)))) (sv_levels v))"

definition owned_sst_usage :: "sst_version \<Rightarrow> region_id \<Rightarrow> nat" where
  "owned_sst_usage = owned_sum (\<lambda>h. fm_file_size (fh_meta h))"

definition owned_index_usage :: "sst_version \<Rightarrow> region_id \<Rightarrow> nat" where
  "owned_index_usage = owned_sum (\<lambda>h. fm_index_file_size (fh_meta h))"

definition get_expired_files :: "level_meta \<Rightarrow> timestamp \<Rightarrow> time_to_live \<Rightarrow> file_handle list" where
  "get_expired_files lm now ttl =
     filter (\<lambda>h. case is_expired ttl (snd (fh_time_range h)) now of Inr e \<Rightarrow> e | Inl _ \<Rightarrow> False)
       (hmap_values (lm_files lm))"

subsection \<open>Specification side\<close>

text \<open>
  Looking up a file by level and id, and the invariant of a version: the levels are those of the
  array, keys are distinct, every handle sits under its own id in its own level, and no handle in
  the version carries the deleted flag.
\<close>

definition sv_lookup :: "sst_version \<Rightarrow> level \<Rightarrow> file_id \<Rightarrow> file_handle option" where
  "sv_lookup v l i = Option.bind (level_get v l) (\<lambda>lm. hmap_get (lm_files lm) i)"

definition levels_wf :: "level_meta list \<Rightarrow> bool" where
  "levels_wf ls \<longleftrightarrow> (\<forall>l < length ls. lm_level (ls ! l) = l \<and> hmap_wf (lm_files (ls ! l)))"

definition sv_wf :: "sst_version \<Rightarrow> bool" where
  "sv_wf v \<longleftrightarrow>
     length (sv_levels v) = MAX_LEVEL
     \<and> levels_wf (sv_levels v)
     \<and> (\<forall>l i h. sv_lookup v l i = Some h \<longrightarrow>
          fm_file_id (fh_meta h) = i \<and> fh_level h = l \<and> \<not> fh_deleted h)"

section \<open>Lookup after the operations\<close>

lemma level_get_update:
  "level_get (v\<lparr>sv_levels := (sv_levels v)[l := x]\<rparr>) l' =
     (if l' = l \<and> l < length (sv_levels v) then Some x else level_get v l')"
  by (auto simp: level_get_def)

lemma add_file_Panic: "add_file f v = Panic \<longleftrightarrow> length (sv_levels v) \<le> fm_level f"
  by (auto simp: add_file_def Let_def level_get_def)

lemma remove_file_Panic: "remove_file f v = Panic \<longleftrightarrow> length (sv_levels v) \<le> fm_level f"
  by (auto simp: remove_file_def Let_def level_get_def split: option.splits)

lemma add_file_length: "add_file f v = Ret v' \<Longrightarrow> length (sv_levels v') = length (sv_levels v)"
  by (auto simp: add_file_def Let_def split: option.splits)

lemma remove_file_length: "remove_file f v = Ret (v', d) \<Longrightarrow> length (sv_levels v') = length (sv_levels v)"
  by (auto simp: remove_file_def Let_def split: option.splits)

lemma add_file_lookup:
  "add_file f v = Ret v' \<Longrightarrow>
   sv_lookup v' l i =
     (if l = fm_level f \<and> i = fm_file_id f then Some (upsert_handle (sv_lookup v l i) f)
      else sv_lookup v l i)"
  by (auto simp: add_file_def Let_def sv_lookup_def level_get_update hmap_simps level_get_def
      nth_list_update
      split: option.splits if_splits)

lemma remove_file_lookup:
  "remove_file f v = Ret (v', d) \<Longrightarrow>
   sv_lookup v' l i = (if l = fm_level f \<and> i = fm_file_id f then None else sv_lookup v l i)"
  by (auto simp: remove_file_def Let_def sv_lookup_def level_get_update hmap_simps level_get_def
      nth_list_update
      split: option.splits if_splits)

lemma remove_file_marked:
  "remove_file f v = Ret (v', d) \<Longrightarrow>
   d = (case sv_lookup v (fm_level f) (fm_file_id f) of None \<Rightarrow> [] | Some h \<Rightarrow> [mark_deleted h])"
  by (auto simp: remove_file_def Let_def sv_lookup_def split: option.splits)

section \<open>The contract of a keyed store of files\<close>

text \<open>
  What a store of files promises to the code that edits it: a lookup under a key; adding a file
  replaces the entry of its key by \<open>put\<close> of the old entry and the file; removing a file clears
  the entry of its key; both panic exactly on files the store does not accept. The lemmas are on
  the loops over lists of files that an edit runs.
\<close>

definition put_all :: "('h option \<Rightarrow> file_meta \<Rightarrow> 'h) \<Rightarrow> file_meta list \<Rightarrow> 'h option \<Rightarrow> 'h option" where
  "put_all put fs entry = fold (\<lambda>f e. Some (put e f)) fs entry"

locale file_store =
  fixes lookup :: "'s \<Rightarrow> 'k \<Rightarrow> 'h option"
    and key :: "file_meta \<Rightarrow> 'k"
    and put :: "'h option \<Rightarrow> file_meta \<Rightarrow> 'h"
    and ok :: "'s \<Rightarrow> file_meta \<Rightarrow> bool"
    and add :: "file_meta \<Rightarrow> 's \<Rightarrow> 's outcome"
    and remove :: "file_meta \<Rightarrow> 's \<Rightarrow> 's outcome"
  assumes add_panics: "add f s = Panic \<longleftrightarrow> \<not> ok s f"
    and add_lookup: "add f s = Ret s' \<Longrightarrow>
      lookup s' k = (if k = key f then Some (put (lookup s k) f) else lookup s k)"
    and add_accepts: "add f s = Ret s' \<Longrightarrow> ok s' g = ok s g"
    and remove_panics: "remove f s = Panic \<longleftrightarrow> \<not> ok s f"
    and remove_lookup: "remove f s = Ret s' \<Longrightarrow>
      lookup s' k = (if k = key f then None else lookup s k)"
    and remove_accepts: "remove f s = Ret s' \<Longrightarrow> ok s' g = ok s g"
begin

lemma add_all_panics: "fold_outcome add fs s = Panic \<longleftrightarrow> (\<exists>f \<in> set fs. \<not> ok s f)"
proof (induction fs arbitrary: s)
  case (Cons f fs)
  show ?case
  proof (cases "add f s")
    case Panic
    then show ?thesis using add_panics [of f s] by simp
  next
    case (Ret s1)
    then show ?thesis using Cons add_panics [of f s] add_accepts [OF Ret] by auto
  qed
qed simp

lemma remove_all_panics: "fold_outcome remove fs s = Panic \<longleftrightarrow> (\<exists>f \<in> set fs. \<not> ok s f)"
proof (induction fs arbitrary: s)
  case (Cons f fs)
  show ?case
  proof (cases "remove f s")
    case Panic
    then show ?thesis using remove_panics [of f s] by simp
  next
    case (Ret s1)
    then show ?thesis using Cons remove_panics [of f s] remove_accepts [OF Ret] by auto
  qed
qed simp

lemma add_all_lookup:
  "fold_outcome add fs s = Ret s' \<Longrightarrow>
   lookup s' k = put_all put (filter (\<lambda>f. key f = k) fs) (lookup s k)"
proof (induction fs arbitrary: s)
  case (Cons f fs)
  then obtain s1 where s1: "add f s = Ret s1" "fold_outcome add fs s1 = Ret s'"
    by (cases "add f s") auto
  from Cons.IH [OF s1(2)] show ?case by (simp add: add_lookup [OF s1(1)] put_all_def)
qed (simp add: put_all_def)

lemma add_all_accepts: "fold_outcome add fs s = Ret s' \<Longrightarrow> ok s' g = ok s g"
  by (erule fold_outcome_invariant [where P = "\<lambda>s'. ok s' g = ok s g"]) (auto simp: add_accepts)

lemma remove_all_lookup:
  "fold_outcome remove fs s = Ret s' \<Longrightarrow> lookup s' k = (if k \<in> key ` set fs then None else lookup s k)"
proof (induction fs arbitrary: s)
  case (Cons f fs)
  then obtain s1 where s1: "remove f s = Ret s1" "fold_outcome remove fs s1 = Ret s'"
    by (cases "remove f s") auto
  from Cons.IH [OF s1(2)] show ?case by (auto simp: remove_lookup [OF s1(1)])
qed simp

text \<open>An edit adds its new files and then removes its old ones.\<close>

lemma edit_lookup:
  assumes "fold_outcome add adds s = Ret s1" and "fold_outcome remove removes s1 = Ret s2"
  shows "lookup s2 k =
    (if k \<in> key ` set removes then None
     else put_all put (filter (\<lambda>f. key f = k) adds) (lookup s k))"
  by (simp add: remove_all_lookup [OF assms(2)] add_all_lookup [OF assms(1)])

lemma edit_returns:
  "(\<exists>s2. bind_outcome (fold_outcome add adds s) (fold_outcome remove removes) = Ret s2)
     \<longleftrightarrow> (\<forall>f \<in> set adds \<union> set removes. ok s f)"
proof (cases "fold_outcome add adds s")
  case Panic
  then show ?thesis using add_all_panics [of adds s] by auto
next
  case (Ret s1)
  then show ?thesis
    using add_all_panics [of adds s] remove_all_panics [of removes s1] add_all_accepts [OF Ret]
    by (cases "fold_outcome remove removes s1") auto
qed

end

text \<open>The version of the code is such a store, keyed by level and file id.\<close>

definition drop_marks :: "(sst_version \<times> file_handle list) outcome \<Rightarrow> sst_version outcome" where
  "drop_marks r = bind_outcome r (\<lambda>(v, marked). Ret v)"

interpretation sst: file_store
  "\<lambda>v (l, i). sv_lookup v l i" "\<lambda>f. (fm_level f, fm_file_id f)" upsert_handle
  "\<lambda>v f. fm_level f < length (sv_levels v)" add_file "\<lambda>f v. drop_marks (remove_file f v)"
proof (unfold_locales, goal_cases)
  case (2 f s s' k)
  then show ?case by (cases k) (auto simp: add_file_lookup)
next
  case (4 f s)
  then show ?case by (cases "remove_file f s") (use remove_file_Panic [of f s] in \<open>auto simp: drop_marks_def\<close>)
next
  case (5 f s s' k)
  then show ?case
    by (cases k; cases "remove_file f s") (auto simp: drop_marks_def remove_file_lookup)
next
  case (6 f s s' g)
  then show ?case
    by (cases "remove_file f s") (auto simp: drop_marks_def dest: remove_file_length)
qed (auto simp: add_file_Panic dest: add_file_length)

section \<open>Removal\<close>

lemma remove_files_loop:
  "bind_outcome (fold_outcome (\<lambda>f (v, marked).
       bind_outcome (remove_file f v) (\<lambda>(v', d). Ret (v', marked @ d))) fs (v, m)) (\<lambda>(v, marked). Ret v)
   = fold_outcome (\<lambda>f v. drop_marks (remove_file f v)) fs v"
proof (induction fs arbitrary: v m)
  case (Cons f fs)
  then show ?case by (cases "remove_file f v") (auto simp: drop_marks_def)
qed simp

lemma remove_files_drop:
  "drop_marks (remove_files fs v) = fold_outcome (\<lambda>f v. drop_marks (remove_file f v)) fs v"
  using remove_files_loop [of fs v "[]"] by (simp add: remove_files_def drop_marks_def)

lemma remove_files_RetD:
  "remove_files fs v = Ret (v', marked) \<Longrightarrow>
   fold_outcome (\<lambda>f v. drop_marks (remove_file f v)) fs v = Ret v'"
  using remove_files_drop [of fs v] by (simp add: drop_marks_def)

lemma remove_files_lookup:
  "remove_files fs v = Ret (v', marked) \<Longrightarrow>
   sv_lookup v' l i =
     (if \<exists>f \<in> set fs. fm_level f = l \<and> fm_file_id f = i then None else sv_lookup v l i)"
  using sst.remove_all_lookup [OF remove_files_RetD, of fs v v' marked "(l, i)"] by (auto split: if_splits)

lemma remove_files_Panic:
  "remove_files fs v = Panic \<longleftrightarrow> (\<exists>f \<in> set fs. length (sv_levels v) \<le> fm_level f)"
proof -
  have "remove_files fs v = Panic \<longleftrightarrow> drop_marks (remove_files fs v) = Panic"
    by (cases "remove_files fs v") (auto simp: drop_marks_def)
  also have "\<dots> \<longleftrightarrow> (\<exists>f \<in> set fs. length (sv_levels v) \<le> fm_level f)"
    unfolding remove_files_drop sst.remove_all_panics by (simp add: not_less)
  finally show ?thesis .
qed

lemma remove_files_marked_loop:
  "fold_outcome (\<lambda>f (v, marked).
       bind_outcome (remove_file f v) (\<lambda>(v', d). Ret (v', marked @ d))) fs (v, m) = Ret (v', marked) \<Longrightarrow>
   x \<in> set marked \<longleftrightarrow> x \<in> set m \<or>
     (\<exists>f \<in> set fs. \<exists>h. sv_lookup v (fm_level f) (fm_file_id f) = Some h \<and> x = mark_deleted h)"
proof (induction fs arbitrary: v m)
  case (Cons f fs)
  then obtain v1 d1 where r: "remove_file f v = Ret (v1, d1)"
    by (cases "remove_file f v") auto
  with Cons.prems have "fold_outcome (\<lambda>f (v, marked).
       bind_outcome (remove_file f v) (\<lambda>(v', d). Ret (v', marked @ d))) fs (v1, m @ d1) = Ret (v', marked)"
    by simp
  note IH = Cons.IH [OF this]
  have d1: "x \<in> set d1 \<longleftrightarrow> (\<exists>h. sv_lookup v (fm_level f) (fm_file_id f) = Some h \<and> x = mark_deleted h)"
    by (cases "sv_lookup v (fm_level f) (fm_file_id f)") (auto simp: remove_file_marked [OF r])
  show ?case
    unfolding IH set_append Un_iff d1 remove_file_lookup [OF r] by (auto split: if_splits) metis
qed auto

lemma remove_files_marked:
  "remove_files fs v = Ret (v', marked) \<Longrightarrow>
   x \<in> set marked \<longleftrightarrow>
     (\<exists>f \<in> set fs. \<exists>h. sv_lookup v (fm_level f) (fm_file_id f) = Some h \<and> x = mark_deleted h)"
  using remove_files_marked_loop [of fs v "[]" v' marked] by (simp add: remove_files_def)

section \<open>The invariant\<close>

lemma sv_wf_new: "sv_wf sst_version_new"
  by (auto simp: sv_wf_def levels_wf_def sst_version_new_def new_level_meta_vec_def level_meta_new_def
      sv_lookup_def level_get_def split: if_splits bind_splits)

lemma levels_wf_update:
  assumes "levels_wf ls" and "lm_level x = i" and "hmap_wf (lm_files x)"
  shows "levels_wf (ls[i := x])"
  unfolding levels_wf_def
proof (intro allI impI)
  fix l
  assume "l < length (ls[i := x])"
  with assms show "lm_level (ls[i := x] ! l) = l \<and> hmap_wf (lm_files (ls[i := x] ! l))"
    by (cases "l = i") (auto simp: levels_wf_def)
qed

lemma upsert_handle_wf:
  assumes "\<And>h. e = Some h \<Longrightarrow> fm_file_id (fh_meta h) = fm_file_id f \<and> fh_level h = fm_level f \<and> \<not> fh_deleted h"
  shows "fm_file_id (fh_meta (upsert_handle e f)) = fm_file_id f
    \<and> fh_level (upsert_handle e f) = fm_level f \<and> \<not> fh_deleted (upsert_handle e f)"
  using assms by (auto simp: upsert_handle_def split: option.splits)

lemma sv_wf_add_file:
  assumes wf: "sv_wf v" and add: "add_file f v = Ret v'"
  shows "sv_wf v'"
proof -
  from add obtain lm h where lm: "level_get v (fm_level f) = Some lm"
    and v': "v' = v\<lparr>sv_levels := (sv_levels v)[fm_level f :=
        lm\<lparr>lm_files := hmap_insert (fm_file_id f) h (lm_files lm)\<rparr>]\<rparr>"
    by (auto simp: add_file_def Let_def split: option.splits)
  from lm wf have "lm_level lm = fm_level f" "hmap_wf (lm_files lm)"
    by (auto simp: sv_wf_def levels_wf_def level_get_def split: if_splits)
  with wf have levels: "length (sv_levels v') = MAX_LEVEL \<and> levels_wf (sv_levels v')"
    by (simp add: v' sv_wf_def levels_wf_update)
  have "fm_file_id (fh_meta h) = i \<and> fh_level h = l \<and> \<not> fh_deleted h"
    if "sv_lookup v' l i = Some h" for l i h
    using that wf upsert_handle_wf [of "sv_lookup v l i" f]
    by (auto simp: add_file_lookup [OF add] sv_wf_def split: if_splits)
  with levels show ?thesis by (simp add: sv_wf_def)
qed

lemma sv_wf_remove_file:
  assumes wf: "sv_wf v" and remove: "remove_file f v = Ret (v', d)"
  shows "sv_wf v'"
proof (cases "sv_lookup v (fm_level f) (fm_file_id f)")
  case None
  with remove wf show ?thesis
    by (auto simp: remove_file_def Let_def sv_lookup_def split: option.splits)
next
  case (Some h)
  then obtain lm where lm: "level_get v (fm_level f) = Some lm"
    and v': "v' = v\<lparr>sv_levels := (sv_levels v)[fm_level f :=
        lm\<lparr>lm_files := hmap_remove (fm_file_id f) (lm_files lm)\<rparr>]\<rparr>"
    using remove by (auto simp: remove_file_def Let_def sv_lookup_def split: option.splits)
  from lm wf have "lm_level lm = fm_level f" "hmap_wf (lm_files lm)"
    by (auto simp: sv_wf_def levels_wf_def level_get_def split: if_splits)
  with wf have "length (sv_levels v') = MAX_LEVEL \<and> levels_wf (sv_levels v')"
    by (simp add: v' sv_wf_def levels_wf_update)
  with wf show ?thesis by (auto simp: sv_wf_def remove_file_lookup [OF remove])
qed

lemma sv_wf_add_files: "sv_wf v \<Longrightarrow> add_files fs v = Ret v' \<Longrightarrow> sv_wf v'"
  unfolding add_files_def by (erule fold_outcome_invariant) (auto intro: sv_wf_add_file)

lemma sv_wf_remove_files:
  assumes "sv_wf v" and "remove_files fs v = Ret (v', marked)"
  shows "sv_wf v'"
proof -
  have "(\<lambda>(v, m). sv_wf v) (v', marked)"
    using assms(1)
    by (intro fold_outcome_invariant [where P = "\<lambda>(v, m). sv_wf v", OF assms(2) [unfolded remove_files_def]])
      (auto simp: bind_outcome_Ret_iff intro: sv_wf_remove_file)
  then show ?thesis by simp
qed

lemma add_files_lookup:
  "add_files fs v = Ret v' \<Longrightarrow> sv_lookup v' l i =
     put_all upsert_handle (filter (\<lambda>f. fm_level f = l \<and> fm_file_id f = i) fs) (sv_lookup v l i)"
  using sst.add_all_lookup [of fs v v' "(l, i)"] by (simp add: add_files_def)

lemma filter_distinct_place:
  fixes fs :: "file_meta list"
  assumes "distinct (map (\<lambda>f. (fm_level f, fm_file_id f)) fs)" and "f \<in> set fs"
  shows "filter (\<lambda>g. fm_level g = fm_level f \<and> fm_file_id g = fm_file_id f) fs = [f]"
  using assms
proof (induction fs)
  case (Cons g fs)
  have rest: "filter (\<lambda>h. fm_level h = fm_level g \<and> fm_file_id h = fm_file_id g) fs = []"
    using Cons.prems(1) by (auto simp: filter_empty_conv image_iff)
  show ?case
  proof (cases "f = g")
    case False
    then have "f \<in> set fs" using Cons.prems(2) by simp
    moreover from this have "\<not> (fm_level g = fm_level f \<and> fm_file_id g = fm_file_id f)"
      using rest by (auto simp: filter_empty_conv)
    ultimately show ?thesis using Cons by simp
  qed (simp add: rest)
qed simp

lemma add_files_Panic: "add_files fs v = Panic \<longleftrightarrow> (\<exists>f \<in> set fs. length (sv_levels v) \<le> fm_level f)"
  using sst.add_all_panics [of fs v] by (simp add: add_files_def not_less)

lemma put_all_index_version:
  assumes "exists_index (fh_meta h)" and "\<forall>f \<in> set fs. exists_index f"
  shows "\<exists>h'. put_all upsert_handle fs (Some h) = Some h' \<and> exists_index (fh_meta h')
    \<and> fm_index_version (fh_meta h') = fold max (map fm_index_version fs) (fm_index_version (fh_meta h))"
  using assms
proof (induction fs arbitrary: h)
  case (Cons f fs)
  let ?h = "upsert_handle (Some h) f"
  have "exists_index (fh_meta ?h)"
    and v: "fm_index_version (fh_meta ?h) = max (fm_index_version f) (fm_index_version (fh_meta h))"
    using Cons.prems by (auto simp: upsert_handle_def is_index_up_to_date_def dest: file_meta_eq_fields(4))
  with Cons.IH [of ?h] Cons.prems show ?case by (simp add: put_all_def v)
qed (simp add: put_all_def)

section \<open>Properties\<close>



text \<open>
  C33. Removing files from a well-formed version panics exactly when some file names a level
  outside the array. Otherwise the entries of the named files are gone, all others are as before,
  and the handles marked deleted are exactly those that were in the version under the level and
  id of a named file; the remaining version is well-formed, so no live file is ever marked.
\<close>

theorem remove_files_correct:
  assumes "sv_wf v"
  shows "case remove_files fs v of
      Panic \<Rightarrow> \<exists>f \<in> set fs. MAX_LEVEL \<le> fm_level f
    | Ret (v', marked) \<Rightarrow> (\<forall>f \<in> set fs. fm_level f < MAX_LEVEL) \<and> sv_wf v'
        \<and> (\<forall>l i. sv_lookup v' l i =
              (if \<exists>f \<in> set fs. fm_level f = l \<and> fm_file_id f = i then None else sv_lookup v l i))
        \<and> (\<forall>x. x \<in> set marked \<longleftrightarrow>
              (\<exists>f \<in> set fs. \<exists>h. sv_lookup v (fm_level f) (fm_file_id f) = Some h \<and> x = mark_deleted h))"
proof (cases "remove_files fs v")
  case Panic
  with assms remove_files_Panic [of fs v] show ?thesis by (simp add: sv_wf_def)
next
  case (Ret r)
  obtain v' marked where r: "r = (v', marked)" by (cases r)
  with Ret have e: "remove_files fs v = Ret (v', marked)" by simp
  with assms remove_files_Panic [of fs v] have "\<forall>f \<in> set fs. fm_level f < MAX_LEVEL"
    by (auto simp: sv_wf_def not_le)
  then show ?thesis
    using sv_wf_remove_files [OF assms e] remove_files_lookup [OF e] remove_files_marked [OF e]
    by (simp add: e)
qed

theorem remove_files_correct_witness:
  "let f = file_meta_default\<lparr>fm_file_id := 7, fm_level := 1\<rparr>;
       v = \<lparr>sv_levels = [level_meta_new 0, \<lparr>lm_level = 1, lm_files = [(7, fh_new f)]\<rparr>]\<rparr>
   in sv_wf v \<and> (\<exists>v' marked. remove_files [f] v = Ret (v', marked)
        \<and> sv_lookup v' 1 7 = None \<and> set marked = {mark_deleted (fh_new f)})"
proof -
  let ?f = "file_meta_default\<lparr>fm_file_id := 7, fm_level := 1\<rparr>"
  let ?v = "\<lparr>sv_levels = [level_meta_new 0, \<lparr>lm_level = 1, lm_files = [(7, fh_new ?f)]\<rparr>]\<rparr>"
  have look: "sv_lookup ?v 1 7 = Some (fh_new ?f)"
    by (simp add: sv_lookup_def level_get_def)
  have wf: "sv_wf ?v"
    by (auto simp: sv_wf_def levels_wf_def MAX_LEVEL_def sv_lookup_def level_get_def
        level_meta_new_def hmap_wf_def nth_Cons' split: if_splits bind_splits)
  then show ?thesis
    using remove_files_correct [OF wf, of "[?f]"] look
    by (cases "remove_files [?f] ?v") (auto simp: MAX_LEVEL_def Let_def)
qed



end
