(* ===== verification/Manifest.thy ===== *)
theory Manifest
  imports Sst_Version
begin

text \<open>
  The region manifest of \<open>src/src/mito2/src/manifest/action.rs\<close>: the actions that change it and the
  builder that applies them. Two things the code takes from elsewhere are arguments: \<open>now\<close>, the
  reading of the system clock where an action carries no timestamp, and \<open>pev\<close>, the hasher that
  versions a partition expression. Columns, primary key and schema of the region metadata are
  carried as data; the sets of removed files are sets.
\<close>

section \<open>Definitions\<close>

subsection \<open>Region metadata\<close>

record region_metadata =
  rm_region_id :: region_id
  rm_column_metadatas :: "column_metadata list"
  rm_primary_key :: "column_id list"
  rm_schema_version :: nat
  rm_partition_expr :: "string option"
  rm_partition_expr_version :: nat

type_synonym expr_hash = "string \<Rightarrow> nat"

definition partition_expr_version :: "expr_hash \<Rightarrow> string option \<Rightarrow> nat" where
  "partition_expr_version hash expr =
     (case expr of None \<Rightarrow> 0 | Some e \<Rightarrow> if e = [] then 0 else hash e)"

definition set_partition_expr :: "expr_hash \<Rightarrow> string option \<Rightarrow> region_metadata \<Rightarrow> region_metadata" where
  "set_partition_expr pev expr m =
     m\<lparr>rm_partition_expr_version := partition_expr_version pev expr, rm_partition_expr := expr\<rparr>"

datatype format_type = PrimaryKey | Flat

subsection \<open>Actions\<close>

record region_change =
  rc_metadata :: region_metadata
  rc_sst_format :: format_type
  rc_append_mode :: "bool option"

record region_edit =
  re_files_to_add :: "file_meta list"
  re_files_to_remove :: "file_meta list"
  re_timestamp_ms :: "int option"
  re_compaction_time_window :: "duration option"
  re_flushed_entry_id :: "nat option"
  re_flushed_sequence :: "nat option"
  re_committed_sequence :: "nat option"

datatype truncate_kind =
    TruncateAll (truncated_entry_id: nat) (truncated_sequence: nat)
  | TruncatePartial (truncated_files: "file_meta list")

record region_truncate =
  rt_region_id :: region_id
  rt_kind :: truncate_kind
  rt_timestamp_ms :: "int option"

datatype region_meta_action =
    Change region_change
  | PartitionExprChange "string option"
  | Edit region_edit
  | Remove region_id
  | Truncate region_truncate

subsection \<open>Removed files\<close>

datatype removed_file = File file_id "nat option" | Index file_id nat

fun removed_file_id :: "removed_file \<Rightarrow> file_id" where
  "removed_file_id (File i v) = i"
| "removed_file_id (Index i v) = i"

fun removed_file_index_version :: "removed_file \<Rightarrow> nat option" where
  "removed_file_index_version (File i v) = v"
| "removed_file_index_version (Index i v) = Some v"

record removed_files =
  rfs_removed_at :: int
  rfs_files :: "removed_file set"

type_synonym removed_files_record = "removed_files list"

definition add_removed_files :: "removed_file list \<Rightarrow> int \<Rightarrow> removed_files_record \<Rightarrow> removed_files_record" where
  "add_removed_files removed at r =
     (if removed = [] then r else r @ [\<lparr>rfs_removed_at = at, rfs_files = set removed\<rparr>])"

definition clear_deleted_files :: "removed_file list \<Rightarrow> removed_files_record \<Rightarrow> removed_files_record" where
  "clear_deleted_files deleted r =
     filter (\<lambda>fs. rfs_files fs \<noteq> {})
       (map (\<lambda>fs. fs\<lparr>rfs_files := {x \<in> rfs_files fs. x \<notin> set deleted}\<rparr>) r)"

definition evict_old_removed_files :: "bool \<Rightarrow> removed_files_record \<Rightarrow> removed_files_record" where
  "evict_old_removed_files enable_gc r = (if \<not> enable_gc then [] else r)"

subsection \<open>The manifest and its builder\<close>

record region_manifest =
  m_metadata :: region_metadata
  m_files :: "(file_id, file_meta) hmap"
  m_removed_files :: removed_files_record
  m_flushed_entry_id :: nat
  m_flushed_sequence :: nat
  m_committed_sequence :: "nat option"
  m_manifest_version :: nat
  m_truncated_entry_id :: "nat option"
  m_compaction_time_window :: "duration option"
  m_sst_format :: format_type
  m_append_mode :: "bool option"

record region_manifest_builder =
  b_metadata :: "region_metadata option"
  b_files :: "(file_id, file_meta) hmap"
  b_removed_files :: removed_files_record
  b_flushed_entry_id :: nat
  b_flushed_sequence :: nat
  b_manifest_version :: nat
  b_truncated_entry_id :: "nat option"
  b_compaction_time_window :: "duration option"
  b_committed_sequence :: "nat option"
  b_sst_format :: format_type
  b_append_mode :: "bool option"

definition builder_default :: region_manifest_builder where
  "builder_default =
     \<lparr>b_metadata = None, b_files = [], b_removed_files = [], b_flushed_entry_id = 0,
      b_flushed_sequence = 0, b_manifest_version = 0, b_truncated_entry_id = None,
      b_compaction_time_window = None, b_committed_sequence = None, b_sst_format = PrimaryKey,
      b_append_mode = None\<rparr>"

definition with_checkpoint :: "region_manifest option \<Rightarrow> region_manifest_builder" where
  "with_checkpoint checkpoint =
     (case checkpoint of
        Some s \<Rightarrow>
          \<lparr>b_metadata = Some (m_metadata s), b_files = m_files s, b_removed_files = m_removed_files s,
           b_flushed_entry_id = m_flushed_entry_id s, b_flushed_sequence = m_flushed_sequence s,
           b_manifest_version = m_manifest_version s, b_truncated_entry_id = m_truncated_entry_id s,
           b_compaction_time_window = m_compaction_time_window s,
           b_committed_sequence = m_committed_sequence s, b_sst_format = m_sst_format s,
           b_append_mode = m_append_mode s\<rparr>
      | None \<Rightarrow> builder_default)"

definition removed_file_of :: "(file_id, file_meta) hmap \<Rightarrow> file_meta \<Rightarrow> removed_file" where
  "removed_file_of files file =
     File (fm_file_id file)
       (case Option.bind (hmap_get files (fm_file_id file)) index_version of
          Some v \<Rightarrow> Some v
        | None \<Rightarrow> index_version file)"

definition apply_change :: "nat \<Rightarrow> region_change \<Rightarrow> region_manifest_builder \<Rightarrow> region_manifest_builder" where
  "apply_change ver change b =
     b\<lparr>b_metadata := Some (rc_metadata change), b_manifest_version := ver,
       b_sst_format := rc_sst_format change,
       b_append_mode := (case rc_append_mode change of Some m \<Rightarrow> Some m | None \<Rightarrow> b_append_mode b)\<rparr>"

definition apply_partition_expr_change ::
  "expr_hash \<Rightarrow> nat \<Rightarrow> string option \<Rightarrow> region_manifest_builder \<Rightarrow> region_manifest_builder" where
  "apply_partition_expr_change pev ver expr b =
     (case b_metadata b of
        Some metadata \<Rightarrow>
          b\<lparr>b_metadata := Some (set_partition_expr pev expr metadata), b_manifest_version := ver\<rparr>
      | None \<Rightarrow> b)"

text \<open>The loop over the files to add: the files and the index files that became outdated.\<close>

fun add_edit_file ::
  "file_meta \<Rightarrow> (file_id, file_meta) hmap \<times> removed_file list \<Rightarrow> (file_id, file_meta) hmap \<times> removed_file list"
  where
  "add_edit_file file (files, removed) =
     (hmap_insert (fm_file_id file) file files,
      case hmap_get files (fm_file_id file) of
        None \<Rightarrow> removed
      | Some old \<Rightarrow>
          (case index_version old of
             None \<Rightarrow> removed
           | Some v \<Rightarrow>
               if \<not> is_index_up_to_date old file then removed @ [Index (fm_file_id old) v] else removed))"

definition max_option :: "nat \<Rightarrow> nat option \<Rightarrow> nat" where
  "max_option x y = (case y of None \<Rightarrow> x | Some v \<Rightarrow> max x v)"

definition merge_max :: "nat option \<Rightarrow> nat option \<Rightarrow> nat option" where
  "merge_max x y = (case y of None \<Rightarrow> x | Some v \<Rightarrow> Some (case x of None \<Rightarrow> v | Some e \<Rightarrow> max e v))"

definition apply_edit :: "int \<Rightarrow> nat \<Rightarrow> region_edit \<Rightarrow> region_manifest_builder \<Rightarrow> region_manifest_builder" where
  "apply_edit now ver edit b =
     (let (files, outdated) = fold add_edit_file (re_files_to_add edit) (b_files b, []);
          removed = outdated @ map (removed_file_of files) (re_files_to_remove edit);
          at = (case re_timestamp_ms edit of Some t \<Rightarrow> t | None \<Rightarrow> now)
      in b\<lparr>b_manifest_version := ver,
           b_removed_files := add_removed_files removed at (b_removed_files b),
           b_files := fold (\<lambda>f. hmap_remove (fm_file_id f)) (re_files_to_remove edit) files,
           b_flushed_entry_id := max_option (b_flushed_entry_id b) (re_flushed_entry_id edit),
           b_flushed_sequence := max_option (b_flushed_sequence b) (re_flushed_sequence edit),
           b_committed_sequence := merge_max (b_committed_sequence b) (re_committed_sequence edit),
           b_compaction_time_window :=
             (case re_compaction_time_window edit of
                Some w \<Rightarrow> Some w
              | None \<Rightarrow> b_compaction_time_window b)\<rparr>)"

definition apply_truncate ::
  "int \<Rightarrow> nat \<Rightarrow> region_truncate \<Rightarrow> region_manifest_builder \<Rightarrow> region_manifest_builder" where
  "apply_truncate now ver tr b =
     (let at = (case rt_timestamp_ms tr of Some t \<Rightarrow> t | None \<Rightarrow> now)
      in case rt_kind tr of
           TruncateAll entry_id sequence \<Rightarrow>
             b\<lparr>b_manifest_version := ver, b_flushed_entry_id := entry_id,
               b_flushed_sequence := sequence, b_truncated_entry_id := Some entry_id,
               b_removed_files :=
                 add_removed_files
                   (map (\<lambda>f. File (fm_file_id f) (index_version f)) (hmap_values (b_files b))) at
                   (b_removed_files b),
               b_files := []\<rparr>
         | TruncatePartial files \<Rightarrow>
             b\<lparr>b_manifest_version := ver,
               b_removed_files :=
                 add_removed_files (map (removed_file_of (b_files b)) files) at (b_removed_files b),
               b_files := fold (\<lambda>f. hmap_remove (fm_file_id f)) files (b_files b)\<rparr>)"

definition contains_metadata :: "region_manifest_builder \<Rightarrow> bool" where
  "contains_metadata b \<longleftrightarrow> b_metadata b \<noteq> None"

datatype manifest_error =
    RegionMetadataNotFound
  | RegionStopped
  | NoManifests
  | NoCheckpoint
  | InstallManifestTo
  | InvalidScanIndex
  | WriteManifest
  | EmptyManifestDir

definition try_build :: "region_manifest_builder \<Rightarrow> manifest_error + region_manifest" where
  "try_build b =
     (case b_metadata b of
        None \<Rightarrow> Inl RegionMetadataNotFound
      | Some metadata \<Rightarrow>
          Inr \<lparr>m_metadata = metadata, m_files = b_files b, m_removed_files = b_removed_files b,
               m_flushed_entry_id = b_flushed_entry_id b, m_flushed_sequence = b_flushed_sequence b,
               m_committed_sequence = b_committed_sequence b,
               m_manifest_version = b_manifest_version b,
               m_truncated_entry_id = b_truncated_entry_id b,
               m_compaction_time_window = b_compaction_time_window b,
               m_sst_format = b_sst_format b, m_append_mode = b_append_mode b\<rparr>)"

subsection \<open>Splitting an action list\<close>

definition edit_empty :: region_edit where
  "edit_empty =
     \<lparr>re_files_to_add = [], re_files_to_remove = [], re_timestamp_ms = None,
      re_compaction_time_window = None, re_flushed_entry_id = None, re_flushed_sequence = None,
      re_committed_sequence = None\<rparr>"

definition merge_edit :: "region_edit \<Rightarrow> region_edit \<Rightarrow> region_edit" where
  "merge_edit edit e =
     edit\<lparr>re_files_to_add := re_files_to_add edit @ re_files_to_add e,
          re_files_to_remove := re_files_to_remove edit @ re_files_to_remove e,
          re_flushed_entry_id := merge_max (re_flushed_entry_id edit) (re_flushed_entry_id e),
          re_flushed_sequence := merge_max (re_flushed_sequence edit) (re_flushed_sequence e),
          re_committed_sequence := merge_max (re_committed_sequence edit) (re_committed_sequence e),
          re_compaction_time_window :=
            (if re_compaction_time_window e \<noteq> None then re_compaction_time_window e
             else re_compaction_time_window edit)\<rparr>"

fun split_step ::
  "region_meta_action \<Rightarrow> string option option \<times> region_change option \<times> region_edit
     \<Rightarrow> string option option \<times> region_change option \<times> region_edit" where
  "split_step (PartitionExprChange c) (p, rc, edit) = (Some c, rc, edit)"
| "split_step (Change c) (p, rc, edit) = (p, Some c, edit)"
| "split_step (Edit e) (p, rc, edit) = (p, rc, merge_edit edit e)"
| "split_step _ s = s"

definition split_region_change_and_edit ::
  "region_meta_action list \<Rightarrow> string option option \<times> region_change option \<times> region_edit" where
  "split_region_change_and_edit actions = fold split_step actions (None, None, edit_empty)"

subsection \<open>Replaying actions\<close>

text \<open>
  The loop that \<open>open\<close>, \<open>install_manifest_to\<close> and \<open>update_inner\<close> of the manifest manager share. The
  clock gives the reading of the system time while an action of a version is applied.
\<close>

type_synonym clock = "nat \<Rightarrow> region_meta_action \<Rightarrow> int"

fun apply_action ::
  "expr_hash \<Rightarrow> clock \<Rightarrow> nat \<Rightarrow> region_meta_action \<Rightarrow> region_manifest_builder \<Rightarrow> region_manifest_builder"
  where
  "apply_action pev clk ver (Change c) b = apply_change ver c b"
| "apply_action pev clk ver (PartitionExprChange c) b = apply_partition_expr_change pev ver c b"
| "apply_action pev clk ver (Edit e) b = apply_edit (clk ver (Edit e)) ver e b"
| "apply_action pev clk ver (Remove r) b = b"
| "apply_action pev clk ver (Truncate t) b = apply_truncate (clk ver (Truncate t)) ver t b"

definition apply_actions ::
  "expr_hash \<Rightarrow> clock \<Rightarrow> nat \<Rightarrow> region_meta_action list \<Rightarrow> region_manifest_builder \<Rightarrow> region_manifest_builder"
  where
  "apply_actions pev clk ver actions = fold (apply_action pev clk ver) actions"

definition replay ::
  "expr_hash \<Rightarrow> clock \<Rightarrow> (nat \<times> region_meta_action list) list \<Rightarrow> region_manifest_builder \<Rightarrow> region_manifest_builder"
  where
  "replay pev clk deltas = fold (\<lambda>(ver, actions). apply_actions pev clk ver actions) deltas"

subsection \<open>Specification side\<close>

definition builder_wf :: "region_manifest_builder \<Rightarrow> bool" where
  "builder_wf b \<longleftrightarrow> hmap_wf (b_files b) \<and> (\<forall>i f. hmap_get (b_files b) i = Some f \<longrightarrow> fm_file_id f = i)"

definition recorded :: "removed_files_record \<Rightarrow> removed_file \<Rightarrow> bool" where
  "recorded r x \<longleftrightarrow> (\<exists>fs \<in> set r. x \<in> rfs_files fs)"

fun added_ids :: "region_meta_action \<Rightarrow> file_id set" where
  "added_ids (Edit e) = fm_file_id ` set (re_files_to_add e)"
| "added_ids _ = {}"

fun removed_ids :: "region_meta_action \<Rightarrow> file_id set" where
  "removed_ids (Edit e) = fm_file_id ` set (re_files_to_remove e)"
| "removed_ids _ = {}"

fun is_truncate :: "region_meta_action \<Rightarrow> bool" where
  "is_truncate (Truncate t) = True"
| "is_truncate _ = False"

text \<open>No action adds a file that an earlier one removed.\<close>

fun no_readd :: "region_meta_action list \<Rightarrow> bool" where
  "no_readd [] = True"
| "no_readd (a # as) \<longleftrightarrow> removed_ids a \<inter> (\<Union>x \<in> set as. added_ids x) = {} \<and> no_readd as"

section \<open>Files of the manifest\<close>

text \<open>The file map of the manifest is a store keyed by file id that keeps the last metadata.\<close>

interpretation mf: file_store hmap_get fm_file_id "\<lambda>_ f. f" "\<lambda>_ _. True"
  "\<lambda>f m. Ret (hmap_insert (fm_file_id f) f m)" "\<lambda>f m. Ret (hmap_remove (fm_file_id f) m)"
  by unfold_locales (auto simp: hmap_simps)

lemma insert_all_get:
  "hmap_get (fold (\<lambda>f. hmap_insert (fm_file_id f) f) fs m) i =
     put_all (\<lambda>_ f. f) (filter (\<lambda>f. fm_file_id f = i) fs) (hmap_get m i)"
  using mf.add_all_lookup [OF fold_outcome_Ret, of fs m i] by simp

lemma remove_all_get:
  fixes fs :: "file_meta list" and m :: "(file_id, file_meta) hmap"
  shows "hmap_get (fold (\<lambda>f. hmap_remove (fm_file_id f)) fs m) i =
     (if i \<in> fm_file_id ` set fs then None else hmap_get m i)"
  using mf.remove_all_lookup [OF fold_outcome_Ret, of fs m i] by simp

lemma put_all_last: "put_all (\<lambda>_ f. f) fs e = (if fs = [] then e else Some (last fs))"
  by (induction fs arbitrary: e) (auto simp: put_all_def)

lemma put_all_append: "put_all put (xs @ ys) e = put_all put ys (put_all put xs e)"
  by (simp add: put_all_def)

lemma put_all_Nil [simp]: "put_all put [] e = e"
  by (simp add: put_all_def)

lemma fst_add_edit_files:
  "fst (fold add_edit_file fs s) = fold (\<lambda>f. hmap_insert (fm_file_id f) f) fs (fst s)"
  by (induction fs arbitrary: s) (auto simp: split: prod.splits)

lemma apply_edit_files:
  "b_files (apply_edit now ver e b) =
     fold (\<lambda>f. hmap_remove (fm_file_id f)) (re_files_to_remove e)
       (fold (\<lambda>f. hmap_insert (fm_file_id f) f) (re_files_to_add e) (b_files b))"
  using fst_add_edit_files [of "re_files_to_add e" "(b_files b, [])"]
  by (auto simp: apply_edit_def split: prod.splits)

lemma apply_edit_get:
  "hmap_get (b_files (apply_edit now ver e b)) i =
     (if i \<in> fm_file_id ` set (re_files_to_remove e) then None
      else put_all (\<lambda>_ f. f) (filter (\<lambda>f. fm_file_id f = i) (re_files_to_add e)) (hmap_get (b_files b) i))"
  by (simp add: apply_edit_files remove_all_get insert_all_get)

lemma apply_edit_scalars:
  "b_metadata (apply_edit now ver e b) = b_metadata b"
  "b_manifest_version (apply_edit now ver e b) = ver"
  "b_flushed_entry_id (apply_edit now ver e b) = max_option (b_flushed_entry_id b) (re_flushed_entry_id e)"
  "b_flushed_sequence (apply_edit now ver e b) = max_option (b_flushed_sequence b) (re_flushed_sequence e)"
  "b_committed_sequence (apply_edit now ver e b) = merge_max (b_committed_sequence b) (re_committed_sequence e)"
  "b_compaction_time_window (apply_edit now ver e b) =
     (case re_compaction_time_window e of Some w \<Rightarrow> Some w | None \<Rightarrow> b_compaction_time_window b)"
  "b_truncated_entry_id (apply_edit now ver e b) = b_truncated_entry_id b"
  "b_sst_format (apply_edit now ver e b) = b_sst_format b"
  "b_append_mode (apply_edit now ver e b) = b_append_mode b"
  by (simp_all add: apply_edit_def split: prod.splits)

lemma with_checkpoint_build [simp]: "try_build (with_checkpoint (Some m)) = Inr m"
  by (simp add: with_checkpoint_def try_build_def)

section \<open>No removed file is forgotten\<close>

lemma recorded_add:
  "recorded (add_removed_files xs at r) x \<longleftrightarrow> recorded r x \<or> x \<in> set xs"
  by (auto simp: recorded_def add_removed_files_def)

lemma apply_edit_recorded:
  "recorded (b_removed_files (apply_edit now ver e b)) x \<longleftrightarrow>
     recorded (b_removed_files b) x
     \<or> x \<in> set (snd (fold add_edit_file (re_files_to_add e) (b_files b, [])))
     \<or> x \<in> removed_file_of (fold (\<lambda>f. hmap_insert (fm_file_id f) f) (re_files_to_add e) (b_files b))
            ` set (re_files_to_remove e)"
  using fst_add_edit_files [of "re_files_to_add e" "(b_files b, [])"]
  by (auto simp: apply_edit_def recorded_add split: prod.splits)

lemma apply_action_keeps_records:
  "recorded (b_removed_files b) x \<Longrightarrow> recorded (b_removed_files (apply_action pev clk ver a b)) x"
  by (cases a)
    (auto simp: apply_change_def apply_partition_expr_change_def apply_edit_recorded
      apply_truncate_def Let_def recorded_add split: option.splits truncate_kind.splits)

lemma hmap_wf_insert_all: "hmap_wf m \<Longrightarrow> hmap_wf (fold (\<lambda>f. hmap_insert (fm_file_id f) f) fs m)"
  by (induction fs arbitrary: m) auto

lemma hmap_wf_remove_all: "hmap_wf m \<Longrightarrow> hmap_wf (fold (\<lambda>f. hmap_remove (fm_file_id f)) fs m)"
  by (induction fs arbitrary: m) auto

lemma put_all_last_id:
  "put_all (\<lambda>_ f. f) (filter (\<lambda>f. fm_file_id f = i) fs) e = Some f \<Longrightarrow>
   fm_file_id f = i \<or> e = Some f"
  using last_in_set [of "filter (\<lambda>f. fm_file_id f = i) fs"]
  by (auto simp: put_all_last split: if_splits)

lemma builder_wf_action: "builder_wf b \<Longrightarrow> builder_wf (apply_action pev clk ver a b)"
proof (cases a)
  case (Edit e)
  assume "builder_wf b"
  then show ?thesis
    by (auto simp: Edit builder_wf_def apply_edit_get dest!: put_all_last_id)
      (auto simp: apply_edit_files hmap_wf_insert_all hmap_wf_remove_all)
next
  case (Truncate t)
  assume "builder_wf b"
  then show ?thesis
    by (cases "rt_kind t")
      (auto simp: Truncate builder_wf_def apply_truncate_def Let_def remove_all_get hmap_wf_remove_all)
qed (auto simp: builder_wf_def apply_change_def apply_partition_expr_change_def split: option.splits)

lemma edit_tracks:
  assumes "i \<in> dom (hmap_get (b_files b)) \<union> fm_file_id ` set (re_files_to_add e)"
  shows "i \<in> dom (hmap_get (b_files (apply_edit now ver e b)))
    \<or> (\<exists>v. recorded (b_removed_files (apply_edit now ver e b)) (File i v))"
proof (cases "i \<in> fm_file_id ` set (re_files_to_remove e)")
  case True
  then have "\<exists>v. File i v \<in> removed_file_of (fold (\<lambda>f. hmap_insert (fm_file_id f) f)
      (re_files_to_add e) (b_files b)) ` set (re_files_to_remove e)"
    by (force simp: removed_file_of_def image_iff)
  then show ?thesis by (auto simp: apply_edit_recorded)
next
  case False
  then show ?thesis using assms
    by (auto simp: apply_edit_get put_all_last dom_def filter_empty_conv)
qed

lemma action_tracks:
  assumes wf: "builder_wf b" and i: "i \<in> dom (hmap_get (b_files b)) \<union> added_ids a"
  shows "i \<in> dom (hmap_get (b_files (apply_action pev clk ver a b)))
    \<or> (\<exists>v. recorded (b_removed_files (apply_action pev clk ver a b)) (File i v))"
proof (cases a)
  case (Edit e)
  with i show ?thesis using edit_tracks [of i b e] by simp
next
  case (Truncate t)
  with i obtain f where f: "hmap_get (b_files b) i = Some f" by auto
  with wf have id: "fm_file_id f = i" by (simp add: builder_wf_def)
  from f have v: "f \<in> set (hmap_values (b_files b))"
    using wf by (auto simp: hmap_values_get builder_wf_def)
  show ?thesis
  proof (cases "rt_kind t")
    case (TruncateAll x y)
    with Truncate v id show ?thesis
      by (auto simp: apply_truncate_def Let_def recorded_add image_iff intro!: exI [of _ "index_version f"] bexI [of _ f])
  next
    case (TruncatePartial fs)
    with Truncate f show ?thesis
      by (force simp: apply_truncate_def Let_def recorded_add remove_all_get removed_file_of_def dom_def)
  qed
qed (use i in \<open>auto simp: apply_change_def apply_partition_expr_change_def split: option.splits\<close>)

lemma actions_track:
  assumes "builder_wf b"
    and "i \<in> dom (hmap_get (b_files b)) \<union> (\<Union>a \<in> set actions. added_ids a)
      \<or> (\<exists>v. recorded (b_removed_files b) (File i v))"
  shows "i \<in> dom (hmap_get (b_files (apply_actions pev clk ver actions b)))
    \<or> (\<exists>v. recorded (b_removed_files (apply_actions pev clk ver actions b)) (File i v))"
  using assms
proof (induction actions arbitrary: b)
  case (Cons a as)
  let ?b = "apply_action pev clk ver a b"
  have "i \<in> dom (hmap_get (b_files ?b)) \<union> (\<Union>a \<in> set as. added_ids a)
      \<or> (\<exists>v. recorded (b_removed_files ?b) (File i v))"
    using Cons.prems action_tracks [of b i a pev clk ver]
    by (auto dest: apply_action_keeps_records [of b _ pev clk ver a])
  from Cons.IH [OF builder_wf_action [OF Cons.prems(1)] this] show ?case
    by (simp add: apply_actions_def)
qed (auto simp: apply_actions_def)

lemma builder_wf_actions: "builder_wf b \<Longrightarrow> builder_wf (apply_actions pev clk ver actions b)"
  unfolding apply_actions_def by (rule fold_invariant_set) (auto intro: builder_wf_action)

lemma builder_wf_replay: "builder_wf b \<Longrightarrow> builder_wf (replay pev clk deltas b)"
  unfolding replay_def by (rule fold_invariant_set) (auto intro: builder_wf_actions)

lemma builder_wf_default: "builder_wf builder_default"
  by (simp add: builder_wf_def builder_default_def)

lemma replay_tracks:
  assumes "builder_wf b"
    and "i \<in> dom (hmap_get (b_files b)) \<union> (\<Union>(ver, as) \<in> set deltas. \<Union>a \<in> set as. added_ids a)
      \<or> (\<exists>v. recorded (b_removed_files b) (File i v))"
  shows "i \<in> dom (hmap_get (b_files (replay pev clk deltas b)))
    \<or> (\<exists>v. recorded (b_removed_files (replay pev clk deltas b)) (File i v))"
  using assms
proof (induction deltas arbitrary: b)
  case (Cons d deltas)
  obtain ver as where d: "d = (ver, as)" by (cases d)
  let ?b = "apply_actions pev clk ver as b"
  have "builder_wf ?b" using Cons.prems(1) by (rule builder_wf_actions)
  moreover have "i \<in> dom (hmap_get (b_files ?b)) \<union> (\<Union>(ver, as) \<in> set deltas. \<Union>a \<in> set as. added_ids a)
      \<or> (\<exists>v. recorded (b_removed_files ?b) (File i v))"
    using Cons.prems actions_track [of b i as pev clk ver] by (auto simp: d)
  ultimately show ?case using Cons.IH [of ?b] by (simp add: replay_def d)
qed (auto simp: replay_def)

subsection \<open>Outdated index files\<close>

lemma add_edit_files_snd_mono:
  "x \<in> set (snd s) \<Longrightarrow> x \<in> set (snd (fold add_edit_file fs s))"
  by (induction fs arbitrary: s) (auto split: option.splits)

lemma add_edit_files_index:
  assumes "hmap_get (fst s) i = Some f" and "fm_file_id f = i" and "index_version f = Some v"
    and "\<forall>g \<in> set fs. fm_file_id g = i \<longrightarrow> (\<forall>w. index_version g = Some w \<longrightarrow> v \<le> w)"
  shows "(\<exists>f'. hmap_get (fst (fold add_edit_file fs s)) i = Some f' \<and> index_version f' = Some v)
    \<or> Index i v \<in> set (snd (fold add_edit_file fs s))"
  using assms
proof (induction fs arbitrary: s f)
  case (Cons g fs)
  obtain m r where s: "s = (m, r)" by (cases s)
  consider "fm_file_id g \<noteq> i" | "fm_file_id g = i" "index_version g = Some v"
    | "fm_file_id g = i" "index_version g \<noteq> Some v" by blast
  then show ?case
  proof cases
    case 1
    then show ?thesis using Cons.prems Cons.IH [of "add_edit_file g s" f] by (simp add: s hmap_simps)
  next
    case 2
    then show ?thesis using Cons.prems Cons.IH [of "add_edit_file g s" g] by (simp add: s hmap_simps)
  next
    case 3
    with Cons.prems have "\<not> is_index_up_to_date f g"
      by (auto simp: is_index_up_to_date_def index_version_def split: if_splits)
    with 3 Cons.prems have "Index i v \<in> set (snd (add_edit_file g s))" by (simp add: s)
    then show ?thesis using add_edit_files_snd_mono by fastforce
  qed
qed auto

section \<open>Flushed positions\<close>

lemma max_option_ge: "x \<le> max_option x y"
  by (simp add: max_option_def split: option.splits)

lemma max_option_merge: "max_option (max_option x y) z = max_option x (merge_max y z)"
  by (auto simp: max_option_def merge_max_def split: option.splits)

lemma merge_max_assoc: "merge_max (merge_max x y) z = merge_max x (merge_max y z)"
  by (auto simp: merge_max_def split: option.splits)

lemma merge_max_None [simp]: "merge_max x None = x" "merge_max None x = x"
  by (auto simp: merge_max_def split: option.splits)

lemma max_option_None [simp]: "max_option x None = x"
  by (simp add: max_option_def)

lemma action_scalars_mono:
  assumes "\<not> is_truncate a"
  shows "b_flushed_entry_id b \<le> b_flushed_entry_id (apply_action pev clk ver a b)
    \<and> b_flushed_sequence b \<le> b_flushed_sequence (apply_action pev clk ver a b)"
  using assms
  by (cases a) (auto simp: apply_change_def apply_partition_expr_change_def apply_edit_scalars
      max_option_ge split: option.splits)

section \<open>Merging the edits of an action list\<close>

abbreviation split_edit :: "region_meta_action list \<Rightarrow> region_edit" where
  "split_edit actions \<equiv> snd (snd (split_region_change_and_edit actions))"

definition merged_edit :: "region_meta_action list \<Rightarrow> region_edit \<Rightarrow> region_edit" where
  "merged_edit actions edit = fold (\<lambda>a edit. case a of Edit e \<Rightarrow> merge_edit edit e | _ \<Rightarrow> edit) actions edit"

lemma split_edit_merged: "snd (snd (fold split_step actions s)) = merged_edit actions (snd (snd s))"
proof (induction actions arbitrary: s)
  case (Cons a as)
  have "snd (snd (split_step a s)) = (case a of Edit e \<Rightarrow> merge_edit (snd (snd s)) e | _ \<Rightarrow> snd (snd s))"
    by (cases s; cases a) auto
  with Cons show ?case by (simp add: merged_edit_def)
qed (simp add: merged_edit_def)

text \<open>
  Applying one more action after a merged edit equals applying the edit merged with the action,
  for everything an edit determines, as long as the action adds no file the edit removes.
\<close>

definition edit_agree :: "region_manifest_builder \<Rightarrow> region_manifest_builder \<Rightarrow> bool" where
  "edit_agree b1 b2 \<longleftrightarrow>
     (\<forall>i. hmap_get (b_files b1) i = hmap_get (b_files b2) i)
     \<and> b_flushed_entry_id b1 = b_flushed_entry_id b2
     \<and> b_flushed_sequence b1 = b_flushed_sequence b2
     \<and> b_committed_sequence b1 = b_committed_sequence b2
     \<and> b_compaction_time_window b1 = b_compaction_time_window b2"

lemma edit_agree_sym: "edit_agree a b \<Longrightarrow> edit_agree b a"
  and edit_agree_trans: "edit_agree a b \<Longrightarrow> edit_agree b c \<Longrightarrow> edit_agree a c"
  and edit_agree_refl [simp]: "edit_agree a a"
  by (auto simp: edit_agree_def)

lemma edit_agree_action:
  "edit_agree b1 b2 \<Longrightarrow> \<not> is_truncate a \<Longrightarrow>
   edit_agree (apply_action pev clk ver a b1) (apply_action pev clk' ver' a b2)"
  by (cases a) (auto simp: edit_agree_def apply_change_def apply_partition_expr_change_def
      apply_edit_get apply_edit_scalars split: option.splits)

lemma merge_edit_agree:
  assumes "fm_file_id ` set (re_files_to_remove e1) \<inter> fm_file_id ` set (re_files_to_add e2) = {}"
  shows "edit_agree (apply_edit now2 ver2 e2 (apply_edit now1 ver1 e1 b))
    (apply_edit now3 ver3 (merge_edit e1 e2) b)"
proof -
  have "filter (\<lambda>f. fm_file_id f = i) (re_files_to_add e2) = []"
    if "i \<in> fm_file_id ` set (re_files_to_remove e1)" for i
    using assms that by (auto simp: filter_empty_conv)
  then show ?thesis
    by (auto simp: edit_agree_def apply_edit_get apply_edit_scalars merge_edit_def put_all_append
        max_option_merge merge_max_assoc split: option.splits)
qed

lemma apply_edit_empty_agree: "edit_agree b (apply_edit now ver edit_empty b)"
  by (simp add: edit_agree_def apply_edit_get apply_edit_scalars edit_empty_def)

lemma merged_edit_agree:
  assumes "edit_agree b (apply_edit now ver' edit b0)" and "no_readd actions"
    and "fm_file_id ` set (re_files_to_remove edit) \<inter> (\<Union>a \<in> set actions. added_ids a) = {}"
    and "\<forall>a \<in> set actions. \<not> is_truncate a"
  shows "edit_agree (apply_actions pev clk ver actions b)
    (apply_edit now ver' (merged_edit actions edit) b0)"
  using assms
proof (induction actions arbitrary: b edit)
  case (Cons a as)
  let ?edit = "case a of Edit e \<Rightarrow> merge_edit edit e | _ \<Rightarrow> edit"
  have step: "edit_agree (apply_action pev clk ver a b) (apply_edit now ver' ?edit b0)"
  proof (cases a)
    case (Edit e)
    have "edit_agree (apply_action pev clk ver a b) (apply_action pev clk ver a (apply_edit now ver' edit b0))"
      using Cons.prems by (intro edit_agree_action) auto
    moreover have "edit_agree (apply_action pev clk ver a (apply_edit now ver' edit b0))
        (apply_edit now ver' (merge_edit edit e) b0)"
      using Cons.prems(3) by (simp add: Edit) (rule merge_edit_agree, auto)
    ultimately show ?thesis by (simp add: Edit edit_agree_trans)
  qed (use Cons.prems in \<open>auto simp: edit_agree_def apply_change_def apply_partition_expr_change_def
      split: option.splits\<close>)
  have "fm_file_id ` set (re_files_to_remove ?edit) \<subseteq>
      fm_file_id ` set (re_files_to_remove edit) \<union> removed_ids a"
    by (cases a) (auto simp: merge_edit_def)
  with Cons.prems(2,3) have "fm_file_id ` set (re_files_to_remove ?edit) \<inter> (\<Union>a \<in> set as. added_ids a) = {}"
    unfolding no_readd.simps list.set UN_insert by blast
  with Cons.IH [OF step] Cons.prems show ?case by (simp add: apply_actions_def merged_edit_def)
qed (simp add: apply_actions_def merged_edit_def)

lemma split_edit_sequential:
  assumes "\<forall>a \<in> set actions. \<not> is_truncate a" and "no_readd actions"
  shows "edit_agree (apply_actions pev clk ver actions b) (apply_edit now ver' (split_edit actions) b)"
  using merged_edit_agree [OF apply_edit_empty_agree assms(2) _ assms(1), of pev clk ver b now ver']
  by (simp add: split_region_change_and_edit_def split_edit_merged edit_empty_def)

section \<open>Properties\<close>

text \<open>
  C10. Nothing the manifest ever referred to is forgotten. Replay any deltas, with edits, partial
  and full truncations in any order, on a well-formed builder: every data file that was in the
  manifest, was recorded as removed, or was added by some delta is afterwards still a file of the
  manifest or is recorded as a removed file, so garbage collection can find it.
\<close>

theorem replay_never_loses_a_file:
  assumes "builder_wf b"
    and "i \<in> dom (hmap_get (b_files b)) \<union> (\<Union>(ver, as) \<in> set deltas. \<Union>a \<in> set as. added_ids a)
      \<or> (\<exists>v. recorded (b_removed_files b) (File i v))"
  shows "builder_wf (replay pev clk deltas b)
    \<and> (i \<in> dom (hmap_get (b_files (replay pev clk deltas b)))
       \<or> (\<exists>v. recorded (b_removed_files (replay pev clk deltas b)) (File i v)))"
  using builder_wf_replay [OF assms(1)] replay_tracks [OF assms] by blast

theorem replay_never_loses_a_file_witness:
  "let f = file_meta_default\<lparr>fm_file_id := 9\<rparr>;
       t = \<lparr>rt_region_id = RegionId 1, rt_kind = TruncateAll 5 6, rt_timestamp_ms = None\<rparr>;
       deltas = [(1, [Edit (edit_empty\<lparr>re_files_to_add := [f]\<rparr>)]), (2, [Truncate t])];
       b = replay length (\<lambda>_ _. 0) deltas builder_default
   in b_files b = [] \<and> (\<exists>v. recorded (b_removed_files b) (File 9 v))"
proof -
  let ?f = "file_meta_default\<lparr>fm_file_id := 9\<rparr>"
  let ?t = "\<lparr>rt_region_id = RegionId 1, rt_kind = TruncateAll 5 6, rt_timestamp_ms = None\<rparr>"
  let ?d = "[(1, [Edit (edit_empty\<lparr>re_files_to_add := [?f]\<rparr>)]), (2, [Truncate ?t])]"
  have "b_files (replay length (\<lambda>_ _. 0) ?d builder_default) = []"
    by (simp add: replay_def apply_actions_def apply_truncate_def)
  moreover have "9 \<in> dom (hmap_get (b_files builder_default))
      \<union> (\<Union>(ver, as) \<in> set ?d. \<Union>a \<in> set as. added_ids a)"
    by simp
  ultimately show ?thesis
    using replay_never_loses_a_file [OF builder_wf_default, of 9 ?d length "\<lambda>_ _. 0"]
    by (simp add: Let_def)
qed

text \<open>
  No index file is orphaned by an edit. If a file of the manifest has an index of version \<open>v\<close>
  and the edit does not add an older index for it, then afterwards the file still has that index,
  or the index is recorded as removed, on its own or together with its data file.
\<close>

theorem edit_never_orphans_an_index:
  assumes wf: "builder_wf b" and f: "hmap_get (b_files b) i = Some f" and v: "index_version f = Some v"
    and newer: "\<forall>g \<in> set (re_files_to_add e). fm_file_id g = i \<longrightarrow> (\<forall>w. index_version g = Some w \<longrightarrow> v \<le> w)"
  shows "(\<exists>f'. hmap_get (b_files (apply_edit now ver e b)) i = Some f' \<and> index_version f' = Some v)
    \<or> recorded (b_removed_files (apply_edit now ver e b)) (Index i v)
    \<or> recorded (b_removed_files (apply_edit now ver e b)) (File i (Some v))"
proof -
  let ?files = "fold (\<lambda>f. hmap_insert (fm_file_id f) f) (re_files_to_add e) (b_files b)"
  have "fm_file_id f = i" using wf f by (simp add: builder_wf_def)
  with add_edit_files_index [of "(b_files b, [])" i f v "re_files_to_add e"] f v newer
  consider f' where "hmap_get ?files i = Some f'" "index_version f' = Some v"
    | "Index i v \<in> set (snd (fold add_edit_file (re_files_to_add e) (b_files b, [])))"
    by (auto simp: fst_add_edit_files)
  then show ?thesis
  proof cases
    case 1
    show ?thesis
    proof (cases "i \<in> fm_file_id ` set (re_files_to_remove e)")
      case True
      with 1 have "File i (Some v) \<in> removed_file_of ?files ` set (re_files_to_remove e)"
        by (force simp: removed_file_of_def image_iff)
      then show ?thesis by (simp add: apply_edit_recorded)
    next
      case False
      with 1 show ?thesis by (simp add: apply_edit_files remove_all_get)
    qed
  next
    case 2
    then show ?thesis by (simp add: apply_edit_recorded)
  qed
qed

text \<open>
  C35. Without a truncation in the list, applying actions never moves the flushed entry id or the
  flushed sequence backwards, so replay never starts before data that is already in files.
\<close>

theorem actions_keep_flushed_positions:
  assumes "\<forall>a \<in> set actions. \<not> is_truncate a"
  shows "b_flushed_entry_id b \<le> b_flushed_entry_id (apply_actions pev clk ver actions b)
    \<and> b_flushed_sequence b \<le> b_flushed_sequence (apply_actions pev clk ver actions b)"
  unfolding apply_actions_def
proof (rule fold_invariant_set [where P = "\<lambda>b'. b_flushed_entry_id b \<le> b_flushed_entry_id b'
    \<and> b_flushed_sequence b \<le> b_flushed_sequence b'"])
  fix a and b' :: region_manifest_builder
  assume "a \<in> set actions" and "b_flushed_entry_id b \<le> b_flushed_entry_id b'
    \<and> b_flushed_sequence b \<le> b_flushed_sequence b'"
  with assms action_scalars_mono [of a b' pev clk ver]
  show "b_flushed_entry_id b \<le> b_flushed_entry_id (apply_action pev clk ver a b')
    \<and> b_flushed_sequence b \<le> b_flushed_sequence (apply_action pev clk ver a b')" by fastforce
qed simp

theorem actions_keep_flushed_positions_witness:
  "let a = Edit (edit_empty\<lparr>re_flushed_entry_id := Some 3\<rparr>); b = builder_default\<lparr>b_flushed_entry_id := 8\<rparr>
   in 8 \<le> b_flushed_entry_id (apply_actions length (\<lambda>_ _. 0) 1 [a] b)"
  using actions_keep_flushed_positions [of "[Edit (edit_empty\<lparr>re_flushed_entry_id := Some 3\<rparr>)]"
      "builder_default\<lparr>b_flushed_entry_id := 8\<rparr>" length "\<lambda>_ _. 0" 1]
  by (simp add: Let_def)

text \<open>
  C36. Merging the edits of an action list into one, as \<open>split_region_change_and_edit\<close> does, has the
  effect of applying the actions one by one: the same files, flushed and committed positions and
  compaction window, provided the list has no truncation and adds no file that it removed before.
\<close>

theorem split_edit_equivalent:
  assumes "\<forall>a \<in> set actions. \<not> is_truncate a" and "no_readd actions"
  shows "edit_agree (apply_actions pev clk ver actions b) (apply_edit now ver' (split_edit actions) b)"
  by (rule split_edit_sequential [OF assms])

theorem split_edit_equivalent_witness:
  "let f = (\<lambda>n. file_meta_default\<lparr>fm_file_id := n\<rparr>);
       as = [Edit (edit_empty\<lparr>re_files_to_add := [f 1], re_flushed_entry_id := Some 4\<rparr>),
             Edit (edit_empty\<lparr>re_files_to_add := [f 2], re_files_to_remove := [f 1]\<rparr>)]
   in edit_agree (apply_actions length (\<lambda>_ _. 0) 1 as builder_default)
        (apply_edit 0 1 (split_edit as) builder_default)"
  unfolding Let_def by (rule split_edit_equivalent) (simp_all add: edit_empty_def)

end
