(* ===== verification/Time_Partition.thy ===== *)
theory Time_Partition
  imports Manifest
begin

text \<open>
  Time partitions of the mutable memtable, \<open>src/src/mito2/src/memtable/time_partition.rs\<close>: rows are
  routed to partitions aligned to a duration in seconds, each holding one memtable. A memtable is
  the list of rows written to it with its id and frozen flag, which is what the partitions use of
  the \<open>Memtable\<close> trait; errors of the memtable implementations are not modelled. The kernels of the Arrow library that filter a batch are the argument \<open>ao\<close>;
  the conversion of key values to a batch is the argument \<open>conv\<close>. Partitions are identified by
  their position, which is stable because partitions are only appended.
\<close>

unbundle bit_operations_syntax

section \<open>Definitions\<close>

subsection \<open>Rows and memtables\<close>

datatype op_type = OpDelete | OpPut

record kv =
  kv_timestamp :: timestamp
  kv_sequence :: nat
  kv_op_type :: "op_type option"

record memtable =
  mt_id :: nat
  mt_rows :: "kv list"
  mt_frozen :: bool

definition mt_build :: "nat \<Rightarrow> memtable" where
  "mt_build i = \<lparr>mt_id = i, mt_rows = [], mt_frozen = False\<rparr>"

definition mt_write :: "kv list \<Rightarrow> memtable \<Rightarrow> memtable" where
  "mt_write kvs m = m\<lparr>mt_rows := mt_rows m @ kvs\<rparr>"

definition mt_is_empty :: "memtable \<Rightarrow> bool" where
  "mt_is_empty m \<longleftrightarrow> mt_rows m = []"

text \<open>The time range of the statistics of a memtable: its least and greatest timestamps.\<close>

definition mt_time_range :: "memtable \<Rightarrow> (timestamp \<times> timestamp) option" where
  "mt_time_range m =
     (case map kv_timestamp (mt_rows m) of
        [] \<Rightarrow> None
      | t # ts \<Rightarrow> Some (fold ts_min ts t, fold ts_max ts t))"

subsection \<open>Ranges of partitions\<close>

record part_time_range =
  pr_min :: timestamp
  pr_max :: timestamp

definition from_start_duration :: "timestamp \<Rightarrow> duration \<Rightarrow> part_time_range option" where
  "from_start_duration start dur =
     Option.bind (convert_to start Second) (\<lambda>start_sec.
     case add_duration start_sec dur of
       Inl _ \<Rightarrow> None
     | Inr end_sec \<Rightarrow>
         Option.bind (convert_to start_sec (ts_unit start)) (\<lambda>min_timestamp.
         Option.bind (convert_to end_sec (ts_unit start)) (\<lambda>max_timestamp.
         Some \<lparr>pr_min = min_timestamp, pr_max = max_timestamp\<rparr>)))"

definition range_contains_timestamp :: "part_time_range \<Rightarrow> timestamp \<Rightarrow> bool" where
  "range_contains_timestamp r ts \<longleftrightarrow> pr_min r \<le> ts \<and> ts < pr_max r"

definition partition_start_timestamp :: "timestamp \<Rightarrow> duration \<Rightarrow> timestamp option outcome" where
  "partition_start_timestamp ts bucket =
     bind_outcome (unwrap (convert_to ts Second)) (\<lambda>ts_sec.
     case try_i64 (duration_as Second bucket) of
       None \<Rightarrow> Ret None
     | Some bucket_sec \<Rightarrow>
         bind_outcome (ts_align_by_bucket ts_sec bucket_sec) (\<lambda>start_sec.
         Ret (Option.bind start_sec (\<lambda>s. convert_to s (ts_unit ts)))))"

record time_partition =
  tpart_memtable :: memtable
  tpart_range :: part_time_range

definition part_contains :: "time_partition \<Rightarrow> timestamp \<Rightarrow> bool" where
  "part_contains p ts = range_contains_timestamp (tpart_range p) ts"

definition part_write :: "kv list \<Rightarrow> time_partition \<Rightarrow> time_partition" where
  "part_write kvs p = p\<lparr>tpart_memtable := mt_write kvs (tpart_memtable p)\<rparr>"

subsection \<open>Partitions\<close>

text \<open>
  \<open>tp_unit\<close> is the unit of the time index of the region, \<open>tp_bulk\<close> whether the memtable builder
  uses bulk insert.
\<close>

record time_partitions =
  tp_parts :: "time_partition list"
  tp_next_memtable_id :: nat
  tp_part_duration :: duration
  tp_metadata :: region_metadata
  tp_unit :: time_unit
  tp_bulk :: bool

definition INITIAL_TIME_WINDOW :: duration where
  "INITIAL_TIME_WINDOW = \<lparr>dur_secs = 24 * 60 * 60, dur_nanos = 0\<rparr>"

definition tp_new :: "region_metadata \<Rightarrow> time_unit \<Rightarrow> bool \<Rightarrow> nat \<Rightarrow> duration option \<Rightarrow> time_partitions" where
  "tp_new metadata u bulk next_id dur =
     \<lparr>tp_parts = [], tp_next_memtable_id = next_id,
      tp_part_duration = (case dur of Some d \<Rightarrow> d | None \<Rightarrow> INITIAL_TIME_WINDOW),
      tp_metadata = metadata, tp_unit = u, tp_bulk = bulk\<rparr>"

text \<open>A \<open>MemtableId\<close> is a \<open>u32\<close>, so the next id wraps.\<close>

definition alloc_memtable_id :: "time_partitions \<Rightarrow> nat \<times> time_partitions" where
  "alloc_memtable_id tp =
     (tp_next_memtable_id tp, tp\<lparr>tp_next_memtable_id := (tp_next_memtable_id tp + 1) mod 2 ^ 32\<rparr>)"

datatype write_error = InvalidRequest

definition get_or_create_time_partition ::
  "timestamp \<Rightarrow> time_partitions \<Rightarrow> write_error + (nat \<times> time_partitions)" where
  "get_or_create_time_partition part_start tp =
     (case position (\<lambda>p. ts_eq (pr_min (tpart_range p)) part_start) (tp_parts tp) of
        Some pos \<Rightarrow> Inr (pos, tp)
      | None \<Rightarrow>
          (case from_start_duration part_start (tp_part_duration tp) of
             None \<Rightarrow> Inl InvalidRequest
           | Some rng \<Rightarrow>
               (let (mid, tp') = alloc_memtable_id tp;
                    part = \<lparr>tpart_memtable = mt_build mid, tpart_range = rng\<rparr>
                in Inr (length (tp_parts tp'), tp'\<lparr>tp_parts := tp_parts tp' @ [part]\<rparr>))))"

definition write_part :: "nat \<Rightarrow> kv list \<Rightarrow> time_partitions \<Rightarrow> time_partitions" where
  "write_part i kvs tp = tp\<lparr>tp_parts := (tp_parts tp)[i := part_write kvs (tp_parts tp ! i)]\<rparr>"

subsection \<open>Writing key values\<close>

definition push_entry :: "'k \<Rightarrow> 'v \<Rightarrow> kv \<Rightarrow> ('k, 'v \<times> kv list) hmap \<Rightarrow> ('k, 'v \<times> kv list) hmap" where
  "push_entry k v x m =
     (let (v', xs) = (case hmap_get m k of Some e \<Rightarrow> e | None \<Rightarrow> (v, []))
      in hmap_insert k (v', xs @ [x]) m)"

text \<open>One row of the loop of \<open>write_multi_parts\<close>: rows for existing and for missing partitions.\<close>

type_synonym routed = "(timestamp, nat \<times> kv list) hmap \<times> (timestamp, unit \<times> kv list) hmap"

fun route_kv :: "time_partitions \<Rightarrow> kv \<Rightarrow> routed \<Rightarrow> (write_error, routed) fallible" where
  "route_kv tp x (parts_to_write, missing_parts) =
     (let ts = kv_timestamp x
      in case position (\<lambda>p. part_contains p ts) (tp_parts tp) of
           Some i \<Rightarrow>
             Ret (Inr (push_entry (pr_min (tpart_range (tp_parts tp ! i))) i x parts_to_write, missing_parts))
         | None \<Rightarrow>
             (case partition_start_timestamp ts (tp_part_duration tp) of
                Panic \<Rightarrow> Panic
              | Ret None \<Rightarrow> Ret (Inl InvalidRequest)
              | Ret (Some part_start) \<Rightarrow>
                  Ret (Inr (parts_to_write, push_entry part_start () x missing_parts))))"

definition write_existing :: "(timestamp, nat \<times> kv list) hmap \<Rightarrow> time_partitions \<Rightarrow> time_partitions" where
  "write_existing m tp = fold (\<lambda>(i, kvs). write_part i kvs) (hmap_values m) tp"

definition write_missing ::
  "timestamp \<times> unit \<times> kv list \<Rightarrow> time_partitions \<Rightarrow> (write_error, time_partitions) fallible" where
  "write_missing e tp =
     (case e of (part_start, _, kvs) \<Rightarrow>
        (case get_or_create_time_partition part_start tp of
           Inl err \<Rightarrow> Ret (Inl err)
         | Inr (i, tp') \<Rightarrow> Ret (Inr (write_part i kvs tp'))))"

definition write_multi_parts :: "kv list \<Rightarrow> time_partitions \<Rightarrow> (write_error, time_partitions) fallible" where
  "write_multi_parts kvs tp =
     bind_fallible (fold_fallible (route_kv tp) kvs ([], [])) (\<lambda>(parts_to_write, missing_parts).
     fold_fallible write_missing missing_parts (write_existing parts_to_write tp))"

text \<open>The partitions are tried from the last to the first.\<close>

definition single_part :: "kv list \<Rightarrow> time_partitions \<Rightarrow> nat option" where
  "single_part kvs tp =
     find (\<lambda>i. list_all (\<lambda>x. part_contains (tp_parts tp ! i) (kv_timestamp x)) kvs)
       (rev [0..<length (tp_parts tp)])"

subsection \<open>Writing a batch\<close>

record bulk_part =
  bp_rows :: "kv list"
  bp_min_timestamp :: int
  bp_max_timestamp :: int
  bp_sequence :: nat

record arrow_ops =
  ao_filter :: "kv list \<Rightarrow> bool list \<Rightarrow> kv list"
  ao_min :: "int list \<Rightarrow> int option"
  ao_max :: "int list \<Rightarrow> int option"

text \<open>The filter bits, packed into 64-bit words with a last word for the remainder.\<close>

definition pack_bits :: "(nat \<Rightarrow> bool) \<Rightarrow> nat \<Rightarrow> nat \<Rightarrow> 64 word" where
  "pack_bits f chunk n =
     fold (\<lambda>bit_idx packed. packed OR push_bit bit_idx (of_bool (f (bit_idx + chunk * 64)))) [0..<n] 0"

definition create_filter_buffer :: "int list \<Rightarrow> int \<Rightarrow> int \<Rightarrow> 64 word list" where
  "create_filter_buffer ts_array mn mx =
     (let len = length ts_array;
          f = (\<lambda>idx. ts_array ! idx \<ge> mn \<and> ts_array ! idx < mx);
          chunks = len div 64;
          remainder = len mod 64
      in map (\<lambda>chunk. pack_bits f chunk 64) [0..<chunks]
         @ (if remainder \<noteq> 0 then [pack_bits f chunks remainder] else []))"

definition buffer_bits :: "64 word list \<Rightarrow> nat \<Rightarrow> bool list" where
  "buffer_bits ws len = map (\<lambda>i. bit (ws ! (i div 64)) (i mod 64)) [0..<len]"

abbreviation row_values :: "kv list \<Rightarrow> int list" where
  "row_values rows \<equiv> map (\<lambda>r. ts_value (kv_timestamp r)) rows"

definition filter_record_batch :: "arrow_ops \<Rightarrow> bulk_part \<Rightarrow> int \<Rightarrow> int \<Rightarrow> bulk_part option outcome" where
  "filter_record_batch ao part mn mx =
     (let ts_array = row_values (bp_rows part);
          bits = buffer_bits (create_filter_buffer ts_array mn mx) (length ts_array);
          rows = ao_filter ao (bp_rows part) bits
      in if rows = [] then Ret None
         else bind_outcome (unwrap (ao_max ao (row_values rows))) (\<lambda>max_ts.
              bind_outcome (unwrap (ao_min ao (row_values rows))) (\<lambda>min_ts.
              Ret (Some (part\<lparr>bp_rows := rows, bp_max_timestamp := max_ts, bp_min_timestamp := min_ts\<rparr>)))))"

definition write_record_batch_partial ::
  "arrow_ops \<Rightarrow> bulk_part \<Rightarrow> nat \<Rightarrow> time_partitions \<Rightarrow> (write_error, time_partitions) fallible" where
  "write_record_batch_partial ao part i tp =
     (let r = tpart_range (tp_parts tp ! i)
      in case filter_record_batch ao part (ts_value (pr_min r)) (ts_value (pr_max r)) of
           Panic \<Rightarrow> Panic
         | Ret None \<Rightarrow> Ret (Inr tp)
         | Ret (Some filtered) \<Rightarrow> Ret (Inr (write_part i (bp_rows filtered) tp)))"

text \<open>
  The starts of missing partitions, either of every bucket of the range or of the buckets of the
  rows; \<open>present\<close> is the set of starts seen so far.
\<close>

definition usize_of_i64 :: "int \<Rightarrow> nat" where
  "usize_of_i64 x = nat (x mod 2 ^ 64)"

fun collect_missing ::
  "(int \<Rightarrow> timestamp option outcome) \<Rightarrow> int list \<Rightarrow> int set \<Rightarrow> (write_error, timestamp list) fallible" where
  "collect_missing start [] present = Ret (Inr [])"
| "collect_missing start (x # xs) present =
     (case start x of
        Panic \<Rightarrow> Panic
      | Ret None \<Rightarrow> Ret (Inl InvalidRequest)
      | Ret (Some ts) \<Rightarrow>
          (if ts_value ts \<notin> present
           then bind_fallible (collect_missing start xs (insert (ts_value ts) present))
                  (\<lambda>rest. Ret (Inr (ts # rest)))
           else collect_missing start xs present))"

definition div_euclid_or_panic :: "int \<Rightarrow> int \<Rightarrow> int outcome" where
  "div_euclid_or_panic a b = (if b = 0 then Panic else Ret (wrap_i64 (div_euclid a b)))"

definition find_partitions_by_time_range ::
  "time_partitions \<Rightarrow> int list \<Rightarrow> timestamp \<Rightarrow> timestamp \<Rightarrow> (write_error, nat list \<times> timestamp list) fallible"
  where
  "find_partitions_by_time_range tp ts_array mn mx =
     (let matching =
            filter (\<lambda>i. let r = tpart_range (tp_parts tp ! i) in \<not> (mx < pr_min r \<or> mn \<ge> pr_max r))
              [0..<length (tp_parts tp)];
          present = set (map (\<lambda>i. ts_value (pr_min (tpart_range (tp_parts tp ! i)))) matching);
          part_duration_sec = wrap_i64 (duration_as Second (tp_part_duration tp))
      in bind_outcome (unwrap (convert_to mn Second)) (\<lambda>mn_sec.
         bind_outcome (div_euclid_or_panic (ts_value mn_sec) part_duration_sec) (\<lambda>start_bucket.
         bind_outcome (unwrap (convert_to mx Second)) (\<lambda>mx_sec.
         bind_outcome (div_euclid_or_panic (ts_value mx_sec) part_duration_sec) (\<lambda>end_bucket.
         let bucket_num = usize_of_i64 (wrap_i64 (wrap_i64 (end_bucket - start_bucket) + 1))
         in bind_fallible
              (if bucket_num \<le> length ts_array
               then collect_missing
                      (\<lambda>b. Ret (convert_to (new_second (wrap_i64 (b * part_duration_sec))) (tp_unit tp)))
                      [start_bucket..end_bucket] present
               else collect_missing
                      (\<lambda>v. bind_outcome (unwrap (convert_to (ts_new v (tp_unit tp)) Second)) (\<lambda>s.
                           bind_outcome (ts_align_by_bucket s part_duration_sec) (\<lambda>a.
                           Ret (Option.bind a (\<lambda>a. convert_to a (tp_unit tp))))))
                      ts_array present)
              (\<lambda>missing. Ret (Inr (matching, missing))))))))"

definition write_bulk_inner ::
  "arrow_ops \<Rightarrow> bulk_part \<Rightarrow> time_partitions \<Rightarrow> (write_error, time_partitions) fallible" where
  "write_bulk_inner ao part tp =
     bind_fallible
       (find_partitions_by_time_range tp (row_values (bp_rows part))
          (ts_new (bp_min_timestamp part) (tp_unit tp)) (ts_new (bp_max_timestamp part) (tp_unit tp)))
       (\<lambda>(matching, missing).
          if length matching = 1 \<and> missing = []
          then Ret (Inr (write_part (hd matching) (bp_rows part) tp))
          else bind_fallible (fold_fallible (write_record_batch_partial ao part) matching tp) (\<lambda>tp.
               fold_fallible (\<lambda>start tp.
                 case get_or_create_time_partition start tp of
                   Inl err \<Rightarrow> Ret (Inl err)
                 | Inr (i, tp') \<Rightarrow> write_record_batch_partial ao part i tp') missing tp))"

definition tp_write ::
  "arrow_ops \<Rightarrow> (kv list \<Rightarrow> write_error + bulk_part) \<Rightarrow> kv list \<Rightarrow> time_partitions
     \<Rightarrow> (write_error, time_partitions) fallible" where
  "tp_write ao conv kvs tp =
     (if tp_bulk tp
      then (case conv kvs of Inl e \<Rightarrow> Ret (Inl e) | Inr part \<Rightarrow> write_bulk_inner ao part tp)
      else (case single_part kvs tp of
              Some i \<Rightarrow> Ret (Inr (write_part i kvs tp))
            | None \<Rightarrow> write_multi_parts kvs tp))"

text \<open>
  The batch of a request has neither sequence numbers nor operations: its rows are stored as puts
  with the sequence number of the batch. (A memtable of time series counts up from that number
  within a part; the number recorded here is that of the batch.) The conversion of a batch to the
  schema of bulk memtables adds both columns; it may return no batch at all.
\<close>

definition stamped :: "bulk_part \<Rightarrow> bulk_part" where
  "stamped part = part\<lparr>bp_rows := map (\<lambda>x. x\<lparr>kv_sequence := bp_sequence part, kv_op_type := Some OpPut\<rparr>) (bp_rows part)\<rparr>"

definition tp_write_bulk ::
  "arrow_ops \<Rightarrow> (bulk_part \<Rightarrow> write_error + bulk_part option) \<Rightarrow> bulk_part \<Rightarrow> time_partitions
     \<Rightarrow> (write_error, time_partitions) fallible" where
  "tp_write_bulk ao convert_bulk_part part tp =
     (if tp_bulk tp
      then (case convert_bulk_part part of
              Inl e \<Rightarrow> Ret (Inl e)
            | Inr None \<Rightarrow> Ret (Inr tp)
            | Inr (Some p) \<Rightarrow> write_bulk_inner ao p tp)
      else write_bulk_inner ao (stamped part) tp)"

subsection \<open>Freezing and forking\<close>

definition tp_memtables :: "time_partitions \<Rightarrow> memtable list" where
  "tp_memtables tp = map tpart_memtable (tp_parts tp)"

definition tp_is_empty :: "time_partitions \<Rightarrow> bool" where
  "tp_is_empty tp \<longleftrightarrow> list_all (\<lambda>p. mt_is_empty (tpart_memtable p)) (tp_parts tp)"

definition tp_freeze :: "time_partitions \<Rightarrow> time_partitions" where
  "tp_freeze tp =
     tp\<lparr>tp_parts := map (\<lambda>p. p\<lparr>tpart_memtable := (tpart_memtable p)\<lparr>mt_frozen := True\<rparr>\<rparr>) (tp_parts tp)\<rparr>"

text \<open>\<open>max_by_key\<close> returns the last of the greatest elements.\<close>

fun max_part :: "time_partition list \<Rightarrow> time_partition option" where
  "max_part [] = None"
| "max_part (p # ps) =
     (case max_part ps of
        None \<Rightarrow> Some p
      | Some q \<Rightarrow> if pr_min (tpart_range p) > pr_min (tpart_range q) then Some p else Some q)"

text \<open>
  The new partitions and, because forking allocates an id from the old ones, the old partitions.
\<close>

definition tp_fork ::
  "region_metadata \<Rightarrow> duration option \<Rightarrow> time_partitions \<Rightarrow> (time_partitions \<times> time_partitions) outcome" where
  "tp_fork metadata dur tp =
     (let part_duration = (case dur of Some d \<Rightarrow> d | None \<Rightarrow> tp_part_duration tp);
          empty = (\<lambda>tp. tp\<lparr>tp_parts := [], tp_part_duration := part_duration, tp_metadata := metadata\<rparr>)
      in case max_part (tp_parts tp) of
           None \<Rightarrow>
             Ret (tp_new metadata (tp_unit tp) (tp_bulk tp) (tp_next_memtable_id tp) (Some part_duration), tp)
         | Some old_part \<Rightarrow>
             (case mt_time_range (tpart_memtable old_part) of
                None \<Rightarrow> Ret (empty tp, tp)
              | Some (_, end_ts) \<Rightarrow>
                  (case partition_start_timestamp end_ts part_duration of
                     Panic \<Rightarrow> Panic
                   | Ret start \<Rightarrow>
                       (case Option.bind start (\<lambda>s. from_start_duration s part_duration) of
                          None \<Rightarrow> Ret (empty tp, tp)
                        | Some rng \<Rightarrow>
                            (let (mid, tp') = alloc_memtable_id tp
                             in Ret ((empty tp')\<lparr>tp_parts := [\<lparr>tpart_memtable = mt_build mid,
                                                             tpart_range = rng\<rparr>]\<rparr>, tp'))))))"

text \<open>A new memtable builder, if there is one, says whether to use bulk insert.\<close>

definition new_with_part_duration :: "duration option \<Rightarrow> bool option \<Rightarrow> time_partitions \<Rightarrow> time_partitions" where
  "new_with_part_duration dur builder tp =
     tp_new (tp_metadata tp) (tp_unit tp) (case builder of Some b \<Rightarrow> b | None \<Rightarrow> tp_bulk tp)
       (tp_next_memtable_id tp) (Some (case dur of Some d \<Rightarrow> d | None \<Rightarrow> tp_part_duration tp))"

definition tp_num_rows :: "time_partitions \<Rightarrow> nat" where
  "tp_num_rows tp = sum_u64 (map (\<lambda>p. length (mt_rows (tpart_memtable p))) (tp_parts tp))"

subsection \<open>Specification side\<close>

text \<open>
  In ticks of the time index unit, partition \<open>k\<close> covers the values from \<open>k * width\<close> up to
  \<open>(k + 1) * width\<close>. A well-formed list of partitions has one partition per bucket at most and holds
  in each only rows of its bucket.
\<close>

definition ticks :: "time_unit \<Rightarrow> int" where
  "ticks u = 1000000000 div factor u"

definition tp_secs :: "time_partitions \<Rightarrow> int" where
  "tp_secs tp = duration_as Second (tp_part_duration tp)"

definition tp_width :: "time_partitions \<Rightarrow> int" where
  "tp_width tp = tp_secs tp * ticks (tp_unit tp)"

definition row_ok :: "time_partitions \<Rightarrow> kv \<Rightarrow> bool" where
  "row_ok tp r \<longleftrightarrow> ts_unit (kv_timestamp r) = tp_unit tp \<and> in_i64 (ts_value (kv_timestamp r))"

definition row_bucket :: "time_partitions \<Rightarrow> kv \<Rightarrow> int" where
  "row_bucket tp r = ts_value (kv_timestamp r) div tp_width tp"

definition bucket_range :: "time_partitions \<Rightarrow> int \<Rightarrow> part_time_range" where
  "bucket_range tp k =
     \<lparr>pr_min = ts_new (k * tp_width tp) (tp_unit tp), pr_max = ts_new ((k + 1) * tp_width tp) (tp_unit tp)\<rparr>"

definition part_bucket :: "time_partitions \<Rightarrow> time_partition \<Rightarrow> int \<Rightarrow> bool" where
  "part_bucket tp p k \<longleftrightarrow>
     tpart_range p = bucket_range tp k \<and> in_i64 (k * tp_width tp) \<and> in_i64 ((k + 1) * tp_width tp)
     \<and> (\<forall>r \<in> set (mt_rows (tpart_memtable p)). row_ok tp r \<and> row_bucket tp r = k)"

definition tp_rows :: "time_partitions \<Rightarrow> kv list" where
  "tp_rows tp = concat (map (\<lambda>p. mt_rows (tpart_memtable p)) (tp_parts tp))"

definition tp_starts :: "time_partitions \<Rightarrow> int list" where
  "tp_starts tp = map (\<lambda>p. ts_value (pr_min (tpart_range p))) (tp_parts tp)"

definition tp_wf :: "time_partitions \<Rightarrow> bool" where
  "tp_wf tp \<longleftrightarrow>
     0 < tp_secs tp \<and> in_i64 (tp_secs tp)
     \<and> (\<forall>p \<in> set (tp_parts tp). \<exists>k. part_bucket tp p k)
     \<and> distinct (tp_starts tp)"

definition same_config :: "time_partitions \<Rightarrow> time_partitions \<Rightarrow> bool" where
  "same_config tp tp' \<longleftrightarrow> tp_part_duration tp' = tp_part_duration tp \<and> tp_unit tp' = tp_unit tp"

section \<open>Arithmetic of buckets\<close>

lemma ticks_pos [simp]: "0 < ticks u" "ticks u \<noteq> 0"
  "ticks u * factor u = 1000000000" "factor u * ticks u = 1000000000"
  by (cases u; simp add: ticks_def)+

lemma instant_div_factor: "s * 1000000000 div factor u = s * ticks u"
  by (cases u) (simp_all add: ticks_def)

lemma convert_from_second:
  "in_i64 s \<Longrightarrow> convert_to (ts_new s Second) u = map_option (\<lambda>v. ts_new v u) (try_i64 (s * ticks u))"
  by (simp add: convert_to_eq ts_wf_def instant_ns_def instant_div_factor)

lemma convert_to_second_ticks:
  assumes "in_i64 v"
  shows "convert_to (ts_new v u) Second = Some (ts_new (v div ticks u) Second)"
    and "in_i64 (v div ticks u)"
proof -
  have "v * factor u div 1000000000 = v div ticks u"
    using div_mult_mult2 [of "factor u" v "ticks u"] by simp
  then show "convert_to (ts_new v u) Second = Some (ts_new (v div ticks u) Second)"
    and "in_i64 (v div ticks u)"
    using convert_to_second [of "ts_new v u"] assms by (simp_all add: instant_ns_def ts_wf_def)
qed

lemma div_eq_iff_bounds:
  fixes v w k :: int
  assumes "0 < w"
  shows "v div w = k \<longleftrightarrow> k * w \<le> v \<and> v < (k + 1) * w"
proof
  assume "v div w = k"
  moreover have "v = v div w * w + v mod w" by simp
  ultimately have "v = k * w + v mod w" by simp
  moreover have "(k + 1) * w = k * w + w" by (simp add: algebra_simps)
  ultimately show "k * w \<le> v \<and> v < (k + 1) * w"
    using assms pos_mod_bound [of w v] pos_mod_sign [of w v] by linarith
next
  assume "k * w \<le> v \<and> v < (k + 1) * w"
  with assms show "v div w = k"
    by (intro int_div_pos_eq [where r = "v - k * w"]) (auto simp: algebra_simps)
qed

lemma floor_mult_in_i64:
  assumes "0 < a" and "0 < b" and "in_i64 (x * (a * b))"
  shows "in_i64 (x * a)"
proof -
  have "\<bar>x * a\<bar> * 1 \<le> \<bar>x * a\<bar> * b" using assms(2) by (intro mult_left_mono) auto
  then have "\<bar>x * a\<bar> \<le> \<bar>x * (a * b)\<bar>" using assms(2) by (simp add: abs_mult mult.assoc)
  moreover have "x * a < 0 \<longleftrightarrow> x * (a * b) < 0" using assms(1,2) by (auto simp: mult_less_0_iff)
  ultimately show ?thesis using assms(3) by (auto simp: i64_defs abs_if split: if_splits)
qed

lemma partition_start_eq:
  assumes v: "in_i64 v" and d: "0 < duration_as Second dur" "in_i64 (duration_as Second dur)"
  shows "partition_start_timestamp (ts_new v u) dur =
    Ret (let w = duration_as Second dur * ticks u
         in map_option (\<lambda>x. ts_new x u) (try_i64 (v div w * w)))"
proof -
  let ?d = "duration_as Second dur"
  let ?s = "v div ticks u"
  have s: "in_i64 ?s" using v by (rule convert_to_second_ticks)
  have eq: "?s div ?d * ?d * ticks u = v div (?d * ticks u) * (?d * ticks u)"
    using zdiv_zmult2_eq [of ?d v "ticks u"] d(1) by (simp add: mult.commute mult.left_commute)
  have "in_i64 (?s div ?d * ?d)" if "in_i64 (v div (?d * ticks u) * (?d * ticks u))"
    using floor_mult_in_i64 [of ?d "ticks u" "?s div ?d"] d that eq by (simp add: mult.assoc)
  then show ?thesis
    using d s eq
    by (auto simp: partition_start_timestamp_def convert_to_second_ticks(1) [OF v, simplified]
        ts_align_by_bucket_def align_by_bucket_eq try_i64_def convert_from_second [simplified] Let_def
        mult.assoc)
qed

lemma from_start_duration_eq:
  assumes k: "in_i64 (k * (d * ticks u))" and d: "d = duration_as Second dur" "0 < d" "in_i64 d"
  shows "from_start_duration (ts_new (k * (d * ticks u)) u) dur =
    (if in_i64 ((k + 1) * (d * ticks u))
     then Some \<lparr>pr_min = ts_new (k * (d * ticks u)) u, pr_max = ts_new ((k + 1) * (d * ticks u)) u\<rparr>
     else None)"
proof -
  have eq: "k * (d * ticks u) div ticks u = k * d" by (simp flip: mult.assoc)
  have s: "in_i64 (k * d)" using convert_to_second_ticks(2) [OF k, of u] by (simp add: eq)
  have e: "k * d + d = (k + 1) * d" by (simp add: algebra_simps)
  have "in_i64 ((k + 1) * d)" if "in_i64 ((k + 1) * (d * ticks u))"
    using floor_mult_in_i64 [of d "ticks u" "k + 1"] d that by simp
  moreover have "convert_to (ts_new (k * (d * ticks u)) u) Second = Some (ts_new (k * d) Second)"
    by (simp add: convert_to_second_ticks [OF k, simplified] eq)
  moreover have "int (dur_secs dur) = d" using d(1) by simp
  ultimately show ?thesis
    using s d(2,3) k e convert_from_second [of "k * d" u] convert_from_second [of "(k + 1) * d" u]
    by (simp add: from_start_duration_def add_duration_def checked_ops try_i64_def mult.assoc)
qed

section \<open>Partitions and their buckets\<close>

lemma tp_width_pos: "0 < tp_secs tp \<Longrightarrow> 0 < tp_width tp"
  by (simp add: tp_width_def)

lemma same_config_simps:
  assumes "same_config tp tp'"
  shows "tp_width tp' = tp_width tp" "tp_secs tp' = tp_secs tp" "tp_unit tp' = tp_unit tp"
    "tp_part_duration tp' = tp_part_duration tp"
    "row_ok tp' = row_ok tp" "row_bucket tp' = row_bucket tp" "bucket_range tp' = bucket_range tp"
    "part_bucket tp' = part_bucket tp"
  using assms
  by (auto simp: same_config_def tp_width_def tp_secs_def row_ok_def row_bucket_def bucket_range_def
      part_bucket_def fun_eq_iff)

lemma same_config_refl [simp]: "same_config tp tp"
  and same_config_trans: "same_config a b \<Longrightarrow> same_config b c \<Longrightarrow> same_config a c"
  by (auto simp: same_config_def)

lemma part_contains_bucket:
  assumes "0 < tp_secs tp" and "part_bucket tp p k" and "row_ok tp r"
  shows "part_contains p (kv_timestamp r) \<longleftrightarrow> row_bucket tp r = k"
  using assms div_eq_iff_bounds [OF tp_width_pos [OF assms(1)], of "ts_value (kv_timestamp r)" k]
  by (auto simp: part_contains_def range_contains_timestamp_def part_bucket_def bucket_range_def
      ts_order instant_ns_same_unit row_ok_def row_bucket_def)

lemma write_part_simps [simp]:
  "tp_part_duration (write_part i kvs tp) = tp_part_duration tp"
  "tp_unit (write_part i kvs tp) = tp_unit tp"
  "tp_next_memtable_id (write_part i kvs tp) = tp_next_memtable_id tp"
  "length (tp_parts (write_part i kvs tp)) = length (tp_parts tp)"
  by (simp_all add: write_part_def)

lemma same_config_write_part [simp]: "same_config tp (write_part i kvs tp)"
  by (simp add: same_config_def)

lemma write_part_nth:
  "j < length (tp_parts tp) \<Longrightarrow>
   tp_parts (write_part i kvs tp) ! j = (if i = j then part_write kvs (tp_parts tp ! j) else tp_parts tp ! j)"
  by (auto simp: write_part_def nth_list_update)

lemma part_write_simps [simp]:
  "tpart_range (part_write kvs p) = tpart_range p"
  "mt_id (tpart_memtable (part_write kvs p)) = mt_id (tpart_memtable p)"
  "mt_rows (tpart_memtable (part_write kvs p)) = mt_rows (tpart_memtable p) @ kvs"
  by (simp_all add: part_write_def mt_write_def)

lemma write_part_maps:
  assumes "i < length (tp_parts tp)"
  shows "tp_starts (write_part i kvs tp) = tp_starts tp"
  using assms by (auto simp: tp_starts_def write_part_nth intro: nth_equalityI)

lemma tp_wf_nth: "tp_wf tp \<Longrightarrow> j < length (tp_parts tp) \<Longrightarrow> \<exists>k. part_bucket tp (tp_parts tp ! j) k"
  using nth_mem by (fastforce simp: tp_wf_def)

lemma write_part_wf:
  assumes wf: "tp_wf tp" and i: "i < length (tp_parts tp)" and k: "part_bucket tp (tp_parts tp ! i) k"
    and kvs: "\<forall>x \<in> set kvs. row_ok tp x \<and> row_bucket tp x = k"
  shows "tp_wf (write_part i kvs tp)"
proof -
  let ?tp = "write_part i kvs tp"
  note cfg = same_config_simps [OF same_config_write_part [of tp i kvs]]
  have "\<exists>k. part_bucket tp p k" if p: "p \<in> set (tp_parts ?tp)" for p
  proof -
    from p obtain j where j: "j < length (tp_parts tp)" "p = tp_parts ?tp ! j"
      by (auto simp: in_set_conv_nth)
    obtain k' where "part_bucket tp (tp_parts tp ! j) k'" using tp_wf_nth [OF wf j(1)] by blast
    moreover have "part_bucket tp (part_write kvs (tp_parts tp ! i)) k"
      using k kvs by (auto simp: part_bucket_def)
    ultimately show ?thesis
      using j by (cases "i = j") (auto simp: write_part_nth)
  qed
  with wf show ?thesis
    by (simp add: tp_wf_def cfg write_part_maps [OF i])
qed

lemma mset_tp_rows_write_part:
  assumes "i < length (tp_parts tp)"
  shows "mset (tp_rows (write_part i kvs tp)) = mset (tp_rows tp) + mset kvs"
proof -
  let ?f = "\<lambda>p. mt_rows (tpart_memtable p)"
  have "tp_rows tp = concat (map ?f (take i (tp_parts tp))) @ ?f (tp_parts tp ! i)
      @ concat (map ?f (drop (Suc i) (tp_parts tp)))"
    unfolding tp_rows_def by (subst id_take_nth_drop [OF assms]) simp
  moreover have "tp_rows (write_part i kvs tp) = concat (map ?f (take i (tp_parts tp)))
      @ (?f (tp_parts tp ! i) @ kvs) @ concat (map ?f (drop (Suc i) (tp_parts tp)))"
    using assms by (simp add: tp_rows_def write_part_def upd_conv_take_nth_drop)
  ultimately show ?thesis by simp
qed

lemma get_or_create_wf:
  assumes wf: "tp_wf tp" and k: "in_i64 (k * tp_width tp)"
    and get: "get_or_create_time_partition (ts_new (k * tp_width tp) (tp_unit tp)) tp = Inr (i, tp')"
  shows "tp_wf tp' \<and> same_config tp tp' \<and> i < length (tp_parts tp') \<and> part_bucket tp (tp_parts tp' ! i) k
    \<and> tp_rows tp' = tp_rows tp \<and> (\<exists>ps. tp_parts tp' = tp_parts tp @ ps)"
proof (cases "position (\<lambda>p. ts_eq (pr_min (tpart_range p)) (ts_new (k * tp_width tp) (tp_unit tp))) (tp_parts tp)")
  case (Some j)
  then have j: "j < length (tp_parts tp)" "ts_eq (pr_min (tpart_range (tp_parts tp ! j))) (ts_new (k * tp_width tp) (tp_unit tp))"
    by (auto simp: position_Some_iff)
  obtain k' where k': "part_bucket tp (tp_parts tp ! j) k'" using tp_wf_nth [OF wf j(1)] by blast
  with j(2) have "k' * tp_width tp = k * tp_width tp"
    by (auto simp: part_bucket_def bucket_range_def ts_order instant_ns_same_unit)
  with wf have "k' = k" using tp_width_pos [of tp] by (auto simp: tp_wf_def)
  with k' j get Some wf show ?thesis by (auto simp: get_or_create_time_partition_def)
next
  case None
  have d: "tp_secs tp = duration_as Second (tp_part_duration tp)" "0 < tp_secs tp" "in_i64 (tp_secs tp)"
    using wf by (simp_all add: tp_wf_def tp_secs_def)
  let ?p = "\<lparr>tpart_memtable = mt_build (tp_next_memtable_id tp), tpart_range = bucket_range tp k\<rparr>"
  from None get from_start_duration_eq [OF k [unfolded tp_width_def] d]
  have e: "in_i64 ((k + 1) * tp_width tp)" "i = length (tp_parts tp)"
    and tp': "tp' = tp\<lparr>tp_next_memtable_id := (tp_next_memtable_id tp + 1) mod 2 ^ 32, tp_parts := tp_parts tp @ [?p]\<rparr>"
    by (auto simp: get_or_create_time_partition_def alloc_memtable_id_def bucket_range_def tp_width_def
        split: if_splits)
  have cfg: "same_config tp tp'" by (simp add: tp' same_config_def)
  have "k * tp_width tp \<notin> set (tp_starts tp)"
  proof
    assume "k * tp_width tp \<in> set (tp_starts tp)"
    then obtain p where p: "p \<in> set (tp_parts tp)" "ts_value (pr_min (tpart_range p)) = k * tp_width tp"
      by (auto simp: tp_starts_def)
    with wf have "ts_unit (pr_min (tpart_range p)) = tp_unit tp"
      by (fastforce simp: tp_wf_def part_bucket_def bucket_range_def)
    with p None show False by (auto simp: position_None_iff ts_order instant_ns_same_unit)
  qed
  moreover have "part_bucket tp ?p k" using k e by (simp add: part_bucket_def mt_build_def)
  ultimately have "tp_wf tp'"
    using wf unfolding tp_wf_def same_config_simps [OF cfg]
    by (auto simp: tp' tp_starts_def bucket_range_def mt_build_def)
  with e cfg \<open>part_bucket tp ?p k\<close> show ?thesis
    by (auto simp: tp' tp_rows_def mt_build_def)
qed

section \<open>Routing rows\<close>

lemma mset_push_entry:
  "mset (concat (map (\<lambda>(k, v, xs). xs) (push_entry k v x m))) = add_mset x (mset (concat (map (\<lambda>(k, v, xs). xs) m)))"
  by (induction m) (auto simp: push_entry_def Let_def split: option.splits prod.splits)

lemma push_entry_all:
  assumes "\<forall>e \<in> set m. P e" and "P (k, v, [x])"
    and "\<And>v' xs. (k, v', xs) \<in> set m \<Longrightarrow> P (k, v', xs @ [x])"
  shows "\<forall>e \<in> set (push_entry k v x m). P e"
proof -
  have upd: "\<forall>e \<in> set (hmap_insert k y m). P e" if "\<forall>e \<in> set m. P e" "P (k, y)" for y
    using that by (induction m) auto
  show ?thesis
  proof (cases "hmap_get m k")
    case None
    with upd [OF assms(1,2)] show ?thesis by (simp add: push_entry_def)
  next
    case (Some e)
    obtain v' xs where e: "e = (v', xs)" by (cases e)
    with Some have "(k, v', xs) \<in> set m" by (simp add: map_of_SomeD)
    from upd [OF assms(1) assms(3) [OF this]] Some e show ?thesis by (simp add: push_entry_def)
  qed
qed

text \<open>What the maps of the loop hold after the rows \<open>ys\<close>.\<close>

definition existing_ok :: "time_partitions \<Rightarrow> timestamp \<times> nat \<times> kv list \<Rightarrow> bool" where
  "existing_ok tp = (\<lambda>(s, i, xs). i < length (tp_parts tp) \<and> s = pr_min (tpart_range (tp_parts tp ! i))
     \<and> (\<forall>x \<in> set xs. row_ok tp x \<and> part_contains (tp_parts tp ! i) (kv_timestamp x)))"

definition missing_ok :: "time_partitions \<Rightarrow> timestamp \<times> unit \<times> kv list \<Rightarrow> bool" where
  "missing_ok tp = (\<lambda>(s, _, xs). xs \<noteq> [] \<and> (\<exists>k. s = ts_new (k * tp_width tp) (tp_unit tp) \<and> in_i64 (k * tp_width tp)
     \<and> (\<forall>x \<in> set xs. row_ok tp x \<and> row_bucket tp x = k)))"

definition routed_ok :: "time_partitions \<Rightarrow> kv list \<Rightarrow> routed \<Rightarrow> bool" where
  "routed_ok tp ys = (\<lambda>(m1, m2).
     mset ys = mset (concat (map (\<lambda>(k, v, xs). xs) m1)) + mset (concat (map (\<lambda>(k, v, xs). xs) m2))
     \<and> (\<forall>e \<in> set m1. existing_ok tp e) \<and> (\<forall>e \<in> set m2. missing_ok tp e))"

lemma same_start_same_part:
  assumes "tp_wf tp" and "i < length (tp_parts tp)" and "j < length (tp_parts tp)"
    and "pr_min (tpart_range (tp_parts tp ! i)) = pr_min (tpart_range (tp_parts tp ! j))"
  shows "i = j"
proof -
  have "tp_starts tp ! i = tp_starts tp ! j" using assms by (simp add: tp_starts_def)
  moreover have "distinct (tp_starts tp)" using assms(1) by (simp add: tp_wf_def)
  moreover have "length (tp_starts tp) = length (tp_parts tp)" by (simp add: tp_starts_def)
  ultimately show ?thesis using assms(2,3) nth_eq_iff_index_eq by metis
qed

lemma start_of_row:
  assumes "tp_wf tp" and "row_ok tp x"
  shows "partition_start_timestamp (kv_timestamp x) (tp_part_duration tp) =
    Ret (map_option (\<lambda>s. ts_new s (tp_unit tp)) (try_i64 (row_bucket tp x * tp_width tp)))"
proof -
  obtain v where "kv_timestamp x = ts_new v (tp_unit tp)" "in_i64 v"
    using assms(2) by (cases "kv_timestamp x") (auto simp: row_ok_def)
  with partition_start_eq [of v "tp_part_duration tp" "tp_unit tp"] assms
  show ?thesis by (simp add: tp_wf_def row_bucket_def tp_width_def tp_secs_def Let_def)
qed

lemma route_kv_ok:
  assumes wf: "tp_wf tp" and x: "row_ok tp x" and inv: "routed_ok tp ys s"
    and step: "route_kv tp x s = Ret (Inr s')"
  shows "routed_ok tp (ys @ [x]) s'"
proof -
  obtain m1 m2 where s: "s = (m1, m2)" by (cases s)
  show ?thesis
  proof (cases "position (\<lambda>p. part_contains p (kv_timestamp x)) (tp_parts tp)")
    case (Some i)
    then have i: "i < length (tp_parts tp)" "part_contains (tp_parts tp ! i) (kv_timestamp x)"
      by (auto simp: position_Some_iff)
    have "\<forall>e \<in> set (push_entry (pr_min (tpart_range (tp_parts tp ! i))) i x m1). existing_ok tp e"
    proof (rule push_entry_all)
      show "\<forall>e \<in> set m1. existing_ok tp e" using inv s by (simp add: routed_ok_def)
      then show "existing_ok tp (pr_min (tpart_range (tp_parts tp ! i)), j, xs @ [x])"
        if "(pr_min (tpart_range (tp_parts tp ! i)), j, xs) \<in> set m1" for j xs
        using that i x same_start_same_part [OF wf i(1), of j] by (auto simp: existing_ok_def)
    qed (use i x in \<open>auto simp: existing_ok_def\<close>)
    with Some step s inv show ?thesis by (auto simp: routed_ok_def mset_push_entry)
  next
    case None
    with step s start_of_row [OF wf x] have b: "in_i64 (row_bucket tp x * tp_width tp)"
      and s': "s' = (m1, push_entry (ts_new (row_bucket tp x * tp_width tp) (tp_unit tp)) () x m2)"
      by (auto simp: try_i64_def split: if_splits)
    have w: "0 < tp_width tp" using wf by (simp add: tp_wf_def tp_width_pos)
    have "\<forall>e \<in> set (push_entry (ts_new (row_bucket tp x * tp_width tp) (tp_unit tp)) () x m2). missing_ok tp e"
    proof (rule push_entry_all)
      show "\<forall>e \<in> set m2. missing_ok tp e" using inv s by (simp add: routed_ok_def)
      then show "missing_ok tp (ts_new (row_bucket tp x * tp_width tp) (tp_unit tp), u, xs @ [x])"
        if "(ts_new (row_bucket tp x * tp_width tp) (tp_unit tp), u, xs) \<in> set m2" for u xs
        using that x w by (fastforce simp: missing_ok_def)
    qed (use b x in \<open>auto simp: missing_ok_def\<close>)
    with s' s inv show ?thesis by (auto simp: routed_ok_def mset_push_entry)
  qed
qed

lemma route_kv_total:
  assumes wf: "tp_wf tp" and x: "row_ok tp x"
  shows "(\<exists>s'. route_kv tp x s = Ret (Inr s'))
    \<or> route_kv tp x s = Ret (Inl InvalidRequest) \<and> \<not> in_i64 (row_bucket tp x * tp_width tp)"
  using start_of_row [OF wf x]
  by (cases s) (auto simp: try_i64_def Let_def split: option.splits if_splits)

lemma route_all_ok:
  assumes wf: "tp_wf tp" and kvs: "\<forall>x \<in> set kvs. row_ok tp x"
    and "fold_fallible (route_kv tp) kvs ([], []) = Ret (Inr s)"
  shows "routed_ok tp kvs s"
  using assms(3)
  by (rule fold_fallible_invariant) (use kvs in \<open>auto simp: routed_ok_def [of _ "[]"] intro: route_kv_ok [OF wf]\<close>)

lemma route_all_total:
  assumes wf: "tp_wf tp" and kvs: "\<forall>x \<in> set kvs. row_ok tp x"
  shows "(\<exists>s'. fold_fallible (route_kv tp) kvs s = Ret (Inr s'))
    \<or> fold_fallible (route_kv tp) kvs s = Ret (Inl InvalidRequest)
      \<and> (\<exists>x \<in> set kvs. \<not> in_i64 (row_bucket tp x * tp_width tp))"
  using kvs
proof (induction kvs arbitrary: s)
  case (Cons x kvs)
  from route_kv_total [OF wf, of x s] Cons.prems consider
    s' where "route_kv tp x s = Ret (Inr s')"
    | "route_kv tp x s = Ret (Inl InvalidRequest)" "\<not> in_i64 (row_bucket tp x * tp_width tp)" by auto
  then show ?case using Cons by cases auto
qed auto

lemma existing_ok_write_part:
  "existing_ok (write_part i kvs tp) e \<longleftrightarrow> existing_ok tp e"
proof -
  have "tpart_range (tp_parts (write_part i kvs tp) ! j) = tpart_range (tp_parts tp ! j)"
    if "j < length (tp_parts tp)" for j
    using that by (simp add: write_part_nth)
  then show ?thesis
    using same_config_simps(5) [OF same_config_write_part [of tp i kvs]]
    by (cases e) (auto simp: existing_ok_def part_contains_def)
qed

lemma write_existing_ok:
  assumes "tp_wf tp" and "\<forall>e \<in> set es. existing_ok tp e"
  shows "tp_wf (write_existing es tp) \<and> same_config tp (write_existing es tp)
    \<and> mset (tp_rows (write_existing es tp)) = mset (tp_rows tp) + mset (concat (map (\<lambda>(k, v, xs). xs) es))"
  using assms
proof (induction es arbitrary: tp)
  case (Cons e es)
  obtain s i xs where e: "e = (s, i, xs)" by (cases e)
  with Cons.prems have i: "i < length (tp_parts tp)"
    and xs: "\<forall>x \<in> set xs. row_ok tp x \<and> part_contains (tp_parts tp ! i) (kv_timestamp x)"
    by (auto simp: existing_ok_def)
  obtain k where k: "part_bucket tp (tp_parts tp ! i) k" using tp_wf_nth [OF Cons.prems(1) i] by blast
  have "0 < tp_secs tp" using Cons.prems(1) by (simp add: tp_wf_def)
  with xs have "\<forall>x \<in> set xs. row_ok tp x \<and> row_bucket tp x = k"
    using part_contains_bucket [OF _ k] by blast
  with Cons.prems i k have "tp_wf (write_part i xs tp)" by (intro write_part_wf)
  with Cons.IH [of "write_part i xs tp"] Cons.prems e i show ?case
    by (auto simp: write_existing_def hmap_values_def existing_ok_write_part mset_tp_rows_write_part
        intro: same_config_trans [OF same_config_write_part])
qed (simp add: write_existing_def hmap_values_def)

lemma missing_ok_cong: "same_config tp tp' \<Longrightarrow> missing_ok tp' = missing_ok tp"
  by (simp add: missing_ok_def same_config_simps)

lemma write_missing_ok:
  assumes wf: "tp_wf tp" and e: "missing_ok tp e" and w: "write_missing e tp = Ret (Inr tp')"
  shows "tp_wf tp' \<and> same_config tp tp' \<and> mset (tp_rows tp') = mset (tp_rows tp) + mset (snd (snd e))"
proof -
  obtain s u xs where e': "e = (s, u, xs)" by (cases e)
  with e obtain k where k: "s = ts_new (k * tp_width tp) (tp_unit tp)" "in_i64 (k * tp_width tp)"
    "\<forall>x \<in> set xs. row_ok tp x \<and> row_bucket tp x = k" by (auto simp: missing_ok_def)
  from w e' obtain i tp1 where g: "get_or_create_time_partition s tp = Inr (i, tp1)"
    and tp': "tp' = write_part i xs tp1"
    by (auto simp: write_missing_def split: sum.splits)
  from get_or_create_wf [OF wf k(2) g [unfolded k(1)]]
  have tp1: "tp_wf tp1" "same_config tp tp1" "i < length (tp_parts tp1)"
    "part_bucket tp (tp_parts tp1 ! i) k" "tp_rows tp1 = tp_rows tp" by auto
  have "tp_wf tp'"
    unfolding tp' using tp1 k(3) same_config_simps [OF tp1(2)] by (intro write_part_wf) auto
  then show ?thesis
    using tp1 e' by (auto simp: tp' mset_tp_rows_write_part intro: same_config_trans)
qed

lemma write_missing_total:
  assumes wf: "tp_wf tp" and e: "missing_ok tp e"
  shows "(\<exists>tp'. write_missing e tp = Ret (Inr tp'))
    \<or> write_missing e tp = Ret (Inl InvalidRequest)
      \<and> (\<exists>x \<in> set (snd (snd e)). \<not> in_i64 ((row_bucket tp x + 1) * tp_width tp))"
proof -
  obtain s u xs where e': "e = (s, u, xs)" by (cases e)
  with e obtain k where k: "s = ts_new (k * tp_width tp) (tp_unit tp)" "in_i64 (k * tp_width tp)"
    "\<forall>x \<in> set xs. row_ok tp x \<and> row_bucket tp x = k" and ne: "xs \<noteq> []" by (auto simp: missing_ok_def)
  have d: "tp_secs tp = duration_as Second (tp_part_duration tp)" "0 < tp_secs tp" "in_i64 (tp_secs tp)"
    using wf by (simp_all add: tp_wf_def tp_secs_def)
  from ne obtain x where "x \<in> set xs" by (cases xs) auto
  with from_start_duration_eq [OF k(2) [unfolded tp_width_def] d] k
  show ?thesis
    by (auto simp: e' write_missing_def get_or_create_time_partition_def tp_width_def Let_def
        split: option.splits prod.splits)
qed

lemma fold_missing_ok:
  assumes wf: "tp_wf tp" and es: "\<forall>e \<in> set es. missing_ok tp e"
    and w: "fold_fallible write_missing es tp = Ret (Inr tp')"
  shows "tp_wf tp' \<and> same_config tp tp'
    \<and> mset (tp_rows tp') = mset (tp_rows tp) + mset (concat (map (\<lambda>(k, v, xs). xs) es))"
  using w
proof (rule fold_fallible_invariant)
  fix ys :: "(timestamp \<times> unit \<times> kv list) list" and e tp1 tp2
  assume inv: "tp_wf tp1 \<and> same_config tp tp1
      \<and> mset (tp_rows tp1) = mset (tp_rows tp) + mset (concat (map (\<lambda>(k, v, xs). xs) ys))"
    and "e \<in> set es" and step: "write_missing e tp1 = Ret (Inr tp2)"
  with es have "missing_ok tp1 e" using missing_ok_cong [of tp tp1] by auto
  with write_missing_ok [OF _ this step] inv
  show "tp_wf tp2 \<and> same_config tp tp2
      \<and> mset (tp_rows tp2) = mset (tp_rows tp) + mset (concat (map (\<lambda>(k, v, xs). xs) (ys @ [e])))"
    by (cases e) (auto intro: same_config_trans)
qed (use wf in auto)

lemma fold_missing_total:
  assumes "tp_wf tp" and "\<forall>e \<in> set es. missing_ok tp e"
  shows "(\<exists>tp'. fold_fallible write_missing es tp = Ret (Inr tp'))
    \<or> fold_fallible write_missing es tp = Ret (Inl InvalidRequest)
      \<and> (\<exists>e \<in> set es. \<exists>x \<in> set (snd (snd e)). \<not> in_i64 ((row_bucket tp x + 1) * tp_width tp))"
  using assms
proof (induction es arbitrary: tp)
  case (Cons e es)
  from write_missing_total [OF Cons.prems(1), of e] Cons.prems(2) consider
    tp' where "write_missing e tp = Ret (Inr tp')"
    | "write_missing e tp = Ret (Inl InvalidRequest)"
      "\<exists>x \<in> set (snd (snd e)). \<not> in_i64 ((row_bucket tp x + 1) * tp_width tp)" by auto
  then show ?case
  proof cases
    case 1
    then have "tp_wf tp'" "same_config tp tp'"
      using write_missing_ok [OF Cons.prems(1) _ 1] Cons.prems(2) by auto
    with Cons.IH [of tp'] Cons.prems(2) show ?thesis
      by (auto simp: 1 missing_ok_cong same_config_simps)
  qed auto
qed auto

lemma single_part_ok:
  assumes wf: "tp_wf tp" and kvs: "\<forall>x \<in> set kvs. row_ok tp x" and s: "single_part kvs tp = Some i"
  shows "tp_wf (write_part i kvs tp) \<and> mset (tp_rows (write_part i kvs tp)) = mset (tp_rows tp) + mset kvs"
proof -
  from s have i: "i < length (tp_parts tp)"
    and all: "\<forall>x \<in> set kvs. part_contains (tp_parts tp ! i) (kv_timestamp x)"
    by (auto simp: single_part_def find_Some_iff list_all_iff rev_nth)
  obtain k where k: "part_bucket tp (tp_parts tp ! i) k" using tp_wf_nth [OF wf i] by blast
  have "0 < tp_secs tp" using wf by (simp add: tp_wf_def)
  with kvs all have "\<forall>x \<in> set kvs. row_ok tp x \<and> row_bucket tp x = k"
    using part_contains_bucket [OF _ k] by blast
  with wf i k show ?thesis by (simp add: write_part_wf mset_tp_rows_write_part)
qed

definition representable :: "time_partitions \<Rightarrow> kv \<Rightarrow> bool" where
  "representable tp x \<longleftrightarrow>
     in_i64 (row_bucket tp x * tp_width tp) \<and> in_i64 ((row_bucket tp x + 1) * tp_width tp)"

lemma tp_write_total:
  assumes "tp_wf tp" and "\<forall>x \<in> set kvs. row_ok tp x" and "\<not> tp_bulk tp"
  shows "(\<exists>tp'. tp_write ao conv kvs tp = Ret (Inr tp') \<and> tp_wf tp'
            \<and> mset (tp_rows tp') = mset (tp_rows tp) + mset kvs)
    \<or> (tp_write ao conv kvs tp = Ret (Inl InvalidRequest) \<and> (\<exists>x \<in> set kvs. \<not> representable tp x))"
proof (cases "single_part kvs tp")
  case (Some i)
  with assms single_part_ok [OF assms(1,2) Some] show ?thesis by (simp add: tp_write_def)
next
  case None
  with assms(3) have w: "tp_write ao conv kvs tp = write_multi_parts kvs tp" by (simp add: tp_write_def)
  from route_all_total [OF assms(1,2), of "([], [])"] show ?thesis
  proof
    assume "\<exists>s. fold_fallible (route_kv tp) kvs ([], []) = Ret (Inr s)"
    then obtain m1 m2 where r: "fold_fallible (route_kv tp) kvs ([], []) = Ret (Inr (m1, m2))" by auto
    from route_all_ok [OF assms(1,2) r] have m: "\<forall>e \<in> set m1. existing_ok tp e" "\<forall>e \<in> set m2. missing_ok tp e"
      and ms: "mset kvs = mset (concat (map (\<lambda>(k, v, xs). xs) m1)) + mset (concat (map (\<lambda>(k, v, xs). xs) m2))"
      by (auto simp: routed_ok_def)
    let ?tp = "write_existing m1 tp"
    from write_existing_ok [OF assms(1) m(1)] have e: "tp_wf ?tp" "same_config tp ?tp"
      "mset (tp_rows ?tp) = mset (tp_rows tp) + mset (concat (map (\<lambda>(k, v, xs). xs) m1))" by auto
    with m(2) have m2: "\<forall>e \<in> set m2. missing_ok ?tp e" by (simp add: missing_ok_cong)
    have "set (concat (map (\<lambda>(k, v, xs). xs) m2)) \<subseteq> set kvs"
      using arg_cong [OF ms, of set_mset] by (simp only: set_mset_union set_mset_mset) blast
    then have sub: "x \<in> set kvs" if "e \<in> set m2" "x \<in> set (snd (snd e))" for e x
      using that by (cases e) auto
    from fold_missing_total [OF e(1) m2] show ?thesis
    proof
      assume "\<exists>tp'. fold_fallible write_missing m2 ?tp = Ret (Inr tp')"
      then obtain tp' where "fold_fallible write_missing m2 ?tp = Ret (Inr tp')" by blast
      with fold_missing_ok [OF e(1) m2 this] e ms show ?thesis
        by (auto simp: w write_multi_parts_def r)
    qed (use sub e same_config_simps [OF e(2)] in \<open>auto simp: w write_multi_parts_def r representable_def\<close>)
  qed (auto simp: w write_multi_parts_def representable_def)
qed

end
