(* ===== verification/Bulk_Write.thy ===== *)
theory Bulk_Write
  imports Time_Partition
begin

text \<open>
  Writing a batch of rows to time partitions, \<open>write_bulk_inner\<close> of
  \<open>src/src/mito2/src/memtable/time_partition.rs\<close>: the packed filter of a batch keeps exactly the
  rows of a range, and the existing partitions that overlap the batch together with the missing
  ones the code creates cover every row exactly once.
\<close>

unbundle bit_operations_syntax

section \<open>The packed filter\<close>

lemma bit_pack_bits:
  "n \<le> 64 \<Longrightarrow> bit (pack_bits f chunk n) j \<longleftrightarrow> j < n \<and> f (j + chunk * 64)"
proof (induction n)
  case (Suc n)
  have "pack_bits f chunk (Suc n) = pack_bits f chunk n OR push_bit n (of_bool (f (n + chunk * 64)))"
    by (simp add: pack_bits_def)
  with Suc show ?case by (auto simp: bit_simps less_Suc_eq)
qed (simp add: pack_bits_def)

lemma buffer_bits_exact:
  "buffer_bits (create_filter_buffer vs mn mx) (length vs) = map (\<lambda>v. mn \<le> v \<and> v < mx) vs"
proof (rule nth_equalityI)
  fix i
  assume "i < length (buffer_bits (create_filter_buffer vs mn mx) (length vs))"
  then have i: "i < length vs" by (simp add: buffer_bits_def)
  let ?f = "\<lambda>idx. mn \<le> vs ! idx \<and> vs ! idx < mx"
  have m: "i mod 64 + i div 64 * 64 = i" by simp
  have "bit (create_filter_buffer vs mn mx ! (i div 64)) (i mod 64) \<longleftrightarrow> ?f i"
  proof (cases "i div 64 < length vs div 64")
    case True
    then show ?thesis
      by (simp add: create_filter_buffer_def Let_def nth_append bit_pack_bits m)
  next
    case False
    moreover have "i div 64 \<le> length vs div 64" using i by (simp add: div_le_mono)
    ultimately have e: "i div 64 = length vs div 64" by simp
    have "i mod 64 < length vs mod 64"
      using i e div_mult_mod_eq [of i 64] div_mult_mod_eq [of "length vs" 64] by linarith
    moreover have "length vs mod 64 \<le> 64" by (simp add: less_imp_le)
    ultimately show ?thesis
      using e m by (auto simp: create_filter_buffer_def Let_def nth_append bit_pack_bits)
  qed
  with i show "buffer_bits (create_filter_buffer vs mn mx) (length vs) ! i = map (\<lambda>v. mn \<le> v \<and> v < mx) vs ! i"
    by (simp add: buffer_bits_def)
qed (simp add: buffer_bits_def)

section \<open>Writing a batch\<close>

text \<open>
  What the code relies on of the Arrow kernels: filtering keeps the rows whose bit is set, in
  order, and the least and greatest of a non-empty array exist.
\<close>

definition arrow_ok :: "arrow_ops \<Rightarrow> bool" where
  "arrow_ok ao \<longleftrightarrow>
     (\<forall>rows bits. length bits = length rows \<longrightarrow>
        ao_filter ao rows bits = map fst (filter snd (zip rows bits)))
     \<and> (\<forall>xs. xs \<noteq> [] \<longrightarrow> ao_min ao xs \<noteq> None \<and> ao_max ao xs \<noteq> None)"

lemma filter_zip_map: "map fst (filter snd (zip xs (map P xs))) = filter P xs"
  by (induction xs) auto

lemma filter_record_batch_rows:
  assumes "arrow_ok ao"
  shows "\<exists>r. filter_record_batch ao part mn mx = Ret r
    \<and> (case r of
         None \<Rightarrow> filter (\<lambda>x. mn \<le> ts_value (kv_timestamp x) \<and> ts_value (kv_timestamp x) < mx) (bp_rows part) = []
       | Some p \<Rightarrow> bp_rows p = filter (\<lambda>x. mn \<le> ts_value (kv_timestamp x) \<and> ts_value (kv_timestamp x) < mx) (bp_rows part))"
proof -
  let ?P = "\<lambda>x. mn \<le> ts_value (kv_timestamp x) \<and> ts_value (kv_timestamp x) < mx"
  let ?bits = "buffer_bits (create_filter_buffer (row_values (bp_rows part)) mn mx) (length (row_values (bp_rows part)))"
  have "?bits = map ?P (bp_rows part)" by (simp only: buffer_bits_exact) simp
  with assms have rows: "ao_filter ao (bp_rows part) ?bits = filter ?P (bp_rows part)"
    by (simp add: arrow_ok_def filter_zip_map)
  show ?thesis
  proof (cases "filter ?P (bp_rows part) = []")
    case True
    then show ?thesis unfolding filter_record_batch_def Let_def rows by simp
  next
    case False
    then have "row_values (filter ?P (bp_rows part)) \<noteq> []" by simp
    with assms obtain a b where "ao_max ao (row_values (filter ?P (bp_rows part))) = Some a"
      "ao_min ao (row_values (filter ?P (bp_rows part))) = Some b"
      unfolding arrow_ok_def by blast
    with False show ?thesis unfolding filter_record_batch_def Let_def rows by simp
  qed
qed

lemma bucket_of_range:
  assumes "tp_wf tp" and "i < length (tp_parts tp)" and "tpart_range (tp_parts tp ! i) = bucket_range tp k"
  shows "part_bucket tp (tp_parts tp ! i) k"
proof -
  obtain k' where k': "part_bucket tp (tp_parts tp ! i) k'" using tp_wf_nth [OF assms(1,2)] by blast
  with assms have "k' * tp_width tp = k * tp_width tp" by (auto simp: part_bucket_def bucket_range_def)
  with assms(1) tp_width_pos [of tp] have "k' = k" by (auto simp: tp_wf_def)
  with k' show ?thesis by simp
qed

lemma write_partial_ok:
  assumes ao: "arrow_ok ao" and wf: "tp_wf tp" and i: "i < length (tp_parts tp)"
    and k: "tpart_range (tp_parts tp ! i) = bucket_range tp k" and rows: "\<forall>x \<in> set (bp_rows part). row_ok tp x"
  shows "\<exists>tp'. write_record_batch_partial ao part i tp = Ret (Inr tp') \<and> tp_wf tp' \<and> same_config tp tp'
    \<and> map tpart_range (tp_parts tp') = map tpart_range (tp_parts tp)
    \<and> mset (tp_rows tp') = mset (tp_rows tp) + filter_mset (\<lambda>x. row_bucket tp x = k) (mset (bp_rows part))"
proof -
  note pb = bucket_of_range [OF wf i k]
  have w: "0 < tp_width tp" using wf by (simp add: tp_wf_def tp_width_pos)
  let ?xs = "filter (\<lambda>x. row_bucket tp x = k) (bp_rows part)"
  have eq: "filter (\<lambda>x. k * tp_width tp \<le> ts_value (kv_timestamp x) \<and> ts_value (kv_timestamp x) < (k + 1) * tp_width tp)
      (bp_rows part) = ?xs"
    by (simp add: row_bucket_def div_eq_iff_bounds [OF w])
  obtain r where r: "filter_record_batch ao part (k * tp_width tp) ((k + 1) * tp_width tp) = Ret r"
    "case r of None \<Rightarrow> ?xs = [] | Some p \<Rightarrow> bp_rows p = ?xs"
    using filter_record_batch_rows [OF ao, of part "k * tp_width tp" "(k + 1) * tp_width tp"]
    unfolding eq by blast
  have res: "write_record_batch_partial ao part i tp =
      Ret (Inr (case r of None \<Rightarrow> tp | Some p \<Rightarrow> write_part i ?xs tp))"
    using r by (cases r) (simp_all add: write_record_batch_partial_def k bucket_range_def)
  have ms: "filter_mset (\<lambda>x. row_bucket tp x = k) (mset (bp_rows part)) = mset ?xs" by simp
  show ?thesis
  proof (cases r)
    case None
    then have "?xs = []" using r(2) by simp
    with None res wf ms show ?thesis by simp
  next
    case (Some p)
    have "tp_wf (write_part i ?xs tp)" using rows by (intro write_part_wf [OF wf i pb]) simp
    moreover have "map tpart_range (tp_parts (write_part i ?xs tp)) = map tpart_range (tp_parts tp)"
      by (rule nth_equalityI) (simp_all add: write_part_nth)
    ultimately show ?thesis
      using Some res ms by (simp add: mset_tp_rows_write_part [OF i])
  qed
qed

lemma sum_filter_mset:
  assumes "distinct ks" and "\<forall>x \<in># M. b x \<in> set ks"
  shows "sum_list (map (\<lambda>k. filter_mset (\<lambda>x. b x = k) M) ks) = M"
  using assms
proof (induction ks arbitrary: M)
  case (Cons k ks)
  let ?M = "filter_mset (\<lambda>x. b x \<noteq> k) M"
  have "map (\<lambda>k. filter_mset (\<lambda>x. b x = k) M) ks = map (\<lambda>k. filter_mset (\<lambda>x. b x = k) ?M) ks"
    using Cons.prems(1) by (auto simp: filter_filter_mset intro!: filter_mset_cong)
  moreover have "sum_list (map (\<lambda>k. filter_mset (\<lambda>x. b x = k) ?M) ks) = ?M"
    using Cons by (intro Cons.IH) auto
  ultimately have "sum_list (map (\<lambda>k. filter_mset (\<lambda>x. b x = k) M) ks) = ?M" by (simp only:)
  with multiset_partition [of M "\<lambda>x. b x = k"] show ?case by simp
qed auto

lemma fold_matching_ok:
  assumes ao: "arrow_ok ao" and "tp_wf tp" and "\<forall>x \<in> set (bp_rows part). row_ok tp x"
    and "\<forall>i \<in> set is. i < length (tp_parts tp) \<and> tpart_range (tp_parts tp ! i) = bucket_range tp (b i)"
  shows "\<exists>tp'. fold_fallible (write_record_batch_partial ao part) is tp = Ret (Inr tp') \<and> tp_wf tp'
    \<and> same_config tp tp' \<and> map tpart_range (tp_parts tp') = map tpart_range (tp_parts tp)
    \<and> mset (tp_rows tp') = mset (tp_rows tp)
        + sum_list (map (\<lambda>k. filter_mset (\<lambda>x. row_bucket tp x = k) (mset (bp_rows part))) (map b is))"
  using assms(2-)
proof (induction "is" arbitrary: tp)
  case (Cons i "is")
  from write_partial_ok [OF ao Cons.prems(1), of i "b i" part] Cons.prems
  obtain tp1 where tp1: "write_record_batch_partial ao part i tp = Ret (Inr tp1)" "tp_wf tp1" "same_config tp tp1"
    "map tpart_range (tp_parts tp1) = map tpart_range (tp_parts tp)"
    "mset (tp_rows tp1) = mset (tp_rows tp) + filter_mset (\<lambda>x. row_bucket tp x = b i) (mset (bp_rows part))"
    by auto
  note cfg = same_config_simps [OF tp1(3)]
  have len: "length (tp_parts tp1) = length (tp_parts tp)" using arg_cong [OF tp1(4), of length] by simp
  have rng: "tpart_range (tp_parts tp1 ! j) = tpart_range (tp_parts tp ! j)" if "j < length (tp_parts tp)" for j
    using arg_cong [OF tp1(4), of "\<lambda>xs. xs ! j"] that len by simp
  have "\<forall>j \<in> set is. j < length (tp_parts tp1) \<and> tpart_range (tp_parts tp1 ! j) = bucket_range tp1 (b j)"
    using Cons.prems(3) rng len cfg by simp
  moreover have "\<forall>x \<in> set (bp_rows part). row_ok tp1 x" using Cons.prems(2) cfg by simp
  ultimately obtain tp2 where "fold_fallible (write_record_batch_partial ao part) is tp1 = Ret (Inr tp2)"
    "tp_wf tp2" "same_config tp1 tp2" "map tpart_range (tp_parts tp2) = map tpart_range (tp_parts tp1)"
    "mset (tp_rows tp2) = mset (tp_rows tp1)
        + sum_list (map (\<lambda>k. filter_mset (\<lambda>x. row_bucket tp1 x = k) (mset (bp_rows part))) (map b is))"
    using Cons.IH [OF tp1(2)] by blast
  then show ?case using tp1 cfg same_config_trans [OF tp1(3)] by (auto simp: add.assoc)
qed simp

lemma fold_missing_parts_ok:
  assumes ao: "arrow_ok ao" and "tp_wf tp" and "\<forall>x \<in> set (bp_rows part). row_ok tp x"
    and "\<forall>k \<in> set ks. in_i64 (k * tp_width tp)"
  shows "let r = fold_fallible (\<lambda>start tp. case get_or_create_time_partition start tp of
             Inl err \<Rightarrow> Ret (Inl err)
           | Inr (i, tp') \<Rightarrow> write_record_batch_partial ao part i tp')
           (map (\<lambda>k. ts_new (k * tp_width tp) (tp_unit tp)) ks) tp
    in (\<exists>tp'. r = Ret (Inr tp') \<and> tp_wf tp' \<and> mset (tp_rows tp') = mset (tp_rows tp)
          + sum_list (map (\<lambda>k. filter_mset (\<lambda>x. row_bucket tp x = k) (mset (bp_rows part))) ks))
      \<or> r = Ret (Inl InvalidRequest) \<and> (\<exists>k \<in> set ks. \<not> in_i64 ((k + 1) * tp_width tp))"
  using assms(2-)
proof (induction ks arbitrary: tp)
  case (Cons k ks)
  let ?s = "ts_new (k * tp_width tp) (tp_unit tp)"
  have k: "in_i64 (k * tp_width tp)" using Cons.prems(3) by simp
  have d: "tp_secs tp = duration_as Second (tp_part_duration tp)" "0 < tp_secs tp" "in_i64 (tp_secs tp)"
    using Cons.prems(1) by (simp_all add: tp_wf_def tp_secs_def)
  show ?case
  proof (cases "get_or_create_time_partition ?s tp")
    case (Inl err)
    then have "\<not> in_i64 ((k + 1) * tp_width tp)"
      using from_start_duration_eq [OF k [unfolded tp_width_def] d]
      by (auto simp: get_or_create_time_partition_def tp_width_def Let_def split: option.splits prod.splits if_splits)
    with Inl show ?thesis by (cases err) (simp add: Let_def)
  next
    case (Inr r)
    obtain i tp1 where r: "r = (i, tp1)" by (cases r)
    from get_or_create_wf [OF Cons.prems(1) k] Inr r
    have tp1: "tp_wf tp1" "same_config tp tp1" "i < length (tp_parts tp1)" "part_bucket tp (tp_parts tp1 ! i) k"
      "tp_rows tp1 = tp_rows tp" by auto
    note cfg = same_config_simps [OF tp1(2)]
    from write_partial_ok [OF ao tp1(1,3), of k part] tp1(4) Cons.prems(2) cfg
    obtain tp2 where tp2: "write_record_batch_partial ao part i tp1 = Ret (Inr tp2)" "tp_wf tp2" "same_config tp1 tp2"
      "mset (tp_rows tp2) = mset (tp_rows tp1) + filter_mset (\<lambda>x. row_bucket tp1 x = k) (mset (bp_rows part))"
      by (auto simp: part_bucket_def)
    note cfg2 = same_config_simps [OF tp2(3)]
    have "\<forall>x \<in> set (bp_rows part). row_ok tp2 x" "\<forall>k \<in> set ks. in_i64 (k * tp_width tp2)"
      using Cons.prems(2,3) cfg cfg2 by auto
    from Cons.IH [OF tp2(2) this] tp2 Inr r tp1(5) show ?thesis
      by (simp add: Let_def cfg cfg2) (auto simp: add.assoc)
  qed
qed (simp add: Let_def)

section \<open>Matching and missing partitions\<close>

lemma collect_missing_ok:
  assumes "\<forall>x \<in> set xs. start x = Ret (map_option (\<lambda>s. ts_new s u) (try_i64 (g x * w)))" and "0 < w"
  shows "(\<exists>ks. collect_missing start xs present = Ret (Inr (map (\<lambda>k. ts_new (k * w) u) ks)) \<and> distinct ks
        \<and> set ks = {k \<in> g ` set xs. k * w \<notin> present} \<and> (\<forall>x \<in> set xs. in_i64 (g x * w)))
    \<or> collect_missing start xs present = Ret (Inl InvalidRequest) \<and> (\<exists>x \<in> set xs. \<not> in_i64 (g x * w))"
  using assms(1)
proof (induction xs arbitrary: present)
  case (Cons x xs)
  show ?case
  proof (cases "in_i64 (g x * w)")
    case False
    with Cons.prems show ?thesis by (simp add: try_i64_def)
  next
    case True
    let ?p = "insert (g x * w) present"
    have inj: "k * w = g x * w \<longleftrightarrow> k = g x" for k using assms(2) by simp
    show ?thesis
    proof (cases "g x * w \<in> present")
      case True
      then show ?thesis using Cons.IH [of present] Cons.prems \<open>in_i64 (g x * w)\<close>
        by (auto simp: try_i64_def)
    next
      case False
      have s: "start x = Ret (Some (ts_new (g x * w) u))"
        using Cons.prems \<open>in_i64 (g x * w)\<close> by (simp add: try_i64_def)
      from Cons.IH [of ?p] Cons.prems consider
        ks where "collect_missing start xs ?p = Ret (Inr (map (\<lambda>k. ts_new (k * w) u) ks))" "distinct ks"
          "set ks = {k \<in> g ` set xs. k * w \<notin> ?p}" "\<forall>x \<in> set xs. in_i64 (g x * w)"
        | "collect_missing start xs ?p = Ret (Inl InvalidRequest)" "\<exists>x \<in> set xs. \<not> in_i64 (g x * w)"
        by auto
      then show ?thesis
      proof cases
        case (1 ks)
        with False s \<open>in_i64 (g x * w)\<close> show ?thesis
          using assms(2) by (intro disjI1 exI [of _ "g x # ks"]) (auto simp: inj)
      next
        case 2
        with False s show ?thesis by auto
      qed
    qed
  qed
qed simp

definition first_bucket :: "time_partitions \<Rightarrow> bulk_part \<Rightarrow> int" where
  "first_bucket tp part = bp_min_timestamp part div tp_width tp"

definition last_bucket :: "time_partitions \<Rightarrow> bulk_part \<Rightarrow> int" where
  "last_bucket tp part = bp_max_timestamp part div tp_width tp"

text \<open>
  A batch as the code builds it: rows in the unit of the time index with values between the
  recorded bounds; and the start of the first bucket in seconds, which the code computes without
  a check, fits 64 bits.
\<close>

definition batch_ok :: "time_partitions \<Rightarrow> bulk_part \<Rightarrow> bool" where
  "batch_ok tp part \<longleftrightarrow>
     in_i64 (bp_min_timestamp part) \<and> in_i64 (bp_max_timestamp part)
     \<and> bp_min_timestamp part \<le> bp_max_timestamp part
     \<and> (\<forall>x \<in> set (bp_rows part). row_ok tp x \<and> bp_min_timestamp part \<le> ts_value (kv_timestamp x)
          \<and> ts_value (kv_timestamp x) \<le> bp_max_timestamp part)"

definition no_bucket_overflow :: "time_partitions \<Rightarrow> bulk_part \<Rightarrow> bool" where
  "no_bucket_overflow tp part \<longleftrightarrow>
     in_i64 (first_bucket tp part * tp_secs tp)"

definition part_index :: "time_partitions \<Rightarrow> nat \<Rightarrow> int" where
  "part_index tp i = ts_value (pr_min (tpart_range (tp_parts tp ! i))) div tp_width tp"

lemma part_index_bucket:
  assumes "tp_wf tp" and "i < length (tp_parts tp)"
  shows "part_bucket tp (tp_parts tp ! i) (part_index tp i)"
proof -
  obtain k where k: "part_bucket tp (tp_parts tp ! i) k" using tp_wf_nth [OF assms] by blast
  moreover have "0 < tp_width tp" using assms(1) by (simp add: tp_wf_def tp_width_pos)
  ultimately have "part_index tp i = k" by (simp add: part_index_def part_bucket_def bucket_range_def)
  with k show ?thesis by simp
qed

lemma seconds_div:
  assumes "0 < tp_secs tp"
  shows "v div ticks (tp_unit tp) div tp_secs tp = v div tp_width tp"
  using zdiv_zmult2_eq [of "tp_secs tp" v "ticks (tp_unit tp)"] assms
  by (simp add: tp_width_def mult.commute)

lemma in_i64_between: "in_i64 a \<Longrightarrow> in_i64 b \<Longrightarrow> a \<le> x \<Longrightarrow> x \<le> b \<Longrightarrow> in_i64 x"
  by (simp add: in_i64_def)

lemma bucket_start_row:
  assumes wf: "tp_wf tp" and v: "in_i64 v"
  shows "bind_outcome (unwrap (convert_to (ts_new v (tp_unit tp)) Second)) (\<lambda>s.
           bind_outcome (ts_align_by_bucket s (tp_secs tp)) (\<lambda>a.
           Ret (Option.bind a (\<lambda>a. convert_to a (tp_unit tp)))))
    = Ret (map_option (\<lambda>s. ts_new s (tp_unit tp)) (try_i64 (v div tp_width tp * tp_width tp)))"
  using partition_start_eq [OF v, of "tp_part_duration tp" "tp_unit tp"] wf
  by (simp add: tp_wf_def tp_secs_def tp_width_def Let_def partition_start_timestamp_def try_i64_def
      split: if_splits)

lemma bucket_start_number:
  assumes wf: "tp_wf tp" and b: "in_i64 (b * tp_secs tp)"
  shows "Ret (convert_to (new_second (wrap_i64 (b * tp_secs tp))) (tp_unit tp))
    = Ret (map_option (\<lambda>s. ts_new s (tp_unit tp)) (try_i64 (b * tp_width tp)))"
  using convert_from_second [OF b, of "tp_unit tp"] b
  by (simp add: tp_width_def mult.assoc)

lemma le_div_iff_mult:
  fixes k v w :: int
  assumes "0 < w"
  shows "k \<le> v div w \<longleftrightarrow> k * w \<le> v"
proof
  assume "k \<le> v div w"
  then have "k * w \<le> v div w * w" using assms by (intro mult_right_mono) auto
  also have "\<dots> \<le> v" using assms div_eq_iff_bounds [OF assms, of v "v div w"] by simp
  finally show "k * w \<le> v" .
next
  assume "k * w \<le> v"
  then have "k * w div w \<le> v div w" using assms by (intro zdiv_mono1) auto
  with assms show "k \<le> v div w" by simp
qed

lemma overlap_iff_bucket:
  assumes wf: "tp_wf tp" and i: "i < length (tp_parts tp)"
  shows "\<not> (ts_new mx (tp_unit tp) < pr_min (tpart_range (tp_parts tp ! i))
        \<or> ts_new mn (tp_unit tp) \<ge> pr_max (tpart_range (tp_parts tp ! i)))
    \<longleftrightarrow> mn div tp_width tp \<le> part_index tp i \<and> part_index tp i \<le> mx div tp_width tp"
proof -
  have w: "0 < tp_width tp" using wf by (simp add: tp_wf_def tp_width_pos)
  have "part_index tp i + 1 \<le> mn div tp_width tp \<longleftrightarrow> \<not> mn div tp_width tp \<le> part_index tp i" by auto
  with part_index_bucket [OF assms] show ?thesis
    using le_div_iff_mult [OF w, of "part_index tp i" mx] le_div_iff_mult [OF w, of "part_index tp i + 1" mn]
    by (auto simp: part_bucket_def bucket_range_def ts_order instant_ns_same_unit)
qed

definition matching_parts :: "time_partitions \<Rightarrow> bulk_part \<Rightarrow> nat list" where
  "matching_parts tp part =
     filter (\<lambda>i. first_bucket tp part \<le> part_index tp i \<and> part_index tp i \<le> last_bucket tp part)
       [0..<length (tp_parts tp)]"

definition present_starts :: "time_partitions \<Rightarrow> bulk_part \<Rightarrow> int set" where
  "present_starts tp part = (\<lambda>i. part_index tp i * tp_width tp) ` set (matching_parts tp part)"

definition starts_by_number :: "time_partitions \<Rightarrow> bulk_part \<Rightarrow> (write_error, timestamp list) fallible" where
  "starts_by_number tp part =
     collect_missing (\<lambda>b. Ret (convert_to (new_second (wrap_i64 (b * tp_secs tp))) (tp_unit tp)))
       [first_bucket tp part..last_bucket tp part] (present_starts tp part)"

definition starts_by_row :: "time_partitions \<Rightarrow> bulk_part \<Rightarrow> (write_error, timestamp list) fallible" where
  "starts_by_row tp part =
     collect_missing (\<lambda>v. bind_outcome (unwrap (convert_to (ts_new v (tp_unit tp)) Second)) (\<lambda>s.
         bind_outcome (ts_align_by_bucket s (tp_secs tp)) (\<lambda>a.
         Ret (Option.bind a (\<lambda>a. convert_to a (tp_unit tp))))))
       (row_values (bp_rows part)) (present_starts tp part)"

lemma matching_parts_filter:
  assumes "tp_wf tp"
  shows "filter (\<lambda>i. \<not> (ts_new (bp_max_timestamp part) (tp_unit tp) < pr_min (tpart_range (tp_parts tp ! i))
        \<or> ts_new (bp_min_timestamp part) (tp_unit tp) \<ge> pr_max (tpart_range (tp_parts tp ! i))))
      [0..<length (tp_parts tp)] = matching_parts tp part"
  unfolding matching_parts_def first_bucket_def last_bucket_def
  by (rule filter_cong) (simp_all only: overlap_iff_bucket [OF assms] set_upt atLeastLessThan_iff)

lemma present_starts_values:
  assumes "tp_wf tp"
  shows "set (map (\<lambda>i. ts_value (pr_min (tpart_range (tp_parts tp ! i)))) (matching_parts tp part))
    = present_starts tp part"
proof -
  have "ts_value (pr_min (tpart_range (tp_parts tp ! i))) = part_index tp i * tp_width tp"
    if "i \<in> set (matching_parts tp part)" for i
    using that part_index_bucket [OF assms, of i] by (simp add: matching_parts_def part_bucket_def bucket_range_def)
  then show ?thesis by (simp add: present_starts_def cong: image_cong)
qed

lemma bucket_number:
  assumes "tp_wf tp" and "in_i64 v"
  shows "bind_outcome (unwrap (convert_to (ts_new v (tp_unit tp)) Second))
      (\<lambda>s. bind_outcome (div_euclid_or_panic (ts_value s) (tp_secs tp)) f) = f (v div tp_width tp)"
proof -
  have d: "0 < tp_secs tp" using assms(1) by (simp add: tp_wf_def)
  have "in_i64 (v div ticks (tp_unit tp) div tp_secs tp)"
    by (rule in_i64_div [OF convert_to_second_ticks(2) [OF assms(2)] d])
  then show ?thesis
    using d seconds_div [OF d, of v]
    by (simp add: convert_to_second_ticks(1) [OF assms(2), simplified] div_euclid_or_panic_def div_euclid_pos)
qed

lemma find_partitions_unfold:
  assumes wf: "tp_wf tp" and part: "batch_ok tp part"
  shows "find_partitions_by_time_range tp (row_values (bp_rows part))
      (ts_new (bp_min_timestamp part) (tp_unit tp)) (ts_new (bp_max_timestamp part) (tp_unit tp))
    = bind_fallible
        (if usize_of_i64 (wrap_i64 (wrap_i64 (last_bucket tp part - first_bucket tp part) + 1)) \<le> length (bp_rows part)
         then starts_by_number tp part else starts_by_row tp part)
        (\<lambda>missing. Ret (Inr (matching_parts tp part, missing)))"
proof -
  have D: "wrap_i64 (duration_as Second (tp_part_duration tp)) = tp_secs tp"
    using wf by (simp add: tp_wf_def tp_secs_def)
  have mn: "in_i64 (bp_min_timestamp part)" and mx: "in_i64 (bp_max_timestamp part)"
    using part by (simp_all add: batch_ok_def)
  show ?thesis
    unfolding find_partitions_by_time_range_def Let_def matching_parts_filter [OF wf]
      present_starts_values [OF wf] D bucket_number [OF wf mn] bucket_number [OF wf mx]
    by (simp only: starts_by_number_def starts_by_row_def first_bucket_def last_bucket_def length_map)
qed

text \<open>The starts found, by number or by row, are those of a set of buckets that covers the rows.\<close>

definition covers_missing :: "time_partitions \<Rightarrow> bulk_part \<Rightarrow> (write_error, timestamp list) fallible \<Rightarrow> bool" where
  "covers_missing tp part r \<longleftrightarrow>
     (\<exists>ks. r = Ret (Inr (map (\<lambda>k. ts_new (k * tp_width tp) (tp_unit tp)) ks)) \<and> distinct ks
        \<and> (\<forall>k \<in> set ks. in_i64 (k * tp_width tp) \<and> k \<le> last_bucket tp part
             \<and> k * tp_width tp \<notin> present_starts tp part)
        \<and> (\<forall>x \<in> set (bp_rows part). row_bucket tp x * tp_width tp \<notin> present_starts tp part
             \<longrightarrow> row_bucket tp x \<in> set ks))
     \<or> r = Ret (Inl InvalidRequest) \<and> \<not> in_i64 (first_bucket tp part * tp_width tp)"

lemma bucket_bounds:
  assumes wf: "tp_wf tp" and part: "batch_ok tp part" and x: "x \<in> set (bp_rows part)"
  shows "first_bucket tp part \<le> row_bucket tp x \<and> row_bucket tp x \<le> last_bucket tp part"
  using assms tp_width_pos [of tp]
  by (auto simp: tp_wf_def batch_ok_def first_bucket_def last_bucket_def row_bucket_def intro!: zdiv_mono1)

lemma bucket_in_range:
  assumes wf: "tp_wf tp" and part: "batch_ok tp part" and S: "in_i64 (first_bucket tp part * tp_width tp)"
    and k: "first_bucket tp part \<le> k" "k \<le> last_bucket tp part"
  shows "in_i64 (k * tp_width tp)"
proof -
  have w: "0 < tp_width tp" using wf by (simp add: tp_wf_def tp_width_pos)
  have "k * tp_width tp \<le> bp_max_timestamp part"
    using k(2) le_div_iff_mult [OF w] by (simp add: last_bucket_def)
  moreover have "first_bucket tp part * tp_width tp \<le> k * tp_width tp"
    using k(1) w by (simp add: mult_right_mono)
  ultimately show ?thesis using S part by (auto simp: batch_ok_def intro: in_i64_between)
qed

lemma collect_covers:
  assumes wf: "tp_wf tp" and part: "batch_ok tp part"
    and start: "\<forall>x \<in> set xs. start x = Ret (map_option (\<lambda>s. ts_new s (tp_unit tp)) (try_i64 (g x * tp_width tp)))"
    and rng: "\<forall>x \<in> set xs. first_bucket tp part \<le> g x \<and> g x \<le> last_bucket tp part"
    and rows: "row_bucket tp ` set (bp_rows part) \<subseteq> g ` set xs"
  shows "covers_missing tp part (collect_missing start xs (present_starts tp part))"
proof -
  have w: "0 < tp_width tp" using wf by (simp add: tp_wf_def tp_width_pos)
  from collect_missing_ok [OF start w, of "present_starts tp part"] consider
    ks where "collect_missing start xs (present_starts tp part) = Ret (Inr (map (\<lambda>k. ts_new (k * tp_width tp) (tp_unit tp)) ks))"
      "distinct ks" "set ks = {k \<in> g ` set xs. k * tp_width tp \<notin> present_starts tp part}"
      "\<forall>x \<in> set xs. in_i64 (g x * tp_width tp)"
    | "collect_missing start xs (present_starts tp part) = Ret (Inl InvalidRequest)"
      "\<exists>x \<in> set xs. \<not> in_i64 (g x * tp_width tp)"
    by blast
  then show ?thesis
  proof cases
    case 1
    with rng rows show ?thesis unfolding covers_missing_def
      by (intro disjI1 exI [of _ ks]) auto
  next
    case 2
    with bucket_in_range [OF wf part] rng show ?thesis unfolding covers_missing_def by blast
  qed
qed

lemma starts_by_number_covers:
  assumes wf: "tp_wf tp" and part: "batch_ok tp part" and no: "no_bucket_overflow tp part"
  shows "covers_missing tp part (starts_by_number tp part)"
proof -
  have d: "0 < tp_secs tp" using wf by (simp add: tp_wf_def)
  have b: "in_i64 (k * tp_secs tp)" if "k \<in> set [first_bucket tp part..last_bucket tp part]" for k
  proof (rule in_i64_between)
    show "in_i64 (first_bucket tp part * tp_secs tp)" using no by (simp add: no_bucket_overflow_def)
    show "in_i64 (bp_max_timestamp part div ticks (tp_unit tp))"
      using part by (intro convert_to_second_ticks(2)) (simp add: batch_ok_def)
    show "first_bucket tp part * tp_secs tp \<le> k * tp_secs tp" using that d by (simp add: mult_right_mono)
    show "k * tp_secs tp \<le> bp_max_timestamp part div ticks (tp_unit tp)"
      using that le_div_iff_mult [OF d, of k "bp_max_timestamp part div ticks (tp_unit tp)"]
        seconds_div [OF d, of "bp_max_timestamp part"] by (simp add: last_bucket_def)
  qed
  show ?thesis
    unfolding starts_by_number_def
    using bucket_start_number [OF wf b] bucket_bounds [OF wf part]
    by (intro collect_covers [OF wf part, where g = "\<lambda>k. k"]) auto
qed

lemma starts_by_row_covers:
  assumes wf: "tp_wf tp" and part: "batch_ok tp part"
  shows "covers_missing tp part (starts_by_row tp part)"
proof -
  have v: "in_i64 v" if "v \<in> set (row_values (bp_rows part))" for v
    using that part by (auto simp: batch_ok_def row_ok_def)
  have "\<forall>v \<in> set (row_values (bp_rows part)). first_bucket tp part \<le> v div tp_width tp
      \<and> v div tp_width tp \<le> last_bucket tp part"
    using bucket_bounds [OF wf part] by (auto simp: row_bucket_def)
  moreover have "row_bucket tp ` set (bp_rows part) \<subseteq> (\<lambda>v. v div tp_width tp) ` set (row_values (bp_rows part))"
    by (auto simp: row_bucket_def)
  ultimately show ?thesis
    unfolding starts_by_row_def
    using bucket_start_row [OF wf v] by (intro collect_covers [OF wf part, where g = "\<lambda>v. v div tp_width tp"]) blast+
qed

lemma find_partitions_covers:
  assumes wf: "tp_wf tp" and part: "batch_ok tp part" and no: "no_bucket_overflow tp part"
  shows "\<exists>missing. find_partitions_by_time_range tp (row_values (bp_rows part))
      (ts_new (bp_min_timestamp part) (tp_unit tp)) (ts_new (bp_max_timestamp part) (tp_unit tp))
    = bind_fallible missing (\<lambda>missing. Ret (Inr (matching_parts tp part, missing)))
    \<and> covers_missing tp part missing"
proof -
  have "covers_missing tp part (if b then starts_by_number tp part else starts_by_row tp part)" for b
    using starts_by_number_covers [OF assms] starts_by_row_covers [OF wf part] by simp
  then show ?thesis unfolding find_partitions_unfold [OF wf part] by blast
qed

lemma present_starts_index:
  assumes "tp_wf tp"
  shows "k * tp_width tp \<in> present_starts tp part \<longleftrightarrow> k \<in> part_index tp ` set (matching_parts tp part)"
  using assms tp_width_pos [of tp] by (auto simp: tp_wf_def present_starts_def)

lemma matching_parts_distinct:
  assumes wf: "tp_wf tp"
  shows "distinct (map (part_index tp) (matching_parts tp part))"
proof -
  have "i = j" if "i \<in> set (matching_parts tp part)" "j \<in> set (matching_parts tp part)"
    "part_index tp i = part_index tp j" for i j
    using that part_index_bucket [OF wf, of i] part_index_bucket [OF wf, of j] same_start_same_part [OF wf, of i j]
    by (simp add: matching_parts_def part_bucket_def bucket_range_def)
  then show ?thesis by (auto simp: distinct_map inj_on_def matching_parts_def)
qed

lemma split_write_ok:
  assumes ao: "arrow_ok ao" and wf: "tp_wf tp" and part: "batch_ok tp part"
    and ks: "\<forall>k \<in> set ks. in_i64 (k * tp_width tp)"
  shows "let r = bind_fallible (fold_fallible (write_record_batch_partial ao part) (matching_parts tp part) tp) (\<lambda>tp1.
           fold_fallible (\<lambda>start tp. case get_or_create_time_partition start tp of
               Inl err \<Rightarrow> Ret (Inl err)
             | Inr (i, tp') \<Rightarrow> write_record_batch_partial ao part i tp')
             (map (\<lambda>k. ts_new (k * tp_width tp) (tp_unit tp)) ks) tp1)
    in (\<exists>tp'. r = Ret (Inr tp') \<and> tp_wf tp' \<and> mset (tp_rows tp') = mset (tp_rows tp)
          + sum_list (map (\<lambda>k. filter_mset (\<lambda>x. row_bucket tp x = k) (mset (bp_rows part)))
              (map (part_index tp) (matching_parts tp part) @ ks)))
      \<or> r = Ret (Inl InvalidRequest) \<and> (\<exists>k \<in> set ks. \<not> in_i64 ((k + 1) * tp_width tp))"
proof -
  have rows: "\<forall>x \<in> set (bp_rows part). row_ok tp x" using part by (simp add: batch_ok_def)
  have "\<forall>i \<in> set (matching_parts tp part). i < length (tp_parts tp)
      \<and> tpart_range (tp_parts tp ! i) = bucket_range tp (part_index tp i)"
    using part_index_bucket [OF wf] by (auto simp: matching_parts_def part_bucket_def)
  from fold_matching_ok [OF ao wf rows this] obtain tp1 where
    tp1: "fold_fallible (write_record_batch_partial ao part) (matching_parts tp part) tp = Ret (Inr tp1)"
      "tp_wf tp1" "same_config tp tp1" "mset (tp_rows tp1) = mset (tp_rows tp)
        + sum_list (map (\<lambda>k. filter_mset (\<lambda>x. row_bucket tp x = k) (mset (bp_rows part)))
            (map (part_index tp) (matching_parts tp part)))" by blast
  note cfg = same_config_simps [OF tp1(3)]
  from fold_missing_parts_ok [OF ao tp1(2), of part ks] rows ks tp1 show ?thesis
    by (simp add: Let_def cfg add.assoc)
qed

lemma write_bulk_inner_total:
  assumes ao: "arrow_ok ao" and wf: "tp_wf tp" and part: "batch_ok tp part" and no: "no_bucket_overflow tp part"
  shows "(\<exists>tp'. write_bulk_inner ao part tp = Ret (Inr tp') \<and> tp_wf tp'
            \<and> mset (tp_rows tp') = mset (tp_rows tp) + mset (bp_rows part))
    \<or> write_bulk_inner ao part tp = Ret (Inl InvalidRequest)
      \<and> \<not> (in_i64 (first_bucket tp part * tp_width tp) \<and> in_i64 ((last_bucket tp part + 1) * tp_width tp))"
proof -
  let ?m = "matching_parts tp part"
  let ?sum = "\<lambda>ks. sum_list (map (\<lambda>k. filter_mset (\<lambda>x. row_bucket tp x = k) (mset (bp_rows part))) ks)"
  obtain missing where f: "find_partitions_by_time_range tp (row_values (bp_rows part))
      (ts_new (bp_min_timestamp part) (tp_unit tp)) (ts_new (bp_max_timestamp part) (tp_unit tp))
      = bind_fallible missing (\<lambda>missing. Ret (Inr (?m, missing)))" and c: "covers_missing tp part missing"
    using find_partitions_covers [OF wf part no] by blast
  from c [unfolded covers_missing_def] show ?thesis
  proof
    assume "missing = Ret (Inl InvalidRequest) \<and> \<not> in_i64 (first_bucket tp part * tp_width tp)"
    then show ?thesis by (simp add: write_bulk_inner_def f [simplified])
  next
    assume "\<exists>ks. missing = Ret (Inr (map (\<lambda>k. ts_new (k * tp_width tp) (tp_unit tp)) ks)) \<and> distinct ks
        \<and> (\<forall>k \<in> set ks. in_i64 (k * tp_width tp) \<and> k \<le> last_bucket tp part
             \<and> k * tp_width tp \<notin> present_starts tp part)
        \<and> (\<forall>x \<in> set (bp_rows part). row_bucket tp x * tp_width tp \<notin> present_starts tp part
             \<longrightarrow> row_bucket tp x \<in> set ks)"
    then obtain ks where ks: "missing = Ret (Inr (map (\<lambda>k. ts_new (k * tp_width tp) (tp_unit tp)) ks))" "distinct ks"
      "\<forall>k \<in> set ks. in_i64 (k * tp_width tp) \<and> k \<le> last_bucket tp part \<and> k \<notin> part_index tp ` set ?m"
      "\<forall>x \<in> set (bp_rows part). row_bucket tp x \<in> set ks \<union> part_index tp ` set ?m"
      using present_starts_index [OF wf] by blast
    have total: "?sum (map (part_index tp) ?m @ ks) = mset (bp_rows part)"
      using ks matching_parts_distinct [OF wf] by (intro sum_filter_mset) auto
    show ?thesis
    proof (cases "length ?m = 1 \<and> ks = []")
      case True
      then obtain i where i: "?m = [i]" by (cases ?m) auto
      then have "i \<in> set ?m" by simp
      then have il: "i < length (tp_parts tp)" by (simp add: matching_parts_def)
      have "\<forall>x \<in> set (bp_rows part). row_ok tp x \<and> row_bucket tp x = part_index tp i"
        using ks(4) True i part by (auto simp: batch_ok_def)
      with write_part_wf [OF wf il part_index_bucket [OF wf il], of "bp_rows part"] True i
      show ?thesis by (simp add: write_bulk_inner_def f [simplified] ks(1) mset_tp_rows_write_part [OF il])
    next
      case False
      then have "write_bulk_inner ao part tp =
          bind_fallible (fold_fallible (write_record_batch_partial ao part) ?m tp) (\<lambda>tp1.
           fold_fallible (\<lambda>start tp. case get_or_create_time_partition start tp of
               Inl err \<Rightarrow> Ret (Inl err)
             | Inr (i, tp') \<Rightarrow> write_record_batch_partial ao part i tp')
             (map (\<lambda>k. ts_new (k * tp_width tp) (tp_unit tp)) ks) tp1)"
        by (auto simp: write_bulk_inner_def f [simplified] ks(1))
      moreover have "\<not> in_i64 ((last_bucket tp part + 1) * tp_width tp) \<or> \<not> in_i64 (first_bucket tp part * tp_width tp)"
        if "k \<in> set ks" "\<not> in_i64 ((k + 1) * tp_width tp)" for k
        using ks(3) that in_i64_between [of "k * tp_width tp" "(last_bucket tp part + 1) * tp_width tp" "(k + 1) * tp_width tp"]
          tp_width_pos [of tp] wf by (auto simp: tp_wf_def mult_right_mono)
      ultimately show ?thesis
        using split_write_ok [OF ao wf part, of ks] ks(3) total unfolding Let_def by auto
    qed
  qed
qed

section \<open>Writing key values into either kind of memtable\<close>

text \<open>
  A memtable that uses bulk insert is given key values as one batch. The converter of the memtable
  (\<open>BulkPartConverter\<close>) sorts the rows and records the bounds of their timestamps.
\<close>

definition exact_bounds :: "bulk_part \<Rightarrow> bool" where
  "exact_bounds part \<longleftrightarrow> bp_rows part \<noteq> []
     \<and> bp_min_timestamp part = Min (set (row_values (bp_rows part)))
     \<and> bp_max_timestamp part = Max (set (row_values (bp_rows part)))"

definition converts :: "(kv list \<Rightarrow> write_error + bulk_part) \<Rightarrow> kv list \<Rightarrow> bool" where
  "converts conv kvs \<longleftrightarrow> (\<exists>part. conv kvs = Inr part \<and> mset (bp_rows part) = mset kvs \<and> exact_bounds part)"

definition bucket_start_fits :: "time_partitions \<Rightarrow> kv \<Rightarrow> bool" where
  "bucket_start_fits tp x \<longleftrightarrow> in_i64 (row_bucket tp x * tp_secs tp)"

lemma bounds_attained:
  assumes "exact_bounds part"
  shows "\<exists>x \<in> set (bp_rows part). bp_min_timestamp part = ts_value (kv_timestamp x)"
    and "\<exists>x \<in> set (bp_rows part). bp_max_timestamp part = ts_value (kv_timestamp x)"
proof -
  let ?vs = "set (row_values (bp_rows part))"
  have "finite ?vs" "?vs \<noteq> {}" using assms by (simp_all add: exact_bounds_def)
  then have "bp_min_timestamp part \<in> ?vs" "bp_max_timestamp part \<in> ?vs"
    using assms Min_in [of ?vs] Max_in [of ?vs] by (simp_all add: exact_bounds_def)
  then show "\<exists>x \<in> set (bp_rows part). bp_min_timestamp part = ts_value (kv_timestamp x)"
    and "\<exists>x \<in> set (bp_rows part). bp_max_timestamp part = ts_value (kv_timestamp x)"
    by auto
qed

lemma exact_batch_ok:
  assumes "exact_bounds part" and "\<forall>x \<in> set (bp_rows part). row_ok tp x"
  shows "batch_ok tp part"
proof -
  have bound: "bp_min_timestamp part \<le> ts_value (kv_timestamp x) \<and> ts_value (kv_timestamp x) \<le> bp_max_timestamp part"
    if "x \<in> set (bp_rows part)" for x
    using assms(1) that by (auto simp: exact_bounds_def intro!: Min_le Max_ge)
  moreover obtain x y where "x \<in> set (bp_rows part)" "bp_min_timestamp part = ts_value (kv_timestamp x)"
    "y \<in> set (bp_rows part)" "bp_max_timestamp part = ts_value (kv_timestamp y)"
    using bounds_attained [OF assms(1)] by blast
  ultimately show ?thesis using assms(2) by (auto simp: batch_ok_def row_ok_def intro: order_trans)
qed

lemma exact_buckets:
  assumes "exact_bounds part"
  shows "\<exists>x \<in> set (bp_rows part). row_bucket tp x = first_bucket tp part"
    and "\<exists>x \<in> set (bp_rows part). row_bucket tp x = last_bucket tp part"
  using bounds_attained [OF assms] by (auto simp: row_bucket_def first_bucket_def last_bucket_def)

lemma write_exact_batch:
  assumes "arrow_ok ao" and "tp_wf tp" and "exact_bounds part"
    and "\<forall>x \<in> set (bp_rows part). row_ok tp x \<and> bucket_start_fits tp x"
  shows "(\<exists>tp'. write_bulk_inner ao part tp = Ret (Inr tp') \<and> tp_wf tp'
            \<and> mset (tp_rows tp') = mset (tp_rows tp) + mset (bp_rows part))
    \<or> write_bulk_inner ao part tp = Ret (Inl InvalidRequest) \<and> (\<exists>x \<in> set (bp_rows part). \<not> representable tp x)"
proof -
  obtain x y where x: "x \<in> set (bp_rows part)" "row_bucket tp x = first_bucket tp part"
    and y: "y \<in> set (bp_rows part)" "row_bucket tp y = last_bucket tp part"
    using exact_buckets [OF assms(3), of tp] by blast
  have ok: "batch_ok tp part" using assms(3,4) by (simp add: exact_batch_ok)
  have no: "no_bucket_overflow tp part"
    using assms(4) x by (auto simp: no_bucket_overflow_def bucket_start_fits_def)
  have "\<exists>z \<in> set (bp_rows part). \<not> representable tp z"
    if "\<not> (in_i64 (first_bucket tp part * tp_width tp) \<and> in_i64 ((last_bucket tp part + 1) * tp_width tp))"
  proof -
    from that x(2) y(2) have "\<not> representable tp x \<or> \<not> representable tp y" by (auto simp: representable_def)
    with x(1) y(1) show ?thesis by blast
  qed
  then show ?thesis using write_bulk_inner_total [OF assms(1,2) ok no] by blast
qed

lemma tp_write_either:
  assumes "arrow_ok ao" and "tp_wf tp" and "\<forall>x \<in> set kvs. row_ok tp x"
    and "tp_bulk tp \<longrightarrow> converts conv kvs \<and> (\<forall>x \<in> set kvs. bucket_start_fits tp x)"
  shows "(\<exists>tp'. tp_write ao conv kvs tp = Ret (Inr tp') \<and> tp_wf tp'
            \<and> mset (tp_rows tp') = mset (tp_rows tp) + mset kvs)
    \<or> tp_write ao conv kvs tp = Ret (Inl InvalidRequest) \<and> (\<exists>x \<in> set kvs. \<not> representable tp x)"
proof (cases "tp_bulk tp")
  case True
  with assms(4) obtain part where p: "conv kvs = Inr part" "mset (bp_rows part) = mset kvs" "exact_bounds part"
    by (auto simp: converts_def)
  have "set (bp_rows part) = set kvs" by (rule mset_eq_setD [OF p(2)])
  with write_exact_batch [OF assms(1,2) p(3)] assms(3,4) p(1,2) True show ?thesis by (simp add: tp_write_def)
next
  case False
  then show ?thesis using tp_write_total [OF assms(2,3), of ao conv] by blast
qed

section \<open>Properties\<close>

text \<open>
  C16. Writing rows loses none, duplicates none and misplaces none, whether the memtable takes rows or
  batches. On well-formed partitions, rows in the unit of the time index are either all stored, and
  the partitions stay well-formed, so every row is in the partition of its time bucket and no bucket
  has two partitions; or the write reports an invalid request, and then the bucket of some row has a
  bound that 64 bits cannot represent. It never panics. For a memtable that takes batches the
  converter is assumed to return the rows with the bounds of their timestamps, the Arrow kernels to
  meet \<open>arrow_ok\<close>, and the start of the bucket of each row, which the code computes in seconds
  without a check, to fit 64 bits.
\<close>

theorem tp_write_stores_every_row_once:
  assumes "arrow_ok ao" and "tp_wf tp" and "\<forall>x \<in> set kvs. row_ok tp x"
    and "tp_bulk tp \<longrightarrow> converts conv kvs \<and> (\<forall>x \<in> set kvs. bucket_start_fits tp x)"
  shows "(\<exists>tp'. tp_write ao conv kvs tp = Ret (Inr tp') \<and> tp_wf tp'
            \<and> mset (tp_rows tp') = mset (tp_rows tp) + mset kvs)
    \<or> tp_write ao conv kvs tp = Ret (Inl InvalidRequest) \<and> (\<exists>x \<in> set kvs. \<not> representable tp x)"
  by (rule tp_write_either [OF assms])

text \<open>Sample kernels, a sample converter, and a batch of two rows in two buckets.\<close>

definition sample_arrow :: arrow_ops where
  "sample_arrow = \<lparr> ao_filter = (\<lambda>rows bits. map fst (filter snd (zip rows bits))),
     ao_min = (\<lambda>xs. if xs = [] then None else Some (Min (set xs))),
     ao_max = (\<lambda>xs. if xs = [] then None else Some (Max (set xs))) \<rparr>"

lemma sample_arrow_ok: "arrow_ok sample_arrow"
  by (auto simp: sample_arrow_def arrow_ok_def)

definition sample_converter :: "kv list \<Rightarrow> write_error + bulk_part" where
  "sample_converter kvs =
     (if kvs = [] then Inl InvalidRequest
      else Inr \<lparr>bp_rows = kvs, bp_min_timestamp = Min (set (row_values kvs)), bp_max_timestamp = Max (set (row_values kvs)),
                bp_sequence = Max (set (map kv_sequence kvs))\<rparr>)"

lemma sample_converter_ok: "kvs \<noteq> [] \<Longrightarrow> converts sample_converter kvs"
  by (simp add: sample_converter_def converts_def exact_bounds_def)

definition sample_kv :: "int \<Rightarrow> kv" where
  "sample_kv t = \<lparr>kv_timestamp = ts_new t Second, kv_sequence = 5, kv_op_type = Some OpPut\<rparr>"

definition sample_partitions :: "bool \<Rightarrow> time_partitions" where
  "sample_partitions bulk =
     tp_new \<lparr>rm_region_id = RegionId 1, rm_column_metadatas = [], rm_primary_key = [],
             rm_schema_version = 0, rm_partition_expr = None, rm_partition_expr_version = 0\<rparr>
       Second bulk 3 (Some \<lparr>dur_secs = 10, dur_nanos = 0\<rparr>)"

lemma sample_partitions_ok:
  "tp_wf (sample_partitions bulk)" "tp_rows (sample_partitions bulk) = []" "tp_bulk (sample_partitions bulk) = bulk"
  by (simp_all add: sample_partitions_def tp_wf_def tp_new_def tp_secs_def i64_defs tp_starts_def tp_rows_def)

lemma sample_kvs_ok:
  "\<forall>x \<in> set [sample_kv (- 1), sample_kv 12].
     row_ok (sample_partitions bulk) x \<and> representable (sample_partitions bulk) x \<and> bucket_start_fits (sample_partitions bulk) x"
  by (simp add: sample_partitions_def sample_kv_def tp_new_def row_ok_def representable_def bucket_start_fits_def row_bucket_def
      tp_width_def tp_secs_def ticks_def i64_defs)

theorem tp_write_stores_every_row_once_witness:
  "(\<exists>tp'. tp_write sample_arrow sample_converter [sample_kv (- 1), sample_kv 12] (sample_partitions False) = Ret (Inr tp')
     \<and> tp_wf tp' \<and> mset (tp_rows tp') = {#sample_kv (- 1), sample_kv 12#})
   \<and> (\<exists>tp'. tp_write sample_arrow sample_converter [sample_kv (- 1), sample_kv 12] (sample_partitions True) = Ret (Inr tp')
     \<and> tp_wf tp' \<and> mset (tp_rows tp') = {#sample_kv (- 1), sample_kv 12#})"
proof -
  have "\<exists>tp'. tp_write sample_arrow sample_converter [sample_kv (- 1), sample_kv 12] (sample_partitions bulk) = Ret (Inr tp')
     \<and> tp_wf tp' \<and> mset (tp_rows tp') = {#sample_kv (- 1), sample_kv 12#}" for bulk
  proof -
    have "tp_bulk (sample_partitions bulk) \<longrightarrow> converts sample_converter [sample_kv (- 1), sample_kv 12]
        \<and> (\<forall>x \<in> set [sample_kv (- 1), sample_kv 12]. bucket_start_fits (sample_partitions bulk) x)"
      using sample_kvs_ok [of bulk] by (simp add: sample_converter_ok)
    from tp_write_stores_every_row_once [OF sample_arrow_ok sample_partitions_ok(1) _ this] sample_kvs_ok [of bulk]
    show ?thesis by (auto simp: sample_partitions_ok)
  qed
  then show ?thesis by blast
qed

text \<open>
  C15. Writing a batch loses no row, duplicates none and misplaces none, on the fast path and on
  the path that splits the batch over existing and new partitions: afterwards the partitions are
  well-formed, so every row is in the partition of its bucket, and hold the old rows and each row of
  the batch once; or the write reports an invalid request, which happens only when the bounds of the
  buckets of the batch do not fit 64 bits. It never panics. The rows lie between the recorded bounds
  of the batch, the start of the first bucket in seconds, which the code computes without a check,
  fits 64 bits, and the Arrow kernels meet \<open>arrow_ok\<close>.
\<close>

theorem write_bulk_stores_every_row_once:
  assumes ao: "arrow_ok ao" and wf: "tp_wf tp" and part: "batch_ok tp part" and no: "no_bucket_overflow tp part"
  shows "(\<exists>tp'. write_bulk_inner ao part tp = Ret (Inr tp') \<and> tp_wf tp'
            \<and> mset (tp_rows tp') = mset (tp_rows tp) + mset (bp_rows part))
    \<or> write_bulk_inner ao part tp = Ret (Inl InvalidRequest)
      \<and> \<not> (in_i64 (first_bucket tp part * tp_width tp) \<and> in_i64 ((last_bucket tp part + 1) * tp_width tp))"
  using assms by (rule write_bulk_inner_total)


theorem write_bulk_stores_every_row_once_witness:
  "\<exists>tp'. write_bulk_inner sample_arrow
      \<lparr>bp_rows = [sample_kv (- 1), sample_kv 12], bp_min_timestamp = - 1, bp_max_timestamp = 12, bp_sequence = 5\<rparr> (sample_partitions False)
      = Ret (Inr tp') \<and> tp_wf tp' \<and> mset (tp_rows tp') = {#sample_kv (- 1), sample_kv 12#}"
proof -
  let ?tp = "sample_partitions False"
  let ?p = "\<lparr>bp_rows = [sample_kv (- 1), sample_kv 12], bp_min_timestamp = - 1, bp_max_timestamp = 12, bp_sequence = 5\<rparr>"
  have d: "batch_ok ?tp ?p" "no_bucket_overflow ?tp ?p"
    "in_i64 (first_bucket ?tp ?p * tp_width ?tp) \<and> in_i64 ((last_bucket ?tp ?p + 1) * tp_width ?tp)"
    by (simp_all add: sample_partitions_def sample_kv_def tp_new_def tp_secs_def i64_defs batch_ok_def no_bucket_overflow_def
        row_ok_def tp_width_def ticks_def first_bucket_def last_bucket_def)
  from write_bulk_stores_every_row_once [OF sample_arrow_ok sample_partitions_ok(1) d(1,2)] d(3) show ?thesis
    by (auto simp: sample_partitions_ok)
qed

end
