(* ===== verification/Compaction_Run.thy ===== *)
theory Compaction_Run
  imports Sst_File
begin

text \<open>
  Sorted runs of files, from \<open>src/src/mito2/src/compaction/run.rs\<close>. The trait \<open>Item\<close> with its
  supertrait \<open>Ranged\<close> is a record of the functions an implementation provides; the code is generic
  in it, and \<open>file_item\<close> is the implementation for file handles. Slices sorted in place by a
  function are local to its callers, so the model returns the runs only.
\<close>

section \<open>Definitions\<close>

subsection \<open>Ranged items\<close>

record 'a item =
  it_range :: "'a \<Rightarrow> timestamp \<times> timestamp"
  it_overlap :: "'a \<Rightarrow> 'a \<Rightarrow> bool"
  it_overlap_inclusive :: "'a \<Rightarrow> 'a \<Rightarrow> bool"
  it_size :: "'a \<Rightarrow> nat"

abbreviation it_start :: "'a item \<Rightarrow> 'a \<Rightarrow> timestamp" where
  "it_start I x \<equiv> fst (it_range I x)"

abbreviation it_end :: "'a item \<Rightarrow> 'a \<Rightarrow> timestamp" where
  "it_end I x \<equiv> snd (it_range I x)"

text \<open>The methods a type gets when it only says what its range is.\<close>

definition ranges_overlap :: "file_time_range \<Rightarrow> file_time_range \<Rightarrow> bool" where
  "ranges_overlap l r \<longleftrightarrow> ts_max (fst l) (fst r) < ts_min (snd l) (snd r)"

definition ranges_overlap_inclusive :: "file_time_range \<Rightarrow> file_time_range \<Rightarrow> bool" where
  "ranges_overlap_inclusive l r \<longleftrightarrow> ts_max (fst l) (fst r) \<le> ts_min (snd l) (snd r)"

definition primary_key_ranges_overlap :: "bytes \<times> bytes \<Rightarrow> bytes \<times> bytes \<Rightarrow> bool" where
  "primary_key_ranges_overlap lhs rhs \<longleftrightarrow> max (fst lhs) (fst rhs) \<le> min (snd lhs) (snd rhs)"

fun merge_primary_key_ranges ::
  "(bytes \<times> bytes) option \<Rightarrow> (bytes \<times> bytes) option \<Rightarrow> (bytes \<times> bytes) option" where
  "merge_primary_key_ranges (Some (lhs_min, lhs_max)) (Some (rhs_min, rhs_max)) =
     Some (min lhs_min rhs_min, max lhs_max rhs_max)"
| "merge_primary_key_ranges _ _ = None"

definition file_overlap :: "file_handle \<Rightarrow> file_handle \<Rightarrow> bool" where
  "file_overlap a b =
     (let (lhs_start, lhs_end) = fh_time_range a;
          (rhs_start, rhs_end) = fh_time_range b
      in if ts_max lhs_start rhs_start \<ge> ts_min lhs_end rhs_end then False
         else (case (fh_primary_key_range a, fh_primary_key_range b) of
                 (Some lhs, Some rhs) \<Rightarrow> primary_key_ranges_overlap lhs rhs
               | _ \<Rightarrow> True))"

definition file_overlap_inclusive :: "file_handle \<Rightarrow> file_handle \<Rightarrow> bool" where
  "file_overlap_inclusive a b =
     (let (lhs_start, lhs_end) = fh_time_range a;
          (rhs_start, rhs_end) = fh_time_range b
      in if ts_max lhs_start rhs_start > ts_min lhs_end rhs_end then False
         else (case (fh_primary_key_range a, fh_primary_key_range b) of
                 (Some lhs, Some rhs) \<Rightarrow> primary_key_ranges_overlap lhs rhs
               | _ \<Rightarrow> True))"

definition file_item :: "file_handle item" where
  "file_item =
     \<lparr>it_range = fh_time_range, it_overlap = file_overlap, it_overlap_inclusive = file_overlap_inclusive,
      it_size = (\<lambda>h. fm_file_size (fh_meta h))\<rparr>"

definition ranged_le :: "'a item \<Rightarrow> 'a \<Rightarrow> 'a \<Rightarrow> bool" where
  "ranged_le I l r \<longleftrightarrow>
     then_cmp (ts_cmp (it_start I l) (it_start I r)) (ts_cmp (it_end I r) (it_end I l)) \<noteq> Greater"

definition sort_ranged_items :: "'a item \<Rightarrow> 'a list \<Rightarrow> 'a list" where
  "sort_ranged_items I values = sort_by (ranged_le I) values"

subsection \<open>Runs\<close>

record 'a sorted_run =
  sr_items :: "'a list"
  sr_size :: nat
  sr_start :: "timestamp option"
  sr_end :: "timestamp option"
  sr_sorted :: bool

definition sorted_run_default :: "'a sorted_run" where
  "sorted_run_default = \<lparr>sr_items = [], sr_size = 0, sr_start = None, sr_end = None, sr_sorted = False\<rparr>"

definition push_item :: "'a item \<Rightarrow> 'a \<Rightarrow> 'a sorted_run \<Rightarrow> 'a sorted_run" where
  "push_item I t r =
     (let (file_start, file_end) = it_range I t
      in r\<lparr>sr_size := usize_add (sr_size r) (it_size I t),
           sr_items := sr_items r @ [t],
           sr_start := Some (case sr_start r of None \<Rightarrow> file_start | Some v \<Rightarrow> ts_min v file_start),
           sr_end := Some (case sr_end r of None \<Rightarrow> file_end | Some v \<Rightarrow> ts_max v file_end)\<rparr>)"

definition run_from :: "'a item \<Rightarrow> 'a list \<Rightarrow> 'a sorted_run" where
  "run_from I items = fold (push_item I) items sorted_run_default"

subsection \<open>Items of two runs that overlap\<close>

text \<open>Skips right elements that end before the left element starts.\<close>

function skip_right :: "'a item \<Rightarrow> timestamp \<Rightarrow> 'a list \<Rightarrow> nat \<Rightarrow> nat" where
  "skip_right I lhs_start rs r_idx =
     (if r_idx < length rs \<and> it_end I (rs ! r_idx) < lhs_start then skip_right I lhs_start rs (r_idx + 1)
      else r_idx)"
  by pat_completeness auto
termination
  by (relation "measure (\<lambda>(I, s, rs, i). length rs - i)") auto

definition select_item :: "nat \<Rightarrow> 'a \<Rightarrow> bool list \<times> 'a list \<Rightarrow> bool list \<times> 'a list" where
  "select_item idx x st =
     (case st of (selected, result) \<Rightarrow>
        if \<not> selected ! idx then (selected[idx := True], result @ [x]) else (selected, result))"

function scan_right ::
  "'a item \<Rightarrow> nat \<Rightarrow> 'a \<Rightarrow> nat \<Rightarrow> 'a list \<Rightarrow> nat \<Rightarrow> bool list \<times> 'a list \<Rightarrow> bool list \<times> 'a list" where
  "scan_right I lhs_idx lhs l_len rs j st =
     (if j < length rs \<and> \<not> it_start I (rs ! j) > it_end I lhs
      then scan_right I lhs_idx lhs l_len rs (j + 1)
             (if it_overlap_inclusive I lhs (rs ! j)
              then select_item (l_len + j) (rs ! j) (select_item lhs_idx lhs st)
              else st)
      else st)"
  by pat_completeness auto
termination
  by (relation "measure (\<lambda>(I, k, x, n, rs, j, st). length rs - j)") auto

declare skip_right.simps [simp del] scan_right.simps [simp del]

fun overlap_left ::
  "'a item \<Rightarrow> nat \<Rightarrow> 'a list \<Rightarrow> nat \<times> 'a \<Rightarrow> nat \<times> bool list \<times> 'a list \<Rightarrow> nat \<times> bool list \<times> 'a list" where
  "overlap_left I l_len rs (lhs_idx, lhs) (r_idx, st) =
     (let r_idx = skip_right I (it_start I lhs) rs r_idx
      in (r_idx, scan_right I lhs_idx lhs l_len rs r_idx st))"

definition sort_run :: "'a item \<Rightarrow> 'a sorted_run \<Rightarrow> 'a sorted_run" where
  "sort_run I r =
     (if \<not> sr_sorted r then r\<lparr>sr_items := sort_ranged_items I (sr_items r), sr_sorted := True\<rparr> else r)"

text \<open>The runs, which the code sorts in place, and the result.\<close>

definition find_overlapping_items ::
  "'a item \<Rightarrow> 'a sorted_run \<Rightarrow> 'a sorted_run \<Rightarrow> 'a list \<Rightarrow> 'a sorted_run \<times> 'a sorted_run \<times> 'a list" where
  "find_overlapping_items I l r result =
     (if sr_items l = [] \<or> sr_items r = [] then (l, r, result)
      else (let l = sort_run I l; r = sort_run I r;
                ls = sr_items l; rs = sr_items r;
                selected = replicate (length rs + length ls) False;
                (r_idx, selected, result) =
                  fold (overlap_left I (length ls) rs) (enumerate 0 ls) (0, selected, [])
            in (l, r, result)))"

subsection \<open>Finding sorted runs\<close>

text \<open>
  One pass over the items: the run under construction, the indices of its items that may still
  overlap a later item, and the start for which they were last pruned. A selection pairs each item
  with its bit.
\<close>

record 'a run_pass =
  rp_run :: "'a sorted_run"
  rp_active :: "nat list"
  rp_pruned :: "timestamp option"

definition run_pass_default :: "'a run_pass" where
  "run_pass_default = \<lparr>rp_run = sorted_run_default, rp_active = [], rp_pruned = None\<rparr>"

definition prune :: "'a item \<Rightarrow> 'a \<Rightarrow> 'a run_pass \<Rightarrow> 'a run_pass" where
  "prune I x p =
     (if (case rp_pruned p of None \<Rightarrow> True | Some s \<Rightarrow> \<not> ts_eq s (it_start I x))
      then p\<lparr>rp_active := filter (\<lambda>idx. it_end I (sr_items (rp_run p) ! idx) > it_start I x) (rp_active p),
             rp_pruned := Some (it_start I x)\<rparr>
      else p)"

definition push_active :: "'a item \<Rightarrow> 'a \<Rightarrow> 'a run_pass \<Rightarrow> 'a run_pass" where
  "push_active I x p =
     p\<lparr>rp_run := push_item I x (rp_run p), rp_active := rp_active p @ [length (sr_items (rp_run p))]\<rparr>"

fun find_run :: "'a item \<Rightarrow> ('a \<times> bool) list \<Rightarrow> 'a run_pass \<Rightarrow> ('a \<times> bool) list \<times> 'a run_pass" where
  "find_run I [] p = ([], p)"
| "find_run I ((x, selected) # xs) p =
     (if selected then (let (ys, q) = find_run I xs p in ((x, True) # ys, q))
      else if sr_items (rp_run p) = []
      then (let (ys, q) = find_run I xs (push_active I x p) in ((x, True) # ys, q))
      else (let p = prune I x p;
                overlaps_any = list_ex (\<lambda>idx. it_overlap I (sr_items (rp_run p) ! idx) x) (rp_active p)
            in if \<not> overlaps_any
               then (let (ys, q) = find_run I xs (push_active I x p) in ((x, True) # ys, q))
               else (let (ys, q) = find_run I xs p in ((x, False) # ys, q))))"

lemma find_run_keeps_selected:
  "length (filter (\<lambda>e. \<not> snd e) (fst (find_run I xs p))) \<le> length (filter (\<lambda>e. \<not> snd e) xs)"
proof (induction I xs p rule: find_run.induct)
  case (2 I x selected xs p)
  then show ?case by (auto simp: Let_def le_SucI split: prod.splits)
qed simp

lemma find_run_selects:
  "\<not> list_all snd xs \<Longrightarrow> sr_items (rp_run p) = [] \<Longrightarrow>
   length (filter (\<lambda>e. \<not> snd e) (fst (find_run I xs p))) < length (filter (\<lambda>e. \<not> snd e) xs)"
proof (induction I xs p rule: find_run.induct)
  case (2 I x selected xs p)
  then show ?case
    using find_run_keeps_selected [of I xs "push_active I x p"]
    by (auto simp: Let_def less_Suc_eq_le split: prod.splits)
qed simp

function find_runs :: "'a item \<Rightarrow> ('a \<times> bool) list \<Rightarrow> 'a sorted_run list" where
  "find_runs I selection =
     (if list_all snd selection then []
      else (case find_run I selection run_pass_default of
              (selection', p) \<Rightarrow> rp_run p # find_runs I selection'))"
  by pat_completeness auto
termination
proof (relation "measure (\<lambda>(I, s). length (filter (\<lambda>e. \<not> snd e) s))")
  fix I :: "'a item" and s s' p
  assume "\<not> list_all snd s" and "(s', p) = find_run I s run_pass_default"
  then show "((I, s'), (I, s)) \<in> measure (\<lambda>(I, s). length (filter (\<lambda>e. \<not> snd e) s))"
    using find_run_selects [of s run_pass_default I]
    by (cases "find_run I s run_pass_default") (simp add: run_pass_default_def sorted_run_default_def)
qed auto

declare find_runs.simps [simp del]

definition find_sorted_runs :: "'a item \<Rightarrow> 'a list \<Rightarrow> 'a sorted_run list" where
  "find_sorted_runs I items =
     (if items = [] then [] else find_runs I (map (\<lambda>x. (x, False)) (sort_ranged_items I items)))"

text \<open>
  The same search without pruning, which the code keeps for comparison.
\<close>

fun find_run_original ::
  "'a item \<Rightarrow> ('a \<times> bool) list \<Rightarrow> 'a sorted_run \<Rightarrow> ('a \<times> bool) list \<times> 'a sorted_run" where
  "find_run_original I [] r = ([], r)"
| "find_run_original I ((x, selected) # xs) r =
     (if selected then (let (ys, r') = find_run_original I xs r in ((x, True) # ys, r'))
      else if sr_items r = []
      then (let (ys, r') = find_run_original I xs (push_item I x r) in ((x, True) # ys, r'))
      else if \<not> list_ex (\<lambda>i. it_overlap I i x) (sr_items r)
      then (let (ys, r') = find_run_original I xs (push_item I x r) in ((x, True) # ys, r'))
      else (let (ys, r') = find_run_original I xs r in ((x, False) # ys, r')))"

lemma find_run_original_keeps_selected:
  "length (filter (\<lambda>e. \<not> snd e) (fst (find_run_original I xs r))) \<le> length (filter (\<lambda>e. \<not> snd e) xs)"
proof (induction I xs r rule: find_run_original.induct)
  case (2 I x selected xs r)
  then show ?case by (cases "sr_items r = []") (auto simp: Let_def le_SucI split: prod.splits)
qed simp

lemma find_run_original_selects:
  "\<not> list_all snd xs \<Longrightarrow> sr_items r = [] \<Longrightarrow>
   length (filter (\<lambda>e. \<not> snd e) (fst (find_run_original I xs r))) < length (filter (\<lambda>e. \<not> snd e) xs)"
proof (induction I xs r rule: find_run_original.induct)
  case (2 I x selected xs r)
  then show ?case
    using find_run_original_keeps_selected [of I xs "push_item I x r"]
    by (auto simp: Let_def less_Suc_eq_le split: prod.splits)
qed simp

function find_runs_original :: "'a item \<Rightarrow> ('a \<times> bool) list \<Rightarrow> 'a sorted_run list" where
  "find_runs_original I selection =
     (if list_all snd selection then []
      else (case find_run_original I selection sorted_run_default of
              (selection', r) \<Rightarrow> r # find_runs_original I selection'))"
  by pat_completeness auto
termination
proof (relation "measure (\<lambda>(I, s). length (filter (\<lambda>e. \<not> snd e) s))")
  fix I :: "'a item" and s s' r
  assume "\<not> list_all snd s" and "(s', r) = find_run_original I s sorted_run_default"
  then show "((I, s'), (I, s)) \<in> measure (\<lambda>(I, s). length (filter (\<lambda>e. \<not> snd e) s))"
    using find_run_original_selects [of s sorted_run_default I]
    by (cases "find_run_original I s sorted_run_default") (simp add: sorted_run_default_def)
qed auto

declare find_runs_original.simps [simp del]

definition find_sorted_runs_original :: "'a item \<Rightarrow> 'a list \<Rightarrow> 'a sorted_run list" where
  "find_sorted_runs_original I items =
     (if items = [] then [] else find_runs_original I (map (\<lambda>x. (x, False)) (sort_ranged_items I items)))"

subsection \<open>Finding sorted runs in one sweep\<close>

text \<open>
  A run with its creation sequence. A binary heap is the list of its elements in descending order,
  so that its top is the head; the order of \<open>into_vec\<close> does not matter, because the runs are sorted
  by their sequence afterwards. The bounds of a run exist because it is created with an item.
\<close>

record 'a idx_run =
  ir_i :: nat
  ir_run :: "'a sorted_run"

definition idx_run_new :: "'a item \<Rightarrow> nat \<Rightarrow> 'a \<Rightarrow> 'a idx_run" where
  "idx_run_new I i x = \<lparr>ir_i = i, ir_run = push_item I x sorted_run_default\<rparr>"

definition idx_run_push :: "'a item \<Rightarrow> 'a \<Rightarrow> 'a idx_run \<Rightarrow> 'a idx_run" where
  "idx_run_push I x r = r\<lparr>ir_run := push_item I x (ir_run r)\<rparr>"

definition idx_run_cmp :: "'a idx_run \<Rightarrow> 'a idx_run \<Rightarrow> ordering" where
  "idx_run_cmp l r =
     then_cmp (ts_cmp (the (sr_end (ir_run r))) (the (sr_end (ir_run l))))
       (then_cmp (ts_cmp (the (sr_start (ir_run l))) (the (sr_start (ir_run r))))
         (cmp_of (ir_i l) (ir_i r)))"

definition wrapper_cmp :: "'a idx_run \<Rightarrow> 'a idx_run \<Rightarrow> ordering" where
  "wrapper_cmp l r = cmp_of (ir_i r) (ir_i l)"

definition heap_push :: "('b \<Rightarrow> 'b \<Rightarrow> ordering) \<Rightarrow> 'b \<Rightarrow> 'b list \<Rightarrow> 'b list" where
  "heap_push c x h = insort_by (\<lambda>a b. c a b \<noteq> Less) x h"

text \<open>Moves the runs that end before the item starts to the heap ordered by sequence.\<close>

fun pop_ended :: "timestamp \<Rightarrow> 'a idx_run list \<Rightarrow> 'a idx_run list \<Rightarrow> 'a idx_run list \<times> 'a idx_run list" where
  "pop_ended start [] by_index = ([], by_index)"
| "pop_ended start (r # by_end) by_index =
     (if the (sr_end (ir_run r)) \<le> start then pop_ended start by_end (heap_push wrapper_cmp r by_index)
      else (r # by_end, by_index))"

fun sweep_item ::
  "'a item \<Rightarrow> 'a \<Rightarrow> 'a idx_run list \<times> 'a idx_run list \<times> nat \<Rightarrow> 'a idx_run list \<times> 'a idx_run list \<times> nat" where
  "sweep_item I x (by_end, by_index, i) =
     (case pop_ended (it_start I x) by_end by_index of
        (by_end, []) \<Rightarrow> (heap_push idx_run_cmp (idx_run_new I (i + 1) x) by_end, [], i + 1)
      | (by_end, r # by_index) \<Rightarrow> (heap_push idx_run_cmp (idx_run_push I x r) by_end, by_index, i))"

definition find_sorted_runs_by_time_range :: "'a item \<Rightarrow> 'a list \<Rightarrow> 'a sorted_run list" where
  "find_sorted_runs_by_time_range I items =
     (if items = [] then []
      else (case fold (sweep_item I) (sort_ranged_items I items) ([], [], 0) of
              (by_end, by_index, _) \<Rightarrow>
                map ir_run (sort_by (\<lambda>a b. ir_i a \<le> ir_i b) (by_end @ by_index))))"

subsection \<open>Specification side\<close>

text \<open>
  First fit: an item joins the first run none of whose items it overlaps, or opens a new run.
  \<open>greedy\<close> builds one run and returns the items it leaves.
\<close>

fun ff_insert :: "('a \<Rightarrow> 'a \<Rightarrow> bool) \<Rightarrow> 'a \<Rightarrow> 'a list list \<Rightarrow> 'a list list" where
  "ff_insert ov x [] = [[x]]"
| "ff_insert ov x (r # rs) =
     (if list_ex (\<lambda>y. ov y x) r then r # ff_insert ov x rs else (r @ [x]) # rs)"

definition first_fit :: "('a \<Rightarrow> 'a \<Rightarrow> bool) \<Rightarrow> 'a list \<Rightarrow> 'a list list" where
  "first_fit ov xs = fold (ff_insert ov) xs []"

fun greedy :: "('a \<Rightarrow> 'a \<Rightarrow> bool) \<Rightarrow> 'a list \<Rightarrow> 'a list \<Rightarrow> 'a list \<times> 'a list" where
  "greedy ov r [] = (r, [])"
| "greedy ov r (x # xs) =
     (if list_ex (\<lambda>y. ov y x) r then (case greedy ov r xs of (r', rest) \<Rightarrow> (r', x # rest))
      else greedy ov (r @ [x]) xs)"

definition unselected :: "('a \<times> bool) list \<Rightarrow> 'a list" where
  "unselected s = map fst (filter (\<lambda>e. \<not> snd e) s)"

text \<open>Items of the run that are not active end before every item still to come.\<close>

definition active_ok :: "'a item \<Rightarrow> 'a run_pass \<Rightarrow> 'a list \<Rightarrow> bool" where
  "active_ok I p us \<longleftrightarrow>
     (\<forall>idx \<in> set (rp_active p). idx < length (sr_items (rp_run p)))
     \<and> (\<forall>idx < length (sr_items (rp_run p)). idx \<notin> set (rp_active p) \<longrightarrow>
          (\<forall>x \<in> set us. it_end I (sr_items (rp_run p) ! idx) \<le> it_start I x))"

section \<open>First fit\<close>

lemma fold_ff_insert:
  "fold (ff_insert ov) xs (r # rs) =
     fst (greedy ov r xs) # fold (ff_insert ov) (snd (greedy ov r xs)) rs"
proof (induction xs arbitrary: r rs)
  case (Cons x xs)
  then show ?case by (auto split: prod.splits)
qed simp

lemma first_fit_greedy:
  "first_fit ov (x # xs) = fst (greedy ov [x] xs) # first_fit ov (snd (greedy ov [x] xs))"
  by (simp add: first_fit_def fold_ff_insert)

lemma set_greedy: "set (snd (greedy ov r xs)) \<subseteq> set xs"
proof (induction ov r xs rule: greedy.induct)
  case (2 ov r x xs)
  then show ?case by (cases "greedy ov r xs"; cases "list_ex (\<lambda>y. ov y x) r") auto
qed simp

lemma sorted_greedy: "sorted_wrt P xs \<Longrightarrow> sorted_wrt P (snd (greedy ov r xs))"
proof (induction ov r xs rule: greedy.induct)
  case (2 ov r x xs)
  then show ?case
    using set_greedy [of ov r xs] by (cases "greedy ov r xs"; cases "list_ex (\<lambda>y. ov y x) r") auto
qed simp

lemma mset_ff_insert: "mset (concat (ff_insert ov x rs)) = add_mset x (mset (concat rs))"
  by (induction rs) auto

lemma mset_fold_ff_insert: "mset (concat (fold (ff_insert ov) xs rs)) = mset xs + mset (concat rs)"
  by (induction xs arbitrary: rs) (auto simp: mset_ff_insert)

lemma mset_first_fit: "mset (concat (first_fit ov xs)) = mset xs"
  by (simp add: first_fit_def mset_fold_ff_insert)

lemma ff_insert_runs:
  assumes "\<forall>r \<in> set rs. r \<noteq> [] \<and> sorted_wrt (\<lambda>x y. \<not> ov x y) r"
  shows "\<forall>r \<in> set (ff_insert ov x rs). r \<noteq> [] \<and> sorted_wrt (\<lambda>x y. \<not> ov x y) r"
  using assms by (induction rs) (auto simp: sorted_wrt_append list_ex_iff)

lemma first_fit_runs: "\<forall>r \<in> set (first_fit ov xs). r \<noteq> [] \<and> sorted_wrt (\<lambda>x y. \<not> ov x y) r"
  unfolding first_fit_def by (rule fold_invariant_set) (simp, rule ff_insert_runs)

text \<open>An item of a later run overlaps, in every earlier run, an item that does not start after it.\<close>

fun blocked :: "('a \<Rightarrow> 'a \<Rightarrow> bool) \<Rightarrow> ('a \<Rightarrow> int) \<Rightarrow> 'a list list \<Rightarrow> bool" where
  "blocked ov key [] = True"
| "blocked ov key (r # rs) \<longleftrightarrow>
     blocked ov key rs \<and> (\<forall>q \<in> set rs. \<forall>x \<in> set q. \<exists>y \<in> set r. ov y x \<and> key y \<le> key x)"

lemma set_concat_ff_insert: "set (concat (ff_insert ov x rs)) = insert x (set (concat rs))"
  using mset_ff_insert [of ov x rs] by (metis set_mset_add_mset_insert set_mset_mset)

lemma blocked_ff_insert:
  assumes "blocked ov key rs" and "\<forall>y \<in> set (concat rs). key y \<le> key x"
  shows "blocked ov key (ff_insert ov x rs)"
  using assms
proof (induction rs)
  case Nil
  then show ?case by simp
next
  case (Cons r rs)
  show ?case
  proof (cases "list_ex (\<lambda>y. ov y x) r")
    case True
    then have "\<exists>y \<in> set r. ov y x \<and> key y \<le> key x" using Cons.prems by (auto simp: list_ex_iff)
    moreover have "q \<in> set (ff_insert ov x rs) \<Longrightarrow> z \<in> set q \<Longrightarrow> z = x \<or> (\<exists>q \<in> set rs. z \<in> set q)" for q z
      using set_concat_ff_insert [of ov x rs] by auto
    ultimately show ?thesis using True Cons by simp blast
  next
    case False
    with Cons.prems show ?thesis by (simp add: Bex_def) blast
  qed
qed

lemma blocked_first_fit:
  assumes "sorted_wrt (\<lambda>x y. key x \<le> key y) xs"
  shows "blocked ov key (first_fit ov xs)"
proof -
  have "blocked ov key (fold (ff_insert ov) xs rs)"
    if "blocked ov key rs" "\<forall>y \<in> set (concat rs). \<forall>x \<in> set xs. key y \<le> key x" for rs
    using that assms
  proof (induction xs arbitrary: rs)
    case (Cons x xs)
    then show ?case
      using blocked_ff_insert [of ov key rs x] by (auto simp: set_concat_ff_insert simp del: set_concat)
  qed simp
  then show ?thesis by (simp add: first_fit_def)
qed

section \<open>Runs found by the code\<close>

lemma ts_min_max_instant [simp]:
  "instant_ns (ts_min a b) = min (instant_ns a) (instant_ns b)"
  "instant_ns (ts_max a b) = max (instant_ns a) (instant_ns b)"
  by (auto simp: ts_min_def ts_max_def ts_order)

lemma sort_ranged_items_simps [simp]:
  "set (sort_ranged_items I xs) = set xs" "mset (sort_ranged_items I xs) = mset xs"
  "sort_ranged_items I xs = [] \<longleftrightarrow> xs = []"
  by (simp_all add: sort_ranged_items_def)

lemma ranged_le_iff:
  "ranged_le I l r \<longleftrightarrow> instant_ns (it_start I l) < instant_ns (it_start I r)
     \<or> instant_ns (it_start I l) = instant_ns (it_start I r) \<and> instant_ns (it_end I r) \<le> instant_ns (it_end I l)"
  by (auto simp: ranged_le_def ts_cmp_instant then_cmp_Greater)

lemma sorted_ranged_items: "sorted_wrt (ranged_le I) (sort_ranged_items I xs)"
  unfolding sort_ranged_items_def by (rule sorted_wrt_sort_by) (auto simp: ranged_le_iff)

lemma sorted_starts:
  "sorted_wrt (\<lambda>x y. instant_ns (it_start I x) \<le> instant_ns (it_start I y)) (sort_ranged_items I xs)"
  by (rule sorted_wrt_mono_rel [OF _ sorted_ranged_items]) (auto simp: ranged_le_iff)

lemma push_item_simps [simp]:
  "sr_items (push_item I x r) = sr_items r @ [x]" "sr_end (push_item I x r) \<noteq> None"
  "sr_start (push_item I x r) \<noteq> None"
  by (simp_all add: push_item_def split: prod.split)

lemma sr_items_run_from [simp]: "sr_items (run_from I xs) = xs"
proof -
  have "sr_items (fold (push_item I) xs r) = sr_items r @ xs" for r
    by (induction xs arbitrary: r) auto
  then show ?thesis by (simp add: run_from_def sorted_run_default_def)
qed

lemma push_item_run_from: "push_item I x (run_from I xs) = run_from I (xs @ [x])"
  by (simp add: run_from_def)

lemma sr_items_default [simp]: "sr_items sorted_run_default = []"
  by (simp add: sorted_run_default_def)

lemma run_from_Nil: "sorted_run_default = run_from I []"
  by (simp add: run_from_def)

lemma unselected_simps [simp]:
  "unselected [] = []" "unselected ((x, True) # s) = unselected s" "unselected ((x, False) # s) = x # unselected s"
  "unselected (map (\<lambda>x. (x, False)) xs) = xs"
  by (simp_all add: unselected_def filter_map comp_def)

lemma unselected_Nil_iff: "unselected s = [] \<longleftrightarrow> list_all snd s"
  by (induction s) (auto simp: unselected_def list_all_iff filter_empty_conv)

lemma length_unselected: "length (unselected s) = length (filter (\<lambda>e. \<not> snd e) s)"
  by (simp add: unselected_def)

lemma find_run_original_greedy:
  assumes "r = run_from I (sr_items r)"
  shows "(case find_run_original I s r of (s', r') \<Rightarrow> (sr_items r', unselected s', r'))
    = (case greedy (it_overlap I) (sr_items r) (unselected s) of (g, rest) \<Rightarrow> (g, rest, run_from I g))"
  using assms
proof (induction I s r rule: find_run_original.induct)
  case (2 I x selected s r)
  have push: "push_item I x r = run_from I (sr_items (push_item I x r))"
    using 2(5) push_item_run_from [of I x "sr_items r"] by simp
  show ?case
    using 2(1) [OF _ 2(5)] 2(2) [OF _ _ push] 2(3) [OF _ _ _ push] 2(4) [OF _ _ _ 2(5)]
    by (cases "sr_items r = []"; cases selected) (auto split: prod.splits)
qed simp

lemma find_runs_original_first_fit:
  "find_runs_original I s = map (run_from I) (first_fit (it_overlap I) (unselected s))"
proof (induction "length (unselected s)" arbitrary: s rule: less_induct)
  case less
  show ?case
  proof (cases "unselected s")
    case Nil
    then show ?thesis by (simp add: find_runs_original.simps unselected_Nil_iff [symmetric] first_fit_def)
  next
    case (Cons x xs)
    obtain s' r where f: "find_run_original I s sorted_run_default = (s', r)" by fastforce
    have "\<not> list_all snd s" using Cons unselected_Nil_iff [of s] by simp
    then have len: "length (unselected s') < length (unselected s)"
      using find_run_original_selects [of s sorted_run_default I] f by (simp add: length_unselected)
    from Cons find_run_original_greedy [of sorted_run_default I s] f
    have "greedy (it_overlap I) [x] xs = (sr_items r, unselected s')" "r = run_from I (sr_items r)"
      by (auto simp: run_from_Nil [of I] split: prod.splits)
    with less [OF len] Cons f show ?thesis
      by (simp add: find_runs_original.simps unselected_Nil_iff [symmetric] first_fit_greedy)
  qed
qed

text \<open>
  What the search relies on of an implementation of the trait: items that overlap share an instant
  strictly before the ends of both.
\<close>

locale ranged_item =
  fixes I :: "'a item"
  assumes overlap_within: "it_overlap I x y \<Longrightarrow> it_start I y < it_end I x"
begin

lemma push_active_items [simp]: "sr_items (rp_run (push_active I x p)) = sr_items (rp_run p) @ [x]"
  by (simp add: push_active_def)

lemma active_ok_tail: "active_ok I p (x # us) \<Longrightarrow> active_ok I p us"
  by (auto simp: active_ok_def)

lemma active_ok_push: "active_ok I p us \<Longrightarrow> active_ok I (push_active I x p) us"
  by (auto simp: active_ok_def push_active_def nth_append less_Suc_eq)

lemma prune_run [simp]: "rp_run (prune I x p) = rp_run p"
  by (simp add: prune_def)

lemma active_ok_prune:
  assumes "active_ok I p (x # us)" and "\<forall>y \<in> set us. it_start I x \<le> it_start I y"
  shows "active_ok I (prune I x p) (x # us)"
proof (cases "prune I x p = p")
  case False
  then have p: "prune I x p = p\<lparr>rp_active := filter (\<lambda>idx. it_end I (sr_items (rp_run p) ! idx) > it_start I x) (rp_active p),
      rp_pruned := Some (it_start I x)\<rparr>" by (simp add: prune_def split: if_splits)
  show ?thesis
    unfolding p active_ok_def using assms by (force simp: active_ok_def ts_order not_less)
qed (use assms in simp)

lemma active_overlaps:
  assumes "active_ok I p (x # us)"
  shows "list_ex (\<lambda>idx. it_overlap I (sr_items (rp_run p) ! idx) x) (rp_active p)
    \<longleftrightarrow> list_ex (\<lambda>y. it_overlap I y x) (sr_items (rp_run p))"
proof
  assume "list_ex (\<lambda>y. it_overlap I y x) (sr_items (rp_run p))"
  then obtain idx where idx: "idx < length (sr_items (rp_run p))" "it_overlap I (sr_items (rp_run p) ! idx) x"
    by (auto simp: list_ex_length)
  with overlap_within [OF idx(2)] assms have "idx \<in> set (rp_active p)"
    by (auto simp: active_ok_def ts_order not_le)
  with idx show "list_ex (\<lambda>idx. it_overlap I (sr_items (rp_run p) ! idx) x) (rp_active p)"
    by (auto simp: list_ex_iff)
qed (use assms in \<open>auto simp: active_ok_def list_ex_iff\<close>)

lemma find_run_greedy:
  assumes "rp_run p = run_from I (sr_items (rp_run p))" and "active_ok I p (unselected s)"
    and "sorted_wrt (\<lambda>x y. it_start I x \<le> it_start I y) (unselected s)"
  shows "(case find_run I s p of (s', q) \<Rightarrow> (unselected s', rp_run q))
    = (case greedy (it_overlap I) (sr_items (rp_run p)) (unselected s) of (g, rest) \<Rightarrow> (rest, run_from I g))"
  using assms
proof (induction s arbitrary: p)
  case (Cons e s)
  obtain x selected where e: "e = (x, selected)" by fastforce
  show ?case
  proof (cases selected)
    case True
    with Cons.IH [of p] Cons.prems show ?thesis by (auto simp: e split: prod.splits)
  next
    case False
    let ?q = "if sr_items (rp_run p) = [] then p else prune I x p"
    have run: "rp_run ?q = rp_run p" by simp
    have q: "active_ok I ?q (x # unselected s)"
      using Cons.prems False active_ok_prune [of p x "unselected s"] by (auto simp: e)
    have "rp_run (push_active I x ?q) = run_from I (sr_items (rp_run (push_active I x ?q)))"
      using Cons.prems(1) push_item_run_from [of I x "sr_items (rp_run p)"] by (simp add: push_active_def)
    with Cons.IH [of "push_active I x ?q"] Cons.IH [of ?q] Cons.prems False
      active_ok_push [OF active_ok_tail [OF q], of x] active_ok_tail [OF q] active_overlaps [OF q]
    show ?thesis by (cases "sr_items (rp_run p) = []") (auto simp: e Let_def split: prod.splits)
  qed
qed simp

lemma find_runs_first_fit:
  assumes "sorted_wrt (\<lambda>x y. it_start I x \<le> it_start I y) (unselected s)"
  shows "find_runs I s = map (run_from I) (first_fit (it_overlap I) (unselected s))"
  using assms
proof (induction "length (unselected s)" arbitrary: s rule: less_induct)
  case less
  show ?case
  proof (cases "unselected s")
    case Nil
    then show ?thesis by (simp add: find_runs.simps unselected_Nil_iff [symmetric] first_fit_def)
  next
    case (Cons x xs)
    obtain s' p where f: "find_run I s run_pass_default = (s', p)" by fastforce
    have "\<not> list_all snd s" using Cons unselected_Nil_iff [of s] by simp
    then have len: "length (unselected s') < length (unselected s)"
      using find_run_selects [of s run_pass_default I] f
      by (simp add: length_unselected run_pass_default_def)
    have "greedy (it_overlap I) [x] xs = (sr_items (rp_run p), unselected s')"
      "rp_run p = run_from I (sr_items (rp_run p))"
      using find_run_greedy [of run_pass_default s] f less.prems Cons
      by (auto simp: run_pass_default_def run_from_Nil [of I] active_ok_def split: prod.splits)
    moreover have "sorted_wrt (\<lambda>x y. it_start I x \<le> it_start I y) (snd (greedy (it_overlap I) [x] xs))"
      using less.prems Cons sorted_greedy [of _ xs "it_overlap I" "[x]"] by simp
    ultimately show ?thesis using less.hyps [OF len] Cons f
      by (simp add: find_runs.simps unselected_Nil_iff [symmetric] first_fit_greedy)
  qed
qed

lemma find_sorted_runs_first_fit:
  "find_sorted_runs I items = map (run_from I) (first_fit (it_overlap I) (sort_ranged_items I items))"
proof -
  have "sorted_wrt (\<lambda>x y. it_start I x \<le> it_start I y) (sort_ranged_items I items)"
    using sorted_starts by (simp add: ts_order)
  then show ?thesis
    using find_runs_first_fit [of "map (\<lambda>x. (x, False)) (sort_ranged_items I items)"]
    by (simp add: find_sorted_runs_def first_fit_def sort_ranged_items_def)
qed

lemma pruning_sound: "find_sorted_runs I items = find_sorted_runs_original I items"
  by (simp add: find_sorted_runs_first_fit find_sorted_runs_original_def find_runs_original_first_fit
      first_fit_def sort_ranged_items_def)

end

text \<open>File handles implement the trait: a shared key range only removes overlaps.\<close>

lemma file_overlap_within: "file_overlap a b \<Longrightarrow> fst (fh_time_range b) < snd (fh_time_range a)"
  by (auto simp: file_overlap_def ts_order Let_def split: prod.splits if_splits)

interpretation files: ranged_item file_item
  by unfold_locales (simp add: file_item_def file_overlap_within)

end
