(* ===== verification/Compaction_Sweep.thy ===== *)
theory Compaction_Sweep
  imports Compaction_Run
begin

text \<open>
  Results on sorted runs: the one-pass search of \<open>find_sorted_runs_by_time_range\<close> finds the runs of
  \<open>find_sorted_runs\<close> when overlap is decided by time ranges that are not single instants, the number
  of runs is then the least possible, and \<open>find_overlapping_items\<close> returns each overlapping item of
  two runs once.
\<close>

section \<open>One sweep\<close>

definition idx_runs :: "'a item \<Rightarrow> 'a list list \<Rightarrow> 'a idx_run list" where
  "idx_runs I rs = map (\<lambda>k. \<lparr>ir_i = k + 1, ir_run = run_from I (rs ! k)\<rparr>) [0..<length rs]"

text \<open>
  The heaps hold the runs found so far; the first is ordered by end, the second by sequence and
  holds runs that end before the instant \<open>t\<close>.
\<close>

definition heaps_ok :: "'a item \<Rightarrow> int \<Rightarrow> 'a list list \<Rightarrow> 'a idx_run list \<times> 'a idx_run list \<times> nat \<Rightarrow> bool" where
  "heaps_ok I t rs st \<longleftrightarrow>
     (case st of (by_end, by_index, i) \<Rightarrow>
        i = length rs \<and> mset (by_end @ by_index) = mset (idx_runs I rs)
        \<and> sorted_wrt (\<lambda>a b. instant_ns (the (sr_end (ir_run a))) \<le> instant_ns (the (sr_end (ir_run b)))) by_end
        \<and> sorted_wrt (\<lambda>a b. ir_i a \<le> ir_i b) by_index
        \<and> (\<forall>r \<in> set by_index. instant_ns (the (sr_end (ir_run r))) \<le> t))"

lemma run_end_le:
  "r \<noteq> [] \<Longrightarrow> instant_ns (the (sr_end (run_from I r))) \<le> t \<longleftrightarrow> (\<forall>y \<in> set r. instant_ns (it_end I y) \<le> t)"
proof (induction r rule: rev_induct)
  case (snoc x r)
  show ?case
  proof (cases "r = []")
    case True
    then show ?thesis
      by (simp add: run_from_def push_item_def sorted_run_default_def split: prod.splits)
  next
    case False
    then have "sr_end (run_from I r) \<noteq> None"
      using push_item_run_from [of I "last r" "butlast r"] by (metis append_butlast_last_id push_item_simps(2))
    then have "the (sr_end (run_from I (r @ [x]))) = ts_max (the (sr_end (run_from I r))) (it_end I x)"
      by (auto simp: push_item_run_from [symmetric] push_item_def split: prod.splits)
    with snoc False show ?thesis by auto
  qed
qed simp

lemma heap_push_mset [simp]: "mset (heap_push c x h) = add_mset x (mset h)"
  and heap_push_set [simp]: "set (heap_push c x h) = insert x (set h)"
  by (simp_all add: heap_push_def)

lemma heap_push_by_end:
  assumes "sorted_wrt (\<lambda>a b. instant_ns (the (sr_end (ir_run a))) \<le> instant_ns (the (sr_end (ir_run b)))) h"
  shows "sorted_wrt (\<lambda>a b. instant_ns (the (sr_end (ir_run a))) \<le> instant_ns (the (sr_end (ir_run b))))
    (heap_push idx_run_cmp x h)"
  using assms unfolding heap_push_def
proof (induction h)
  case (Cons y h)
  then show ?case by (force simp: idx_run_cmp_def then_cmp_Less ts_cmp_instant)
qed simp

lemma heap_push_by_index:
  "sorted_wrt (\<lambda>a b. ir_i a \<le> ir_i b) h \<Longrightarrow> sorted_wrt (\<lambda>a b. ir_i a \<le> ir_i b) (heap_push wrapper_cmp x h)"
  unfolding heap_push_def by (induction h) (auto simp: wrapper_cmp_def)

lemma pop_ended_ok:
  assumes "heaps_ok I t rs (by_end, by_index, i)" and "t \<le> instant_ns start"
  shows "case pop_ended start by_end by_index of (h1, h2) \<Rightarrow>
    heaps_ok I (instant_ns start) rs (h1, h2, i)
    \<and> (\<forall>r \<in> set h1. instant_ns start < instant_ns (the (sr_end (ir_run r))))"
  using assms
proof (induction start by_end by_index arbitrary: t rule: pop_ended.induct)
  case (1 start by_index)
  then show ?case by (auto simp: heaps_ok_def)
next
  case (2 start r by_end by_index)
  show ?case
  proof (cases "the (sr_end (ir_run r)) \<le> start")
    case True
    then have "heaps_ok I (instant_ns start) rs (by_end, heap_push wrapper_cmp r by_index, i)"
      using 2(2,3) by (auto simp: heaps_ok_def ts_order intro: heap_push_by_index)
    from "2.IH" [OF True this] True show ?thesis by simp
  next
    case False
    with 2 show ?thesis by (auto simp: heaps_ok_def ts_order)
  qed
qed

lemma ff_insert_at:
  assumes "k < length rs" and "\<forall>j < k. list_ex (\<lambda>y. ov y x) (rs ! j)" and "\<not> list_ex (\<lambda>y. ov y x) (rs ! k)"
  shows "ff_insert ov x rs = rs[k := rs ! k @ [x]]"
  using assms
proof (induction rs arbitrary: k)
  case (Cons r rs)
  then show ?case by (cases k) (auto simp: All_less_Suc2)
qed simp

lemma ff_insert_new: "\<forall>r \<in> set rs. list_ex (\<lambda>y. ov y x) r \<Longrightarrow> ff_insert ov x rs = rs @ [[x]]"
  by (induction rs) auto

lemma idx_runs_simps [simp]: "length (idx_runs I rs) = length rs"
  by (simp add: idx_runs_def)

lemma idx_runs_append: "idx_runs I (rs @ [r]) = idx_runs I rs @ [\<lparr>ir_i = length rs + 1, ir_run = run_from I r\<rparr>]"
  by (simp add: idx_runs_def nth_append)

lemma idx_runs_update:
  "k < length rs \<Longrightarrow> idx_runs I (rs[k := r]) = (idx_runs I rs)[k := \<lparr>ir_i = k + 1, ir_run = run_from I r\<rparr>]"
  by (rule nth_equalityI) (auto simp: idx_runs_def nth_list_update)

lemma nth_idx_runs: "k < length rs \<Longrightarrow> idx_runs I rs ! k = \<lparr>ir_i = k + 1, ir_run = run_from I (rs ! k)\<rparr>"
  by (simp add: idx_runs_def)

lemma in_idx_runs: "r \<in> set (idx_runs I rs) \<longleftrightarrow> (\<exists>k < length rs. r = \<lparr>ir_i = k + 1, ir_run = run_from I (rs ! k)\<rparr>)"
  by (auto simp: idx_runs_def)

lemma idx_run_new_from: "idx_run_new I i x = \<lparr>ir_i = i, ir_run = run_from I [x]\<rparr>"
  by (simp add: idx_run_new_def run_from_def)

lemma idx_run_push_from:
  "idx_run_push I x \<lparr>ir_i = i, ir_run = run_from I r\<rparr> = \<lparr>ir_i = i, ir_run = run_from I (r @ [x])\<rparr>"
  by (simp add: idx_run_push_def push_item_run_from)

text \<open>
  A run accepts an item by time exactly when its end does not lie behind the start of the item,
  for items that last longer than an instant and come after those of the run.
\<close>

definition time_overlap_on :: "'a item \<Rightarrow> 'a set \<Rightarrow> bool" where
  "time_overlap_on I A \<longleftrightarrow>
     (\<forall>x \<in> A. it_start I x < it_end I x)
     \<and> (\<forall>x \<in> A. \<forall>y \<in> A. it_overlap I x y \<longleftrightarrow> ranges_overlap (it_range I x) (it_range I y))"

lemma run_overlaps_iff:
  assumes "time_overlap_on I A" and "set r \<subseteq> A" and "x \<in> A" and "r \<noteq> []"
    and "\<forall>y \<in> set r. instant_ns (it_start I y) \<le> instant_ns (it_start I x)"
  shows "list_ex (\<lambda>y. it_overlap I y x) r \<longleftrightarrow> instant_ns (it_start I x) < instant_ns (the (sr_end (run_from I r)))"
proof -
  have "it_overlap I y x \<longleftrightarrow> instant_ns (it_start I x) < instant_ns (it_end I y)" if "y \<in> set r" for y
  proof -
    have "y \<in> A" using that assms(2) by blast
    moreover have "instant_ns (it_start I y) < instant_ns (it_end I x)"
      using that assms(1,3,5) by (force simp: time_overlap_on_def ts_order)
    ultimately show ?thesis
      using assms(1,3) by (auto simp: time_overlap_on_def ranges_overlap_def ts_order)
  qed
  then show ?thesis
    using run_end_le [OF assms(4), of I "instant_ns (it_start I x)"] by (auto simp: list_ex_iff not_le [symmetric])
qed

lemma sweep_item_ok:
  assumes A: "time_overlap_on I A" "x \<in> A" "set (concat rs) \<subseteq> A" "\<forall>r \<in> set rs. r \<noteq> []"
    and starts: "\<forall>y \<in> set (concat rs). instant_ns (it_start I y) \<le> instant_ns (it_start I x)"
    and ok: "heaps_ok I t rs (by_end, by_index, i)" and t: "t \<le> instant_ns (it_start I x)"
  shows "heaps_ok I (instant_ns (it_start I x)) (ff_insert (it_overlap I) x rs) (sweep_item I x (by_end, by_index, i))"
proof -
  obtain h1 h2 where pop: "pop_ended (it_start I x) by_end by_index = (h1, h2)" by fastforce
  with pop_ended_ok [OF ok t] have h: "heaps_ok I (instant_ns (it_start I x)) rs (h1, h2, i)"
    "\<forall>r \<in> set h1. instant_ns (it_start I x) < instant_ns (the (sr_end (ir_run r)))" by simp_all
  then have all: "mset h1 + mset h2 = mset (idx_runs I rs)" by (simp add: heaps_ok_def)
  have ov: "list_ex (\<lambda>y. it_overlap I y x) (rs ! k)
      \<longleftrightarrow> \<lparr>ir_i = k + 1, ir_run = run_from I (rs ! k)\<rparr> \<notin> set h2" if k: "k < length rs" for k
  proof -
    have "\<lparr>ir_i = k + 1, ir_run = run_from I (rs ! k)\<rparr> \<in> set h1 \<union> set h2"
      using k arg_cong [OF all, of set_mset] by (auto simp: in_idx_runs)
    moreover have "rs ! k \<in> set rs" using k by simp
    then have "list_ex (\<lambda>y. it_overlap I y x) (rs ! k)
        \<longleftrightarrow> instant_ns (it_start I x) < instant_ns (the (sr_end (run_from I (rs ! k))))"
      using A starts by (intro run_overlaps_iff [OF A(1) _ A(2)]) (auto simp: UN_subset_iff)
    moreover have "\<forall>r \<in> set h2. instant_ns (the (sr_end (ir_run r))) \<le> instant_ns (it_start I x)"
      using h(1) by (simp add: heaps_ok_def)
    ultimately show ?thesis using h(2) by (auto simp: not_less [symmetric])
  qed
  show ?thesis
  proof (cases h2)
    case Nil
    then have "\<forall>r \<in> set rs. list_ex (\<lambda>y. it_overlap I y x) r" using ov by (auto simp: in_set_conv_nth)
    with Nil h all pop show ?thesis
      by (simp add: ff_insert_new heaps_ok_def idx_runs_append idx_run_new_from heap_push_by_end)
  next
    case (Cons r h2')
    then have "r \<in> set (idx_runs I rs)" using arg_cong [OF all, of set_mset] by auto
    then obtain k where k: "k < length rs" "r = \<lparr>ir_i = k + 1, ir_run = run_from I (rs ! k)\<rparr>"
      by (auto simp: in_idx_runs)
    have "\<forall>j < k. list_ex (\<lambda>y. it_overlap I y x) (rs ! j)"
      using k Cons h(1) ov by (fastforce simp: heaps_ok_def)
    with k Cons ov have ff: "ff_insert (it_overlap I) x rs = rs[k := rs ! k @ [x]]" by (intro ff_insert_at) auto
    have "mset (idx_runs I (rs[k := rs ! k @ [x]])) =
        add_mset (idx_run_push I x r) (mset h1 + mset h2')"
      using k Cons by (simp add: idx_runs_update mset_update idx_run_push_from nth_idx_runs all [symmetric])
    with Cons h pop show ?thesis by (simp add: ff heaps_ok_def heap_push_by_end)
  qed
qed

lemma sort_by_key: "sort_by (\<lambda>a b. (f a :: nat) \<le> f b) xs = sort_key f xs"
proof -
  have "insort_by (\<lambda>a b. f a \<le> f b) x ys = insort_key f x ys" for x ys by (induction ys) auto
  then show ?thesis by (induction xs) auto
qed

lemma sort_idx_runs:
  assumes "mset h = mset (idx_runs I rs)"
  shows "sort_by (\<lambda>a b. ir_i a \<le> ir_i b) h = idx_runs I rs"
proof -
  have keys: "map ir_i (idx_runs I rs) = map Suc [0..<length rs]" by (simp add: idx_runs_def)
  then have "distinct (map ir_i (idx_runs I rs))" by (simp add: distinct_map)
  then have inj: "inj_on ir_i (set (idx_runs I rs))" by (simp add: distinct_map)
  from assms have s: "set h = set (idx_runs I rs)" by (metis set_mset_mset)
  have "filter (\<lambda>x. ir_i k = ir_i x) (idx_runs I rs) = filter (\<lambda>x. ir_i k = ir_i x) h" if "k \<in> set (idx_runs I rs)" for k
  proof -
    have "filter (\<lambda>x. ir_i k = ir_i x) ys = replicate (count (mset ys) k) k" if "set ys = set (idx_runs I rs)" for ys
      using that \<open>k \<in> set _\<close> inj by (subst replicate_count_mset_eq_filter_eq) (auto intro!: filter_cong dest: inj_onD)
    from this [OF refl] this [OF s] assms show ?thesis by simp
  qed
  moreover have "sorted (map ir_i (idx_runs I rs))" unfolding keys by (simp add: sorted_wrt_map)
  ultimately show ?thesis
    unfolding sort_by_key using assms by (intro properties_for_sort_key) auto
qed

lemma ff_insert_nonempty: "\<forall>r \<in> set rs. r \<noteq> [] \<Longrightarrow> \<forall>r \<in> set (ff_insert ov x rs). r \<noteq> []"
  by (induction rs) auto

lemma sweep_ok:
  assumes "time_overlap_on I A" and "set xs \<subseteq> A" and "set (concat rs) \<subseteq> A" and "\<forall>r \<in> set rs. r \<noteq> []"
    and "sorted_wrt (\<lambda>x y. instant_ns (it_start I x) \<le> instant_ns (it_start I y)) xs"
    and "\<forall>y \<in> set (concat rs). \<forall>x \<in> set xs. instant_ns (it_start I y) \<le> instant_ns (it_start I x)"
    and "heaps_ok I t rs st" and "\<forall>x \<in> set xs. t \<le> instant_ns (it_start I x)"
  shows "\<exists>t. heaps_ok I t (fold (ff_insert (it_overlap I)) xs rs) (fold (sweep_item I) xs st)"
  using assms
proof (induction xs arbitrary: rs st t)
  case (Cons x xs)
  obtain by_end by_index i where st: "st = (by_end, by_index, i)" by (cases st) auto
  have "heaps_ok I (instant_ns (it_start I x)) (ff_insert (it_overlap I) x rs) (sweep_item I x st)"
    unfolding st by (rule sweep_item_ok [of I A]) (use Cons.prems st in auto)
  from Cons.IH [OF Cons.prems(1) _ _ _ _ _ this] Cons.prems ff_insert_nonempty [OF Cons.prems(4), of "it_overlap I" x]
  show ?case by (simp add: set_concat_ff_insert del: set_concat sweep_item.simps)
qed auto

lemma sweep_finds_first_fit:
  assumes "time_overlap_on I (set items)"
  shows "find_sorted_runs_by_time_range I items
    = map (run_from I) (first_fit (it_overlap I) (sort_ranged_items I items))"
proof -
  let ?xs = "sort_ranged_items I items"
  have "heaps_ok I (Min (insert 0 ((\<lambda>x. instant_ns (it_start I x)) ` set ?xs))) [] ([], [], 0)"
    by (simp add: heaps_ok_def idx_runs_def)
  then have "\<exists>t. heaps_ok I t (fold (ff_insert (it_overlap I)) ?xs []) (fold (sweep_item I) ?xs ([], [], 0))"
    by (rule sweep_ok [OF assms, rotated 5]) (use sorted_starts in auto)
  then obtain h1 h2 i where h: "fold (sweep_item I) ?xs ([], [], 0) = (h1, h2, i)"
    "mset (h1 @ h2) = mset (idx_runs I (first_fit (it_overlap I) ?xs))"
    by (cases "fold (sweep_item I) ?xs ([], [], 0)") (auto simp: heaps_ok_def first_fit_def)
  have "map ir_run (idx_runs I rs) = map (run_from I) rs" for rs
    by (simp add: idx_runs_def map_equality_iff)
  with h sort_idx_runs [OF h(2)] show ?thesis
    by (simp add: find_sorted_runs_by_time_range_def first_fit_def sort_ranged_items_def)
qed

section \<open>Fewest runs\<close>

text \<open>
  Items of one instant in common form a clique, so they need as many runs as they are; first fit
  opens a run only for such a clique.
\<close>

lemma clique_needs_runs:
  assumes "finite C" and "C \<subseteq> set (concat rs)"
    and "\<forall>r \<in> set rs. sorted_wrt (\<lambda>x y. \<not> ov x y) r" and "\<forall>x \<in> C. \<forall>y \<in> C. x \<noteq> y \<longrightarrow> ov x y"
  shows "card C \<le> length rs"
proof -
  have one: "x = y" if h: "r \<in> set rs" "x \<in> C" "y \<in> C" "x \<in> set r" "y \<in> set r" for r x y
  proof (rule ccontr)
    assume "x \<noteq> y"
    obtain a b where "a < length r" "b < length r" "r ! a = x" "r ! b = y" using h(4,5) by (metis in_set_conv_nth)
    then have "a < b \<or> b < a" using \<open>x \<noteq> y\<close> by (auto intro: linorder_neqE_nat)
    then have "\<not> ov x y \<or> \<not> ov y x"
      using assms(3) h(1) \<open>a < length r\<close> \<open>b < length r\<close> \<open>r ! a = x\<close> \<open>r ! b = y\<close>
      by (auto simp: sorted_wrt_iff_nth_less)
    then show False using assms(4) h \<open>x \<noteq> y\<close> by auto
  qed
  define f where "f x = (LEAST k. k < length rs \<and> x \<in> set (rs ! k))" for x
  have f: "f x < length rs \<and> x \<in> set (rs ! f x)" if "x \<in> C" for x
  proof -
    have "\<exists>k. k < length rs \<and> x \<in> set (rs ! k)" using that assms(2) by (force simp: in_set_conv_nth)
    then show ?thesis unfolding f_def by (rule LeastI_ex)
  qed
  have "inj_on f C"
  proof (rule inj_onI)
    fix x y
    assume "x \<in> C" "y \<in> C" "f x = f y"
    with f [of x] f [of y] show "x = y" by (intro one [of "rs ! f x"]) auto
  qed
  moreover have "f ` C \<subseteq> {..<length rs}" using f by auto
  ultimately show ?thesis using card_inj_on_le [of f C "{..<length rs}"] by simp
qed

lemma blocked_picks:
  assumes "blocked ov key rs" and "rs \<noteq> []" and "x \<in> set (last rs)"
  shows "\<exists>ys. list_all2 (\<lambda>y r. y \<in> set r \<and> ov y x \<and> key y \<le> key x) ys (butlast rs)"
  using assms
proof (induction rs)
  case (Cons r rs)
  show ?case
  proof (cases "rs = []")
    case False
    with Cons obtain ys where ys: "list_all2 (\<lambda>y r. y \<in> set r \<and> ov y x \<and> key y \<le> key x) ys (butlast rs)"
      by auto
    have "\<forall>q \<in> set rs. \<forall>x \<in> set q. \<exists>y \<in> set r. ov y x \<and> key y \<le> key x" "x \<in> set (last rs)"
      using Cons.prems False by simp_all
    then obtain y where "y \<in> set r" "ov y x" "key y \<le> key x" using last_in_set [OF False] by blast
    with ys False show ?thesis by (intro exI [of _ "y # ys"]) simp
  qed simp
qed simp

lemma distinct_picks: "list_all2 (\<lambda>z r. z \<in> set r) zs rs \<Longrightarrow> distinct (concat rs) \<Longrightarrow> distinct zs"
proof (induction zs rs rule: list_all2_induct)
  case (Cons z zs r rs)
  have "set zs \<subseteq> set (concat rs)"
    using Cons.hyps(2) by (induction zs rs rule: list_all2_induct) auto
  with Cons show ?case by auto
qed simp

lemma first_fit_fewest:
  assumes A: "time_overlap_on I (set items)" and "distinct items" and rs: "set items \<subseteq> set (concat rs)"
    "\<forall>r \<in> set rs. sorted_wrt (\<lambda>x y. \<not> it_overlap I x y) r"
  shows "length (first_fit (it_overlap I) (sort_ranged_items I items)) \<le> length rs"
proof (cases "first_fit (it_overlap I) (sort_ranged_items I items)" rule: rev_cases)
  case (snoc R r)
  let ?key = "\<lambda>x. instant_ns (it_start I x)"
  have m: "mset (concat (R @ [r])) = mset items"
    using mset_first_fit [of "it_overlap I" "sort_ranged_items I items"] snoc by simp
  have "r \<noteq> []" using first_fit_runs [of "it_overlap I" "sort_ranged_items I items"] snoc by simp
  then obtain x where x: "x \<in> set r" by (cases r) auto
  have "blocked (it_overlap I) ?key (R @ [r])"
    using blocked_first_fit [OF sorted_starts [of I items], of "it_overlap I"] snoc by simp
  from blocked_picks [OF this, of x] x obtain ys where
    ys: "list_all2 (\<lambda>y r. y \<in> set r \<and> it_overlap I y x \<and> ?key y \<le> ?key x) ys R" by auto
  have "list_all2 (\<lambda>z r. z \<in> set r) (ys @ [x]) (R @ [r])"
    using ys x by (auto intro!: list_all2_appendI elim: list_all2_mono)
  with m assms(2) have d: "distinct (ys @ [x])" by (metis distinct_picks mset_eq_imp_distinct_iff)
  have sub: "set (ys @ [x]) \<subseteq> set items"
  proof -
    have "set ys \<subseteq> set (concat R)" using ys by (induction ys R rule: list_all2_induct) auto
    with x arg_cong [OF m, of set_mset] show ?thesis by auto
  qed
  have at: "?key y \<le> ?key x \<and> ?key x < instant_ns (it_end I y)" if "y \<in> set (ys @ [x])" for y
  proof -
    have "\<forall>y \<in> set ys. it_overlap I y x \<and> ?key y \<le> ?key x"
      using ys by (induction ys R rule: list_all2_induct) auto
    moreover have "y \<in> set items" "x \<in> set items" using that sub by auto
    ultimately show ?thesis using that A by (auto simp: time_overlap_on_def ranges_overlap_def ts_order)
  qed
  have "it_overlap I y z" if "y \<in> set (ys @ [x])" "z \<in> set (ys @ [x])" for y z
  proof -
    have "y \<in> set items" "z \<in> set items" using that sub by blast+
    with at [OF that(1)] at [OF that(2)] A show ?thesis
      by (auto simp: time_overlap_on_def ranges_overlap_def ts_order)
  qed
  with clique_needs_runs [OF _ _ rs(2), of "set (ys @ [x])"] sub rs(1)
  have "card (set (ys @ [x])) \<le> length rs" by blast
  with d list_all2_lengthD [OF ys] snoc show ?thesis by (simp add: distinct_card)
qed simp

section \<open>Sorted runs of files\<close>

lemma file_overlap_iff:
  "file_overlap a b \<longleftrightarrow> ranges_overlap (fh_time_range a) (fh_time_range b)
     \<and> (\<forall>l r. fh_primary_key_range a = Some l \<longrightarrow> fh_primary_key_range b = Some r \<longrightarrow> primary_key_ranges_overlap l r)"
  by (auto simp: file_overlap_def ranges_overlap_def ts_order not_le Let_def split: prod.splits option.splits)

lemma time_overlap_on_files:
  assumes "\<forall>f \<in> A. fst (fh_time_range f) < snd (fh_time_range f) \<and> fh_primary_key_range f = None"
  shows "time_overlap_on file_item A"
  using assms by (auto simp: time_overlap_on_def file_item_def file_overlap_iff)

text \<open>
  C19. The runs found in a set of files partition it, none is empty, and no two files of a run
  overlap in both time and primary key; pruning the files that cannot overlap any more changes
  nothing: the runs are those of the unoptimised search.
\<close>

theorem sorted_runs_partition:
  "find_sorted_runs file_item fs = find_sorted_runs_original file_item fs
   \<and> mset (concat (map sr_items (find_sorted_runs file_item fs))) = mset fs
   \<and> (\<forall>r \<in> set (find_sorted_runs file_item fs).
        sr_items r \<noteq> [] \<and> sorted_wrt (\<lambda>a b. \<not> file_overlap a b) (sr_items r))"
  using files.pruning_sound [of fs] files.find_sorted_runs_first_fit [of fs]
    mset_first_fit [of file_overlap "sort_ranged_items file_item fs"]
    first_fit_runs [of file_overlap "sort_ranged_items file_item fs"]
  by (auto simp: file_item_def comp_def)

theorem sorted_runs_partition_witness:
  "let f = (\<lambda>n a b. fh_new (file_meta_default\<lparr>fm_file_id := n, fm_time_range := (ts_new a Second, ts_new b Second)\<rparr>))
   in \<forall>r \<in> set (find_sorted_runs file_item [f 1 0 10, f 2 5 15, f 3 10 20]).
        sr_items r \<noteq> [] \<and> sorted_wrt (\<lambda>a b. \<not> file_overlap a b) (sr_items r)"
  unfolding Let_def using sorted_runs_partition by blast

text \<open>
  C20. For files without primary key ranges whose time ranges are longer than an instant, the
  single sweep over two heaps, which is used for large windows, finds the same runs in the same
  order as the search by passes. Ranges of a single instant are excluded: for the ranges from 0 to 10
  and from 5 to 5 the search by passes finds one run and the sweep two.
\<close>

theorem sweep_finds_the_same_runs:
  assumes "\<forall>f \<in> set fs. fst (fh_time_range f) < snd (fh_time_range f) \<and> fh_primary_key_range f = None"
  shows "find_sorted_runs_by_time_range file_item fs = find_sorted_runs file_item fs"
  by (simp add: sweep_finds_first_fit [OF time_overlap_on_files [OF assms]] files.find_sorted_runs_first_fit)

theorem sweep_finds_the_same_runs_witness:
  "let f = (\<lambda>n a b. fh_new (file_meta_default\<lparr>fm_file_id := n, fm_time_range := (ts_new a Second, ts_new b Second)\<rparr>));
       fs = [f 1 0 10, f 2 5 15, f 3 10 20]
   in find_sorted_runs_by_time_range file_item fs = find_sorted_runs file_item fs"
  unfolding Let_def
  by (rule sweep_finds_the_same_runs)
    (auto simp: ts_order instant_ns_def fh_new_def primary_key_range_def file_meta_default_def)

text \<open>
  C21. The runs are as few as possible: for distinct files without primary key ranges whose time ranges
  are longer than an instant, every other division into groups whose files do not overlap has at
  least as many groups as either search finds runs.
\<close>

theorem sorted_runs_fewest:
  assumes "\<forall>f \<in> set fs. fst (fh_time_range f) < snd (fh_time_range f) \<and> fh_primary_key_range f = None"
    and "distinct fs" and "set fs \<subseteq> set (concat groups)"
    and "\<forall>g \<in> set groups. sorted_wrt (\<lambda>a b. \<not> file_overlap a b) g"
  shows "length (find_sorted_runs file_item fs) \<le> length groups
    \<and> length (find_sorted_runs_by_time_range file_item fs) \<le> length groups"
  using first_fit_fewest [OF time_overlap_on_files [OF assms(1)] assms(2,3)] assms(4)
  by (simp add: files.find_sorted_runs_first_fit sweep_finds_first_fit [OF time_overlap_on_files [OF assms(1)]])
    (simp add: file_item_def)

theorem sorted_runs_fewest_witness:
  "let f = (\<lambda>n a b. fh_new (file_meta_default\<lparr>fm_file_id := n, fm_time_range := (ts_new a Second, ts_new b Second)\<rparr>));
       fs = [f 1 0 10, f 2 5 15, f 3 10 20]
   in length (find_sorted_runs file_item fs) \<le> length [[f 1 0 10, f 3 10 20], [f 2 5 15]]
    \<and> length (find_sorted_runs_by_time_range file_item fs) \<le> length [[f 1 0 10, f 3 10 20], [f 2 5 15]]"
  unfolding Let_def
  by (rule sorted_runs_fewest)
    (auto simp: ts_order instant_ns_def fh_new_def primary_key_range_def file_meta_default_def
      file_overlap_iff ranges_overlap_def ts_max_def ts_min_def)

end
