(* ===== verification/Compaction_Overlap.thy ===== *)
theory Compaction_Overlap
  imports Compaction_Sweep
begin

text \<open>
  \<open>find_overlapping_items\<close> of \<open>src/src/mito2/src/compaction/run.rs\<close>: two indices walk over two runs
  sorted by start. The bits remember which items were reported.
\<close>

section \<open>Bits and reported items\<close>

definition reported :: "'a list \<Rightarrow> bool list \<times> 'a list \<Rightarrow> bool" where
  "reported xs st \<longleftrightarrow>
     (case st of (selected, result) \<Rightarrow>
        length selected = length xs
        \<and> mset result = image_mset ((!) xs) (mset_set {i. i < length xs \<and> selected ! i}))"

lemma select_item_reported:
  assumes "reported xs (selected, result)" and "idx < length xs" and "x = xs ! idx"
  shows "\<exists>result'. select_item idx x (selected, result) = (selected[idx := True], result')
    \<and> reported xs (selected[idx := True], result')"
proof (cases "selected ! idx")
  case True
  then have "selected[idx := True] = selected" by (metis list_update_id)
  with assms True show ?thesis by (simp add: select_item_def)
next
  case False
  have "{i. i < length xs \<and> selected[idx := True] ! i} = insert idx {i. i < length xs \<and> selected ! i}"
    using assms by (auto simp: reported_def nth_list_update)
  with assms False show ?thesis by (auto simp: select_item_def reported_def)
qed

lemma mset_filter_nth:
  "mset (filter P xs) = image_mset ((!) xs) (mset_set {i. i < length xs \<and> P (xs ! i)})"
proof (induction xs rule: rev_induct)
  case (snoc x xs)
  have "{i. i < length (xs @ [x]) \<and> P ((xs @ [x]) ! i)}
      = {i. i < length xs \<and> P (xs ! i)} \<union> (if P x then {length xs} else {})"
    by (auto simp: nth_append less_Suc_eq)
  moreover have "image_mset ((!) (xs @ [x])) (mset_set {i. i < length xs \<and> P (xs ! i)})
      = image_mset ((!) xs) (mset_set {i. i < length xs \<and> P (xs ! i)})"
    by (intro image_mset_cong) (simp add: nth_append)
  ultimately show ?case using snoc by (simp add: mset_set_Union)
qed simp

lemma reported_filter:
  assumes "reported (ls @ rs) (selected, result)"
    and "\<forall>i < length ls. selected ! i \<longleftrightarrow> P (ls ! i)"
    and "\<forall>j < length rs. selected ! (length ls + j) \<longleftrightarrow> Q (rs ! j)"
  shows "mset result = mset (filter P ls) + mset (filter Q rs)"
proof -
  let ?A = "{i. i < length ls \<and> P (ls ! i)}" and ?B = "{j. j < length rs \<and> Q (rs ! j)}"
  have "i \<in> {i. i < length (ls @ rs) \<and> selected ! i} \<longleftrightarrow> i \<in> ?A \<union> (+) (length ls) ` ?B" for i
    using assms(2,3) by (cases "i < length ls") (auto simp: image_iff not_less dest!: le_Suc_ex)
  then have S: "{i. i < length (ls @ rs) \<and> selected ! i} = ?A \<union> (+) (length ls) ` ?B" by blast
  have "image_mset ((!) (ls @ rs)) (mset_set ?A) = mset (filter P ls)"
    unfolding mset_filter_nth by (intro image_mset_cong) (simp add: nth_append)
  moreover have "image_mset ((!) (ls @ rs)) (mset_set ((+) (length ls) ` ?B)) = mset (filter Q rs)"
    unfolding mset_filter_nth
    by (subst image_mset_mset_set [symmetric]) (auto simp: multiset.map_comp comp_def)
  moreover have "?A \<inter> (+) (length ls) ` ?B = {}" by auto
  ultimately show ?thesis using assms(1) by (simp add: reported_def S [simplified] mset_set_Union)
qed

lemma bex_nth: "(\<exists>x \<in> set xs. P x) \<longleftrightarrow> (\<exists>i < length xs. P (xs ! i))"
  by (metis in_set_conv_nth)

section \<open>The two loops\<close>

lemma skip_right_spec:
  "r_idx \<le> skip_right I s rs r_idx
   \<and> (\<forall>k. r_idx \<le> k \<and> k < skip_right I s rs r_idx \<longrightarrow> it_end I (rs ! k) < s)"
proof (induction I s rs r_idx rule: skip_right.induct)
  case (1 I s rs r_idx)
  show ?case
  proof (cases "r_idx < length rs \<and> it_end I (rs ! r_idx) < s")
    case True
    then show ?thesis using 1 by (subst (1 2) skip_right.simps) (auto simp: Suc_le_eq nat_less_le)
  next
    case False
    then show ?thesis by (subst (1 2) skip_right.simps) auto
  qed
qed

text \<open>
  What the walk relies on: inclusive overlap means that neither range ends before the other starts.
\<close>

locale inclusive_item =
  fixes I :: "'a item"
  assumes overlap_touches:
    "it_overlap_inclusive I x y \<Longrightarrow> it_start I y \<le> it_end I x \<and> it_start I x \<le> it_end I y"
begin

lemma scan_right_spec:
  assumes "reported (ls @ rs) st" and "lhs_idx < length ls" and "lhs = ls ! lhs_idx"
    and "sorted_wrt (\<lambda>x y. it_start I x \<le> it_start I y) rs"
  shows "reported (ls @ rs) (scan_right I lhs_idx lhs (length ls) rs j st)
    \<and> (\<forall>i < length (ls @ rs). fst (scan_right I lhs_idx lhs (length ls) rs j st) ! i \<longleftrightarrow> fst st ! i
         \<or> (\<exists>k. j \<le> k \<and> k < length rs \<and> it_overlap_inclusive I lhs (rs ! k) \<and> (i = lhs_idx \<or> i = length ls + k)))"
  using assms(1)
proof (induction "length rs - j" arbitrary: j st)
  case 0
  then show ?case by (subst (1 2) scan_right.simps) auto
next
  case (Suc n)
  then have j: "j < length rs" by simp
  let ?ov = "it_overlap_inclusive I lhs (rs ! j)"
  let ?st = "if ?ov then select_item (length ls + j) (rs ! j) (select_item lhs_idx lhs st) else st"
  have from_j: "(\<exists>k. j \<le> k \<and> k < length rs \<and> P k) \<longleftrightarrow> P j \<or> (\<exists>k. j + 1 \<le> k \<and> k < length rs \<and> P k)" for P
    using j by (metis Suc_eq_plus1 Suc_leD Suc_leI le_neq_implies_less order_refl)
  show ?case
  proof (cases "it_start I (rs ! j) > it_end I lhs")
    case True
    have "\<not> it_overlap_inclusive I lhs (rs ! k)" if "j \<le> k" "k < length rs" for k
    proof -
      have "it_start I (rs ! j) \<le> it_start I (rs ! k)"
        using that assms(4) by (cases "j = k") (auto simp: sorted_wrt_iff_nth_less)
      with True overlap_touches [of lhs "rs ! k"] show ?thesis by (auto simp: ts_order)
    qed
    then show ?thesis using True Suc.prems by (subst (1 2) scan_right.simps) auto
  next
    case False
    obtain selected result where st: "st = (selected, result)" by fastforce
    have st': "reported (ls @ rs) ?st
        \<and> (\<forall>i < length (ls @ rs). fst ?st ! i \<longleftrightarrow> fst st ! i \<or> ?ov \<and> (i = lhs_idx \<or> i = length ls + j))"
    proof (cases ?ov)
      case True
      from select_item_reported [OF Suc.prems [unfolded st], of lhs_idx lhs] assms(2,3)
      obtain r1 where r1: "select_item lhs_idx lhs st = (selected[lhs_idx := True], r1)"
        "reported (ls @ rs) (selected[lhs_idx := True], r1)" by (auto simp: st nth_append)
      from select_item_reported [OF r1(2), of "length ls + j" "rs ! j"] j obtain r2 where
        "select_item (length ls + j) (rs ! j) (selected[lhs_idx := True], r1)
           = (selected[lhs_idx := True, length ls + j := True], r2)"
        "reported (ls @ rs) (selected[lhs_idx := True, length ls + j := True], r2)" by auto
      moreover have "length selected = length (ls @ rs)" using Suc.prems by (simp add: st reported_def)
      ultimately show ?thesis using True r1(1) assms(2) j st by (auto simp: nth_list_update)
    qed (use Suc.prems in simp)
    have "n = length rs - (j + 1)" using Suc.hyps(2) by simp
    from Suc.hyps(1) [OF this conjunct1 [OF st']] st' j False show ?thesis
      unfolding scan_right.simps [of I lhs_idx lhs "length ls" rs j st] from_j by auto
  qed
qed


lemma overlap_left_fold:
  assumes ls: "sorted_wrt (\<lambda>x y. it_start I x \<le> it_start I y) ls"
    and rs: "sorted_wrt (\<lambda>x y. it_start I x \<le> it_start I y) rs"
    and st: "fold (overlap_left I (length ls) rs) (enumerate 0 (take m ls))
      (0, replicate (length (ls @ rs)) False, []) = (r_idx, st)" and m: "m \<le> length ls"
  shows "reported (ls @ rs) st
    \<and> (\<forall>i < length (ls @ rs). fst st ! i \<longleftrightarrow>
         (\<exists>a < m. \<exists>k < length rs. it_overlap_inclusive I (ls ! a) (rs ! k) \<and> (i = a \<or> i = length ls + k)))
    \<and> (\<forall>k < r_idx. \<forall>a < length ls. m \<le> a \<longrightarrow> it_end I (rs ! k) < it_start I (ls ! a))"
  using st m
proof (induction m arbitrary: r_idx st)
  case 0
  have none: "{i. i < n \<and> replicate n False ! i} = {}" for n by auto
  from 0 show ?case by (auto simp: reported_def none)
next
  case (Suc m)
  obtain r1 st1 where f: "fold (overlap_left I (length ls) rs) (enumerate 0 (take m ls))
      (0, replicate (length (ls @ rs)) False, []) = (r1, st1)" by (meson surj_pair)
  let ?r = "skip_right I (it_start I (ls ! m)) rs r1"
  have m: "m < length ls" using Suc.prems(2) by simp
  from Suc.IH [OF f] m have IH: "reported (ls @ rs) st1"
    "\<forall>i < length (ls @ rs). fst st1 ! i \<longleftrightarrow>
       (\<exists>a < m. \<exists>k < length rs. it_overlap_inclusive I (ls ! a) (rs ! k) \<and> (i = a \<or> i = length ls + k))"
    "\<forall>k < r1. \<forall>a < length ls. m \<le> a \<longrightarrow> it_end I (rs ! k) < it_start I (ls ! a)" by auto
  have r: "r_idx = ?r" and st': "st = scan_right I m (ls ! m) (length ls) rs ?r st1"
    using Suc.prems(1) f m by (auto simp: take_Suc_conv_app_nth enumerate_append_eq Let_def)
  have skipped: "it_end I (rs ! k) < it_start I (ls ! m)" if "k < ?r" for k
    using that IH(3) m skip_right_spec [of r1 I "it_start I (ls ! m)" rs] by (cases "k < r1") auto
  have later: "it_end I (rs ! k) < it_start I (ls ! a)" if "k < ?r" "Suc m \<le> a" "a < length ls" for k a
  proof -
    have "it_start I (ls ! m) \<le> it_start I (ls ! a)" using ls that by (simp add: sorted_wrt_iff_nth_less)
    with skipped [OF that(1)] show ?thesis by (simp add: ts_order)
  qed
  have "?r \<le> k" if "it_overlap_inclusive I (ls ! m) (rs ! k)" for k
    using skipped [of k] overlap_touches [OF that] by (auto simp: ts_order not_le [symmetric])
  then have all: "(\<exists>k. ?r \<le> k \<and> k < length rs \<and> it_overlap_inclusive I (ls ! m) (rs ! k) \<and> Q k)
      \<longleftrightarrow> (\<exists>k < length rs. it_overlap_inclusive I (ls ! m) (rs ! k) \<and> Q k)" for Q
    by blast
  from scan_right_spec [OF IH(1) m refl rs, of ?r] IH(2) later show ?case
    unfolding all st' [symmetric] r by (auto simp: less_Suc_eq)
qed

lemma find_overlapping_items_spec:
  assumes "sr_items l \<noteq> []" and "sr_items r \<noteq> []"
    and sorted: "sr_sorted l \<longrightarrow> sorted_wrt (ranged_le I) (sr_items l)" "sr_sorted r \<longrightarrow> sorted_wrt (ranged_le I) (sr_items r)"
  shows "case find_overlapping_items I l r result of (l', r', result') \<Rightarrow>
    mset result' = mset (filter (\<lambda>x. \<exists>y \<in> set (sr_items r). it_overlap_inclusive I x y) (sr_items l))
      + mset (filter (\<lambda>y. \<exists>x \<in> set (sr_items l). it_overlap_inclusive I x y) (sr_items r))"
proof -
  let ?ls = "sr_items (sort_run I l)" and ?rs = "sr_items (sort_run I r)"
  have m: "mset ?ls = mset (sr_items l)" "mset ?rs = mset (sr_items r)" by (simp_all add: sort_run_def)
  then have s: "set ?ls = set (sr_items l)" "set ?rs = set (sr_items r)" by (metis set_mset_mset)+
  have mono: "sorted_wrt (ranged_le I) xs \<Longrightarrow> sorted_wrt (\<lambda>x y. it_start I x \<le> it_start I y) xs" for xs
    by (erule sorted_wrt_mono_rel [rotated]) (auto simp: ranged_le_iff ts_order)
  have ls: "sorted_wrt (\<lambda>x y. it_start I x \<le> it_start I y) ?ls" "sorted_wrt (\<lambda>x y. it_start I x \<le> it_start I y) ?rs"
    using sorted by (auto simp: sort_run_def sorted_ranged_items intro!: mono)
  obtain r_idx selected res where f: "fold (overlap_left I (length ?ls) ?rs) (enumerate 0 ?ls)
      (0, replicate (length (?ls @ ?rs)) False, []) = (r_idx, selected, res)" by (metis prod_cases3)
  from overlap_left_fold [OF ls, of "length ?ls"] f
  have rep: "reported (?ls @ ?rs) (selected, res)"
    and bits: "\<forall>i < length (?ls @ ?rs). selected ! i \<longleftrightarrow>
       (\<exists>a < length ?ls. \<exists>k < length ?rs. it_overlap_inclusive I (?ls ! a) (?rs ! k) \<and> (i = a \<or> i = length ?ls + k))"
    by auto
  have "mset res = mset (filter (\<lambda>x. \<exists>y \<in> set ?rs. it_overlap_inclusive I x y) ?ls)
      + mset (filter (\<lambda>y. \<exists>x \<in> set ?ls. it_overlap_inclusive I x y) ?rs)"
    by (rule reported_filter [OF rep]) (use bits in \<open>auto simp: bex_nth\<close>)
  with assms(1,2) f m s show ?thesis
    by (simp add: find_overlapping_items_def Let_def add.commute)
qed

end

lemma file_overlap_touches:
  "file_overlap_inclusive a b \<Longrightarrow>
     fst (fh_time_range b) \<le> snd (fh_time_range a) \<and> fst (fh_time_range a) \<le> snd (fh_time_range b)"
  by (auto simp: file_overlap_inclusive_def ts_order Let_def split: prod.splits if_splits)

interpretation touching: inclusive_item file_item
  by unfold_locales (use file_overlap_touches in \<open>simp add: file_item_def\<close>)

text \<open>
  C30. Of two runs that are not empty, the search reports exactly the files that overlap a file of
  the other run, touching ranges included, each as often as it occurs, whatever the order in which
  unsorted runs arrive.
\<close>

theorem overlapping_files_reported_once:
  assumes "sr_items l \<noteq> []" and "sr_items r \<noteq> []"
    and "sr_sorted l \<longrightarrow> sorted_wrt (ranged_le file_item) (sr_items l)"
    and "sr_sorted r \<longrightarrow> sorted_wrt (ranged_le file_item) (sr_items r)"
  shows "case find_overlapping_items file_item l r result of (l', r', result') \<Rightarrow>
    mset result' = mset (filter (\<lambda>a. \<exists>b \<in> set (sr_items r). file_overlap_inclusive a b) (sr_items l))
      + mset (filter (\<lambda>b. \<exists>a \<in> set (sr_items l). file_overlap_inclusive a b) (sr_items r))"
  using touching.find_overlapping_items_spec [OF assms, of result] by (simp add: file_item_def)

theorem overlapping_files_reported_once_witness:
  "let f = (\<lambda>n a b. fh_new (file_meta_default\<lparr>fm_file_id := n, fm_time_range := (ts_new a Second, ts_new b Second)\<rparr>));
       l = run_from file_item [f 1 0 10, f 2 20 30]; r = run_from file_item [f 3 10 15]
   in case find_overlapping_items file_item l r [] of (l', r', result) \<Rightarrow>
        mset result = mset (filter (\<lambda>a. \<exists>b \<in> set (sr_items r). file_overlap_inclusive a b) (sr_items l))
          + mset (filter (\<lambda>b. \<exists>a \<in> set (sr_items l). file_overlap_inclusive a b) (sr_items r))"
proof -
  have "\<not> sr_sorted (run_from file_item fs)" for fs
  proof -
    have "sr_sorted (fold (push_item file_item) fs r) = sr_sorted r" for r
      by (induction fs arbitrary: r) (auto simp: push_item_def split: prod.splits)
    then show ?thesis by (simp add: run_from_def sorted_run_default_def)
  qed
  then show ?thesis unfolding Let_def by (intro overlapping_files_reported_once) simp_all
qed

end
