(* ===== verification/Memtable_Version.thy ===== *)
theory Memtable_Version
  imports Time_Partition
begin

text \<open>
  The memtables of a region, from \<open>src/src/mito2/src/memtable/version.rs\<close>: the mutable time
  partitions and the immutable memtables that wait to be flushed. Memtables are shared, so freezing
  also changes the partitions of the version it starts from; \<open>mv_freeze_mutable\<close> returns them too.
  Memory usage is not modelled.
\<close>

section \<open>Definitions\<close>

record memtable_version =
  mv_mutable :: time_partitions
  mv_immutables :: "memtable list"

definition mv_new :: "time_partitions \<Rightarrow> memtable_version" where
  "mv_new mutable = \<lparr>mv_mutable = mutable, mv_immutables = []\<rparr>"

definition list_memtables :: "memtable_version \<Rightarrow> memtable list" where
  "list_memtables v = tp_memtables (mv_mutable v) @ mv_immutables v"

definition mv_freeze_mutable ::
  "region_metadata \<Rightarrow> duration option \<Rightarrow> memtable_version \<Rightarrow> (memtable_version option \<times> time_partitions) outcome" where
  "mv_freeze_mutable metadata time_window v =
     (let mutable = mv_mutable v
      in if tp_is_empty mutable
         then if Some (tp_part_duration mutable) = time_window then Ret (None, mutable)
              else Ret (Some \<lparr>mv_mutable = new_with_part_duration time_window None mutable,
                              mv_immutables = mv_immutables v\<rparr>, mutable)
         else bind_outcome (tp_fork metadata time_window (tp_freeze mutable)) (\<lambda>(new_mutable, old).
              Ret (Some \<lparr>mv_mutable = new_mutable, mv_immutables = mv_immutables v @ tp_memtables old\<rparr>, old)))"

definition remove_memtables :: "nat list \<Rightarrow> memtable_version \<Rightarrow> memtable_version" where
  "remove_memtables ids v = v\<lparr>mv_immutables := filter (\<lambda>m. mt_id m \<notin> set ids) (mv_immutables v)\<rparr>"

definition mv_num_rows :: "memtable_version \<Rightarrow> nat" where
  "mv_num_rows v =
     (sum_u64 (map (\<lambda>m. length (mt_rows m)) (mv_immutables v)) + tp_num_rows (mv_mutable v)) mod 2 ^ 64"

definition mv_is_empty :: "memtable_version \<Rightarrow> bool" where
  "mv_is_empty v \<longleftrightarrow> tp_is_empty (mv_mutable v) \<and> mv_immutables v = []"

subsection \<open>Specification side\<close>

definition mv_rows :: "memtable_version \<Rightarrow> kv multiset" where
  "mv_rows v = mset (concat (map mt_rows (list_memtables v)))"

definition mv_ids :: "memtable_version \<Rightarrow> nat list" where
  "mv_ids v = map mt_id (list_memtables v)"

text \<open>Memtable ids are distinct and below the next id; immutable memtables are frozen.\<close>

definition mv_wf :: "memtable_version \<Rightarrow> bool" where
  "mv_wf v \<longleftrightarrow> distinct (mv_ids v) \<and> (\<forall>i \<in> set (mv_ids v). i < tp_next_memtable_id (mv_mutable v))
     \<and> (\<forall>m \<in> set (mv_immutables v). mt_frozen m)"

section \<open>Lemmas\<close>

lemma tp_is_empty_rows: "tp_is_empty tp \<longleftrightarrow> (\<forall>m \<in> set (tp_memtables tp). mt_rows m = [])"
  by (simp add: tp_is_empty_def tp_memtables_def list_all_iff mt_is_empty_def)

lemma tp_freeze_memtables: "tp_memtables (tp_freeze tp) = map (\<lambda>m. m\<lparr>mt_frozen := True\<rparr>) (tp_memtables tp)"
  by (simp add: tp_freeze_def tp_memtables_def)

lemma tp_freeze_simps [simp]:
  "tp_next_memtable_id (tp_freeze tp) = tp_next_memtable_id tp" "tp_part_duration (tp_freeze tp) = tp_part_duration tp"
  "tp_unit (tp_freeze tp) = tp_unit tp" "tp_bulk (tp_freeze tp) = tp_bulk tp"
  by (simp_all add: tp_freeze_def)

text \<open>Forking starts from no rows, at most one new memtable, and keeps the old memtables.\<close>

lemma tp_fork_memtables:
  assumes "tp_fork metadata dur tp = Ret (new_tp, old)"
  shows "tp_memtables old = tp_memtables tp
    \<and> (tp_memtables new_tp = [] \<and> tp_next_memtable_id new_tp = tp_next_memtable_id tp
       \<or> tp_memtables new_tp = [mt_build (tp_next_memtable_id tp)]
         \<and> tp_next_memtable_id new_tp = (tp_next_memtable_id tp + 1) mod 2 ^ 32)
    \<and> tp_part_duration new_tp = (case dur of Some d \<Rightarrow> d | None \<Rightarrow> tp_part_duration tp)
    \<and> tp_unit new_tp = tp_unit tp \<and> tp_bulk new_tp = tp_bulk tp \<and> tp_metadata new_tp = metadata"
  using assms by (auto simp: tp_fork_def tp_new_def Let_def alloc_memtable_id_def tp_memtables_def
      split: option.splits outcome.splits)

lemma new_with_part_duration_memtables [simp]:
  "tp_memtables (new_with_part_duration dur b tp) = []"
  "tp_next_memtable_id (new_with_part_duration dur b tp) = tp_next_memtable_id tp"
  by (simp_all add: new_with_part_duration_def tp_new_def tp_memtables_def)

lemma freeze_mutable_cases:
  assumes "mv_freeze_mutable metadata dur v = Ret (Some v', old)"
  shows "tp_memtables old = (if tp_is_empty (mv_mutable v) then tp_memtables (mv_mutable v)
      else map (\<lambda>m. m\<lparr>mt_frozen := True\<rparr>) (tp_memtables (mv_mutable v)))"
    and "mv_immutables v' = mv_immutables v @ (if tp_is_empty (mv_mutable v) then [] else tp_memtables old)"
    and "tp_memtables (mv_mutable v') = [] \<and> tp_next_memtable_id (mv_mutable v') = tp_next_memtable_id (mv_mutable v)
      \<or> tp_memtables (mv_mutable v') = [mt_build (tp_next_memtable_id (mv_mutable v))]
        \<and> tp_next_memtable_id (mv_mutable v') = (tp_next_memtable_id (mv_mutable v) + 1) mod 2 ^ 32"
  using assms
  by (auto simp: mv_freeze_mutable_def Let_def tp_freeze_memtables bind_outcome_Ret_iff
      dest!: tp_fork_memtables split: if_splits)

text \<open>
  C37. Freezing the mutable memtable loses no row: the rows of all memtables stay the same, the
  memtables that held rows are now immutable and frozen, in their order after the earlier ones, and
  the new mutable partitions are empty. Memtable ids stay distinct and below the next id as long as
  the 32-bit counter of ids, which freezing advances by at most one, does not wrap.
\<close>

theorem freeze_mutable_keeps_rows:
  assumes "mv_wf v" and "mv_freeze_mutable metadata dur v = Ret (Some v', old)"
  shows "mv_rows v' = mv_rows v \<and> tp_is_empty (mv_mutable v')
    \<and> map mt_id (mv_immutables v') = map mt_id (mv_immutables v)
        @ (if tp_is_empty (mv_mutable v) then [] else map mt_id (tp_memtables (mv_mutable v)))
    \<and> (\<forall>m \<in> set (mv_immutables v'). mt_frozen m)
    \<and> (tp_next_memtable_id (mv_mutable v) + 1 < 2 ^ 32 \<longrightarrow> mv_wf v')"
proof -
  note c = freeze_mutable_cases [OF assms(2)]
  have empty: "tp_is_empty (mv_mutable v')"
    using c(3) by (auto simp: tp_is_empty_rows mt_build_def)
  have rows: "mset (concat (map mt_rows (tp_memtables (mv_mutable v)))) =
      mset (concat (map mt_rows (if tp_is_empty (mv_mutable v) then [] else tp_memtables old)))"
    using c(1) by (auto simp: tp_is_empty_rows concat_eq_Nil_conv [THEN iffD2] o_def)
  have none: "concat (map mt_rows (tp_memtables (mv_mutable v'))) = []"
    using empty by (simp add: tp_is_empty_rows)
  have all: "mv_rows v' = mv_rows v"
    using rows none by (simp add: mv_rows_def list_memtables_def c(2) ac_simps)
  have ids: "map mt_id (mv_immutables v') = map mt_id (mv_immutables v)
      @ (if tp_is_empty (mv_mutable v) then [] else map mt_id (tp_memtables (mv_mutable v)))"
    using c(1,2) by simp
  have frozen: "\<forall>m \<in> set (mv_immutables v'). mt_frozen m"
    using assms(1) c(1,2) by (auto simp: mv_wf_def)
  have "mv_wf v'" if bound: "tp_next_memtable_id (mv_mutable v) + 1 < 2 ^ 32"
  proof -
    let ?n = "tp_next_memtable_id (mv_mutable v)"
    have old: "distinct (map mt_id (mv_immutables v'))" "\<forall>i \<in> set (map mt_id (mv_immutables v')). i < ?n"
      unfolding ids using assms(1) by (auto simp: mv_wf_def mv_ids_def list_memtables_def)
    moreover have "(?n + 1) mod 2 ^ 32 = ?n + 1" using bound by simp
    ultimately show ?thesis using c(3) frozen
      by (auto simp: mv_wf_def mv_ids_def list_memtables_def mt_build_def less_Suc_eq simp del: mod_less)
  qed
  with all empty ids frozen show ?thesis by blast
qed

theorem freeze_mutable_keeps_rows_witness:
  "let m = \<lparr>mt_id = 0, mt_rows = [\<lparr>kv_timestamp = new_second 5, kv_sequence = 1, kv_op_type = Some OpPut\<rparr>], mt_frozen = False\<rparr>;
       p = \<lparr>tpart_memtable = m, tpart_range = \<lparr>pr_min = new_second 0, pr_max = new_second 10\<rparr>\<rparr>;
       md = \<lparr>rm_region_id = RegionId 1, rm_column_metadatas = [], rm_primary_key = [], rm_schema_version = 0,
             rm_partition_expr = None, rm_partition_expr_version = 0\<rparr>;
       tp = \<lparr>tp_parts = [p], tp_next_memtable_id = 1, tp_part_duration = \<lparr>dur_secs = 10, dur_nanos = 0\<rparr>,
             tp_metadata = md, tp_unit = Second, tp_bulk = False\<rparr>
   in \<exists>v' old. mv_freeze_mutable md None (mv_new tp) = Ret (Some v', old) \<and> mv_rows v' = mv_rows (mv_new tp)"
proof -
  let ?m = "\<lparr>mt_id = 0, mt_rows = [\<lparr>kv_timestamp = new_second 5, kv_sequence = 1, kv_op_type = Some OpPut\<rparr>], mt_frozen = False\<rparr>"
  let ?p = "\<lparr>tpart_memtable = ?m, tpart_range = \<lparr>pr_min = new_second 0, pr_max = new_second 10\<rparr>\<rparr>"
  let ?md = "\<lparr>rm_region_id = RegionId 1, rm_column_metadatas = [], rm_primary_key = [], rm_schema_version = 0,
             rm_partition_expr = None, rm_partition_expr_version = 0\<rparr>"
  let ?tp = "\<lparr>tp_parts = [?p], tp_next_memtable_id = 1, tp_part_duration = \<lparr>dur_secs = 10, dur_nanos = 0\<rparr>,
             tp_metadata = ?md, tp_unit = Second, tp_bulk = False\<rparr>"
  have wf: "mv_wf (mv_new ?tp)"
    by (simp add: mv_wf_def mv_ids_def list_memtables_def mv_new_def tp_memtables_def)
  have "\<exists>v' old. mv_freeze_mutable ?md None (mv_new ?tp) = Ret (Some v', old)"
    by (simp add: mv_freeze_mutable_def mv_new_def tp_is_empty_def mt_is_empty_def tp_fork_def tp_freeze_def
        mt_time_range_def partition_start_timestamp_def convert_to_def ts_align_by_bucket_def align_by_bucket_eq
        i64_defs checked_ops try_i64_def Let_def alloc_memtable_id_def split: option.splits)
  then show ?thesis using freeze_mutable_keeps_rows [OF wf] unfolding Let_def by blast
qed

end
