(* ===== verification/Manifest_Path.thy ===== *)
theory Manifest_Path
  imports Prelude "HOL-Library.Char_ord" "HOL-Library.List_Lexorder"
begin

text \<open>
  Names of manifest files, from \<open>src/src/mito2/src/manifest/storage.rs\<close>, with the compression types
  of \<open>src/src/common/datasource/src/compression.rs\<close> they carry as extension. Versions are printed in
  decimal, padded to 20 digits, so that the lexicographic order in which an object store lists
  files is the order of versions. Strings are ASCII.
\<close>

section \<open>Definitions\<close>

datatype compression_type = Gzip | Bzip2 | Xz | Zstd | Uncompressed

definition ascii_upper :: "char \<Rightarrow> char" where
  "ascii_upper c = (if CHR ''a'' \<le> c \<and> c \<le> CHR ''z'' then char_of (of_char c - 32 :: nat) else c)"

definition compression_from_str :: "string \<Rightarrow> compression_type option" where
  "compression_from_str s =
     (let u = map ascii_upper s
      in if u = ''GZIP'' \<or> u = ''GZ'' then Some Gzip
         else if u = ''BZIP2'' \<or> u = ''BZ2'' then Some Bzip2
         else if u = ''XZ'' then Some Xz
         else if u = ''ZST'' \<or> u = ''ZSTD'' then Some Zstd
         else if u = [] then Some Uncompressed
         else None)"

fun file_extension :: "compression_type \<Rightarrow> string" where
  "file_extension Gzip = ''gz''"
| "file_extension Bzip2 = ''bz2''"
| "file_extension Xz = ''xz''"
| "file_extension Zstd = ''zst''"
| "file_extension Uncompressed = []"

text \<open>Decimal printing with \<open>{:020}\<close> and parsing of \<open>u64\<close>.\<close>

definition digit_char :: "nat \<Rightarrow> char" where
  "digit_char d = char_of (48 + d)"

definition is_digit :: "char \<Rightarrow> bool" where
  "is_digit c \<longleftrightarrow> CHR ''0'' \<le> c \<and> c \<le> CHR ''9''"

definition digit_val :: "char \<Rightarrow> nat" where
  "digit_val c = of_char c - 48"

fun nat_digits :: "nat \<Rightarrow> string" where
  "nat_digits n = (if n < 10 then [digit_char n] else nat_digits (n div 10) @ [digit_char (n mod 10)])"

declare nat_digits.simps [simp del]

definition pad20 :: "nat \<Rightarrow> string" where
  "pad20 n = replicate (20 - length (nat_digits n)) (CHR ''0'') @ nat_digits n"

definition digits_value :: "string \<Rightarrow> nat" where
  "digits_value s = foldl (\<lambda>acc c. acc * 10 + digit_val c) 0 s"

definition parse_u64 :: "string \<Rightarrow> nat option" where
  "parse_u64 s =
     (let ds = (case s of c # cs \<Rightarrow> if c = CHR ''+'' then cs else s | [] \<Rightarrow> [])
      in if ds = [] \<or> \<not> list_all is_digit ds then None
         else if digits_value ds < 2 ^ 64 then Some (digits_value ds) else None)"

definition delta_file :: "nat \<Rightarrow> string" where
  "delta_file version = pad20 version @ ''.json''"

definition checkpoint_file :: "nat \<Rightarrow> string" where
  "checkpoint_file version = pad20 version @ ''.checkpoint''"

definition list_start_after :: "string \<Rightarrow> nat \<Rightarrow> string" where
  "list_start_after path version = path @ pad20 version"

definition gen_path :: "string \<Rightarrow> string \<Rightarrow> compression_type \<Rightarrow> string" where
  "gen_path path file ct =
     (if ct = Uncompressed then path @ file else path @ file @ ''.'' @ file_extension ct)"

definition file_version :: "string \<Rightarrow> nat outcome" where
  "file_version path = unwrap (parse_u64 (takeWhile (\<lambda>c. c \<noteq> CHR ''.'') path))"

definition file_compress_type :: "string \<Rightarrow> compression_type" where
  "file_compress_type path =
     (case compression_from_str (rev (takeWhile (\<lambda>c. c \<noteq> CHR ''.'') (rev path))) of
        Some ct \<Rightarrow> ct
      | None \<Rightarrow> Uncompressed)"

definition starts_with :: "string \<Rightarrow> string \<Rightarrow> bool" where
  "starts_with p s \<longleftrightarrow> take (length p) s = p"

text \<open>The regular expressions \<open>^\d+\.json\<close> and \<open>^\d+\.checkpoint\<close>.\<close>

definition is_delta_file :: "string \<Rightarrow> bool" where
  "is_delta_file name \<longleftrightarrow>
     takeWhile is_digit name \<noteq> [] \<and> starts_with ''.json'' (dropWhile is_digit name)"

definition is_checkpoint_file :: "string \<Rightarrow> bool" where
  "is_checkpoint_file name \<longleftrightarrow>
     takeWhile is_digit name \<noteq> [] \<and> starts_with ''.checkpoint'' (dropWhile is_digit name)"

section \<open>Decimal digits\<close>

lemma digit_char_code: "d < 10 \<Longrightarrow> of_char (digit_char d) = 48 + d"
  by (simp add: digit_char_def)

lemma is_digit_code: "is_digit c \<longleftrightarrow> 48 \<le> (of_char c :: nat) \<and> (of_char c :: nat) \<le> 57"
  by (simp add: is_digit_def less_eq_char_def)

lemma is_digit_char [simp]: "d < 10 \<Longrightarrow> is_digit (digit_char d)"
  by (simp add: is_digit_code digit_char_code)

lemma digit_val_char [simp]: "d < 10 \<Longrightarrow> digit_val (digit_char d) = d"
  by (simp add: digit_val_def digit_char_code)

lemma digits_value_snoc: "digits_value (s @ [c]) = digits_value s * 10 + digit_val c"
  by (simp add: digits_value_def)

lemma digits_value_nat_digits [simp]: "digits_value (nat_digits n) = n"
proof (induction n rule: nat_digits.induct)
  case (1 n)
  then show ?case
    by (subst nat_digits.simps) (simp add: digits_value_snoc, simp add: digits_value_def)
qed

lemma nat_digits_digits [simp]: "list_all is_digit (nat_digits n)"
proof (induction n rule: nat_digits.induct)
  case (1 n)
  then show ?case by (subst nat_digits.simps) simp
qed

lemma nat_digits_Nil [simp]: "nat_digits n \<noteq> []"
  by (subst nat_digits.simps) simp

lemma length_nat_digits: "n < 10 ^ k \<Longrightarrow> 0 < k \<Longrightarrow> length (nat_digits n) \<le> k"
proof (induction n arbitrary: k rule: nat_digits.induct)
  case (1 n)
  show ?case
  proof (cases "n < 10")
    case True
    with 1 show ?thesis by (subst nat_digits.simps) simp
  next
    case False
    with 1(2,3) obtain j where j: "k = Suc j" "0 < j"
      by (cases k; cases "k = 1") auto
    with 1(2) have "n div 10 < 10 ^ j" by (simp add: less_mult_imp_div_less mult.commute)
    with 1(1) False j show ?thesis by (subst nat_digits.simps) simp
  qed
qed

lemma length_pad20: "n < 10 ^ 20 \<Longrightarrow> length (pad20 n) = 20"
  using length_nat_digits [of n 20] by (simp add: pad20_def)

lemma pad20_digits [simp]: "list_all is_digit (pad20 n)"
  by (simp add: pad20_def list_all_iff is_digit_code)
    (use nat_digits_digits [of n] in \<open>auto simp: list_all_iff is_digit_code\<close>)

lemma digits_value_zeros: "digits_value (replicate k (CHR ''0'') @ s) = digits_value s"
proof (induction k)
  case (Suc k)
  then show ?case by (simp add: digits_value_def digit_val_def)
qed simp

lemma digits_value_pad20 [simp]: "digits_value (pad20 n) = n"
  by (simp add: pad20_def digits_value_zeros)

lemma pad20_Nil [simp]: "pad20 n \<noteq> []"
  by (simp add: pad20_def)

lemma parse_u64_pad20: "n < 2 ^ 64 \<Longrightarrow> parse_u64 (pad20 n) = Some n"
proof -
  assume n: "n < 2 ^ 64"
  obtain c cs where c: "pad20 n = c # cs" by (cases "pad20 n") auto
  with pad20_digits [of n] have "is_digit c" by simp
  then have "c \<noteq> CHR ''+''" by (auto simp: is_digit_code)
  with c have "(case pad20 n of c # cs \<Rightarrow> if c = CHR ''+'' then cs else pad20 n | [] \<Rightarrow> []) = pad20 n"
    by simp
  with n show ?thesis by (simp add: parse_u64_def)
qed

lemma takeWhile_digits_dot:
  "list_all is_digit ds \<Longrightarrow> takeWhile (\<lambda>c. c \<noteq> CHR ''.'') (ds @ CHR ''.'' # s) = ds"
  by (induction ds) (auto simp: is_digit_code)

lemma takeWhile_digits:
  "list_all is_digit ds \<Longrightarrow> takeWhile is_digit (ds @ CHR ''.'' # s) = ds
    \<and> dropWhile is_digit (ds @ CHR ''.'' # s) = CHR ''.'' # s"
  by (induction ds) (auto simp: is_digit_code)

lemma file_version_dot: "n < 2 ^ 64 \<Longrightarrow> file_version (pad20 n @ CHR ''.'' # s) = Ret n"
  by (simp add: file_version_def takeWhile_digits_dot parse_u64_pad20)

lemma compression_from_suffix:
  "compression_from_str ''gz'' = Some Gzip" "compression_from_str ''bz2'' = Some Bzip2"
  "compression_from_str ''xz'' = Some Xz" "compression_from_str ''zst'' = Some Zstd"
  "compression_from_str ''json'' = None" "compression_from_str ''checkpoint'' = None"
  by code_simp+

section \<open>Order of names\<close>

lemma append_less_same_prefix: "(p @ a < p @ b) = (a < (b :: string))"
  by (induction p) auto

lemma append_less_same_length:
  "length xs = length ys \<Longrightarrow> (xs < ys @ s) = (xs < ys \<or> xs = ys \<and> s \<noteq> ([] :: string))"
proof (induction xs ys rule: list_induct2)
  case Nil
  then show ?case by (cases s) auto
qed auto

lemma digits_value_Cons:
  "digits_value (c # s) = digit_val c * 10 ^ length s + digits_value s"
proof (induction s rule: rev_induct)
  case (snoc d s)
  have "digits_value (c # s @ [d]) = digits_value (c # s) * 10 + digit_val d"
    using digits_value_snoc [of "c # s" d] by simp
  with snoc show ?case by (simp add: digits_value_snoc algebra_simps)
qed (simp add: digits_value_def)

lemma digits_value_bound: "list_all is_digit s \<Longrightarrow> digits_value s < 10 ^ length s"
proof (induction s)
  case (Cons c s)
  then have "digit_val c \<le> 9" "digits_value s < 10 ^ length s"
    by (auto simp: digit_val_def is_digit_code)
  then have "digit_val c * 10 ^ length s + digits_value s < 9 * 10 ^ length s + 10 ^ length s"
    by (intro add_le_less_mono mult_right_mono) auto
  then show ?case by (simp add: digits_value_Cons)
qed (simp add: digits_value_def)

lemma digit_val_less: "is_digit a \<Longrightarrow> is_digit b \<Longrightarrow> a < b \<longleftrightarrow> digit_val a < digit_val b"
  by (auto simp: digit_val_def is_digit_code less_char_def)

lemma digit_val_eq: "is_digit a \<Longrightarrow> is_digit b \<Longrightarrow> a = b \<longleftrightarrow> digit_val a = digit_val b"
  by (metis digit_val_less less_irrefl linorder_neqE)

lemma lex_pack_nat:
  fixes a b a' b' M :: nat
  assumes "b < M" and "b' < M"
  shows "a * M + b < a' * M + b' \<longleftrightarrow> a < a' \<or> a = a' \<and> b < b'"
proof (cases a a' rule: linorder_cases)
  case less
  then have "Suc a * M \<le> a' * M" by (intro mult_right_mono) auto
  with less assms show ?thesis by simp
next
  case greater
  then have "Suc a' * M \<le> a * M" by (intro mult_right_mono) auto
  with greater assms show ?thesis by simp
qed auto

lemma digits_order:
  "length xs = length ys \<Longrightarrow> list_all is_digit xs \<Longrightarrow> list_all is_digit ys \<Longrightarrow>
   xs < ys \<longleftrightarrow> digits_value xs < digits_value ys"
proof (induction xs ys rule: list_induct2)
  case (Cons x xs y ys)
  have "digits_value xs < 10 ^ length ys" "digits_value ys < 10 ^ length ys"
    using Cons digits_value_bound [of xs] digits_value_bound [of ys] by auto
  from lex_pack_nat [OF this, of "digit_val x" "digit_val y"] Cons show ?case
    by (auto simp: digits_value_Cons digit_val_less digit_val_eq)
qed (simp add: digits_value_def)

lemma pad20_order: "v < 10 ^ 20 \<Longrightarrow> w < 10 ^ 20 \<Longrightarrow> pad20 v < pad20 w \<longleftrightarrow> v < w"
  using digits_order [of "pad20 v" "pad20 w"] by (simp add: length_pad20)

lemma pad20_eq: "pad20 v = pad20 w \<longleftrightarrow> v = w"
  by (metis digits_value_pad20)

section \<open>Properties\<close>

text \<open>
  C39. Every 64-bit version is read back from the name of its delta file and of its checkpoint
  file, with or without the extension of a compression; the two kinds of names are told apart, and
  the compression is read back from the name.
\<close>

theorem manifest_names_roundtrip:
  assumes "v < 2 ^ 64"
  shows "file_version (gen_path [] (delta_file v) ct) = Ret v
    \<and> file_version (gen_path [] (checkpoint_file v) ct) = Ret v
    \<and> is_delta_file (gen_path [] (delta_file v) ct) \<and> \<not> is_checkpoint_file (gen_path [] (delta_file v) ct)
    \<and> is_checkpoint_file (gen_path [] (checkpoint_file v) ct) \<and> \<not> is_delta_file (gen_path [] (checkpoint_file v) ct)
    \<and> file_compress_type (gen_path [] (delta_file v) ct) = ct
    \<and> file_compress_type (gen_path [] (checkpoint_file v) ct) = ct"
proof -
  have "file_compress_type (gen_path [] (delta_file v) ct) = ct"
    by (cases ct) (simp_all add: gen_path_def delta_file_def file_compress_type_def
        compression_from_suffix)
  moreover have "file_compress_type (gen_path [] (checkpoint_file v) ct) = ct"
    by (cases ct) (simp_all add: gen_path_def checkpoint_file_def file_compress_type_def
        compression_from_suffix)
  ultimately show ?thesis
    using file_version_dot [OF assms] takeWhile_digits [OF pad20_digits, of v]
    by (cases ct) (simp_all add: gen_path_def delta_file_def checkpoint_file_def is_delta_file_def
        is_checkpoint_file_def starts_with_def)
qed

theorem manifest_names_roundtrip_witness:
  "file_version (gen_path [] (delta_file 42) Gzip) = Ret 42
   \<and> file_compress_type (gen_path [] (delta_file 42) Gzip) = Gzip"
  using manifest_names_roundtrip [of 42 Gzip] by simp

text \<open>
  Listing a manifest directory with the start key of a version never skips a file that a
  scan from this version needs: among the files of the directory, delta or checkpoint, compressed
  or not, the keys after \<open>list_start_after\<close> of a version are exactly those of the versions from
  it on.
\<close>

theorem list_start_after_exact:
  assumes "v < 2 ^ 64" and "w < 2 ^ 64"
  shows "(list_start_after path v < gen_path path (delta_file w) ct \<longleftrightarrow> v \<le> w)
    \<and> (list_start_after path v < gen_path path (checkpoint_file w) ct \<longleftrightarrow> v \<le> w)"
proof -
  have b: "v < 10 ^ 20" "w < 10 ^ 20" using assms by auto
  have "pad20 v < pad20 w @ CHR ''.'' # s \<longleftrightarrow> v \<le> w" for s
    using append_less_same_length [of "pad20 v" "pad20 w"] b
    by (auto simp: length_pad20 pad20_order pad20_eq)
  then show ?thesis
    by (simp add: list_start_after_def gen_path_def delta_file_def checkpoint_file_def
        append_less_same_prefix)
qed

end
