(* ===== verification/Region_Options.thy ===== *)
theory Region_Options
  imports Manifest Manifest_Path
begin

text \<open>
  Options of a region, from \<open>src/src/mito2/src/region/options.rs\<close>: the options of a region and of
  its compaction, their validation, and the construction from the map of strings that a request
  carries. The decoding of a JSON object into a struct is derived by serde and is a parameter
  (\<open>option_decoders\<close>); what the code does with the decoded parts is modelled. Sizes and row counts
  are natural numbers, strings are ASCII.
\<close>

section \<open>Definitions\<close>

datatype merge_mode = LastRow | LastNonNull

datatype primary_key_encoding = Dense | Sparse

record kafka_wal_options =
  kw_topic :: string
  kw_initial_pruned_entry_id :: "nat option"

datatype wal_options = RaftEngine | Kafka kafka_wal_options | Noop

record twcs_options =
  to_trigger_file_num :: nat
  to_time_window :: "duration option"
  to_max_output_file_size :: "nat option"
  to_remote_compaction :: bool
  to_fallback_to_local :: bool

datatype compaction_options = TwcsCompaction twcs_options

fun co_time_window :: "compaction_options \<Rightarrow> duration option" where
  "co_time_window (TwcsCompaction opts) = to_time_window opts"

fun co_remote_compaction :: "compaction_options \<Rightarrow> bool" where
  "co_remote_compaction (TwcsCompaction opts) = to_remote_compaction opts"

fun co_fallback_to_local :: "compaction_options \<Rightarrow> bool" where
  "co_fallback_to_local (TwcsCompaction opts) = to_fallback_to_local opts"

definition twcs_options_default :: twcs_options where
  "twcs_options_default =
     \<lparr>to_trigger_file_num = 4, to_time_window = None, to_max_output_file_size = Some (512 * 1024 * 1024),
      to_remote_compaction = False, to_fallback_to_local = True\<rparr>"

definition compaction_options_default :: compaction_options where
  "compaction_options_default = TwcsCompaction twcs_options_default"

definition time_window_seconds :: "twcs_options \<Rightarrow> int option" where
  "time_window_seconds opts =
     (case to_time_window opts of
        None \<Rightarrow> None
      | Some window \<Rightarrow>
          (let window_secs = dur_secs window
           in if window_secs = 0 then None else try_i64 (int window_secs)))"

record inverted_index_options =
  ii_ignore_column_ids :: "column_id list"
  ii_segment_row_count :: nat

definition DEFAULT_INDEX_SEGMENT_ROW_COUNT :: nat where
  "DEFAULT_INDEX_SEGMENT_ROW_COUNT = 1024"

definition inverted_index_options_default :: inverted_index_options where
  "inverted_index_options_default =
     \<lparr>ii_ignore_column_ids = [], ii_segment_row_count = DEFAULT_INDEX_SEGMENT_ROW_COUNT\<rparr>"

record index_options =
  io_inverted_index :: inverted_index_options

record bulk_memtable_config =
  bc_merge_threshold :: nat
  bc_encode_row_threshold :: nat
  bc_encode_bytes_threshold :: nat
  bc_max_merge_groups :: nat

datatype memtable_options = TimeSeries | BulkMemtable bulk_memtable_config

record region_options =
  ro_ttl :: "time_to_live option"
  ro_auto_flush_interval :: "duration option"
  ro_compaction :: compaction_options
  ro_compaction_override :: bool
  ro_storage :: "string option"
  ro_append_mode :: bool
  ro_skip_wal :: bool
  ro_wal_options :: wal_options
  ro_index_options :: index_options
  ro_memtable :: "memtable_options option"
  ro_merge_mode :: "merge_mode option"
  ro_sst_format :: "format_type option"
  ro_max_row_group_row_count :: "nat option"
  ro_primary_key_encoding :: "primary_key_encoding option"
  ro_write_buffer_size :: "nat option"
  ro_preserve_row_sequence :: bool

definition region_options_default :: region_options where
  "region_options_default =
     \<lparr>ro_ttl = None, ro_auto_flush_interval = None, ro_compaction = compaction_options_default,
      ro_compaction_override = False, ro_storage = None, ro_append_mode = False, ro_skip_wal = False,
      ro_wal_options = RaftEngine, ro_index_options = \<lparr>io_inverted_index = inverted_index_options_default\<rparr>,
      ro_memtable = None, ro_merge_mode = None, ro_sst_format = None, ro_max_row_group_row_count = None,
      ro_primary_key_encoding = None, ro_write_buffer_size = None, ro_preserve_row_sequence = False\<rparr>"

subsection \<open>Validation and defaults\<close>

datatype options_error = InvalidRegionOptions | JsonOptions

definition MAX_ROW_GROUP_ROW_COUNT_LIMIT :: nat where
  "MAX_ROW_GROUP_ROW_COUNT_LIMIT = 10 * 1024 * 1024"

definition DEFAULT_ROW_GROUP_SIZE :: nat where
  "DEFAULT_ROW_GROUP_SIZE = 100 * 1024"

definition validate :: "region_options \<Rightarrow> options_error + unit" where
  "validate opts =
     (if ro_append_mode opts \<and> \<not> (case ro_merge_mode opts of None \<Rightarrow> True | Some mode \<Rightarrow> mode = LastRow)
      then Inl InvalidRegionOptions
      else if (case ro_auto_flush_interval opts of None \<Rightarrow> False | Some d \<Rightarrow> duration_is_zero d)
      then Inl InvalidRegionOptions
      else if (case ro_max_row_group_row_count opts of
                 None \<Rightarrow> False
               | Some row_count \<Rightarrow> \<not> (row_count > 0 \<and> row_count \<le> MAX_ROW_GROUP_ROW_COUNT_LIMIT))
      then Inl InvalidRegionOptions
      else if ro_preserve_row_sequence opts \<and> \<not> ro_append_mode opts
      then Inl InvalidRegionOptions
      else Inr ())"

definition row_group_size :: "region_options \<Rightarrow> nat" where
  "row_group_size opts = (case ro_max_row_group_row_count opts of None \<Rightarrow> DEFAULT_ROW_GROUP_SIZE | Some n \<Rightarrow> n)"

definition need_dedup :: "region_options \<Rightarrow> bool" where
  "need_dedup opts \<longleftrightarrow> \<not> ro_append_mode opts"

definition merge_mode_or_default :: "region_options \<Rightarrow> merge_mode" where
  "merge_mode_or_default opts = (case ro_merge_mode opts of None \<Rightarrow> LastRow | Some m \<Rightarrow> m)"

definition auto_flush_interval_or :: "region_options \<Rightarrow> duration \<Rightarrow> duration" where
  "auto_flush_interval_or opts default_interval =
     (case ro_auto_flush_interval opts of None \<Rightarrow> default_interval | Some d \<Rightarrow> d)"

definition primary_key_encoding_or_default :: "region_options \<Rightarrow> primary_key_encoding" where
  "primary_key_encoding_or_default opts = (case ro_primary_key_encoding opts of None \<Rightarrow> Dense | Some e \<Rightarrow> e)"

subsection \<open>Parsing the map of options\<close>

type_synonym options_map = "(string, string) hmap"

datatype json_value = JsonNull | JsonString string

record region_options_without_enum =
  rw_write_buffer_size :: "nat option"
  rw_ttl :: "time_to_live option"
  rw_auto_flush_interval :: "duration option"
  rw_storage :: "string option"
  rw_append_mode :: bool
  rw_skip_wal :: bool
  rw_merge_mode :: "merge_mode option"
  rw_sst_format :: "format_type option"
  rw_max_row_group_row_count :: "nat option"
  rw_preserve_row_sequence :: bool

definition without_enum_default :: region_options_without_enum where
  "without_enum_default =
     \<lparr>rw_write_buffer_size = ro_write_buffer_size region_options_default,
      rw_ttl = ro_ttl region_options_default,
      rw_auto_flush_interval = ro_auto_flush_interval region_options_default,
      rw_storage = ro_storage region_options_default,
      rw_append_mode = ro_append_mode region_options_default,
      rw_skip_wal = ro_skip_wal region_options_default,
      rw_merge_mode = ro_merge_mode region_options_default,
      rw_sst_format = ro_sst_format region_options_default,
      rw_max_row_group_row_count = ro_max_row_group_row_count region_options_default,
      rw_preserve_row_sequence = ro_preserve_row_sequence region_options_default\<rparr>"

text \<open>The decoders serde derives, from the JSON object or, for the log options, from their text.\<close>

record option_decoders =
  dec_options :: "(string, json_value) hmap \<Rightarrow> region_options_without_enum option"
  dec_compaction :: "(string, json_value) hmap \<Rightarrow> compaction_options option"
  dec_index :: "(string, json_value) hmap \<Rightarrow> index_options option"
  dec_memtable :: "(string, json_value) hmap \<Rightarrow> memtable_options option"
  dec_wal :: "string \<Rightarrow> wal_options option"

definition eq_ignore_ascii_case :: "string \<Rightarrow> string \<Rightarrow> bool" where
  "eq_ignore_ascii_case a b \<longleftrightarrow> map ascii_lower a = map ascii_lower b"

definition options_map_to_value :: "options_map \<Rightarrow> (string, json_value) hmap" where
  "options_map_to_value options =
     map (\<lambda>(key, value). (key, if eq_ignore_ascii_case value ''null'' then JsonNull else JsonString value)) options"

text \<open>The loop over the keys, which stops when it has seen both the tag and an option.\<close>

fun scan_enum_keys :: "string \<Rightarrow> string list \<Rightarrow> string list \<Rightarrow> bool \<times> bool \<Rightarrow> bool \<times> bool" where
  "scan_enum_keys tag prefixes [] st = st"
| "scan_enum_keys tag prefixes (key # keys) (has_tag, has_enum_options) =
     (let st = (if key = tag then (True, has_enum_options)
                else if \<not> has_enum_options \<and> list_ex (\<lambda>p. starts_with p key) prefixes
                then (has_tag, True)
                else (has_tag, has_enum_options))
      in if fst st \<and> snd st then st else scan_enum_keys tag prefixes keys st)"

definition validate_enum_options :: "options_map \<Rightarrow> string \<Rightarrow> string list \<Rightarrow> options_error + bool" where
  "validate_enum_options options_map enum_tag_key enum_option_prefixes =
     (let (has_tag, has_enum_options) =
            scan_enum_keys enum_tag_key enum_option_prefixes (hmap_keys options_map) (False, False)
      in if has_tag \<or> \<not> has_enum_options then Inr has_tag else Inl InvalidRegionOptions)"

definition WAL_OPTIONS_KEY :: string where "WAL_OPTIONS_KEY = ''wal_options''"
definition COMPACTION_OVERRIDE :: string where "COMPACTION_OVERRIDE = ''compaction.override''"
definition PRIMARY_KEY_ENCODING :: string where "PRIMARY_KEY_ENCODING = ''primary_key_encoding''"
definition MEMTABLE_PARTITION_TREE_PRIMARY_KEY_ENCODING :: string where
  "MEMTABLE_PARTITION_TREE_PRIMARY_KEY_ENCODING = ''memtable.partition_tree.primary_key_encoding''"
definition COMPACTION_TWCS_PREFIX :: string where "COMPACTION_TWCS_PREFIX = ''compaction.twcs.''"
definition MEMTABLE_PARTITION_TREE_PREFIX :: string where
  "MEMTABLE_PARTITION_TREE_PREFIX = ''memtable.partition_tree.''"
definition MEMTABLE_BULK_PREFIX :: string where "MEMTABLE_BULK_PREFIX = ''memtable.bulk.''"
definition LEGACY_PARTITION_TREE_MEMTABLE_TYPE :: string where
  "LEGACY_PARTITION_TREE_MEMTABLE_TYPE = ''partition_tree''"

definition parse_wal_options :: "option_decoders \<Rightarrow> options_map \<Rightarrow> wal_options option" where
  "parse_wal_options D options_map =
     (case hmap_get options_map WAL_OPTIONS_KEY of
        None \<Rightarrow> Some RaftEngine
      | Some encoded_wal_options \<Rightarrow> dec_wal D encoded_wal_options)"

definition is_legacy_partition_tree :: "options_map \<Rightarrow> bool" where
  "is_legacy_partition_tree options_map =
     (case hmap_get options_map ''memtable.type'' of
        None \<Rightarrow> False
      | Some s \<Rightarrow> eq_ignore_ascii_case s LEGACY_PARTITION_TREE_MEMTABLE_TYPE)"

text \<open>The \<open>?\<close> operator on results that cannot panic, and \<open>context\<close> on a decoder.\<close>

fun and_then :: "'e + 'a \<Rightarrow> ('a \<Rightarrow> 'e + 'b) \<Rightarrow> 'e + 'b" where
  "and_then (Inl e) f = Inl e"
| "and_then (Inr x) f = f x"

definition ok_or :: "'e \<Rightarrow> 'a option \<Rightarrow> 'e + 'a" where
  "ok_or e x = (case x of None \<Rightarrow> Inl e | Some v \<Rightarrow> Inr v)"

definition parse_primary_key_encoding :: "options_map \<Rightarrow> options_error + primary_key_encoding option" where
  "parse_primary_key_encoding options_map =
     (case (case hmap_get options_map PRIMARY_KEY_ENCODING of
              Some v \<Rightarrow> Some v
            | None \<Rightarrow> hmap_get options_map MEMTABLE_PARTITION_TREE_PRIMARY_KEY_ENCODING) of
        None \<Rightarrow> Inr None
      | Some v \<Rightarrow>
          (let s = map ascii_lower v
           in if s = ''dense'' then Inr (Some Dense)
              else if s = ''sparse'' then Inr (Some Sparse)
              else Inl InvalidRegionOptions))"

definition compaction_override_flag :: "options_map \<Rightarrow> bool" where
  "compaction_override_flag options_map =
     (case hmap_get options_map COMPACTION_OVERRIDE of
        None \<Rightarrow> False
      | Some v \<Rightarrow> map ascii_lower v \<in> {''true'', ''1''})"

text \<open>The format that the memtable requires, and the options put together.\<close>

definition effective_sst_format :: "options_map \<Rightarrow> memtable_options option \<Rightarrow> format_type option \<Rightarrow> format_type option" where
  "effective_sst_format options_map memtable sst_format =
     (let sst_format = (if is_legacy_partition_tree options_map then Some Flat else sst_format)
      in case memtable of Some (BulkMemtable _) \<Rightarrow> Some Flat | _ \<Rightarrow> sst_format)"

definition parse_memtable_options :: "option_decoders \<Rightarrow> options_map \<Rightarrow> options_error + memtable_options option" where
  "parse_memtable_options D options_map =
     and_then (validate_enum_options options_map ''memtable.type''
                 [MEMTABLE_PARTITION_TREE_PREFIX, MEMTABLE_BULK_PREFIX]) (\<lambda>has_memtable_type.
     if has_memtable_type
     then if is_legacy_partition_tree options_map then Inr None
          else and_then (ok_or JsonOptions (dec_memtable D (options_map_to_value options_map))) (\<lambda>m. Inr (Some m))
     else Inr None)"

definition try_from_options :: "option_decoders \<Rightarrow> options_map \<Rightarrow> options_error + region_options" where
  "try_from_options D options_map =
     (let json = options_map_to_value options_map
      in and_then (ok_or JsonOptions (dec_options D json)) (\<lambda>options.
         and_then (validate_enum_options options_map ''compaction.type'' [COMPACTION_TWCS_PREFIX]) (\<lambda>has_compaction_type.
         and_then (if has_compaction_type then ok_or JsonOptions (dec_compaction D json)
                   else Inr compaction_options_default) (\<lambda>compaction.
         and_then (ok_or JsonOptions (parse_wal_options D options_map)) (\<lambda>wal_options.
         and_then (ok_or JsonOptions (dec_index D json)) (\<lambda>index_options.
         and_then (parse_memtable_options D options_map) (\<lambda>memtable.
         and_then (parse_primary_key_encoding options_map) (\<lambda>primary_key_encoding.
         let opts = \<lparr>ro_ttl = rw_ttl options,
                     ro_auto_flush_interval = rw_auto_flush_interval options,
                     ro_compaction = compaction,
                     ro_compaction_override = (has_compaction_type \<or> compaction_override_flag options_map),
                     ro_storage = rw_storage options,
                     ro_append_mode = rw_append_mode options,
                     ro_skip_wal = rw_skip_wal options,
                     ro_wal_options = wal_options,
                     ro_index_options = index_options,
                     ro_memtable = memtable,
                     ro_merge_mode = rw_merge_mode options,
                     ro_sst_format = effective_sst_format options_map memtable (rw_sst_format options),
                     ro_max_row_group_row_count = rw_max_row_group_row_count options,
                     ro_primary_key_encoding = primary_key_encoding,
                     ro_write_buffer_size = rw_write_buffer_size options,
                     ro_preserve_row_sequence = rw_preserve_row_sequence options\<rparr>
         in and_then (validate opts) (\<lambda>_. Inr opts)))))))))"

subsection \<open>The list of ignored columns\<close>

text \<open>A column id is a \<open>u32\<close>; the list is written as decimal numbers separated by commas.\<close>

definition parse_u32 :: "string \<Rightarrow> nat option" where
  "parse_u32 s = (case parse_u64 s of Some n \<Rightarrow> if n < 2 ^ 32 then Some n else None | None \<Rightarrow> None)"

fun split_comma :: "string \<Rightarrow> string list" where
  "split_comma [] = [[]]"
| "split_comma (c # cs) =
     (if c = CHR '','' then [] # split_comma cs
      else (case split_comma cs of w # ws \<Rightarrow> (c # w) # ws | [] \<Rightarrow> [[c]]))"

fun join_comma :: "string list \<Rightarrow> string" where
  "join_comma [] = []"
| "join_comma [w] = w"
| "join_comma (w # ws) = w @ CHR '','' # join_comma ws"

fun parse_column_ids :: "string list \<Rightarrow> column_id list \<Rightarrow> column_id list option" where
  "parse_column_ids [] column_ids = Some column_ids"
| "parse_column_ids (w # ws) column_ids =
     (case parse_u32 w of None \<Rightarrow> None | Some column_id \<Rightarrow> parse_column_ids ws (column_ids @ [column_id]))"

definition deserialize_ignore_column_ids :: "string \<Rightarrow> column_id list option" where
  "deserialize_ignore_column_ids s = (if s = [] then Some [] else parse_column_ids (split_comma s) [])"

definition serialize_ignore_column_ids :: "column_id list \<Rightarrow> string" where
  "serialize_ignore_column_ids column_ids = join_comma (map nat_digits column_ids)"

section \<open>Lemmas\<close>

lemma and_then_Inr_iff: "and_then r f = Inr y \<longleftrightarrow> (\<exists>x. r = Inr x \<and> f x = Inr y)"
  by (cases r) auto

lemma ok_or_Inr_iff [simp]: "ok_or e x = Inr y \<longleftrightarrow> x = Some y"
  by (simp add: ok_or_def split: option.split)

lemma scan_enum_keys_iff:
  "scan_enum_keys tag prefixes keys (t, e) =
     (t \<or> tag \<in> set keys, e \<or> (\<exists>k \<in> set keys. k \<noteq> tag \<and> list_ex (\<lambda>p. starts_with p k) prefixes))"
  if "\<not> (t \<and> e)"
  using that by (induction keys arbitrary: t e) (auto simp: Let_def)

text \<open>Whether the options of a variant come with its type does not depend on the order of the map.\<close>

definition has_variant_options :: "options_map \<Rightarrow> string \<Rightarrow> string list \<Rightarrow> bool" where
  "has_variant_options m tag prefixes \<longleftrightarrow>
     (\<exists>k \<in> set (hmap_keys m). k \<noteq> tag \<and> list_ex (\<lambda>p. starts_with p k) prefixes)"

lemma validate_enum_options_iff:
  "validate_enum_options m tag prefixes =
     (if has_variant_options m tag prefixes \<and> tag \<notin> set (hmap_keys m) then Inl InvalidRegionOptions
      else Inr (tag \<in> set (hmap_keys m)))"
  by (auto simp: validate_enum_options_def scan_enum_keys_iff has_variant_options_def)

lemma validate_iff:
  "validate opts = Inr () \<longleftrightarrow>
     (ro_append_mode opts \<longrightarrow> merge_mode_or_default opts = LastRow)
     \<and> ro_auto_flush_interval opts \<noteq> Some \<lparr>dur_secs = 0, dur_nanos = 0\<rparr>
     \<and> 0 < row_group_size opts \<and> row_group_size opts \<le> MAX_ROW_GROUP_ROW_COUNT_LIMIT
     \<and> (ro_preserve_row_sequence opts \<longrightarrow> ro_append_mode opts)"
  by (auto simp: validate_def merge_mode_or_default_def row_group_size_def duration_is_zero_def
      MAX_ROW_GROUP_ROW_COUNT_LIMIT_def DEFAULT_ROW_GROUP_SIZE_def split: option.splits)

lemma parse_u64_nat_digits: "n < 2 ^ 64 \<Longrightarrow> parse_u64 (nat_digits n) = Some n"
proof -
  assume n: "n < 2 ^ 64"
  obtain c cs where c: "nat_digits n = c # cs" by (cases "nat_digits n") auto
  have "c \<noteq> CHR ''+''" using nat_digits_digits [of n] by (auto simp: c is_digit_code)
  with n show ?thesis using nat_digits_digits [of n] digits_value_nat_digits [of n]
    by (simp add: parse_u64_def c)
qed

lemma split_comma_digits:
  assumes "CHR '','' \<notin> set w"
  shows "split_comma w = [w]" "split_comma (w @ CHR '','' # s) = w # split_comma s"
  using assms by (induction w) auto

lemma no_comma_digits: "CHR '','' \<notin> set (nat_digits n)"
  using nat_digits_digits [of n] by (auto simp: list_all_iff is_digit_code)

lemma split_join_digits: "ids \<noteq> [] \<Longrightarrow> split_comma (join_comma (map nat_digits ids)) = map nat_digits ids"
proof (induction ids rule: induct_list012)
  case (3 a b ids)
  then show ?case by (simp add: split_comma_digits no_comma_digits)
qed (simp_all add: split_comma_digits no_comma_digits)

lemma parse_column_ids_digits:
  "\<forall>i \<in> set ids. i < 2 ^ 32 \<Longrightarrow> parse_column_ids (map nat_digits ids) acc = Some (acc @ ids)"
  by (induction ids arbitrary: acc) (auto simp: parse_u32_def parse_u64_nat_digits)

lemma join_comma_Nil: "join_comma (map nat_digits ids) = [] \<longleftrightarrow> ids = []"
  by (cases ids rule: remdups_adj.cases) auto

text \<open>
  The list of column ids without an inverted index is read back from the comma separated text
  it is stored as.
\<close>

theorem ignored_columns_roundtrip:
  assumes "\<forall>i \<in> set ids. i < 2 ^ 32"
  shows "deserialize_ignore_column_ids (serialize_ignore_column_ids ids) = Some ids"
  using assms parse_column_ids_digits [of ids "[]"]
  by (auto simp: deserialize_ignore_column_ids_def serialize_ignore_column_ids_def join_comma_Nil split_join_digits)

lemma parse_memtable_consistent:
  assumes "parse_memtable_options D m = Inr memtable"
  shows "has_variant_options m ''memtable.type'' [MEMTABLE_PARTITION_TREE_PREFIX, MEMTABLE_BULK_PREFIX]
      \<longrightarrow> ''memtable.type'' \<in> set (hmap_keys m)"
    and "is_legacy_partition_tree m \<longrightarrow> memtable = None"
  using assms by (auto simp: parse_memtable_options_def and_then_Inr_iff validate_enum_options_iff split: if_splits)

text \<open>
  C38. Options accepted by \<open>try_from_options\<close> are consistent: they pass validation, so in append mode
  only the last row is kept, the row group size is positive and within the limit and the flush
  interval is not zero; options of a compaction or memtable variant come with the type of the
  variant; a bulk memtable or the removed partition tree memtable forces the flat format; and an
  override of the compaction options is noted exactly when they are given or the flag is set.
\<close>

theorem region_options_consistent:
  assumes "try_from_options D m = Inr opts"
  shows "(ro_append_mode opts \<longrightarrow> merge_mode_or_default opts = LastRow)
    \<and> ro_auto_flush_interval opts \<noteq> Some \<lparr>dur_secs = 0, dur_nanos = 0\<rparr>
    \<and> 0 < row_group_size opts \<and> row_group_size opts \<le> MAX_ROW_GROUP_ROW_COUNT_LIMIT
    \<and> (ro_preserve_row_sequence opts \<longrightarrow> \<not> need_dedup opts)
    \<and> (has_variant_options m ''compaction.type'' [COMPACTION_TWCS_PREFIX] \<longrightarrow> ''compaction.type'' \<in> set (hmap_keys m))
    \<and> (has_variant_options m ''memtable.type'' [MEMTABLE_PARTITION_TREE_PREFIX, MEMTABLE_BULK_PREFIX]
        \<longrightarrow> ''memtable.type'' \<in> set (hmap_keys m))
    \<and> (''compaction.type'' \<notin> set (hmap_keys m) \<longrightarrow> ro_compaction opts = compaction_options_default)
    \<and> (\<forall>c. ro_memtable opts = Some (BulkMemtable c) \<longrightarrow> ro_sst_format opts = Some Flat)
    \<and> (is_legacy_partition_tree m \<longrightarrow> ro_memtable opts = None \<and> ro_sst_format opts = Some Flat)
    \<and> (ro_compaction_override opts \<longleftrightarrow> ''compaction.type'' \<in> set (hmap_keys m) \<or> compaction_override_flag m)"
proof -
  let ?ct = "''compaction.type'' \<in> set (hmap_keys m)"
  have parts:
      "validate_enum_options m ''compaction.type'' [COMPACTION_TWCS_PREFIX] = Inr ?ct"
      "parse_memtable_options D m = Inr (ro_memtable opts)"
      "?ct \<or> ro_compaction opts = compaction_options_default"
      "\<exists>f. ro_sst_format opts = effective_sst_format m (ro_memtable opts) f"
      "ro_compaction_override opts \<longleftrightarrow> ?ct \<or> compaction_override_flag m" "validate opts = Inr ()"
    using assms unfolding try_from_options_def Let_def and_then_Inr_iff
    by (auto simp: validate_enum_options_iff split: if_split_asm)
  have "\<not> has_variant_options m ''compaction.type'' [COMPACTION_TWCS_PREFIX] \<or> ?ct"
    using parts(1) by (auto simp: validate_enum_options_iff split: if_splits)
  moreover note parse_memtable_consistent [OF parts(2)] parts(4)
  ultimately show ?thesis
    using parts(6) [unfolded validate_iff] parts(3,5)
    by (auto simp: need_dedup_def effective_sst_format_def)
qed

theorem region_options_consistent_witness:
  "\<exists>opts. try_from_options
      \<lparr>dec_options = \<lambda>j. Some (without_enum_default\<lparr>rw_append_mode := hmap_get j ''append_mode'' = Some (JsonString ''true'')\<rparr>),
       dec_compaction = \<lambda>_. None, dec_index = \<lambda>_. Some \<lparr>io_inverted_index = inverted_index_options_default\<rparr>,
       dec_memtable = \<lambda>_. None, dec_wal = \<lambda>_. None\<rparr>
      [(''append_mode'', ''true''), (''memtable.type'', ''Partition_Tree'')] = Inr opts
     \<and> ro_append_mode opts \<and> merge_mode_or_default opts = LastRow \<and> ro_sst_format opts = Some Flat"
proof -
  let ?D = "\<lparr>dec_options = \<lambda>j. Some (without_enum_default\<lparr>rw_append_mode := hmap_get j ''append_mode'' = Some (JsonString ''true'')\<rparr>),
       dec_compaction = \<lambda>_. None, dec_index = \<lambda>_. Some \<lparr>io_inverted_index = inverted_index_options_default\<rparr>,
       dec_memtable = \<lambda>_. None, dec_wal = \<lambda>_. None\<rparr>"
  let ?m = "[(''append_mode'', ''true''), (''memtable.type'', ''Partition_Tree'')]"
  have legacy: "is_legacy_partition_tree ?m"
    by (simp add: is_legacy_partition_tree_def eq_ignore_ascii_case_def ascii_lower_def
        LEGACY_PARTITION_TREE_MEMTABLE_TYPE_def less_eq_char_def char_of_def bit_0)
  have "case try_from_options ?D ?m of Inr opts \<Rightarrow> ro_append_mode opts | Inl _ \<Rightarrow> False"
    by (simp add: try_from_options_def parse_memtable_options_def legacy validate_enum_options_iff
        has_variant_options_def hmap_keys_def starts_with_def parse_wal_options_def parse_primary_key_encoding_def
        options_map_to_value_def eq_ignore_ascii_case_def ascii_lower_def validate_def without_enum_default_def
        region_options_default_def ok_or_def WAL_OPTIONS_KEY_def PRIMARY_KEY_ENCODING_def
        MEMTABLE_PARTITION_TREE_PRIMARY_KEY_ENCODING_def COMPACTION_TWCS_PREFIX_def
        MEMTABLE_PARTITION_TREE_PREFIX_def MEMTABLE_BULK_PREFIX_def less_eq_char_def char_of_def bit_0)
  then obtain opts where opts: "try_from_options ?D ?m = Inr opts" "ro_append_mode opts" by (auto split: sum.splits)
  show ?thesis using region_options_consistent [OF opts(1)] opts legacy by blast
qed

end
