(* ===== verification/Region_Version.thy ===== *)
theory Region_Version
  imports Memtable_Version Region_Options
begin

text \<open>
  The versions of a region and their control, from \<open>src/src/mito2/src/region/version.rs\<close>. A version
  joins the metadata, the memtables, the SST files, the flushed positions and the options; the
  version control holds the current one with the committed sequence and the last WAL entry. The
  unit of the time index is read from the metadata by the argument \<open>unit_of\<close>; a memtable builder
  is represented by whether it uses bulk insert. Operations that mark files as deleted return the
  marked handles. Locks and the clones behind reference counts have no counterpart.
\<close>

section \<open>Definitions\<close>

record version =
  v_metadata :: region_metadata
  v_memtables :: memtable_version
  v_ssts :: sst_version
  v_flushed_entry_id :: nat
  v_flushed_sequence :: nat
  v_truncated_entry_id :: "nat option"
  v_compaction_time_window :: "duration option"
  v_options :: region_options

subsection \<open>Version builder\<close>

record version_builder =
  vb_metadata :: region_metadata
  vb_memtables :: memtable_version
  vb_ssts :: sst_version
  vb_flushed_entry_id :: nat
  vb_flushed_sequence :: nat
  vb_truncated_entry_id :: "nat option"
  vb_compaction_time_window :: "duration option"
  vb_options :: region_options

definition version_builder_new :: "region_metadata \<Rightarrow> time_partitions \<Rightarrow> version_builder" where
  "version_builder_new metadata mutable =
     \<lparr>vb_metadata = metadata, vb_memtables = mv_new mutable, vb_ssts = sst_version_new,
      vb_flushed_entry_id = 0, vb_flushed_sequence = 0, vb_truncated_entry_id = None,
      vb_compaction_time_window = None, vb_options = region_options_default\<rparr>"

definition from_version :: "version \<Rightarrow> version_builder" where
  "from_version v =
     \<lparr>vb_metadata = v_metadata v, vb_memtables = v_memtables v, vb_ssts = v_ssts v,
      vb_flushed_entry_id = v_flushed_entry_id v, vb_flushed_sequence = v_flushed_sequence v,
      vb_truncated_entry_id = v_truncated_entry_id v,
      vb_compaction_time_window = v_compaction_time_window v, vb_options = v_options v\<rparr>"

definition set_memtables :: "memtable_version \<Rightarrow> version_builder \<Rightarrow> version_builder" where
  "set_memtables memtables b = b\<lparr>vb_memtables := memtables\<rparr>"

definition set_metadata :: "region_metadata \<Rightarrow> version_builder \<Rightarrow> version_builder" where
  "set_metadata metadata b = b\<lparr>vb_metadata := metadata\<rparr>"

definition set_flushed_entry_id :: "nat \<Rightarrow> version_builder \<Rightarrow> version_builder" where
  "set_flushed_entry_id entry_id b = b\<lparr>vb_flushed_entry_id := entry_id\<rparr>"

definition set_flushed_sequence :: "nat \<Rightarrow> version_builder \<Rightarrow> version_builder" where
  "set_flushed_sequence sequence b = b\<lparr>vb_flushed_sequence := sequence\<rparr>"

definition set_truncated_entry_id :: "nat option \<Rightarrow> version_builder \<Rightarrow> version_builder" where
  "set_truncated_entry_id entry_id b = b\<lparr>vb_truncated_entry_id := entry_id\<rparr>"

definition set_compaction_time_window :: "duration option \<Rightarrow> version_builder \<Rightarrow> version_builder" where
  "set_compaction_time_window window b = b\<lparr>vb_compaction_time_window := window\<rparr>"

definition set_options :: "region_options \<Rightarrow> version_builder \<Rightarrow> version_builder" where
  "set_options options b = b\<lparr>vb_options := options\<rparr>"

definition vb_add_files :: "file_meta list \<Rightarrow> version_builder \<Rightarrow> version_builder outcome" where
  "vb_add_files files b =
     bind_outcome (add_files files (vb_ssts b)) (\<lambda>ssts. Ret (b\<lparr>vb_ssts := ssts\<rparr>))"

definition vb_remove_files ::
  "file_meta list \<Rightarrow> version_builder \<Rightarrow> (version_builder \<times> file_handle list) outcome" where
  "vb_remove_files files b =
     bind_outcome (remove_files files (vb_ssts b)) (\<lambda>(ssts, marked). Ret (b\<lparr>vb_ssts := ssts\<rparr>, marked))"

definition clear_files :: "version_builder \<Rightarrow> version_builder" where
  "clear_files b = b\<lparr>vb_ssts := sst_version_new\<rparr>"

definition vb_apply_edit ::
  "region_edit \<Rightarrow> version_builder \<Rightarrow> (version_builder \<times> file_handle list) outcome" where
  "vb_apply_edit edit b =
     (let b1 = b\<lparr>vb_flushed_entry_id := max_option (vb_flushed_entry_id b) (re_flushed_entry_id edit),
                 vb_flushed_sequence := max_option (vb_flushed_sequence b) (re_flushed_sequence edit),
                 vb_compaction_time_window :=
                   (case re_compaction_time_window edit of
                      Some window \<Rightarrow> Some window
                    | None \<Rightarrow> vb_compaction_time_window b)\<rparr>
      in if re_files_to_add edit \<noteq> [] \<or> re_files_to_remove edit \<noteq> []
         then bind_outcome (add_files (re_files_to_add edit) (vb_ssts b1)) (\<lambda>ssts.
              bind_outcome (remove_files (re_files_to_remove edit) ssts) (\<lambda>(ssts', marked).
              Ret (b1\<lparr>vb_ssts := ssts'\<rparr>, marked)))
         else Ret (b1, []))"

definition vb_remove_memtables :: "nat list \<Rightarrow> version_builder \<Rightarrow> version_builder" where
  "vb_remove_memtables ids b =
     (if ids \<noteq> [] then b\<lparr>vb_memtables := remove_memtables ids (vb_memtables b)\<rparr> else b)"

definition build_version :: "version_builder \<Rightarrow> version" where
  "build_version b =
     \<lparr>v_metadata = vb_metadata b, v_memtables = vb_memtables b, v_ssts = vb_ssts b,
      v_flushed_entry_id = vb_flushed_entry_id b, v_flushed_sequence = vb_flushed_sequence b,
      v_truncated_entry_id = vb_truncated_entry_id b,
      v_compaction_time_window =
        (case co_time_window (ro_compaction (vb_options b)) of
           Some window \<Rightarrow> Some window
         | None \<Rightarrow> vb_compaction_time_window b),
      v_options = vb_options b\<rparr>"

subsection \<open>Version control\<close>

record vc_data =
  vc_version :: version
  vc_committed_sequence :: nat
  vc_last_entry_id :: nat
  vc_is_dropped :: bool

definition vc_new :: "version \<Rightarrow> vc_data" where
  "vc_new v =
     \<lparr>vc_version = v, vc_committed_sequence = v_flushed_sequence v,
      vc_last_entry_id = v_flushed_entry_id v, vc_is_dropped = False\<rparr>"

definition vc_region_id :: "vc_data \<Rightarrow> region_id" where
  "vc_region_id d = rm_region_id (v_metadata (vc_version d))"

definition set_committed_sequence :: "nat \<Rightarrow> vc_data \<Rightarrow> vc_data" where
  "set_committed_sequence seq d = d\<lparr>vc_committed_sequence := seq\<rparr>"

definition set_sequence_and_entry_id :: "nat \<Rightarrow> nat \<Rightarrow> vc_data \<Rightarrow> vc_data" where
  "set_sequence_and_entry_id seq entry_id d = d\<lparr>vc_committed_sequence := seq, vc_last_entry_id := entry_id\<rparr>"

definition set_entry_id :: "nat \<Rightarrow> vc_data \<Rightarrow> vc_data" where
  "set_entry_id entry_id d = d\<lparr>vc_last_entry_id := entry_id\<rparr>"

definition vc_freeze_mutable :: "vc_data \<Rightarrow> vc_data outcome" where
  "vc_freeze_mutable d =
     (let v = vc_version d;
          time_window = v_compaction_time_window v
      in bind_outcome (mv_freeze_mutable (v_metadata v) time_window (v_memtables v)) (\<lambda>(r, old).
         case r of
           None \<Rightarrow> Ret d
         | Some new_memtables \<Rightarrow>
             Ret (d\<lparr>vc_version := build_version (set_memtables new_memtables (from_version v))\<rparr>)))"

definition alter_options :: "region_options \<Rightarrow> vc_data \<Rightarrow> vc_data" where
  "alter_options options d =
     d\<lparr>vc_version := build_version (set_options options (from_version (vc_version d)))\<rparr>"

definition vc_apply_edit ::
  "region_edit option \<Rightarrow> nat list \<Rightarrow> vc_data \<Rightarrow> (vc_data \<times> file_handle list) outcome" where
  "vc_apply_edit edit memtables_to_remove d =
     (let builder = from_version (vc_version d);
          committed = Option.bind edit re_committed_sequence
      in bind_outcome
           (case edit of Some e \<Rightarrow> vb_apply_edit e builder | None \<Rightarrow> Ret (builder, []))
           (\<lambda>(b, marked).
              Ret (d\<lparr>vc_committed_sequence :=
                       (case committed of
                          Some c \<Rightarrow> max (vc_committed_sequence d) c
                        | None \<Rightarrow> vc_committed_sequence d),
                     vc_version := build_version (vb_remove_memtables memtables_to_remove b)\<rparr>,
                   marked)))"

definition new_mutable_from_version ::
  "(region_metadata \<Rightarrow> time_unit) \<Rightarrow> version \<Rightarrow> region_metadata \<Rightarrow> bool \<Rightarrow> time_partitions" where
  "new_mutable_from_version unit_of v metadata bulk =
     (let mutable = mv_mutable (v_memtables v)
      in tp_new metadata (unit_of metadata) bulk (tp_next_memtable_id mutable)
           (Some (tp_part_duration mutable)))"

abbreviation vc_bulk :: "version \<Rightarrow> bool" where
  "vc_bulk v \<equiv> tp_bulk (mv_mutable (v_memtables v))"

definition mark_dropped ::
  "(region_metadata \<Rightarrow> time_unit) \<Rightarrow> vc_data \<Rightarrow> vc_data \<times> file_handle list" where
  "mark_dropped unit_of d =
     (let v = vc_version d;
          new_mutable = new_mutable_from_version unit_of v (v_metadata v) (vc_bulk v)
      in (d\<lparr>vc_is_dropped := True,
            vc_version := build_version (version_builder_new (v_metadata v) new_mutable)\<rparr>,
          mark_all_deleted (v_ssts v)))"

definition alter_schema :: "(region_metadata \<Rightarrow> time_unit) \<Rightarrow> region_metadata \<Rightarrow> vc_data \<Rightarrow> vc_data" where
  "alter_schema unit_of metadata d =
     (let v = vc_version d;
          new_mutable = new_mutable_from_version unit_of v metadata (vc_bulk v)
      in d\<lparr>vc_version := build_version
             (set_memtables (mv_new new_mutable) (set_metadata metadata (from_version v)))\<rparr>)"

definition alter_metadata :: "region_metadata \<Rightarrow> vc_data \<Rightarrow> vc_data" where
  "alter_metadata metadata d =
     d\<lparr>vc_version := build_version (set_metadata metadata (from_version (vc_version d)))\<rparr>"

definition alter_schema_and_format ::
  "(region_metadata \<Rightarrow> time_unit) \<Rightarrow> region_metadata \<Rightarrow> region_options \<Rightarrow> bool \<Rightarrow> vc_data \<Rightarrow> vc_data" where
  "alter_schema_and_format unit_of metadata options bulk d =
     (let v = vc_version d;
          new_mutable = new_mutable_from_version unit_of v metadata bulk
      in d\<lparr>vc_version := build_version
             (set_memtables (mv_new new_mutable)
               (set_options options (set_metadata metadata (from_version v))))\<rparr>)"

definition vc_truncate ::
  "(region_metadata \<Rightarrow> time_unit) \<Rightarrow> truncate_kind \<Rightarrow> vc_data \<Rightarrow> (vc_data \<times> file_handle list) outcome" where
  "vc_truncate unit_of kind d =
     (let v = vc_version d
      in case kind of
           TruncateAll entry_id sequence \<Rightarrow>
             (let new_mutable = new_mutable_from_version unit_of v (v_metadata v) (vc_bulk v)
              in Ret (d\<lparr>vc_version := build_version
                          (set_truncated_entry_id (Some entry_id)
                            (set_flushed_sequence sequence
                              (set_flushed_entry_id entry_id
                                (clear_files (set_memtables (mv_new new_mutable) (from_version v))))))\<rparr>,
                      mark_all_deleted (v_ssts v)))
         | TruncatePartial files_to_remove \<Rightarrow>
             bind_outcome (vb_remove_files files_to_remove (from_version v)) (\<lambda>(b, marked).
             Ret (d\<lparr>vc_version := build_version b\<rparr>, marked)))"

definition discard_unflushed ::
  "(region_metadata \<Rightarrow> time_unit) \<Rightarrow> nat \<Rightarrow> nat \<Rightarrow> vc_data \<Rightarrow> vc_data" where
  "discard_unflushed unit_of discarded_entry_id discarded_sequence d =
     (let v = vc_version d;
          new_mutable = new_mutable_from_version unit_of v (v_metadata v) (vc_bulk v)
      in d\<lparr>vc_version := build_version
             (set_flushed_sequence discarded_sequence
               (set_flushed_entry_id discarded_entry_id
                 (set_memtables (mv_new new_mutable) (from_version v))))\<rparr>)"

definition overwrite_current :: "version \<Rightarrow> vc_data \<Rightarrow> vc_data" where
  "overwrite_current v d = d\<lparr>vc_version := v\<rparr>"

end
