(* ===== verification/Region_Write.thy ===== *)
theory Region_Write
  imports Region_Version Bulk_Write
begin

text \<open>
  Writing to a region: the context that collects the requests of one region and numbers their
  rows, from \<open>src/src/mito2/src/region_write_ctx.rs\<close>; the key values of a mutation, from
  \<open>src/src/mito-codec/src/key_values.rs\<close>; appending to the log, \<open>write_wal\<close> of
  \<open>src/src/mito2/src/worker/handle_write.rs\<close>; and the conversion of batches to log entries, from
  \<open>src/src/mito2/src/memtable/bulk/part.rs\<close>.

  The context writes into the memtables of the version it was created from, which is the current
  version, because one worker handles the requests of a region one after the other: the operations
  take and return the data of the version control beside the context. A failed write may have
  stored some rows already, so the writes of this theory return the partitions also with an error.
  Tasks that the code spawns run one after the other in an order that is an argument. Of a row the
  timestamp, the sequence number and the operation are modelled. The log store, the encoding of Arrow batches and the conversions of the
  memtable are arguments; byte counters are left out.
\<close>

section \<open>Definitions\<close>

subsection \<open>Writes that keep their state on errors\<close>

fun fold_state :: "('a \<Rightarrow> 's \<Rightarrow> ('e, 's) fallible) \<Rightarrow> 'a list \<Rightarrow> 's \<Rightarrow> ('s \<times> 'e option) outcome" where
  "fold_state f [] s = Ret (s, None)"
| "fold_state f (x # xs) s =
     (case f x s of
        Panic \<Rightarrow> Panic
      | Ret (Inl e) \<Rightarrow> Ret (s, Some e)
      | Ret (Inr s') \<Rightarrow> fold_state f xs s')"

definition write_multi_parts_state :: "kv list \<Rightarrow> time_partitions \<Rightarrow> (time_partitions \<times> write_error option) outcome" where
  "write_multi_parts_state kvs tp =
     (case fold_fallible (route_kv tp) kvs ([], []) of
        Panic \<Rightarrow> Panic
      | Ret (Inl e) \<Rightarrow> Ret (tp, Some e)
      | Ret (Inr (parts_to_write, missing_parts)) \<Rightarrow>
          fold_state write_missing missing_parts (write_existing parts_to_write tp))"

definition write_bulk_inner_state ::
  "arrow_ops \<Rightarrow> bulk_part \<Rightarrow> time_partitions \<Rightarrow> (time_partitions \<times> write_error option) outcome" where
  "write_bulk_inner_state ao part tp =
     (case find_partitions_by_time_range tp (row_values (bp_rows part))
             (ts_new (bp_min_timestamp part) (tp_unit tp)) (ts_new (bp_max_timestamp part) (tp_unit tp)) of
        Panic \<Rightarrow> Panic
      | Ret (Inl e) \<Rightarrow> Ret (tp, Some e)
      | Ret (Inr (matching, missing)) \<Rightarrow>
          (if length matching = 1 \<and> missing = []
           then Ret (write_part (hd matching) (bp_rows part) tp, None)
           else (case fold_state (write_record_batch_partial ao part) matching tp of
                   Panic \<Rightarrow> Panic
                 | Ret (tp', Some e) \<Rightarrow> Ret (tp', Some e)
                 | Ret (tp', None) \<Rightarrow>
                     fold_state (\<lambda>start tp.
                       case get_or_create_time_partition start tp of
                         Inl err \<Rightarrow> Ret (Inl err)
                       | Inr (i, tp') \<Rightarrow> write_record_batch_partial ao part i tp') missing tp')))"

text \<open>The conversions that a bulk memtable applies to key values and to batches.\<close>

record conversions =
  cv_key_values :: "kv list \<Rightarrow> write_error + bulk_part"
  cv_bulk_part :: "bulk_part \<Rightarrow> write_error + bulk_part option"

definition tp_write_state ::
  "arrow_ops \<Rightarrow> conversions \<Rightarrow> kv list \<Rightarrow> time_partitions \<Rightarrow> (time_partitions \<times> write_error option) outcome" where
  "tp_write_state ao cv kvs tp =
     (if tp_bulk tp
      then (case cv_key_values cv kvs of
              Inl e \<Rightarrow> Ret (tp, Some e)
            | Inr part \<Rightarrow> write_bulk_inner_state ao part tp)
      else (case single_part kvs tp of
              Some i \<Rightarrow> Ret (write_part i kvs tp, None)
            | None \<Rightarrow> write_multi_parts_state kvs tp))"

definition tp_write_bulk_state ::
  "arrow_ops \<Rightarrow> conversions \<Rightarrow> bulk_part \<Rightarrow> time_partitions \<Rightarrow> (time_partitions \<times> write_error option) outcome" where
  "tp_write_bulk_state ao cv part tp =
     (if tp_bulk tp
      then (case cv_bulk_part cv part of
              Inl e \<Rightarrow> Ret (tp, Some e)
            | Inr None \<Rightarrow> Ret (tp, None)
            | Inr (Some p) \<Rightarrow> write_bulk_inner_state ao p tp)
      else write_bulk_inner_state ao (stamped part) tp)"

subsection \<open>Mutations and log entries\<close>

text \<open>The type of an operation is \<open>None\<close> when the number in the message names no operation.\<close>

record mutation =
  mu_op_type :: "op_type option"
  mu_sequence :: nat
  mu_rows :: "timestamp list option"

definition key_values :: "mutation \<Rightarrow> kv list option" where
  "key_values m =
     map_option (\<lambda>rows. map (\<lambda>(idx, ts). \<lparr>kv_timestamp = ts, kv_sequence = usize_add (mu_sequence m) idx,
       kv_op_type = mu_op_type m\<rparr>) (enumerate 0 rows)) (mu_rows m)"

record bulk_wal_entry =
  be_sequence :: nat
  be_max_ts :: int
  be_min_ts :: int
  be_payload :: bytes

record ipc_codec =
  ipc_encode :: "kv list \<Rightarrow> bytes option"
  ipc_decode :: "bytes \<Rightarrow> kv list option"

definition bulk_wal_entry_of :: "ipc_codec \<Rightarrow> bulk_part \<Rightarrow> bulk_wal_entry option" where
  "bulk_wal_entry_of codec part =
     map_option (\<lambda>payload. \<lparr>be_sequence = bp_sequence part, be_max_ts = bp_max_timestamp part,
                            be_min_ts = bp_min_timestamp part, be_payload = payload\<rparr>)
       (ipc_encode codec (bp_rows part))"

definition bulk_part_of :: "ipc_codec \<Rightarrow> bulk_wal_entry \<Rightarrow> bulk_part option" where
  "bulk_part_of codec e =
     map_option (\<lambda>rows. \<lparr>bp_rows = rows, bp_min_timestamp = be_min_ts e, bp_max_timestamp = be_max_ts e,
                         bp_sequence = be_sequence e\<rparr>)
       (ipc_decode codec (be_payload e))"

record wal_entry =
  we_mutations :: "mutation list"
  we_bulk_entries :: "bulk_wal_entry list"

subsection \<open>The write context\<close>

datatype ctx_error = MemtableError write_error | WalError

record write_notify =
  wn_err :: "ctx_error option"
  wn_num_rows :: nat

definition write_notify_new :: "nat \<Rightarrow> write_notify" where
  "write_notify_new num_rows = \<lparr>wn_err = None, wn_num_rows = num_rows\<rparr>"

definition notify_result :: "write_notify \<Rightarrow> ctx_error + nat" where
  "notify_result n = (case wn_err n of Some err \<Rightarrow> Inl err | None \<Rightarrow> Inr (wn_num_rows n))"

record write_ctx =
  wc_region_id :: region_id
  wc_version :: version
  wc_next_sequence :: nat
  wc_next_entry_id :: nat
  wc_wal_entry :: wal_entry
  wc_noop_provider :: bool
  wc_notifiers :: "write_notify list"
  wc_bulk_notifiers :: "write_notify list"
  wc_bulk_parts :: "bulk_part list"
  wc_failed :: bool
  wc_put_num :: nat
  wc_delete_num :: nat

definition write_ctx_new :: "region_id \<Rightarrow> bool \<Rightarrow> vc_data \<Rightarrow> write_ctx" where
  "write_ctx_new region noop d =
     \<lparr>wc_region_id = region, wc_version = vc_version d,
      wc_next_sequence = usize_add (vc_committed_sequence d) 1,
      wc_next_entry_id = usize_add (vc_last_entry_id d) 1,
      wc_wal_entry = \<lparr>we_mutations = [], we_bulk_entries = []\<rparr>, wc_noop_provider = noop,
      wc_notifiers = [], wc_bulk_notifiers = [], wc_bulk_parts = [], wc_failed = False,
      wc_put_num = 0, wc_delete_num = 0\<rparr>"

definition push_mutation ::
  "op_type option \<Rightarrow> timestamp list option \<Rightarrow> nat option \<Rightarrow> write_ctx \<Rightarrow> write_ctx" where
  "push_mutation op_type rows sequence ctx =
     (let next_sequence = (case sequence of Some s \<Rightarrow> s | None \<Rightarrow> wc_next_sequence ctx);
          num_rows = (case rows of Some rs \<Rightarrow> length rs | None \<Rightarrow> 0);
          m = \<lparr>mu_op_type = op_type, mu_sequence = next_sequence, mu_rows = rows\<rparr>
      in ctx\<lparr>wc_wal_entry := (wc_wal_entry ctx)\<lparr>we_mutations := we_mutations (wc_wal_entry ctx) @ [m]\<rparr>,
             wc_notifiers := wc_notifiers ctx @ [write_notify_new num_rows],
             wc_next_sequence := usize_add next_sequence num_rows,
             wc_delete_num := wc_delete_num ctx + (if op_type = Some OpDelete then num_rows else 0),
             wc_put_num := wc_put_num ctx + (if op_type = Some OpPut then num_rows else 0)\<rparr>)"

text \<open>The second component is whether the batch was accepted.\<close>

definition push_bulk :: "ipc_codec \<Rightarrow> bulk_part \<Rightarrow> nat option \<Rightarrow> write_ctx \<Rightarrow> write_ctx \<times> bool" where
  "push_bulk codec bulk sequence ctx =
     (let next_sequence = (case sequence of Some s \<Rightarrow> s | None \<Rightarrow> wc_next_sequence ctx);
          bulk = bulk\<lparr>bp_sequence := next_sequence\<rparr>;
          num_rows = length (bp_rows bulk)
      in case bulk_wal_entry_of codec bulk of
           None \<Rightarrow> (ctx\<lparr>wc_next_sequence := next_sequence\<rparr>, False)
         | Some entry \<Rightarrow>
             (ctx\<lparr>wc_bulk_notifiers := wc_bulk_notifiers ctx @ [write_notify_new num_rows],
                  wc_wal_entry := (wc_wal_entry ctx)\<lparr>we_bulk_entries := we_bulk_entries (wc_wal_entry ctx) @ [entry]\<rparr>,
                  wc_next_sequence := usize_add next_sequence num_rows,
                  wc_bulk_parts := wc_bulk_parts ctx @ [bulk]\<rparr>, True))"

definition skip_wal :: "write_ctx \<Rightarrow> bool" where
  "skip_wal ctx \<longleftrightarrow> wc_noop_provider ctx \<or> ro_skip_wal (v_options (wc_version ctx))"

definition set_error :: "ctx_error \<Rightarrow> write_ctx \<Rightarrow> write_ctx" where
  "set_error err ctx =
     ctx\<lparr>wc_notifiers := map (\<lambda>n. n\<lparr>wn_err := Some err\<rparr>) (wc_notifiers ctx),
         wc_bulk_notifiers := map (\<lambda>n. n\<lparr>wn_err := Some err\<rparr>) (wc_bulk_notifiers ctx),
         wc_failed := True\<rparr>"

definition set_next_entry_id :: "nat \<Rightarrow> write_ctx \<Rightarrow> write_ctx" where
  "set_next_entry_id next_entry_id ctx = ctx\<lparr>wc_next_entry_id := next_entry_id\<rparr>"

text \<open>The mutable partitions of the current version, which the context shares.\<close>

abbreviation vc_mutable :: "vc_data \<Rightarrow> time_partitions" where
  "vc_mutable d \<equiv> mv_mutable (v_memtables (vc_version d))"

definition set_mutable :: "time_partitions \<Rightarrow> vc_data \<Rightarrow> vc_data" where
  "set_mutable tp d =
     d\<lparr>vc_version := (vc_version d)\<lparr>v_memtables := (v_memtables (vc_version d))\<lparr>mv_mutable := tp\<rparr>\<rparr>\<rparr>"

text \<open>An error of the memtable is noted for the \<open>i\<close>th waiter.\<close>

definition note_error :: "nat \<Rightarrow> write_error option \<Rightarrow> write_notify list \<Rightarrow> write_notify list" where
  "note_error i err ns =
     (case err of
        None \<Rightarrow> ns
      | Some e \<Rightarrow> ns[i := (ns ! i)\<lparr>wn_err := Some (MemtableError e)\<rparr>])"

text \<open>Iterating over the key values of a mutation panics when the type of the operation is unknown.\<close>

fun write_mutation ::
  "arrow_ops \<Rightarrow> conversions \<Rightarrow> nat \<times> op_type option \<times> kv list \<Rightarrow> write_ctx \<times> vc_data \<Rightarrow> (write_ctx \<times> vc_data) outcome" where
  "write_mutation ao cv (i, op, kvs) (ctx, d) =
     (if op = None \<and> kvs \<noteq> [] then Panic
      else bind_outcome (tp_write_state ao cv kvs (vc_mutable d)) (\<lambda>(tp, err).
           Ret (ctx\<lparr>wc_notifiers := note_error i err (wc_notifiers ctx)\<rparr>, set_mutable tp d)))"

text \<open>Several writes are spawned as tasks; \<open>order\<close> is the order in which they run.\<close>

definition write_memtable ::
  "arrow_ops \<Rightarrow> conversions \<Rightarrow> ((nat \<times> op_type option \<times> kv list) list \<Rightarrow> (nat \<times> op_type option \<times> kv list) list)
     \<Rightarrow> write_ctx \<times> vc_data \<Rightarrow> (write_ctx \<times> vc_data) outcome" where
  "write_memtable ao cv order s =
     (let (ctx, d) = s
      in if wc_failed ctx then Ret (ctx, d)
         else let mutations = List.map_filter (\<lambda>(i, m). map_option (\<lambda>kvs. (i, mu_op_type m, kvs)) (key_values m))
                    (enumerate 0 (we_mutations (wc_wal_entry ctx)));
                  ctx = ctx\<lparr>wc_wal_entry := (wc_wal_entry ctx)\<lparr>we_mutations := []\<rparr>\<rparr>
              in fold_outcome (write_mutation ao cv)
                   (if length mutations = 1 then mutations else order mutations) (ctx, d))"

fun write_bulk_task ::
  "arrow_ops \<Rightarrow> conversions \<Rightarrow> nat \<times> bulk_part \<Rightarrow> write_ctx \<times> vc_data \<Rightarrow> (write_ctx \<times> vc_data) outcome" where
  "write_bulk_task ao cv (i, part) (ctx, d) =
     bind_outcome (tp_write_bulk_state ao cv part (vc_mutable d)) (\<lambda>(tp, err).
       Ret (ctx\<lparr>wc_bulk_notifiers := note_error i err (wc_bulk_notifiers ctx),
                wc_put_num := wc_put_num ctx + (if err = None then length (bp_rows part) else 0)\<rparr>,
            set_mutable tp d))"

definition write_bulk ::
  "arrow_ops \<Rightarrow> conversions \<Rightarrow> ((nat \<times> bulk_part) list \<Rightarrow> (nat \<times> bulk_part) list)
     \<Rightarrow> write_ctx \<times> vc_data \<Rightarrow> (write_ctx \<times> vc_data) outcome" where
  "write_bulk ao cv order s =
     (let (ctx, d) = s
      in if wc_failed ctx \<or> wc_bulk_parts ctx = [] then Ret (ctx, d)
         else let parts = enumerate 0 (wc_bulk_parts ctx);
                  ctx = ctx\<lparr>wc_bulk_parts := []\<rparr>
              in fold_outcome (write_bulk_task ao cv)
                   (if length parts = 1 then parts else order parts) (ctx, d))"

definition publish_sequence_and_entry_id :: "write_ctx \<Rightarrow> vc_data \<Rightarrow> vc_data" where
  "publish_sequence_and_entry_id ctx d =
     (if wc_failed ctx then d
      else set_sequence_and_entry_id (usize_sub (wc_next_sequence ctx) 1) (usize_sub (wc_next_entry_id ctx) 1) d)"

subsection \<open>Appending to the log\<close>

text \<open>
  The log store: whether an entry can be built, and the appending of a batch, which fails or returns
  the last entry id of each region.
\<close>

type_synonym log_entry = "region_id \<times> nat \<times> wal_entry"

record 'log log_store =
  ls_entry :: "log_entry \<Rightarrow> bool"
  ls_append :: "log_entry list \<Rightarrow> 'log \<Rightarrow> ((region_id, nat) hmap \<times> 'log) option"

definition add_wal_entry :: "'log log_store \<Rightarrow> write_ctx \<Rightarrow> log_entry list \<Rightarrow> (write_ctx \<times> log_entry list) option" where
  "add_wal_entry ls ctx entries =
     (let e = (wc_region_id ctx, wc_next_entry_id ctx, wc_wal_entry ctx)
      in if ls_entry ls e
         then Some (ctx\<lparr>wc_next_entry_id := usize_add (wc_next_entry_id ctx) 1\<rparr>, entries @ [e])
         else None)"

fun add_wal_entries ::
  "'log log_store \<Rightarrow> (region_id \<times> write_ctx) list \<Rightarrow> log_entry list \<Rightarrow> (region_id \<times> write_ctx) list \<times> log_entry list" where
  "add_wal_entries ls [] entries = ([], entries)"
| "add_wal_entries ls ((region, ctx) # ctxs) entries =
     (let (ctx', entries') =
            (if skip_wal ctx then (ctx, entries)
             else (case add_wal_entry ls ctx entries of
                     Some r \<Rightarrow> r
                   | None \<Rightarrow> (set_error WalError ctx, entries)));
          (ctxs', entries'') = add_wal_entries ls ctxs entries'
      in ((region, ctx') # ctxs', entries''))"

fun set_entry_ids ::
  "(region_id, nat) hmap \<Rightarrow> (region_id \<times> write_ctx) list \<Rightarrow> (region_id \<times> write_ctx) list outcome" where
  "set_entry_ids last_entry_ids [] = Ret []"
| "set_entry_ids last_entry_ids ((region, ctx) # ctxs) =
     bind_outcome
       (if skip_wal ctx \<or> wc_failed ctx then Ret ctx
        else bind_outcome (unwrap (hmap_get last_entry_ids region)) (\<lambda>last_entry_id.
             Ret (set_next_entry_id (usize_add last_entry_id 1) ctx)))
       (\<lambda>ctx'. bind_outcome (set_entry_ids last_entry_ids ctxs) (\<lambda>ctxs'. Ret ((region, ctx') # ctxs')))"

text \<open>Whether the log was written, the contexts, which are those to drop if it was not, and the log.\<close>

definition write_wal ::
  "'log log_store \<Rightarrow> (region_id \<times> write_ctx) list \<Rightarrow> 'log \<Rightarrow> (bool \<times> (region_id \<times> write_ctx) list \<times> 'log) outcome" where
  "write_wal ls region_ctxs log =
     (let (ctxs, entries) = add_wal_entries ls region_ctxs []
      in case ls_append ls entries log of
           Some (last_entry_ids, log') \<Rightarrow>
             bind_outcome (set_entry_ids last_entry_ids ctxs) (\<lambda>ctxs. Ret (True, ctxs, log'))
         | None \<Rightarrow> Ret (False, map (\<lambda>(region, ctx). (region, set_error WalError ctx)) ctxs, log))"

subsection \<open>Writing the requests of a region\<close>

text \<open>How the spawned tasks are ordered.\<close>

record task_order =
  to_mutations :: "(nat \<times> op_type option \<times> kv list) list \<Rightarrow> (nat \<times> op_type option \<times> kv list) list"
  to_bulk :: "(nat \<times> bulk_part) list \<Rightarrow> (nat \<times> bulk_part) list"

text \<open>The last stage of a write, the same for one region and for each of several.\<close>

definition write_region_ctx ::
  "arrow_ops \<Rightarrow> conversions \<Rightarrow> task_order \<Rightarrow> write_ctx \<times> vc_data \<Rightarrow> (write_ctx \<times> vc_data) outcome" where
  "write_region_ctx ao cv ord s =
     bind_outcome (write_memtable ao cv (to_mutations ord) s) (\<lambda>s.
     bind_outcome (write_bulk ao cv (to_bulk ord) s) (\<lambda>(ctx, d).
     Ret (ctx, publish_sequence_and_entry_id ctx d)))"

text \<open>
  Accepted requests are pushed in their order, the row requests before the batches. The first batch
  that cannot be encoded ends the loop: the batches behind it are dropped.
\<close>

type_synonym write_request = "op_type \<times> timestamp list"

fun push_bulks :: "ipc_codec \<Rightarrow> bulk_part list \<Rightarrow> write_ctx \<Rightarrow> write_ctx" where
  "push_bulks codec [] ctx = ctx"
| "push_bulks codec (part # parts) ctx =
     (let (ctx', pushed) = push_bulk codec part None ctx
      in if pushed then push_bulks codec parts ctx' else ctx')"

definition push_requests ::
  "ipc_codec \<Rightarrow> write_request list \<Rightarrow> bulk_part list \<Rightarrow> write_ctx \<Rightarrow> write_ctx" where
  "push_requests codec ws bs ctx =
     push_bulks codec bs (fold (\<lambda>(op, rows). push_mutation (Some op) (Some rows) None) ws ctx)"

text \<open>
  A round of writes to one region. When its context is dropped, each waiter is sent the result of its
  request: an error, or the number of rows written.
\<close>

definition replies :: "write_ctx \<Rightarrow> (ctx_error + nat) list" where
  "replies ctx = map notify_result (wc_notifiers ctx @ wc_bulk_notifiers ctx)"

definition handle_region_writes ::
  "arrow_ops \<Rightarrow> conversions \<Rightarrow> task_order \<Rightarrow> ipc_codec \<Rightarrow> 'log log_store \<Rightarrow> region_id \<Rightarrow> bool
     \<Rightarrow> write_request list \<Rightarrow> bulk_part list \<Rightarrow> vc_data \<times> 'log \<Rightarrow> ((ctx_error + nat) list \<times> vc_data \<times> 'log) outcome" where
  "handle_region_writes ao cv ord codec ls region noop ws bs s =
     (let (d, log) = s;
          ctx = push_requests codec ws bs (write_ctx_new region noop d)
      in if ws = [] \<and> bs = [] then Ret ([], d, log)
         else bind_outcome (write_wal ls [(region, ctx)] log) (\<lambda>(written, ctxs, log').
              if \<not> written then Ret (replies (snd (hd ctxs)), d, log')
              else bind_outcome (write_region_ctx ao cv ord (snd (hd ctxs), d)) (\<lambda>(ctx, d'). Ret (replies ctx, d', log'))))"

section \<open>Lemmas\<close>

subsection \<open>State on errors\<close>

definition forget_state :: "('s \<times> 'e option) outcome \<Rightarrow> ('e, 's) fallible" where
  "forget_state r = bind_outcome r (\<lambda>(s, err). case err of None \<Rightarrow> Ret (Inr s) | Some e \<Rightarrow> Ret (Inl e))"

lemma forget_state_simps [simp]:
  "forget_state Panic = Panic" "forget_state (Ret (s, None)) = Ret (Inr s)"
  "forget_state (Ret (s, Some e)) = Ret (Inl e)"
  by (simp_all add: forget_state_def)

lemma forget_state_Ok: "forget_state r = Ret (Inr s) \<longleftrightarrow> r = Ret (s, None)"
  by (auto simp: forget_state_def bind_outcome_Ret_iff split: option.splits)

lemma forget_fold_state: "forget_state (fold_state f xs s) = fold_fallible f xs s"
  by (induction xs arbitrary: s) (auto split: outcome.splits sum.splits)

lemma forget_then:
  "forget_state (case r of Panic \<Rightarrow> Panic | Ret (s, Some e) \<Rightarrow> Ret (s, Some e) | Ret (s, None) \<Rightarrow> fold_state f xs s)
    = bind_fallible (forget_state r) (fold_fallible f xs)"
  by (cases r) (auto simp: forget_fold_state split: option.splits)

lemma forget_write_bulk_inner: "forget_state (write_bulk_inner_state ao part tp) = write_bulk_inner ao part tp"
proof (cases "find_partitions_by_time_range tp (row_values (bp_rows part))
    (ts_new (bp_min_timestamp part) (tp_unit tp)) (ts_new (bp_max_timestamp part) (tp_unit tp))")
  case (Ret r)
  then show ?thesis
    by (cases r) (auto simp: write_bulk_inner_state_def write_bulk_inner_def forget_then forget_fold_state
        split: prod.splits)
qed (simp add: write_bulk_inner_state_def write_bulk_inner_def)

lemma forget_tp_write: "forget_state (tp_write_state ao cv kvs tp) = tp_write ao (cv_key_values cv) kvs tp"
  by (auto simp: tp_write_state_def tp_write_def write_multi_parts_state_def write_multi_parts_def
      forget_write_bulk_inner forget_fold_state split: option.splits outcome.splits sum.splits)

lemma forget_tp_write_bulk:
  "forget_state (tp_write_bulk_state ao cv part tp) = tp_write_bulk ao (cv_bulk_part cv) part tp"
  by (auto simp: tp_write_bulk_state_def tp_write_bulk_def forget_write_bulk_inner split: sum.splits option.splits)

lemma fold_state_invariant:
  assumes "fold_state f xs s = Ret (s', e)" and "P s"
    and "\<And>x s s'. P s \<Longrightarrow> f x s = Ret (Inr s') \<Longrightarrow> P s'"
  shows "P s'"
  using assms(1,2)
  by (induction xs arbitrary: s) (auto split: outcome.splits sum.splits dest: assms(3))

subsection \<open>What a write leaves as it was\<close>

definition same_kind :: "time_partitions \<Rightarrow> time_partitions \<Rightarrow> bool" where
  "same_kind tp tp' \<longleftrightarrow> same_config tp tp' \<and> tp_bulk tp' = tp_bulk tp"

lemma same_kind_refl [simp]: "same_kind tp tp"
  and same_kind_trans: "same_kind a b \<Longrightarrow> same_kind b c \<Longrightarrow> same_kind a c"
  by (auto simp: same_kind_def intro: same_config_trans)

lemma same_kind_write_part [simp]: "same_kind tp (write_part i kvs tp)"
  by (simp add: same_kind_def write_part_def same_config_def)

lemma same_kind_existing: "same_kind tp (write_existing m tp)"
proof -
  have "same_kind tp (fold (\<lambda>(i, kvs). write_part i kvs) xs s)" if "same_kind tp s" for xs s
    using that
    by (induction xs arbitrary: s) (auto intro: same_kind_trans [OF _ same_kind_write_part])
  then show ?thesis by (simp add: write_existing_def)
qed

lemma same_kind_get_or_create: "get_or_create_time_partition s tp = Inr (i, tp') \<Longrightarrow> same_kind tp tp'"
  by (auto simp: get_or_create_time_partition_def same_kind_def same_config_def alloc_memtable_id_def Let_def
      split: option.splits prod.splits)

lemma same_kind_missing: "write_missing e tp = Ret (Inr tp') \<Longrightarrow> same_kind tp tp'"
  by (auto simp: write_missing_def split: prod.splits sum.splits
      dest!: same_kind_get_or_create intro: same_kind_trans)

lemma same_kind_partial: "write_record_batch_partial ao part i tp = Ret (Inr tp') \<Longrightarrow> same_kind tp tp'"
  by (auto simp: write_record_batch_partial_def Let_def split: outcome.splits option.splits)

lemma same_kind_fold:
  assumes "fold_state f xs tp = Ret (tp', e)" and "\<And>x tp tp'. f x tp = Ret (Inr tp') \<Longrightarrow> same_kind tp tp'"
  shows "same_kind tp tp'"
  using assms(1) by (rule fold_state_invariant) (auto intro: same_kind_trans assms(2))

lemma same_kind_create_partial:
  "(case get_or_create_time_partition s tp of
      Inl err \<Rightarrow> Ret (Inl err) | Inr (i, tp1) \<Rightarrow> write_record_batch_partial ao part i tp1) = Ret (Inr tp')
    \<Longrightarrow> same_kind tp tp'"
  by (auto split: sum.splits dest!: same_kind_get_or_create same_kind_partial intro: same_kind_trans)

lemmas same_kind_folds =
  same_kind_fold [where f = "write_record_batch_partial ao part" for ao part, OF _ same_kind_partial]
  same_kind_fold [where f = "\<lambda>start tp. case get_or_create_time_partition start tp of
      Inl err \<Rightarrow> Ret (Inl err) | Inr (i, tp') \<Rightarrow> write_record_batch_partial ao part i tp'" for ao part,
    OF _ same_kind_create_partial]

lemma same_kind_bulk_inner: "write_bulk_inner_state ao part tp = Ret (tp', e) \<Longrightarrow> same_kind tp tp'"
  by (auto simp: write_bulk_inner_state_def split: outcome.splits sum.splits option.splits prod.splits if_splits
      dest!: same_kind_folds intro: same_kind_trans)

lemma same_kind_multi: "write_multi_parts_state kvs tp = Ret (tp', e) \<Longrightarrow> same_kind tp tp'"
  by (auto simp: write_multi_parts_state_def split: outcome.splits sum.splits
      dest!: same_kind_fold [OF _ same_kind_missing] intro: same_kind_trans same_kind_existing)

lemma same_kind_write: "tp_write_state ao cv kvs tp = Ret (tp', e) \<Longrightarrow> same_kind tp tp'"
  by (auto simp: tp_write_state_def split: if_splits sum.splits option.splits
      dest: same_kind_bulk_inner same_kind_multi)

lemma same_kind_write_bulk: "tp_write_bulk_state ao cv part tp = Ret (tp', e) \<Longrightarrow> same_kind tp tp'"
  by (auto simp: tp_write_bulk_state_def split: if_splits sum.splits option.splits dest: same_kind_bulk_inner)

subsection \<open>Writers that store every row\<close>

text \<open>
  What a round of writes relies on: in well-formed partitions a batch that fits is stored completely,
  without an error, and leaves the configuration of the partitions as it was.
\<close>

locale batch_writer =
  fixes put_batch :: "'b \<Rightarrow> time_partitions \<Rightarrow> (time_partitions \<times> write_error option) outcome"
    and rows_of :: "'b \<Rightarrow> kv list"
    and fits :: "time_partitions \<Rightarrow> 'b \<Rightarrow> bool"
  assumes write_stores: "tp_wf tp \<Longrightarrow> fits tp b \<Longrightarrow>
      \<exists>tp'. put_batch b tp = Ret (tp', None) \<and> tp_wf tp' \<and> same_kind tp tp'
        \<and> mset (tp_rows tp') = mset (tp_rows tp) + mset (rows_of b)"
    and fits_same: "same_kind tp tp' \<Longrightarrow> fits tp' b = fits tp b"
begin

text \<open>Tasks run one after the other; each updates the context and the shared partitions.\<close>

lemma run_all:
  assumes "\<And>x c d. x \<in> set xs \<Longrightarrow> task x (c, d) =
      bind_outcome (put_batch (batch x) (vc_mutable d)) (\<lambda>(tp, err). Ret (upd x err c, set_mutable tp d))"
    and "tp_wf (vc_mutable d)" and "\<And>x. x \<in> set xs \<Longrightarrow> fits (vc_mutable d) (batch x)"
  shows "\<exists>tp'. fold_outcome task xs (c, d) = Ret (fold (\<lambda>x. upd x None) xs c, set_mutable tp' d)
    \<and> tp_wf tp' \<and> same_kind (vc_mutable d) tp'
    \<and> mset (tp_rows tp') = mset (tp_rows (vc_mutable d)) + mset (concat (map (\<lambda>x. rows_of (batch x)) xs))"
  using assms
proof (induction xs arbitrary: c d)
  case Nil
  show ?case using Nil.prems(2) by (intro exI [of _ "vc_mutable d"]) (simp add: set_mutable_def)
next
  case (Cons x xs)
  obtain tp1 where w: "put_batch (batch x) (vc_mutable d) = Ret (tp1, None)" and tp1: "tp_wf tp1"
    "same_kind (vc_mutable d) tp1"
    "mset (tp_rows tp1) = mset (tp_rows (vc_mutable d)) + mset (rows_of (batch x))"
    using write_stores [OF Cons.prems(2)] Cons.prems(3) by fastforce
  have m: "vc_mutable (set_mutable tp1 d) = tp1" by (simp add: set_mutable_def)
  have "\<And>y. y \<in> set xs \<Longrightarrow> fits (vc_mutable (set_mutable tp1 d)) (batch y)"
    using Cons.prems(3) fits_same [OF tp1(2)] by (simp add: m)
  then obtain tp' where r: "fold_outcome task xs (upd x None c, set_mutable tp1 d)
      = Ret (fold (\<lambda>x. upd x None) xs (upd x None c), set_mutable tp' (set_mutable tp1 d))"
    and tp': "tp_wf tp'" "same_kind tp1 tp'"
    "mset (tp_rows tp') = mset (tp_rows tp1) + mset (concat (map (\<lambda>x. rows_of (batch x)) xs))"
    using Cons.IH [of "set_mutable tp1 d" "upd x None c"] Cons.prems(1) tp1(1) by (auto simp: m)
  have "set_mutable tp' (set_mutable tp1 d) = set_mutable tp' d" by (simp add: set_mutable_def)
  with r w tp' tp1 Cons.prems(1) [of x c d] show ?case
    by (intro exI [of _ tp']) (auto intro: same_kind_trans)
qed

end

definition rows_fit :: "time_partitions \<Rightarrow> kv list \<Rightarrow> bool" where
  "rows_fit tp kvs \<longleftrightarrow> (\<forall>x \<in> set kvs. row_ok tp x \<and> representable tp x)"

definition part_fits :: "time_partitions \<Rightarrow> bulk_part \<Rightarrow> bool" where
  "part_fits tp part \<longleftrightarrow>
     batch_ok tp part \<and> no_bucket_overflow tp part \<and> in_i64 (first_bucket tp part * tp_width tp)
     \<and> in_i64 ((last_bucket tp part + 1) * tp_width tp)"

text \<open>What a bulk memtable converts key values and batches to.\<close>

definition converts_part :: "(bulk_part \<Rightarrow> write_error + bulk_part option) \<Rightarrow> bulk_part \<Rightarrow> bool" where
  "converts_part conv part \<longleftrightarrow> (\<exists>p. conv part = Inr (Some p) \<and> mset (bp_rows p) = mset (bp_rows (stamped part))
     \<and> bp_min_timestamp p = bp_min_timestamp part \<and> bp_max_timestamp p = bp_max_timestamp part)"

definition conversions_ok :: "conversions \<Rightarrow> bool" where
  "conversions_ok cv \<longleftrightarrow> (\<forall>kvs. kvs \<noteq> [] \<longrightarrow> converts (cv_key_values cv) kvs)
     \<and> (\<forall>part. bp_rows part \<noteq> [] \<longrightarrow> converts_part (cv_bulk_part cv) part)"

definition kvs_fit :: "arrow_ops \<Rightarrow> conversions \<Rightarrow> time_partitions \<Rightarrow> kv list \<Rightarrow> bool" where
  "kvs_fit ao cv tp kvs \<longleftrightarrow> arrow_ok ao \<and> rows_fit tp kvs \<and> (tp_bulk tp \<longrightarrow> converts (cv_key_values cv) kvs)"

definition batch_fits :: "arrow_ops \<Rightarrow> conversions \<Rightarrow> time_partitions \<Rightarrow> bulk_part \<Rightarrow> bool" where
  "batch_fits ao cv tp part \<longleftrightarrow> arrow_ok ao \<and> part_fits tp part \<and> (tp_bulk tp \<longrightarrow> converts_part (cv_bulk_part cv) part)"

lemma representable_start: "tp_wf tp \<Longrightarrow> representable tp x \<Longrightarrow> bucket_start_fits tp x"
  unfolding bucket_start_fits_def representable_def tp_width_def
  by (rule floor_mult_in_i64 [of _ "ticks (tp_unit tp)"]) (auto simp: tp_wf_def)

lemma part_fits_rows:
  assumes "part_fits tp part" and "kv_timestamp ` set (bp_rows p) = kv_timestamp ` set (bp_rows part)"
    and "bp_min_timestamp p = bp_min_timestamp part" and "bp_max_timestamp p = bp_max_timestamp part"
  shows "part_fits tp p"
proof -
  have "\<exists>y \<in> set (bp_rows part). kv_timestamp x = kv_timestamp y" if "x \<in> set (bp_rows p)" for x
    using assms(2) that by (metis imageE imageI)
  then have "batch_ok tp p" using assms(1,3,4) by (fastforce simp: part_fits_def batch_ok_def row_ok_def)
  with assms show ?thesis by (simp add: part_fits_def no_bucket_overflow_def first_bucket_def last_bucket_def)
qed

lemma stamped_timestamps: "kv_timestamp ` set (bp_rows (stamped part)) = kv_timestamp ` set (bp_rows part)"
  by (simp add: stamped_def image_image)

lemma stamped_bounds [simp]:
  "bp_min_timestamp (stamped part) = bp_min_timestamp part" "bp_max_timestamp (stamped part) = bp_max_timestamp part"
  by (simp_all add: stamped_def)

lemma tp_write_state_stores:
  assumes "tp_wf tp" and "kvs_fit ao cv tp kvs"
  shows "\<exists>tp'. tp_write_state ao cv kvs tp = Ret (tp', None) \<and> tp_wf tp' \<and> same_kind tp tp'
    \<and> mset (tp_rows tp') = mset (tp_rows tp) + mset kvs"
proof -
  have "tp_bulk tp \<longrightarrow> converts (cv_key_values cv) kvs \<and> (\<forall>x \<in> set kvs. bucket_start_fits tp x)"
    using assms representable_start by (auto simp: kvs_fit_def rows_fit_def)
  with assms tp_write_either [of ao tp kvs "cv_key_values cv"] obtain tp'
    where "tp_write ao (cv_key_values cv) kvs tp = Ret (Inr tp')" and tp': "tp_wf tp'"
      "mset (tp_rows tp') = mset (tp_rows tp) + mset kvs"
    by (auto simp: kvs_fit_def rows_fit_def)
  then have "tp_write_state ao cv kvs tp = Ret (tp', None)"
    using forget_tp_write [of ao cv kvs tp] by (simp add: forget_state_Ok)
  with tp' same_kind_write [OF this] show ?thesis by blast
qed

lemma write_bulk_inner_stores:
  assumes "arrow_ok ao" and "tp_wf tp" and "part_fits tp part"
  shows "\<exists>tp'. write_bulk_inner ao part tp = Ret (Inr tp') \<and> tp_wf tp'
    \<and> mset (tp_rows tp') = mset (tp_rows tp) + mset (bp_rows part)"
  using assms write_bulk_inner_total [of ao tp part] by (auto simp: part_fits_def)

lemma tp_write_bulk_state_stores:
  assumes "tp_wf tp" and "batch_fits ao cv tp part"
  shows "\<exists>tp'. tp_write_bulk_state ao cv part tp = Ret (tp', None) \<and> tp_wf tp' \<and> same_kind tp tp'
    \<and> mset (tp_rows tp') = mset (tp_rows tp) + mset (bp_rows (stamped part))"
proof -
  have ao: "arrow_ok ao" and fits: "part_fits tp part" using assms(2) by (simp_all add: batch_fits_def)
  obtain tp' where w: "tp_write_bulk ao (cv_bulk_part cv) part tp = Ret (Inr tp')" and tp': "tp_wf tp'"
      "mset (tp_rows tp') = mset (tp_rows tp) + mset (bp_rows (stamped part))"
  proof (cases "tp_bulk tp")
    case True
    with assms(2) obtain p where p: "cv_bulk_part cv part = Inr (Some p)" "mset (bp_rows p) = mset (bp_rows (stamped part))"
      "bp_min_timestamp p = bp_min_timestamp part" "bp_max_timestamp p = bp_max_timestamp part"
      by (auto simp: batch_fits_def converts_part_def)
    have "part_fits tp p"
      by (rule part_fits_rows [OF fits _ p(3,4)]) (simp only: mset_eq_setD [OF p(2)] stamped_timestamps)
    with write_bulk_inner_stores [OF ao assms(1)] p True that show ?thesis by (force simp: tp_write_bulk_def)
  next
    case False
    have "part_fits tp (stamped part)" by (rule part_fits_rows [OF fits stamped_timestamps]) simp_all
    with write_bulk_inner_stores [OF ao assms(1)] False that show ?thesis by (force simp: tp_write_bulk_def)
  qed
  from w have "tp_write_bulk_state ao cv part tp = Ret (tp', None)"
    using forget_tp_write_bulk [of ao cv part tp] by (simp add: forget_state_Ok)
  with tp' same_kind_write_bulk [OF this] show ?thesis by blast
qed

lemma rows_fit_same: "same_kind tp tp' \<Longrightarrow> rows_fit tp' kvs = rows_fit tp kvs"
  by (auto simp: same_kind_def rows_fit_def representable_def same_config_simps)

lemma part_fits_same: "same_kind tp tp' \<Longrightarrow> part_fits tp' part = part_fits tp part"
  by (auto simp: same_kind_def part_fits_def batch_ok_def no_bucket_overflow_def first_bucket_def last_bucket_def
      same_config_simps)

lemma kvs_fit_same: "same_kind tp tp' \<Longrightarrow> kvs_fit ao cv tp' kvs = kvs_fit ao cv tp kvs"
  by (simp add: kvs_fit_def rows_fit_same) (simp add: same_kind_def)

lemma batch_fits_same: "same_kind tp tp' \<Longrightarrow> batch_fits ao cv tp' part = batch_fits ao cv tp part"
  by (simp add: batch_fits_def part_fits_same) (simp add: same_kind_def)

interpretation kvw: batch_writer "tp_write_state ao cv" "\<lambda>kvs. kvs" "kvs_fit ao cv" for ao cv
  by unfold_locales (auto intro: tp_write_state_stores simp: kvs_fit_same)

interpretation bpw: batch_writer "tp_write_bulk_state ao cv" "\<lambda>part. bp_rows (stamped part)" "batch_fits ao cv" for ao cv
  by unfold_locales (auto intro: tp_write_bulk_state_stores simp: batch_fits_same)

subsection \<open>A round of writes\<close>

definition entry_kvs :: "mutation list \<Rightarrow> kv list" where
  "entry_kvs ms = concat (List.map_filter key_values ms)"

definition ctx_fits :: "arrow_ops \<Rightarrow> conversions \<Rightarrow> time_partitions \<Rightarrow> write_ctx \<Rightarrow> bool" where
  "ctx_fits ao cv tp ctx \<longleftrightarrow>
     (\<forall>m \<in> set (we_mutations (wc_wal_entry ctx)). mu_op_type m \<noteq> None \<and>
        (\<forall>kvs. key_values m = Some kvs \<longrightarrow> kvs_fit ao cv tp kvs))
     \<and> (\<forall>part \<in> set (wc_bulk_parts ctx). batch_fits ao cv tp part)"

definition order_ok :: "task_order \<Rightarrow> bool" where
  "order_ok ord \<longleftrightarrow> (\<forall>xs. mset (to_mutations ord xs) = mset xs) \<and> (\<forall>xs. mset (to_bulk ord xs) = mset xs)"

lemma mset_concat_map: "mset xs = mset ys \<Longrightarrow> mset (concat (map f xs)) = mset (concat (map f ys))"
proof -
  have "mset (concat (map f zs)) = sum_mset (image_mset (mset \<circ> f) (mset zs))" for zs
    by (induction zs) auto
  then show "mset xs = mset ys \<Longrightarrow> ?thesis" by simp
qed

lemma in_enumerateD: "(i, x) \<in> set (enumerate n xs) \<Longrightarrow> x \<in> set xs"
  by (induction xs arbitrary: n) auto

lemma map_filter_enumerate:
  "map (\<lambda>(i, op, kvs). kvs) (List.map_filter (\<lambda>(i, m). map_option (\<lambda>kvs. (i, mu_op_type m, kvs)) (key_values m))
     (enumerate n ms)) = List.map_filter key_values ms"
  by (induction ms arbitrary: n) (auto simp: List.map_filter_def)

lemma write_memtable_stores:
  assumes "\<not> wc_failed ctx" and "tp_wf (vc_mutable d)" and "ctx_fits ao cv (vc_mutable d) ctx" and "order_ok ord"
  shows "\<exists>tp'. write_memtable ao cv (to_mutations ord) (ctx, d) =
      Ret (ctx\<lparr>wc_wal_entry := (wc_wal_entry ctx)\<lparr>we_mutations := []\<rparr>\<rparr>, set_mutable tp' d)
    \<and> tp_wf tp' \<and> same_kind (vc_mutable d) tp'
    \<and> mset (tp_rows tp') = mset (tp_rows (vc_mutable d)) + mset (entry_kvs (we_mutations (wc_wal_entry ctx)))"
proof -
  let ?ms = "we_mutations (wc_wal_entry ctx)"
  let ?c = "ctx\<lparr>wc_wal_entry := (wc_wal_entry ctx)\<lparr>we_mutations := []\<rparr>\<rparr>"
  let ?kvs = "\<lambda>(i :: nat, op :: op_type option, kvs :: kv list). kvs"
  let ?upd = "\<lambda>(i, op :: op_type option, kvs :: kv list) err c. c\<lparr>wc_notifiers := note_error i err (wc_notifiers c)\<rparr>"
  define xs where "xs = List.map_filter (\<lambda>(i, m). map_option (\<lambda>kvs. (i, mu_op_type m, kvs)) (key_values m)) (enumerate 0 ?ms)"
  define ys where "ys = (if length xs = 1 then xs else to_mutations ord xs)"
  have perm: "mset ys = mset xs" using assms(4) by (simp add: ys_def order_ok_def)
  have x: "fst (snd x) \<noteq> None" "kvs_fit ao cv (vc_mutable d) (?kvs x)" if "x \<in> set ys" for x
  proof -
    from that have "x \<in> set xs" using mset_eq_setD [OF perm] by blast
    then obtain i m kvs where "m \<in> set ?ms" "x = (i, mu_op_type m, kvs)" "key_values m = Some kvs"
      by (auto simp: xs_def List.map_filter_def dest!: in_enumerateD)
    with assms(3) show "fst (snd x) \<noteq> None" "kvs_fit ao cv (vc_mutable d) (?kvs x)" by (auto simp: ctx_fits_def)
  qed
  have task: "write_mutation ao cv x (c, d) = bind_outcome (tp_write_state ao cv (?kvs x) (vc_mutable d))
      (\<lambda>(tp, err). Ret (?upd x err c, set_mutable tp d))" if "x \<in> set ys" for x c d
    using x(1) [OF that] by (cases x) auto
  have "fold (\<lambda>x. ?upd x None) zs c = c" for zs :: "(nat \<times> op_type option \<times> kv list) list" and c :: write_ctx
    by (induction zs arbitrary: c) (auto simp: note_error_def)
  with kvw.run_all [where xs = ys and c = ?c and task = "write_mutation ao cv" and batch = ?kvs and upd = ?upd,
      OF task assms(2) x(2)] obtain tp'
    where r: "fold_outcome (write_mutation ao cv) ys (?c, d) = Ret (?c, set_mutable tp' d)"
    and tp': "tp_wf tp'" "same_kind (vc_mutable d) tp'" and rows: "mset (tp_rows tp') =
      mset (tp_rows (vc_mutable d)) + mset (concat (map ?kvs ys))" by auto
  have "mset (concat (map ?kvs ys)) = mset (entry_kvs ?ms)"
    using mset_concat_map [OF perm, of ?kvs] by (simp add: xs_def map_filter_enumerate entry_kvs_def)
  with r [unfolded ys_def] rows assms(1) tp' show ?thesis
    by (intro exI [of _ tp']) (simp add: write_memtable_def Let_def split: if_split_asm flip: xs_def)
qed

lemma write_bulk_stores:
  assumes "\<not> wc_failed ctx" and "tp_wf (vc_mutable d)" and "ctx_fits ao cv (vc_mutable d) ctx" and "order_ok ord"
  shows "\<exists>n tp'. write_bulk ao cv (to_bulk ord) (ctx, d) =
      Ret (ctx\<lparr>wc_bulk_parts := [], wc_put_num := n\<rparr>, set_mutable tp' d)
    \<and> tp_wf tp' \<and> same_kind (vc_mutable d) tp'
    \<and> mset (tp_rows tp') = mset (tp_rows (vc_mutable d)) + mset (concat (map (bp_rows \<circ> stamped) (wc_bulk_parts ctx)))"
proof (cases "wc_bulk_parts ctx = []")
  case True
  then show ?thesis
    using assms(1,2) by (intro exI [of _ "wc_put_num ctx"] exI [of _ "vc_mutable d"]) (simp add: write_bulk_def set_mutable_def)
next
  case False
  let ?c = "ctx\<lparr>wc_bulk_parts := []\<rparr>"
  let ?upd = "\<lambda>(i, part) err c. c\<lparr>wc_bulk_notifiers := note_error i err (wc_bulk_notifiers c),
      wc_put_num := wc_put_num c + (if err = None then length (bp_rows part) else 0)\<rparr>"
  define xs where "xs = enumerate 0 (wc_bulk_parts ctx)"
  define ys where "ys = (if length xs = 1 then xs else to_bulk ord xs)"
  have perm: "mset ys = mset xs" using assms(4) by (simp add: ys_def order_ok_def)
  have x: "batch_fits ao cv (vc_mutable d) (snd x)" if "x \<in> set ys" for x
  proof -
    from that have "x \<in> set xs" using mset_eq_setD [OF perm] by blast
    then have "snd x \<in> set (wc_bulk_parts ctx)"
      unfolding xs_def using in_enumerateD [of "fst x" "snd x"] by simp
    with assms(3) show ?thesis by (simp add: ctx_fits_def)
  qed
  have task: "write_bulk_task ao cv x (c, d) = bind_outcome (tp_write_bulk_state ao cv (snd x) (vc_mutable d))
      (\<lambda>(tp, err). Ret (?upd x err c, set_mutable tp d))" for x c d
    by (cases x) simp
  have "\<exists>n. fold (\<lambda>x. ?upd x None) zs c = c\<lparr>wc_put_num := n\<rparr>" for zs :: "(nat \<times> bulk_part) list" and c :: write_ctx
  proof (induction zs arbitrary: c)
    case Nil
    show ?case by (intro exI [of _ "wc_put_num c"]) simp
  next
    case (Cons z zs)
    from Cons [of "?upd z None c"] show ?case by (cases z) (auto simp: note_error_def)
  qed
  then obtain n where "fold (\<lambda>x. ?upd x None) ys ?c = ?c\<lparr>wc_put_num := n\<rparr>" by blast
  with bpw.run_all [where xs = ys and c = ?c and task = "write_bulk_task ao cv" and batch = snd and upd = ?upd,
      OF task assms(2) x] obtain tp'
    where r: "fold_outcome (write_bulk_task ao cv) ys (?c, d) = Ret (?c\<lparr>wc_put_num := n\<rparr>, set_mutable tp' d)"
    and tp': "tp_wf tp'" "same_kind (vc_mutable d) tp'" and rows: "mset (tp_rows tp') =
      mset (tp_rows (vc_mutable d)) + mset (concat (map (\<lambda>x. bp_rows (stamped (snd x))) ys))" by auto
  have "map (\<lambda>x. bp_rows (stamped (snd x))) xs = map (bp_rows \<circ> stamped) (wc_bulk_parts ctx)"
    by (simp add: xs_def o_def flip: map_map [unfolded o_def, of "\<lambda>p. bp_rows (stamped p)" snd])
  then have "mset (concat (map (\<lambda>x. bp_rows (stamped (snd x))) ys)) = mset (concat (map (bp_rows \<circ> stamped) (wc_bulk_parts ctx)))"
    using mset_concat_map [OF perm, of "\<lambda>x. bp_rows (stamped (snd x))"] by simp
  with r [unfolded ys_def] rows assms(1) False tp' show ?thesis
    by (intro exI [of _ n] exI [of _ tp']) (simp add: write_bulk_def Let_def split: if_split_asm flip: xs_def)
qed

lemma write_region_ctx_failed: "wc_failed ctx \<Longrightarrow> write_region_ctx ao cv ord (ctx, d) = Ret (ctx, d)"
  by (simp add: write_region_ctx_def write_memtable_def write_bulk_def publish_sequence_and_entry_id_def)

definition ctx_rows :: "write_ctx \<Rightarrow> kv multiset" where
  "ctx_rows ctx = mset (entry_kvs (we_mutations (wc_wal_entry ctx))) + mset (concat (map (bp_rows \<circ> stamped) (wc_bulk_parts ctx)))"

lemma vc_mutable_set_mutable [simp]: "vc_mutable (set_mutable tp d) = tp"
  and set_mutable_twice [simp]: "set_mutable tp (set_mutable tp' d) = set_mutable tp d"
  by (simp_all add: set_mutable_def)

lemma write_region_ctx_stores:
  assumes "\<not> wc_failed ctx" and "tp_wf (vc_mutable d)" and "ctx_fits ao cv (vc_mutable d) ctx" and "order_ok ord"
  shows "\<exists>ctx' tp'. write_region_ctx ao cv ord (ctx, d) = Ret (ctx', set_sequence_and_entry_id
        (usize_sub (wc_next_sequence ctx) 1) (usize_sub (wc_next_entry_id ctx) 1) (set_mutable tp' d))
    \<and> tp_wf tp' \<and> same_kind (vc_mutable d) tp' \<and> mset (tp_rows tp') = mset (tp_rows (vc_mutable d)) + ctx_rows ctx
    \<and> wc_notifiers ctx' = wc_notifiers ctx \<and> wc_bulk_notifiers ctx' = wc_bulk_notifiers ctx"
proof -
  let ?c = "ctx\<lparr>wc_wal_entry := (wc_wal_entry ctx)\<lparr>we_mutations := []\<rparr>\<rparr>"
  obtain tp1 where w1: "write_memtable ao cv (to_mutations ord) (ctx, d) = Ret (?c, set_mutable tp1 d)"
    and tp1: "tp_wf tp1" "same_kind (vc_mutable d) tp1"
      "mset (tp_rows tp1) = mset (tp_rows (vc_mutable d)) + mset (entry_kvs (we_mutations (wc_wal_entry ctx)))"
    using write_memtable_stores [OF assms] by blast
  have "ctx_fits ao cv tp1 ?c" using assms(3) batch_fits_same [OF tp1(2)] by (simp add: ctx_fits_def)
  with write_bulk_stores [of ?c "set_mutable tp1 d" ao cv ord] assms(1,4) tp1(1) obtain n tp2
    where w2: "write_bulk ao cv (to_bulk ord) (?c, set_mutable tp1 d)
        = Ret (?c\<lparr>wc_bulk_parts := [], wc_put_num := n\<rparr>, set_mutable tp2 d)"
    and tp2: "tp_wf tp2" "same_kind tp1 tp2" "mset (tp_rows tp2) = mset (tp_rows tp1) + mset (concat (map (bp_rows \<circ> stamped) (wc_bulk_parts ctx)))"
    by auto
  show ?thesis
    using assms(1) tp1 tp2
    by (auto simp: write_region_ctx_def w1 w2 publish_sequence_and_entry_id_def ctx_rows_def intro: same_kind_trans
        intro!: exI [of _ tp2])
qed

subsection \<open>Numbering\<close>

fun starts_from :: "nat \<Rightarrow> nat list \<Rightarrow> nat list" where
  "starts_from s [] = []"
| "starts_from s (n # ns) = s # starts_from (s + n) ns"

lemma usize_add_small: "a + b < 2 ^ 64 \<Longrightarrow> usize_add a b = a + b"
  by (simp add: usize_add_def wrap_usize_def)

definition op_rows :: "op_type \<Rightarrow> write_request list \<Rightarrow> nat" where
  "op_rows op ws = sum_list (map (\<lambda>(op', rows). if op' = op then length rows else 0) ws)"

lemma push_mutations_eq:
  assumes "wc_next_sequence ctx + length (concat (map snd ws)) < 2 ^ 64"
  shows "fold (\<lambda>(op, rows). push_mutation (Some op) (Some rows) None) ws ctx =
    ctx\<lparr>wc_wal_entry := (wc_wal_entry ctx)\<lparr>we_mutations := we_mutations (wc_wal_entry ctx)
          @ map (\<lambda>((op, rows), s). \<lparr>mu_op_type = Some op, mu_sequence = s, mu_rows = Some rows\<rparr>)
              (zip ws (starts_from (wc_next_sequence ctx) (map (length \<circ> snd) ws)))\<rparr>,
        wc_notifiers := wc_notifiers ctx @ map (write_notify_new \<circ> length \<circ> snd) ws,
        wc_next_sequence := wc_next_sequence ctx + length (concat (map snd ws)),
        wc_delete_num := wc_delete_num ctx + op_rows OpDelete ws, wc_put_num := wc_put_num ctx + op_rows OpPut ws\<rparr>"
  using assms
proof (induction ws arbitrary: ctx)
  case (Cons w ws)
  obtain op rows where w: "w = (op, rows)" by (cases w)
  have "usize_add (wc_next_sequence ctx) (length rows) = wc_next_sequence ctx + length rows"
    using Cons.prems by (intro usize_add_small) (simp add: w)
  with Cons.IH [of "push_mutation (Some op) (Some rows) None ctx"] Cons.prems show ?case
    by (simp add: w push_mutation_def Let_def op_rows_def ac_simps)
qed (simp add: op_rows_def)

lemma push_bulks_eq:
  assumes "wc_next_sequence ctx + length (concat (map bp_rows bs)) < 2 ^ 64"
    and "\<forall>part \<in> set bs. ipc_encode codec (bp_rows part) \<noteq> None"
  shows "push_bulks codec bs ctx =
    (let parts = map (\<lambda>(part, s). part\<lparr>bp_sequence := s\<rparr>)
           (zip bs (starts_from (wc_next_sequence ctx) (map (length \<circ> bp_rows) bs)))
     in ctx\<lparr>wc_bulk_notifiers := wc_bulk_notifiers ctx @ map (write_notify_new \<circ> length \<circ> bp_rows) bs,
        wc_wal_entry := (wc_wal_entry ctx)\<lparr>we_bulk_entries := we_bulk_entries (wc_wal_entry ctx)
          @ map (the \<circ> bulk_wal_entry_of codec) parts\<rparr>,
        wc_next_sequence := wc_next_sequence ctx + length (concat (map bp_rows bs)),
        wc_bulk_parts := wc_bulk_parts ctx @ parts\<rparr>)"
  using assms
proof (induction bs arbitrary: ctx)
  case (Cons b bs)
  have "usize_add (wc_next_sequence ctx) (length (bp_rows b)) = wc_next_sequence ctx + length (bp_rows b)"
    using Cons.prems by (intro usize_add_small) simp
  with Cons.IH [of "fst (push_bulk codec b None ctx)"] Cons.prems show ?case
    by (auto simp: push_bulk_def Let_def bulk_wal_entry_of_def ac_simps)
qed simp

text \<open>The requests of a round as the context numbers them, for the first free sequence number \<open>s\<close>.\<close>

definition numbered_mutations :: "nat \<Rightarrow> write_request list \<Rightarrow> mutation list" where
  "numbered_mutations s ws = map (\<lambda>((op, rows), s). \<lparr>mu_op_type = Some op, mu_sequence = s, mu_rows = Some rows\<rparr>)
     (zip ws (starts_from s (map (length \<circ> snd) ws)))"

definition numbered_parts :: "nat \<Rightarrow> bulk_part list \<Rightarrow> bulk_part list" where
  "numbered_parts s bs = map (\<lambda>(part, s). part\<lparr>bp_sequence := s\<rparr>) (zip bs (starts_from s (map (length \<circ> bp_rows) bs)))"

abbreviation num_rows_of :: "write_request list \<Rightarrow> nat" where
  "num_rows_of ws \<equiv> length (concat (map snd ws))"

abbreviation num_bulk_rows :: "bulk_part list \<Rightarrow> nat" where
  "num_bulk_rows bs \<equiv> length (concat (map bp_rows bs))"

definition round_bounded :: "ipc_codec \<Rightarrow> write_request list \<Rightarrow> bulk_part list \<Rightarrow> vc_data \<Rightarrow> bool" where
  "round_bounded codec ws bs d \<longleftrightarrow>
     vc_committed_sequence d + 1 + num_rows_of ws + num_bulk_rows bs < 2 ^ 64
     \<and> (\<forall>part \<in> set bs. ipc_encode codec (bp_rows part) \<noteq> None)"

lemma push_requests_fields:
  fixes region noop
  assumes "round_bounded codec ws bs d"
  defines "s \<equiv> vc_committed_sequence d + 1"
    and "ctx \<equiv> push_requests codec ws bs (write_ctx_new region noop d)"
  shows "we_mutations (wc_wal_entry ctx) = numbered_mutations s ws"
    and "wc_bulk_parts ctx = numbered_parts (s + num_rows_of ws) bs"
    and "we_bulk_entries (wc_wal_entry ctx) = map (the \<circ> bulk_wal_entry_of codec) (wc_bulk_parts ctx)"
    and "wc_next_sequence ctx = s + num_rows_of ws + num_bulk_rows bs"
    and "wc_next_entry_id ctx = usize_add (vc_last_entry_id d) 1" and "wc_region_id ctx = region"
    and "wc_noop_provider ctx = noop" and "wc_version ctx = vc_version d" and "\<not> wc_failed ctx"
    and "wc_notifiers ctx = map (write_notify_new \<circ> length \<circ> snd) ws"
    and "wc_bulk_notifiers ctx = map (write_notify_new \<circ> length \<circ> bp_rows) bs"
proof -
  let ?c0 = "write_ctx_new region noop d"
  have s: "wc_next_sequence ?c0 = s"
    using assms(1) by (simp add: round_bounded_def s_def write_ctx_new_def usize_add_small)
  with assms(1) push_mutations_eq [of ?c0 ws] have
    m: "fold (\<lambda>(op, rows). push_mutation (Some op) (Some rows) None) ws ?c0 =
      ?c0\<lparr>wc_wal_entry := (wc_wal_entry ?c0)\<lparr>we_mutations := we_mutations (wc_wal_entry ?c0) @ numbered_mutations s ws\<rparr>,
        wc_notifiers := wc_notifiers ?c0 @ map (write_notify_new \<circ> length \<circ> snd) ws,
        wc_next_sequence := s + num_rows_of ws, wc_delete_num := wc_delete_num ?c0 + op_rows OpDelete ws,
        wc_put_num := wc_put_num ?c0 + op_rows OpPut ws\<rparr>" (is "_ = ?c1")
    by (auto simp: round_bounded_def s_def numbered_mutations_def)
  have "wc_next_sequence ?c1 = s + num_rows_of ws" by simp
  with assms(1) push_bulks_eq [of ?c1 bs codec] show
    "we_mutations (wc_wal_entry ctx) = numbered_mutations s ws"
    "wc_bulk_parts ctx = numbered_parts (s + num_rows_of ws) bs"
    "we_bulk_entries (wc_wal_entry ctx) = map (the \<circ> bulk_wal_entry_of codec) (wc_bulk_parts ctx)"
    "wc_next_sequence ctx = s + num_rows_of ws + num_bulk_rows bs"
    "wc_next_entry_id ctx = usize_add (vc_last_entry_id d) 1" "wc_region_id ctx = region"
    "wc_noop_provider ctx = noop" "wc_version ctx = vc_version d" "\<not> wc_failed ctx"
    "wc_notifiers ctx = map (write_notify_new \<circ> length \<circ> snd) ws"
    "wc_bulk_notifiers ctx = map (write_notify_new \<circ> length \<circ> bp_rows) bs"
    unfolding ctx_def push_requests_def m round_bounded_def s_def
    by (simp_all add: Let_def numbered_parts_def) (simp_all add: write_ctx_new_def)
qed

text \<open>
  The rows a round stores, spelled out: the rows of the requests in their order, numbered one by one
  from the first free sequence number with the operation of their request, and then the batches, the
  rows of each being puts with the number its block starts at.
\<close>

fun batch_rows :: "nat \<Rightarrow> bulk_part list \<Rightarrow> kv list" where
  "batch_rows s [] = []"
| "batch_rows s (b # bs) =
     map (\<lambda>x. \<lparr>kv_timestamp = kv_timestamp x, kv_sequence = s, kv_op_type = Some OpPut\<rparr>) (bp_rows b)
       @ batch_rows (s + length (bp_rows b)) bs"

definition request_rows :: "nat \<Rightarrow> write_request list \<Rightarrow> kv list" where
  "request_rows s ws = map (\<lambda>(i, op, ts). \<lparr>kv_timestamp = ts, kv_sequence = i, kv_op_type = Some op\<rparr>)
     (enumerate s (concat (map (\<lambda>(op, rows). map (Pair op) rows) ws)))"

definition round_rows :: "nat \<Rightarrow> write_request list \<Rightarrow> bulk_part list \<Rightarrow> kv multiset" where
  "round_rows c ws bs = mset (request_rows (c + 1) ws) + mset (batch_rows (c + 1 + num_rows_of ws) bs)"

lemma enumerate_pairs:
  "enumerate n (map (Pair op) rows) = map (\<lambda>(i, ts). (i, op, ts)) (enumerate n rows)"
  by (induction rows arbitrary: n) auto

lemma entry_kvs_numbered:
  assumes "s + num_rows_of ws < 2 ^ 64"
  shows "entry_kvs (numbered_mutations s ws) = request_rows s ws"
  using assms
proof (induction ws arbitrary: s)
  case Nil
  show ?case by (simp add: entry_kvs_def numbered_mutations_def List.map_filter_def request_rows_def)
next
  case (Cons w ws)
  obtain op rows where w: "w = (op, rows)" by (cases w)
  let ?kv = "\<lambda>ts i. \<lparr>kv_timestamp = ts, kv_sequence = i, kv_op_type = Some op\<rparr>"
  have "map (\<lambda>(idx, ts). ?kv ts (usize_add s idx)) (enumerate n rs) = map (\<lambda>(i, ts). ?kv ts i) (enumerate (s + n) rs)"
    if "s + n + length rs < 2 ^ 64" for n rs
    using that by (induction rs arbitrary: n) (auto simp: usize_add_small)
  from this [of 0 rows] Cons.prems
  have "key_values \<lparr>mu_op_type = Some op, mu_sequence = s, mu_rows = Some rows\<rparr>
      = Some (map (\<lambda>(i, ts). ?kv ts i) (enumerate s rows))"
    by (simp add: key_values_def w)
  with Cons.IH [of "s + length rows"] Cons.prems show ?case
    by (simp add: w entry_kvs_def numbered_mutations_def List.map_filter_def request_rows_def enumerate_append_eq
        enumerate_pairs add.assoc split_beta)
qed

lemma stamped_numbered:
  "concat (map (bp_rows \<circ> stamped) (numbered_parts s bs)) = batch_rows s bs"
proof (induction bs arbitrary: s)
  case (Cons b bs)
  have "numbered_parts s (b # bs) = b\<lparr>bp_sequence := s\<rparr> # numbered_parts (s + length (bp_rows b)) bs"
    by (simp add: numbered_parts_def)
  with Cons show ?case by (simp add: stamped_def)
qed (simp add: numbered_parts_def)

text \<open>A version control over empty partitions, for witnesses.\<close>

definition sample_metadata :: region_metadata where
  "sample_metadata = \<lparr>rm_region_id = RegionId 1, rm_column_metadatas = [], rm_primary_key = [],
     rm_schema_version = 0, rm_partition_expr = None, rm_partition_expr_version = 0\<rparr>"

definition sample_control :: "nat \<Rightarrow> nat \<Rightarrow> vc_data" where
  "sample_control sequence entry_id = vc_new (build_version
     (set_flushed_entry_id entry_id (set_flushed_sequence sequence
       (version_builder_new sample_metadata (tp_new sample_metadata Second False 0 None)))))"

lemma sample_control_simps [simp]:
  "vc_committed_sequence (sample_control s e) = s" "vc_last_entry_id (sample_control s e) = e"
  "vc_mutable (sample_control s e) = tp_new sample_metadata Second False 0 None"
  "v_options (vc_version (sample_control s e)) = region_options_default"
  by (simp_all add: sample_control_def vc_new_def build_version_def set_flushed_entry_id_def
      set_flushed_sequence_def version_builder_new_def mv_new_def)

end
