(* ===== verification/Region_Open.thy ===== *)
theory Region_Open
  imports Region_Write
begin

text \<open>
  Creating and opening a region, from \<open>src/src/mito2/src/region/opener.rs\<close>: the version of a region
  that is created, the version that is rebuilt from a manifest, and the replay of the log into its
  memtables; the catch up of a follower from \<open>src/src/mito2/src/region/catchup.rs\<close>; and the
  synchronisation of a follower with a newer manifest from \<open>src/src/mito2/src/worker/handle_manifest.rs\<close>.
  The reader of the log is an argument: it fails or returns the results of a stream. The metadata of
  the opened region, which may be completed with a partition expression, is an argument as well.
  A failed replay returns its error; the region it would have opened is dropped.
\<close>

section \<open>Definitions\<close>

subsection \<open>Options and builders\<close>

definition initial_pruned_entry_id :: "wal_options \<Rightarrow> nat" where
  "initial_pruned_entry_id wal =
     (case wal of
        Kafka options \<Rightarrow> (case kw_initial_pruned_entry_id options of Some i \<Rightarrow> i | None \<Rightarrow> 0)
      | RaftEngine \<Rightarrow> 0
      | Noop \<Rightarrow> 0)"

text \<open>Whether the memtable builder chosen for the options uses bulk insert.\<close>

definition builder_for_options :: "bool \<Rightarrow> region_options \<Rightarrow> bool" where
  "builder_for_options default_flat_format options =
     (let flat_format = (case ro_sst_format options of Some f \<Rightarrow> f = Flat | None \<Rightarrow> default_flat_format)
      in if flat_format then True
         else if primary_key_encoding_or_default options = Sparse then True
         else (case ro_memtable options of
                 Some (BulkMemtable config) \<Rightarrow> True
               | Some TimeSeries \<Rightarrow> False
               | None \<Rightarrow> False))"

definition sanitize_region_options :: "region_manifest \<Rightarrow> region_options \<Rightarrow> region_options" where
  "sanitize_region_options manifest options =
     (let o1 = (case ro_sst_format options of
                  Some format \<Rightarrow> options
                | None \<Rightarrow> options\<lparr>ro_sst_format := Some (m_sst_format manifest)\<rparr>);
          o2 = (case m_append_mode manifest of
                  Some mode \<Rightarrow> if ro_append_mode o1 \<noteq> mode then o1\<lparr>ro_append_mode := mode\<rparr> else o1
                | None \<Rightarrow> o1)
      in if ro_append_mode o2 then o2\<lparr>ro_merge_mode := None\<rparr> else o2)"

datatype open_error = RegionCorrupted | StaleLogEntry | ReadWal | ConvertBulkWalEntry | FillColumns
  | RegionOpened | Unexpected

definition check_recovered_region ::
  "region_metadata \<Rightarrow> region_id \<Rightarrow> column_metadata list \<Rightarrow> column_id list \<Rightarrow> open_error + unit" where
  "check_recovered_region recovered region_id column_metadatas primary_key =
     (if rm_region_id recovered \<noteq> region_id then Inl RegionCorrupted
      else if rm_column_metadatas recovered \<noteq> column_metadatas then Inl RegionCorrupted
      else if rm_primary_key recovered \<noteq> primary_key then Inl RegionCorrupted
      else Inr ())"

subsection \<open>Versions of created and opened regions\<close>

definition version_builder_from_manifest ::
  "region_manifest \<Rightarrow> region_metadata \<Rightarrow> time_partitions \<Rightarrow> region_options \<Rightarrow> version_builder outcome" where
  "version_builder_from_manifest manifest metadata mutable region_options =
     bind_outcome (vb_add_files (hmap_values (m_files manifest)) (version_builder_new metadata mutable)) (\<lambda>b.
     Ret (set_options region_options
           (set_compaction_time_window (m_compaction_time_window manifest)
             (set_truncated_entry_id (m_truncated_entry_id manifest)
               (set_flushed_sequence (m_flushed_sequence manifest)
                 (set_flushed_entry_id (m_flushed_entry_id manifest) b))))))"

record open_config =
  oc_default_flat_format :: bool
  oc_unit_of :: "region_metadata \<Rightarrow> time_unit"

definition create_options :: "open_config \<Rightarrow> region_options \<Rightarrow> region_options \<times> format_type" where
  "create_options config options =
     (case ro_sst_format options of
        Some format \<Rightarrow> (options, format)
      | None \<Rightarrow>
          if oc_default_flat_format config then (options\<lparr>ro_sst_format := Some Flat\<rparr>, Flat)
          else (options\<lparr>ro_sst_format := Some PrimaryKey\<rparr>, PrimaryKey))"

definition create_version :: "open_config \<Rightarrow> region_metadata \<Rightarrow> region_options \<Rightarrow> nat \<Rightarrow> version" where
  "create_version config metadata options flushed_entry_id =
     (let options = fst (create_options config options);
          bulk = builder_for_options (oc_default_flat_format config) options;
          part_duration = co_time_window (ro_compaction options);
          mutable = tp_new metadata (oc_unit_of config metadata) bulk 0 part_duration
      in build_version (set_flushed_entry_id flushed_entry_id
           (set_options options (version_builder_new metadata mutable))))"

definition open_version ::
  "open_config \<Rightarrow> region_manifest \<Rightarrow> region_metadata \<Rightarrow> region_options \<Rightarrow> version outcome" where
  "open_version config manifest metadata options =
     (let options = sanitize_region_options manifest options;
          bulk = builder_for_options (oc_default_flat_format config) options;
          part_duration = (case co_time_window (ro_compaction options) of
                             Some w \<Rightarrow> Some w
                           | None \<Rightarrow> m_compaction_time_window manifest);
          mutable = tp_new metadata (oc_unit_of config metadata) bulk 0 part_duration
      in bind_outcome (version_builder_from_manifest manifest metadata mutable options) (\<lambda>b.
         Ret (build_version b)))"

text \<open>A follower installs a newer manifest: its memtables are replaced, its options kept.\<close>

definition handle_region_sync :: "open_config \<Rightarrow> region_manifest \<Rightarrow> vc_data \<Rightarrow> vc_data outcome" where
  "handle_region_sync config manifest d =
     (let version = vc_version d;
          default_format = (\<lambda>options. case ro_sst_format options of Some f \<Rightarrow> f | None \<Rightarrow> PrimaryKey);
          old_format = default_format (v_options version);
          options = sanitize_region_options manifest (v_options version);
          builder = (if old_format \<noteq> default_format options
                     then Some (builder_for_options (oc_default_flat_format config) options) else None);
          new_mutable = new_with_part_duration (v_compaction_time_window version) builder
                          (mv_mutable (v_memtables version))
      in bind_outcome (version_builder_from_manifest manifest (m_metadata manifest) new_mutable options) (\<lambda>b.
         Ret (overwrite_current (build_version b) d)))"

subsection \<open>Replaying the log\<close>

record replay_env =
  rp_arrow :: arrow_ops
  rp_conv :: conversions
  rp_order :: task_order
  rp_codec :: ipc_codec
  rp_fill :: "bulk_part \<Rightarrow> open_error + bulk_part"
  rp_sparse :: bool
  rp_region :: region_id
  rp_noop :: bool
  rp_allow_stale :: bool
  rp_read :: "nat \<Rightarrow> open_error + (open_error + nat \<times> wal_entry) list"
  rp_on_opened :: bool

fun replay_bulk_entry :: "replay_env \<Rightarrow> bulk_wal_entry \<Rightarrow> write_ctx \<Rightarrow> (open_error, write_ctx) fallible" where
  "replay_bulk_entry env e ctx =
     (case bulk_part_of (rp_codec env) e of
        None \<Rightarrow> Ret (Inl ConvertBulkWalEntry)
      | Some part \<Rightarrow>
          (case (if rp_sparse env then Inr part else rp_fill env part) of
             Inl err \<Rightarrow> Ret (Inl err)
           | Inr part \<Rightarrow>
               (let (ctx', pushed) = push_bulk (rp_codec env) part (Some (bp_sequence part)) ctx
                in if pushed then Ret (Inr ctx') else Ret (Inl RegionCorrupted))))"

definition replay_push :: "replay_env \<Rightarrow> wal_entry \<Rightarrow> write_ctx \<Rightarrow> (open_error, write_ctx) fallible" where
  "replay_push env entry ctx =
     fold_fallible (replay_bulk_entry env) (we_bulk_entries entry)
       (fold (\<lambda>m. push_mutation (mu_op_type m) (mu_rows m) (Some (mu_sequence m))) (we_mutations entry) ctx)"

fun replay_entry ::
  "replay_env \<Rightarrow> nat \<Rightarrow> open_error + nat \<times> wal_entry \<Rightarrow> nat \<times> vc_data \<Rightarrow> (open_error, nat \<times> vc_data) fallible" where
  "replay_entry env flushed (Inl err) s = Ret (Inl err)"
| "replay_entry env flushed (Inr (entry_id, entry)) (last_id, d) =
     (if entry_id \<le> flushed \<and> \<not> rp_allow_stale env then Ret (Inl StaleLogEntry)
      else let last_id' = max last_id entry_id
           in bind_fallible (replay_push env entry (write_ctx_new (rp_region env) (rp_noop env) d)) (\<lambda>ctx.
              bind_outcome
                (write_region_ctx (rp_arrow env) (rp_conv env) (rp_order env)
                   (set_next_entry_id (usize_add last_id' 1) ctx, d))
                (\<lambda>(ctx, d'). Ret (Inr (last_id', d')))))"

definition replay_memtable :: "replay_env \<Rightarrow> nat \<Rightarrow> vc_data \<Rightarrow> (open_error, nat \<times> vc_data) fallible" where
  "replay_memtable env flushed d =
     (case rp_read env (usize_add flushed 1) of
        Inl err \<Rightarrow> Ret (Inl err)
      | Inr stream \<Rightarrow>
          bind_fallible (fold_fallible (replay_entry env flushed) stream (flushed, d)) (\<lambda>s.
          if rp_on_opened env then Ret (Inr s) else Ret (Inl RegionOpened)))"

definition open_region ::
  "open_config \<Rightarrow> replay_env \<Rightarrow> region_manifest \<Rightarrow> region_metadata \<Rightarrow> region_options \<Rightarrow> nat option \<Rightarrow> bool
     \<Rightarrow> (open_error, vc_data) fallible" where
  "open_region config env manifest metadata options replay_checkpoint skip_wal_replay =
     bind_outcome (open_version config manifest metadata options) (\<lambda>version.
     let d = vc_new version;
         replay_from = max (case replay_checkpoint of Some c \<Rightarrow> c | None \<Rightarrow> 0) (v_flushed_entry_id version)
     in bind_fallible
          (if skip_wal_replay then Ret (Inr d)
           else bind_fallible (replay_memtable env replay_from d) (\<lambda>(last_id, d). Ret (Inr d)))
          (\<lambda>d. case m_committed_sequence manifest of
                 None \<Rightarrow> Ret (Inr d)
               | Some committed \<Rightarrow>
                   Ret (Inr (if committed > vc_committed_sequence d then set_committed_sequence committed d
                             else d))))"

subsection \<open>Catching up\<close>

definition remote_wal_catchup ::
  "replay_env \<Rightarrow> nat option \<Rightarrow> nat option \<Rightarrow> vc_data \<Rightarrow> (open_error, vc_data) fallible" where
  "remote_wal_catchup env replay_checkpoint expected_last d =
     (let flushed = vc_last_entry_id d;
          replay_from = max (case replay_checkpoint of Some c \<Rightarrow> c | None \<Rightarrow> flushed) flushed
      in bind_fallible (replay_memtable env replay_from d) (\<lambda>(last_id, d').
         case expected_last of
           None \<Rightarrow> Ret (Inr d')
         | Some expected \<Rightarrow> if last_id \<ge> expected then Ret (Inr d') else Ret (Inl Unexpected)))"

definition local_wal_catchup :: "replay_env \<Rightarrow> nat \<Rightarrow> vc_data \<Rightarrow> open_error + vc_data" where
  "local_wal_catchup env latest_entry_id d =
     (let d' = (if latest_entry_id > vc_last_entry_id d then set_entry_id latest_entry_id d else d)
      in if rp_on_opened env then Inr d' else Inl RegionOpened)"

end
