(* ===== verification/Region_Recovery.thy ===== *)
theory Region_Recovery
  imports Region_Open
begin

text \<open>
  Durability of writes: what a sequence of rounds of writes leaves in the log is what the replay of
  the log needs to rebuild the memtables. The hypotheses on the log store and on the encoding of
  batches are \<open>log_ok\<close> and \<open>codec_ok\<close>.
\<close>

section \<open>Hypotheses on code outside of the engine\<close>

text \<open>Decoding a batch gives the rows that were encoded.\<close>

definition codec_ok :: "ipc_codec \<Rightarrow> bool" where
  "codec_ok codec \<longleftrightarrow> (\<forall>rows bytes. ipc_encode codec rows = Some bytes \<longrightarrow> ipc_decode codec bytes = Some rows)"

text \<open>
  Appending an entry returns its id, which is not less than the id the writer asked for, and from
  then on reading from any start that is not greater returns the entry after the earlier ones;
  appending nothing changes nothing.
\<close>

definition log_ok :: "'log log_store \<Rightarrow> ('log \<Rightarrow> nat \<Rightarrow> (nat \<times> wal_entry) list) \<Rightarrow> region_id \<Rightarrow> bool" where
  "log_ok ls read region \<longleftrightarrow>
     (\<forall>log ids log'. ls_append ls [] log = Some (ids, log') \<longrightarrow> read log' = read log)
     \<and> (\<forall>log eid e ids log'. ls_append ls [(region, eid, e)] log = Some (ids, log') \<longrightarrow>
          (\<exists>i. hmap_get ids region = Some i \<and> eid \<le> i \<and> i + 1 < 2 ^ 64
             \<and> (\<forall>start \<le> eid. read log' start = read log start @ [(i, e)])))"

section \<open>One round\<close>

text \<open>
  The timestamps of a round have partitions that 64 bits can represent, the bounds of its batches are
  right, and, for bulk memtables, rows and batches convert and no request is empty.
\<close>

definition round_fits ::
  "arrow_ops \<Rightarrow> conversions \<Rightarrow> time_partitions \<Rightarrow> write_request list \<Rightarrow> bulk_part list \<Rightarrow> bool" where
  "round_fits ao cv tp ws bs \<longleftrightarrow> arrow_ok ao
     \<and> (\<forall>w \<in> set ws. \<forall>ts \<in> set (snd w). rows_fit tp [\<lparr>kv_timestamp = ts, kv_sequence = 0, kv_op_type = None\<rparr>])
     \<and> (\<forall>part \<in> set bs. part_fits tp part)
     \<and> (tp_bulk tp \<longrightarrow> conversions_ok cv \<and> [] \<notin> snd ` set ws \<and> [] \<notin> bp_rows ` set bs)"

definition entry_of :: "ipc_codec \<Rightarrow> nat \<Rightarrow> write_request list \<Rightarrow> bulk_part list \<Rightarrow> wal_entry" where
  "entry_of codec c ws bs =
     \<lparr>we_mutations = numbered_mutations (c + 1) ws,
      we_bulk_entries = map (the \<circ> bulk_wal_entry_of codec) (numbered_parts (c + 1 + num_rows_of ws) bs)\<rparr>"

definition control_bounded :: "ipc_codec \<Rightarrow> nat \<Rightarrow> write_request list \<Rightarrow> bulk_part list \<Rightarrow> bool" where
  "control_bounded codec c ws bs \<longleftrightarrow>
     c + 1 + num_rows_of ws + num_bulk_rows bs < 2 ^ 64
     \<and> (\<forall>part \<in> set bs. ipc_encode codec (bp_rows part) \<noteq> None)"

lemma round_bounded_control: "round_bounded codec ws bs d \<longleftrightarrow> control_bounded codec (vc_committed_sequence d) ws bs"
  by (simp add: round_bounded_def control_bounded_def)

lemma length_starts_from [simp]: "length (starts_from n ns) = length ns"
  by (induction ns arbitrary: n) auto

lemma set_numbered_parts: "part \<in> set (numbered_parts s bs) \<Longrightarrow> \<exists>p \<in> set bs. \<exists>n. part = p\<lparr>bp_sequence := n\<rparr>"
  by (auto simp: numbered_parts_def dest: set_zip_leftD)

lemma set_numbered_mutations:
  "m \<in> set (numbered_mutations s ws) \<Longrightarrow> \<exists>w \<in> set ws. mu_op_type m = Some (fst w) \<and> mu_rows m = Some (snd w)"
  by (force simp: numbered_mutations_def dest!: set_zip_leftD)

lemma part_fits_sequence [simp]: "part_fits tp (part\<lparr>bp_sequence := n\<rparr>) = part_fits tp part"
  by (simp add: part_fits_def batch_ok_def no_bucket_overflow_def first_bucket_def last_bucket_def)

lemma rows_fit_timestamp: "rows_fit tp kvs \<longleftrightarrow> (\<forall>x \<in> set kvs. rows_fit tp [\<lparr>kv_timestamp = kv_timestamp x, kv_sequence = 0, kv_op_type = None\<rparr>])"
  by (simp add: rows_fit_def row_ok_def representable_def row_bucket_def)

lemma round_fits_same: "same_kind tp tp' \<Longrightarrow> round_fits ao cv tp' ws bs = round_fits ao cv tp ws bs"
  by (simp add: round_fits_def rows_fit_same part_fits_same) (simp add: same_kind_def)

lemma converts_part_sequence:
  "conversions_ok cv \<Longrightarrow> bp_rows part \<noteq> [] \<Longrightarrow> converts_part (cv_bulk_part cv) (part\<lparr>bp_sequence := n\<rparr>)"
  by (simp add: conversions_ok_def)

lemma ctx_fits_round:
  assumes "round_bounded codec ws bs d" and "round_fits ao cv tp ws bs"
  shows "ctx_fits ao cv tp (push_requests codec ws bs (write_ctx_new region noop d))"
proof -
  note f = push_requests_fields [OF assms(1), of region noop]
  have "kvs_fit ao cv tp kvs" if "m \<in> set (numbered_mutations s ws)" and "key_values m = Some kvs" for m kvs s
  proof -
    from set_numbered_mutations [OF that(1)] obtain w where w: "w \<in> set ws" "mu_rows m = Some (snd w)" by blast
    with that(2) have "\<forall>x \<in> set kvs. kv_timestamp x \<in> set (snd w)"
      by (auto simp: key_values_def dest!: in_enumerateD)
    with w assms(2) have "rows_fit tp kvs" unfolding rows_fit_timestamp [of tp kvs] round_fits_def by blast
    have "kvs = [] \<longleftrightarrow> snd w = []" using that(2) w(2) by (auto simp: key_values_def enumerate_eq_zip)
    then have "kvs \<noteq> []" if "tp_bulk tp" using that assms(2) w(1) unfolding round_fits_def by (metis imageI)
    with \<open>rows_fit tp kvs\<close> assms(2) show ?thesis by (simp add: kvs_fit_def round_fits_def conversions_ok_def)
  qed
  moreover have "mu_op_type m \<noteq> None" if "m \<in> set (numbered_mutations s ws)" for m s
    using set_numbered_mutations [OF that] by auto
  moreover have "batch_fits ao cv tp part" if "part \<in> set (numbered_parts s bs)" for part s
  proof -
    from set_numbered_parts [OF that] obtain p n where p: "p \<in> set bs" "part = p\<lparr>bp_sequence := n\<rparr>" by blast
    have "bp_rows p \<noteq> []" if "tp_bulk tp" using that assms(2) p(1) unfolding round_fits_def by (metis imageI)
    with p assms(2) show ?thesis by (simp add: round_fits_def batch_fits_def converts_part_sequence)
  qed
  ultimately show ?thesis unfolding ctx_fits_def f(1,2) by blast
qed

lemma ctx_rows_round:
  assumes "round_bounded codec ws bs d"
  shows "ctx_rows (push_requests codec ws bs (write_ctx_new region noop d)) = round_rows (vc_committed_sequence d) ws bs"
proof -
  have "vc_committed_sequence d + 1 + num_rows_of ws < 2 ^ 64" using assms by (simp add: round_bounded_def)
  from entry_kvs_numbered [OF this] show ?thesis
    by (simp add: ctx_rows_def round_rows_def push_requests_fields [OF assms] stamped_numbered)
qed

text \<open>The effect of writing the context of a round with entry id \<open>i\<close> on a version control.\<close>

lemma usize_sub_one: "usize_sub (usize_add n 1) 1 = n" if "n + 1 < 2 ^ 64"
  using that by (simp add: usize_sub_def usize_add_def wrap_usize_def)

lemma write_round:
  fixes region noop d'
  assumes b: "control_bounded codec c ws bs" and i: "i + 1 < 2 ^ 64"
    and w: "tp_wf (vc_mutable d)" and f: "round_fits ao cv (vc_mutable d) ws bs" and ord: "order_ok ord"
  defines "ctx \<equiv> push_requests codec ws bs (write_ctx_new region noop (set_committed_sequence c d'))"
  shows "\<exists>ctx' tp'. write_region_ctx ao cv ord (set_next_entry_id (usize_add i 1) ctx, d) =
      Ret (ctx', set_sequence_and_entry_id (c + num_rows_of ws + num_bulk_rows bs) i (set_mutable tp' d))
    \<and> tp_wf tp' \<and> same_kind (vc_mutable d) tp'
    \<and> mset (tp_rows tp') = mset (tp_rows (vc_mutable d)) + round_rows c ws bs
    \<and> replies ctx' = replies ctx"
proof -
  let ?d = "set_committed_sequence c d'" and ?ctx = "set_next_entry_id (usize_add i 1) ctx"
  have rb: "round_bounded codec ws bs ?d" using b by (simp add: round_bounded_control set_committed_sequence_def)
  note p = push_requests_fields [OF rb, of region noop, folded ctx_def]
  have "\<not> wc_failed ?ctx" using p(9) by (simp add: set_next_entry_id_def)
  moreover have "ctx_fits ao cv (vc_mutable d) ?ctx"
    using ctx_fits_round [OF rb f, of region noop] by (simp add: ctx_def ctx_fits_def set_next_entry_id_def)
  moreover have "ctx_rows ?ctx = round_rows c ws bs"
    using ctx_rows_round [OF rb, of region noop]
    by (simp add: ctx_def ctx_rows_def set_next_entry_id_def set_committed_sequence_def)
  moreover have "usize_sub (wc_next_sequence ?ctx) 1 = c + num_rows_of ws + num_bulk_rows bs"
    using p(4) b by (simp add: set_next_entry_id_def set_committed_sequence_def usize_sub_def)
  moreover have "usize_sub (wc_next_entry_id ?ctx) 1 = i"
    using usize_sub_one [OF i] by (simp add: set_next_entry_id_def)
  ultimately obtain ctx' tp' where "write_region_ctx ao cv ord (?ctx, d) =
      Ret (ctx', set_sequence_and_entry_id (c + num_rows_of ws + num_bulk_rows bs) i (set_mutable tp' d))"
    and tp': "tp_wf tp'" "same_kind (vc_mutable d) tp'" "mset (tp_rows tp') = mset (tp_rows (vc_mutable d)) + round_rows c ws bs"
    and n: "wc_notifiers ctx' = wc_notifiers ?ctx" "wc_bulk_notifiers ctx' = wc_bulk_notifiers ?ctx"
    using write_region_ctx_stores [OF _ w _ ord, of ?ctx ao cv] by auto
  moreover have "replies ctx' = replies ctx" using n by (simp add: replies_def set_next_entry_id_def)
  ultimately show ?thesis by blast
qed

section \<open>The live region\<close>

lemma set_committed_self: "set_committed_sequence (vc_committed_sequence d) d = d"
  by (simp add: set_committed_sequence_def)

lemma wal_entry_round:
  assumes "round_bounded codec ws bs d"
  shows "wc_wal_entry (push_requests codec ws bs (write_ctx_new region noop d)) = entry_of codec (vc_committed_sequence d) ws bs"
  using push_requests_fields(1-3) [OF assms, of region noop] by (simp add: entry_of_def)

text \<open>The answers to a round: each request gets the number of its rows, or each gets the error of the log.\<close>

definition row_counts :: "write_request list \<Rightarrow> bulk_part list \<Rightarrow> (ctx_error + nat) list" where
  "row_counts ws bs = map (\<lambda>w. Inr (length (snd w))) ws @ map (\<lambda>b. Inr (length (bp_rows b))) bs"

definition refusals :: "write_request list \<Rightarrow> bulk_part list \<Rightarrow> (ctx_error + nat) list" where
  "refusals ws bs = replicate (length ws + length bs) (Inl WalError)"

lemma replies_round:
  assumes "round_bounded codec ws bs d"
  shows "replies (push_requests codec ws bs (write_ctx_new region noop d)) = row_counts ws bs"
    and "replies (set_error WalError (push_requests codec ws bs (write_ctx_new region noop d))) = refusals ws bs"
  by (simp_all add: replies_def push_requests_fields(10,11) [OF assms] set_error_def notify_result_def write_notify_new_def
      row_counts_def refusals_def map_replicate_const replicate_add o_def)

definition log_takes :: "'log log_store \<Rightarrow> 'log \<Rightarrow> region_id \<Rightarrow> nat \<Rightarrow> wal_entry \<Rightarrow> bool" where
  "log_takes ls log region eid e \<longleftrightarrow> ls_entry ls (region, eid, e) \<and> ls_append ls [(region, eid, e)] log \<noteq> None"

text \<open>
  A round leaves everything as it was, if the log does not take its entry; otherwise the entry is the
  last one of the log and the rows of the round are in the memtable.
\<close>

lemma live_round:
  assumes log: "log_ok ls read region" and ord: "order_ok ord"
    and b: "control_bounded codec (vc_committed_sequence d) ws bs" and f: "round_fits ao cv (vc_mutable d) ws bs"
    and w: "tp_wf (vc_mutable d)" and l: "vc_last_entry_id d + 1 < 2 ^ 64"
    and wal: "\<not> ro_skip_wal (v_options (vc_version d))"
  shows "\<exists>rs d' log'. handle_region_writes ao cv ord codec ls region False ws bs (d, log) = Ret (rs, d', log')
    \<and> (rs = refusals ws bs \<and> d' = d \<and> read log' = read log \<and> (ws = [] \<and> bs = [] \<or> \<not> log_takes ls log region (vc_last_entry_id d + 1) (entry_of codec (vc_committed_sequence d) ws bs))
       \<or> rs = row_counts ws bs \<and> log_takes ls log region (vc_last_entry_id d + 1) (entry_of codec (vc_committed_sequence d) ws bs) \<and> (ws \<noteq> [] \<or> bs \<noteq> []) \<and> (\<exists>i tp'. vc_last_entry_id d < i \<and> i + 1 < 2 ^ 64
          \<and> (\<forall>start \<le> vc_last_entry_id d + 1. read log' start = read log start @ [(i, entry_of codec (vc_committed_sequence d) ws bs)])
          \<and> d' = set_sequence_and_entry_id (vc_committed_sequence d + num_rows_of ws + num_bulk_rows bs) i (set_mutable tp' d)
          \<and> tp_wf tp' \<and> same_kind (vc_mutable d) tp'
          \<and> mset (tp_rows tp') = mset (tp_rows (vc_mutable d)) + round_rows (vc_committed_sequence d) ws bs))"
proof (cases "ws = [] \<and> bs = []")
  case True
  then show ?thesis by (simp add: handle_region_writes_def refusals_def)
next
  case False
  define ctx where "ctx = push_requests codec ws bs (write_ctx_new region False d)"
  have rb: "round_bounded codec ws bs d" using b by (simp add: round_bounded_control)
  note p = push_requests_fields [OF rb, of region False, folded ctx_def]
  note a = replies_round [OF rb, of region False, folded ctx_def]
  have skip: "\<not> skip_wal ctx" using wal p(7,8) by (simp add: skip_wal_def)
  have eid: "wc_next_entry_id ctx = vc_last_entry_id d + 1" using p(5) l by (simp add: usize_add_small)
  let ?e = "(region, vc_last_entry_id d + 1, entry_of codec (vc_committed_sequence d) ws bs)"
  have e: "(wc_region_id ctx, wc_next_entry_id ctx, wc_wal_entry ctx) = ?e"
    using p(6) eid wal_entry_round [OF rb, of region False] by (simp add: ctx_def)
  have h: "handle_region_writes ao cv ord codec ls region False ws bs (d, log) =
      bind_outcome (write_wal ls [(region, ctx)] log) (\<lambda>(written, ctxs, log').
        if \<not> written then Ret (replies (snd (hd ctxs)), d, log')
        else bind_outcome (write_region_ctx ao cv ord (snd (hd ctxs), d)) (\<lambda>(ctx, d'). Ret (replies ctx, d', log')))"
    using False by (auto simp: handle_region_writes_def ctx_def)
  let ?takes = "log_takes ls log region (vc_last_entry_id d + 1) (entry_of codec (vc_committed_sequence d) ws bs)"
  have twice: "set_error WalError (set_error WalError ctx) = set_error WalError ctx"
    by (simp add: set_error_def)
  have moved: "replies (set_error WalError (ctx\<lparr>wc_next_entry_id := n\<rparr>)) = refusals ws bs" for n
    using a(2) by (simp add: replies_def set_error_def)
  show ?thesis
  proof (cases "ls_entry ls ?e")
    case False
    let ?c = "set_error WalError ctx"
    have failed: "wc_failed ?c" by (simp add: set_error_def)
    have add: "add_wal_entries ls [(region, ctx)] [] = ([(region, ?c)], [])"
      using False skip e by (simp add: add_wal_entry_def Let_def)
    show ?thesis
    proof (cases "ls_append ls [] log")
      case None
      with False show ?thesis unfolding h write_wal_def add by (simp add: a twice log_takes_def)
    next
      case (Some r)
      obtain ids log' where r: "r = (ids, log')" by (cases r)
      with Some log have "read log' = read log" by (auto simp: log_ok_def)
      with False show ?thesis unfolding h write_wal_def add
        by (simp add: Some r failed write_region_ctx_failed a log_takes_def)
    qed
  next
    case True
    let ?c = "ctx\<lparr>wc_next_entry_id := usize_add (wc_next_entry_id ctx) 1\<rparr>"
    have add: "add_wal_entries ls [(region, ctx)] [] = ([(region, ?c)], [?e])"
      using True skip e by (simp add: add_wal_entry_def Let_def)
    show ?thesis
    proof (cases "ls_append ls [?e] log")
      case None
      then show ?thesis unfolding h write_wal_def add by (simp add: moved log_takes_def)
    next
      case (Some r)
      obtain ids log' where r: "r = (ids, log')" by (cases r)
      with Some log obtain i where i: "hmap_get ids region = Some i" "vc_last_entry_id d + 1 \<le> i" "i + 1 < 2 ^ 64"
        "\<forall>start \<le> vc_last_entry_id d + 1. read log' start = read log start @ [(i, snd (snd ?e))]"
        unfolding log_ok_def by (metis snd_conv)
      have c: "\<not> skip_wal ?c" "\<not> wc_failed ?c" using skip p(9) by (simp_all add: skip_wal_def)
      have n: "set_next_entry_id (usize_add i 1) ?c = set_next_entry_id (usize_add i 1) ctx"
        by (simp add: set_next_entry_id_def)
      have wal: "write_wal ls [(region, ctx)] log = Ret (True, [(region, set_next_entry_id (usize_add i 1) ctx)], log')"
        unfolding write_wal_def add using Some r i(1) c n by (simp add: unwrap_def)
      let ?s = "vc_committed_sequence d + num_rows_of ws + num_bulk_rows bs"
      obtain ctx' tp' where "write_region_ctx ao cv ord (set_next_entry_id (usize_add i 1) ctx, d) =
          Ret (ctx', set_sequence_and_entry_id ?s i (set_mutable tp' d))"
        and tp': "tp_wf tp'" "same_kind (vc_mutable d) tp'"
          "mset (tp_rows tp') = mset (tp_rows (vc_mutable d)) + round_rows (vc_committed_sequence d) ws bs"
          "replies ctx' = row_counts ws bs"
        using a(1) write_round [OF b i(3) w f ord, of region False d] unfolding ctx_def set_committed_self by metis
      then have "handle_region_writes ao cv ord codec ls region False ws bs (d, log)
          = Ret (row_counts ws bs, set_sequence_and_entry_id ?s i (set_mutable tp' d), log')"
        unfolding h wal using tp'(4) by simp
      moreover have ?takes using True Some by (simp add: log_takes_def)
      moreover have "vc_last_entry_id d < i" using i(2) by simp
      moreover have "ws \<noteq> [] \<or> bs \<noteq> []" using \<open>\<not> (ws = [] \<and> bs = [])\<close> by blast
      moreover have "\<forall>start \<le> vc_last_entry_id d + 1.
          read log' start = read log start @ [(i, entry_of codec (vc_committed_sequence d) ws bs)]"
        using i(4) by simp
      ultimately show ?thesis using i(3) tp'(1-3) by blast
    qed
  qed
qed

section \<open>Rounds that reached the log\<close>

type_synonym round_requests = "write_request list \<times> bulk_part list"

fun end_sequence :: "nat \<Rightarrow> (nat \<times> round_requests) list \<Rightarrow> nat" where
  "end_sequence c [] = c"
| "end_sequence c ((i, ws, bs) # rs) = end_sequence (c + num_rows_of ws + num_bulk_rows bs) rs"

fun end_entry :: "nat \<Rightarrow> (nat \<times> round_requests) list \<Rightarrow> nat" where
  "end_entry l [] = l"
| "end_entry l ((i, ws, bs) # rs) = end_entry i rs"

fun log_of :: "ipc_codec \<Rightarrow> nat \<Rightarrow> (nat \<times> round_requests) list \<Rightarrow> (nat \<times> wal_entry) list" where
  "log_of codec c [] = []"
| "log_of codec c ((i, ws, bs) # rs) =
     (i, entry_of codec c ws bs) # log_of codec (c + num_rows_of ws + num_bulk_rows bs) rs"

fun rows_of_rounds :: "nat \<Rightarrow> (nat \<times> round_requests) list \<Rightarrow> kv multiset" where
  "rows_of_rounds c [] = {#}"
| "rows_of_rounds c ((i, ws, bs) # rs) =
     round_rows c ws bs + rows_of_rounds (c + num_rows_of ws + num_bulk_rows bs) rs"

fun logged_ok :: "ipc_codec \<Rightarrow> nat \<Rightarrow> nat \<Rightarrow> (nat \<times> round_requests) list \<Rightarrow> bool" where
  "logged_ok codec c l [] \<longleftrightarrow> True"
| "logged_ok codec c l ((i, ws, bs) # rs) \<longleftrightarrow>
     l < i \<and> i + 1 < 2 ^ 64 \<and> (ws \<noteq> [] \<or> bs \<noteq> []) \<and> control_bounded codec c ws bs
     \<and> logged_ok codec (c + num_rows_of ws + num_bulk_rows bs) i rs"

definition rounds_bounded :: "ipc_codec \<Rightarrow> nat \<Rightarrow> round_requests list \<Rightarrow> bool" where
  "rounds_bounded codec c rounds \<longleftrightarrow>
     c + 1 + sum_list (map (\<lambda>(ws, bs). num_rows_of ws + num_bulk_rows bs) rounds) < 2 ^ 64
     \<and> (\<forall>(ws, bs) \<in> set rounds. \<forall>part \<in> set bs. ipc_encode codec (bp_rows part) \<noteq> None)"

lemma rounds_bounded_Cons:
  "rounds_bounded codec c ((ws, bs) # rounds) \<Longrightarrow> control_bounded codec c ws bs
     \<and> rounds_bounded codec c rounds \<and> rounds_bounded codec (c + num_rows_of ws + num_bulk_rows bs) rounds"
  by (auto simp: rounds_bounded_def control_bounded_def)

text \<open>Rounds one after the other, with the answers to each; and the rows of the rounds that were not refused.\<close>

fun answer_rounds :: "(round_requests \<Rightarrow> 's \<Rightarrow> ('r \<times> 's) outcome) \<Rightarrow> round_requests list \<Rightarrow> 's \<Rightarrow> ('r list \<times> 's) outcome" where
  "answer_rounds step [] s = Ret ([], s)"
| "answer_rounds step (r # rounds) s = bind_outcome (step r s) (\<lambda>(a, s').
     bind_outcome (answer_rounds step rounds s') (\<lambda>(as, s''). Ret (a # as, s'')))"

definition acknowledged :: "(ctx_error + nat) list \<Rightarrow> bool" where
  "acknowledged answers = list_all (\<lambda>a. case a of Inl _ \<Rightarrow> False | Inr _ \<Rightarrow> True) answers"

fun acknowledged_rows :: "nat \<Rightarrow> (round_requests \<times> (ctx_error + nat) list) list \<Rightarrow> kv multiset" where
  "acknowledged_rows c [] = {#}"
| "acknowledged_rows c (((ws, bs), answers) # rounds) =
     (if acknowledged answers then round_rows c ws bs + acknowledged_rows (c + num_rows_of ws + num_bulk_rows bs) rounds
      else acknowledged_rows c rounds)"

definition answers_ok :: "round_requests \<Rightarrow> (ctx_error + nat) list \<Rightarrow> bool" where
  "answers_ok r answers \<longleftrightarrow> (case r of (ws, bs) \<Rightarrow> answers = row_counts ws bs \<or> answers = refusals ws bs)"

lemma answers_ok_pair [simp]: "answers_ok (ws, bs) answers \<longleftrightarrow> answers = row_counts ws bs \<or> answers = refusals ws bs"
  by (simp add: answers_ok_def)

lemma acknowledged_answers [simp]:
  "acknowledged (row_counts ws bs)" "acknowledged (refusals ws bs) \<longleftrightarrow> ws = [] \<and> bs = []"
  by (auto simp: acknowledged_def row_counts_def refusals_def list_all_iff)

lemma round_rows_Nil [simp]: "round_rows c [] [] = {#}"
  by (simp add: round_rows_def request_rows_def)

lemma control_simps [simp]:
  "vc_committed_sequence (set_sequence_and_entry_id s i d) = s"
  "vc_last_entry_id (set_sequence_and_entry_id s i d) = i"
  "vc_version (set_sequence_and_entry_id s i d) = vc_version d"
  "v_options (vc_version (set_mutable tp d)) = v_options (vc_version d)"
  by (simp_all add: set_sequence_and_entry_id_def set_mutable_def)

lemma run_rounds:
  assumes log: "log_ok ls read region" and ord: "order_ok ord"
    and "rounds_bounded codec (vc_committed_sequence d) rounds"
    and "\<forall>(ws, bs) \<in> set rounds. round_fits ao cv (vc_mutable d) ws bs"
    and "tp_wf (vc_mutable d)" and "vc_last_entry_id d + 1 < 2 ^ 64"
    and "\<not> ro_skip_wal (v_options (vc_version d))"
  shows "\<exists>as d' log' rs. answer_rounds (\<lambda>(ws, bs). handle_region_writes ao cv ord codec ls region False ws bs) rounds (d, log)
      = Ret (as, d', log') \<and> list_all2 answers_ok rounds as
    \<and> acknowledged_rows (vc_committed_sequence d) (zip rounds as) = rows_of_rounds (vc_committed_sequence d) rs
    \<and> logged_ok codec (vc_committed_sequence d) (vc_last_entry_id d) rs \<and> snd ` set rs \<subseteq> set rounds
    \<and> (\<forall>start \<le> vc_last_entry_id d + 1. read log' start = read log start @ log_of codec (vc_committed_sequence d) rs)
    \<and> mset (tp_rows (vc_mutable d')) = mset (tp_rows (vc_mutable d)) + rows_of_rounds (vc_committed_sequence d) rs
    \<and> vc_committed_sequence d' = end_sequence (vc_committed_sequence d) rs
    \<and> vc_last_entry_id d' = end_entry (vc_last_entry_id d) rs"
  using assms(3-)
proof (induction rounds arbitrary: d log)
  case Nil
  show ?case by (intro exI [of _ "[]"] exI [of _ d] exI [of _ log] exI [of _ "[]"]) simp
next
  case (Cons r rounds)
  obtain ws bs where r: "r = (ws, bs)" by (cases r)
  let ?c = "vc_committed_sequence d" and ?n = "num_rows_of ws + num_bulk_rows bs"
  note b = rounds_bounded_Cons [OF Cons.prems(1) [unfolded r]]
  have f: "round_fits ao cv (vc_mutable d) ws bs" using Cons.prems(2) r by simp
  have fs: "\<forall>(ws, bs) \<in> set rounds. round_fits ao cv tp ws bs" if "same_kind (vc_mutable d) tp" for tp
    using Cons.prems(2) round_fits_same [OF that] by auto
  let ?h = "handle_region_writes ao cv ord codec ls region False ws bs (d, log)"
  from live_round [OF log ord conjunct1 [OF b] f Cons.prems(3-5), of log] obtain a d1 log1
    where h: "?h = Ret (a, d1, log1)" and alt: "a = refusals ws bs \<and> d1 = d \<and> read log1 = read log
       \<or> a = row_counts ws bs \<and> (ws \<noteq> [] \<or> bs \<noteq> []) \<and> (\<exists>i tp'. vc_last_entry_id d < i \<and> i + 1 < 2 ^ 64
          \<and> (\<forall>start \<le> vc_last_entry_id d + 1. read log1 start = read log start @ [(i, entry_of codec ?c ws bs)])
          \<and> d1 = set_sequence_and_entry_id (?c + num_rows_of ws + num_bulk_rows bs) i (set_mutable tp' d)
          \<and> tp_wf tp' \<and> same_kind (vc_mutable d) tp'
          \<and> mset (tp_rows tp') = mset (tp_rows (vc_mutable d)) + round_rows ?c ws bs)"
    by blast
  from alt show ?case
  proof
    assume a: "a = refusals ws bs \<and> d1 = d \<and> read log1 = read log"
    from Cons.IH [of d log1] b fs [OF same_kind_refl] Cons.prems(3-5) obtain as d' log' rs
      where run: "answer_rounds (\<lambda>(ws, bs). handle_region_writes ao cv ord codec ls region False ws bs)
          rounds (d, log1) = Ret (as, d', log')"
      and rs: "list_all2 answers_ok rounds as" "acknowledged_rows ?c (zip rounds as) = rows_of_rounds ?c rs"
        "logged_ok codec ?c (vc_last_entry_id d) rs" "snd ` set rs \<subseteq> set rounds"
        "\<forall>start \<le> vc_last_entry_id d + 1. read log' start = read log1 start @ log_of codec ?c rs"
        "mset (tp_rows (vc_mutable d')) = mset (tp_rows (vc_mutable d)) + rows_of_rounds ?c rs"
        "vc_committed_sequence d' = end_sequence ?c rs" "vc_last_entry_id d' = end_entry (vc_last_entry_id d) rs"
      by blast
    show ?thesis
      using run h rs a
      by (intro exI [of _ "a # as"] exI [of _ d'] exI [of _ log'] exI [of _ rs]) (auto simp: r)
  next
    assume "a = row_counts ws bs \<and> (ws \<noteq> [] \<or> bs \<noteq> []) \<and> (\<exists>i tp'. vc_last_entry_id d < i \<and> i + 1 < 2 ^ 64
          \<and> (\<forall>start \<le> vc_last_entry_id d + 1. read log1 start = read log start @ [(i, entry_of codec ?c ws bs)])
          \<and> d1 = set_sequence_and_entry_id (?c + num_rows_of ws + num_bulk_rows bs) i (set_mutable tp' d)
          \<and> tp_wf tp' \<and> same_kind (vc_mutable d) tp'
          \<and> mset (tp_rows tp') = mset (tp_rows (vc_mutable d)) + round_rows ?c ws bs)"
    then obtain i tp' where a: "a = row_counts ws bs" and ne: "ws \<noteq> [] \<or> bs \<noteq> []" and i: "vc_last_entry_id d < i" "i + 1 < 2 ^ 64"
      and rd: "\<forall>start \<le> vc_last_entry_id d + 1. read log1 start = read log start @ [(i, entry_of codec ?c ws bs)]"
      and d1: "d1 = set_sequence_and_entry_id (?c + num_rows_of ws + num_bulk_rows bs) i (set_mutable tp' d)"
      and tp': "tp_wf tp'" "same_kind (vc_mutable d) tp'"
        "mset (tp_rows tp') = mset (tp_rows (vc_mutable d)) + round_rows ?c ws bs" by blast
    have d1s: "vc_committed_sequence d1 = ?c + num_rows_of ws + num_bulk_rows bs" "vc_last_entry_id d1 = i"
      "vc_mutable d1 = tp'" "v_options (vc_version d1) = v_options (vc_version d)" by (simp_all add: d1)
    from Cons.IH [of d1 log1, unfolded d1s] b fs [OF tp'(2)] tp'(1) i(2) Cons.prems(5)
    obtain as d' log' rs where run: "answer_rounds (\<lambda>(ws, bs). handle_region_writes ao cv ord codec ls region False ws bs)
          rounds (d1, log1) = Ret (as, d', log')"
      and as: "list_all2 answers_ok rounds as"
        "acknowledged_rows (?c + num_rows_of ws + num_bulk_rows bs) (zip rounds as)
          = rows_of_rounds (?c + num_rows_of ws + num_bulk_rows bs) rs"
      and rs: "logged_ok codec (?c + num_rows_of ws + num_bulk_rows bs) i rs" "snd ` set rs \<subseteq> set rounds"
        "\<forall>start \<le> i + 1. read log' start = read log1 start @ log_of codec (?c + num_rows_of ws + num_bulk_rows bs) rs"
        "mset (tp_rows (vc_mutable d')) = mset (tp_rows tp') + rows_of_rounds (?c + num_rows_of ws + num_bulk_rows bs) rs"
        "vc_committed_sequence d' = end_sequence (?c + num_rows_of ws + num_bulk_rows bs) rs"
        "vc_last_entry_id d' = end_entry i rs"
      by blast
    have "\<forall>start \<le> vc_last_entry_id d + 1. read log' start = read log start @ log_of codec ?c ((i, ws, bs) # rs)"
      using rs(3) rd i(1) by simp
    with run h as rs tp' ne i b a show ?thesis
      by (intro exI [of _ "a # as"] exI [of _ d'] exI [of _ log'] exI [of _ "(i, ws, bs) # rs"])
        (auto simp: r)
  qed
qed

section \<open>Replay\<close>

text \<open>
  Pushing a request with the sequence number it got in the log is pushing it into a context whose
  next number is that one, so replaying an entry rebuilds the context of its round.
\<close>

lemma push_mutation_sequence:
  "push_mutation op rows (Some s) ctx = push_mutation op rows None (ctx\<lparr>wc_next_sequence := s\<rparr>)"
  by (simp add: push_mutation_def Let_def)

lemma next_sequence_self: "wc_next_sequence ctx = s \<Longrightarrow> ctx\<lparr>wc_next_sequence := s\<rparr> = ctx"
  by simp

lemma replay_mutations:
  assumes "s + num_rows_of ws < 2 ^ 64" and "ws \<noteq> []"
  shows "fold (\<lambda>m. push_mutation (mu_op_type m) (mu_rows m) (Some (mu_sequence m))) (numbered_mutations s ws) ctx
    = fold (\<lambda>(op, rows). push_mutation (Some op) (Some rows) None) ws (ctx\<lparr>wc_next_sequence := s\<rparr>)"
  using assms
proof (induction ws arbitrary: s ctx)
  case (Cons w ws)
  obtain op rows where w: "w = (op, rows)" by (cases w)
  let ?ctx = "push_mutation (Some op) (Some rows) None (ctx\<lparr>wc_next_sequence := s\<rparr>)"
  have n: "wc_next_sequence ?ctx = s + length rows"
    using Cons.prems(1) by (simp add: w push_mutation_def Let_def usize_add_small)
  have "numbered_mutations s (w # ws) =
      \<lparr>mu_op_type = Some op, mu_sequence = s, mu_rows = Some rows\<rparr> # numbered_mutations (s + length rows) ws"
    by (simp add: numbered_mutations_def w)
  then show ?case
  proof (cases "ws = []")
    case False
    with Cons.IH [of "s + length rows" ?ctx] Cons.prems(1) n \<open>numbered_mutations s (w # ws) = _\<close>
    show ?thesis by (simp add: w push_mutation_sequence next_sequence_self add.assoc)
  qed (simp add: w push_mutation_sequence numbered_mutations_def)
qed simp

definition env_ok :: "replay_env \<Rightarrow> ipc_codec \<Rightarrow> bool" where
  "env_ok env codec \<longleftrightarrow> rp_codec env = codec \<and> codec_ok codec \<and> order_ok (rp_order env)
     \<and> (rp_sparse env \<or> (\<forall>part. rp_fill env part = Inr part)) \<and> rp_on_opened env"

lemma replay_bulk_entry_numbered:
  assumes "env_ok env codec" and "ipc_encode codec (bp_rows part) \<noteq> None"
  shows "replay_bulk_entry env (the (bulk_wal_entry_of codec (part\<lparr>bp_sequence := s\<rparr>))) ctx
    = Ret (Inr (fst (push_bulk codec part None (ctx\<lparr>wc_next_sequence := s\<rparr>))))"
proof -
  from assms(2) obtain bytes where e: "ipc_encode codec (bp_rows part) = Some bytes" by auto
  with assms(1) have d: "ipc_decode codec bytes = Some (bp_rows part)" by (auto simp: env_ok_def codec_ok_def)
  have "bulk_part_of codec (the (bulk_wal_entry_of codec (part\<lparr>bp_sequence := s\<rparr>))) = Some (part\<lparr>bp_sequence := s\<rparr>)"
    by (simp add: bulk_wal_entry_of_def bulk_part_of_def e d)
  moreover have "push_bulk codec (part\<lparr>bp_sequence := s\<rparr>) (Some s) ctx = push_bulk codec part None (ctx\<lparr>wc_next_sequence := s\<rparr>)"
    by (simp add: push_bulk_def Let_def split: option.splits)
  ultimately show ?thesis
    using assms(1) e by (auto simp: env_ok_def push_bulk_def bulk_wal_entry_of_def Let_def)
qed

lemma replay_bulks:
  assumes env: "env_ok env codec" and "s + num_bulk_rows bs < 2 ^ 64" and "bs \<noteq> []"
    and "\<forall>part \<in> set bs. ipc_encode codec (bp_rows part) \<noteq> None"
  shows "fold_fallible (replay_bulk_entry env) (map (the \<circ> bulk_wal_entry_of codec) (numbered_parts s bs)) ctx
    = Ret (Inr (push_bulks codec bs (ctx\<lparr>wc_next_sequence := s\<rparr>)))"
  using assms(2-)
proof (induction bs arbitrary: s ctx)
  case (Cons b bs)
  let ?ctx = "fst (push_bulk codec b None (ctx\<lparr>wc_next_sequence := s\<rparr>))"
  have n: "wc_next_sequence ?ctx = s + length (bp_rows b)"
    using Cons.prems by (auto simp: push_bulk_def bulk_wal_entry_of_def Let_def usize_add_small)
  have pushed: "push_bulks codec (b # bs) (ctx\<lparr>wc_next_sequence := s\<rparr>) = push_bulks codec bs ?ctx"
    using Cons.prems(3) by (auto simp: push_bulk_def bulk_wal_entry_of_def Let_def)
  have p: "numbered_parts s (b # bs) = b\<lparr>bp_sequence := s\<rparr> # numbered_parts (s + length (bp_rows b)) bs"
    by (simp add: numbered_parts_def)
  have b: "replay_bulk_entry env (the (bulk_wal_entry_of codec (b\<lparr>bp_sequence := s\<rparr>))) ctx = Ret (Inr ?ctx)"
    using Cons.prems(3) by (intro replay_bulk_entry_numbered [OF env]) simp
  show ?case
  proof (cases "bs = []")
    case True
    then show ?thesis using b pushed by (simp add: p numbered_parts_def del: replay_bulk_entry.simps push_bulks.simps(2))
  next
    case False
    with Cons.IH [of "s + length (bp_rows b)" ?ctx] Cons.prems n b
    show ?thesis by (simp add: p pushed next_sequence_self add.assoc del: replay_bulk_entry.simps push_bulks.simps(2))
  qed
qed simp

lemma replay_push_round:
  assumes env: "env_ok env codec" and b: "control_bounded codec c ws bs" and ne: "ws \<noteq> [] \<or> bs \<noteq> []"
  shows "replay_push env (entry_of codec c ws bs) (write_ctx_new region noop d)
    = Ret (Inr (push_requests codec ws bs (write_ctx_new region noop (set_committed_sequence c d))))"
proof -
  let ?c0 = "(write_ctx_new region noop d)\<lparr>wc_next_sequence := c + 1\<rparr>"
  let ?push = "fold (\<lambda>(op, rows). push_mutation (Some op) (Some rows) None) ws"
  have c0: "write_ctx_new region noop (set_committed_sequence c d) = ?c0"
    using b by (simp add: write_ctx_new_def set_committed_sequence_def control_bounded_def usize_add_small)
  have n: "wc_next_sequence (?push ?c0) = c + 1 + num_rows_of ws"
    using b push_mutations_eq [of ?c0 ws] by (simp add: control_bounded_def)
  have m: "fold (\<lambda>m. push_mutation (mu_op_type m) (mu_rows m) (Some (mu_sequence m))) (numbered_mutations (c + 1) ws)
      (write_ctx_new region noop d) = (if ws = [] then write_ctx_new region noop d else ?push ?c0)"
    using b replay_mutations [of "c + 1" ws] by (simp add: control_bounded_def numbered_mutations_def)
  show ?thesis
  proof (cases "bs = []")
    case True
    with ne m show ?thesis
      by (simp add: replay_push_def entry_of_def c0 push_requests_def numbered_parts_def)
  next
    case False
    have "fold_fallible (replay_bulk_entry env) (map (the \<circ> bulk_wal_entry_of codec) (numbered_parts (c + 1 + num_rows_of ws) bs)) ctx
      = Ret (Inr (push_bulks codec bs (ctx\<lparr>wc_next_sequence := c + 1 + num_rows_of ws\<rparr>)))" for ctx
      using b False by (intro replay_bulks [OF env]) (auto simp: control_bounded_def)
    with m n show ?thesis
      by (cases "ws = []") (simp_all add: replay_push_def entry_of_def c0 push_requests_def next_sequence_self)
  qed
qed

lemma replay_rounds:
  assumes env: "env_ok env codec"
    and "logged_ok codec c l rs" and "flushed \<le> l" and "tp_wf (vc_mutable d)"
    and "\<forall>(i, ws, bs) \<in> set rs. round_fits (rp_arrow env) (rp_conv env) (vc_mutable d) ws bs"
    and "vc_last_entry_id d = l" and "vc_committed_sequence d = c"
  shows "\<exists>d'. fold_fallible (replay_entry env flushed) (map Inr (log_of codec c rs)) (l, d) = Ret (Inr (end_entry l rs, d'))
    \<and> mset (tp_rows (vc_mutable d')) = mset (tp_rows (vc_mutable d)) + rows_of_rounds c rs
    \<and> vc_committed_sequence d' = end_sequence c rs \<and> vc_last_entry_id d' = end_entry l rs"
  using assms(2-)
proof (induction rs arbitrary: c l d)
  case (Cons r rs)
  obtain i ws bs where r: "r = (i, ws, bs)" by (cases r) auto
  let ?s = "c + num_rows_of ws + num_bulk_rows bs"
  from Cons.prems(1) have ok: "l < i" "i + 1 < 2 ^ 64" "ws \<noteq> [] \<or> bs \<noteq> []" "control_bounded codec c ws bs"
    "logged_ok codec ?s i rs" by (auto simp: r)
  have f: "round_fits (rp_arrow env) (rp_conv env) (vc_mutable d) ws bs" using Cons.prems(4) by (simp add: r)
  have "order_ok (rp_order env)" using env by (simp add: env_ok_def)
  from write_round [OF ok(4,2) Cons.prems(3) f this, of "rp_region env" "rp_noop env" d]
  obtain ctx' tp' where w: "write_region_ctx (rp_arrow env) (rp_conv env) (rp_order env)
        (set_next_entry_id (usize_add i 1)
          (push_requests codec ws bs (write_ctx_new (rp_region env) (rp_noop env) (set_committed_sequence c d))), d)
        = Ret (ctx', set_sequence_and_entry_id ?s i (set_mutable tp' d))" (is "_ = Ret (_, ?d)")
    and tp': "tp_wf tp'" "same_kind (vc_mutable d) tp'"
      "mset (tp_rows tp') = mset (tp_rows (vc_mutable d)) + round_rows c ws bs" by blast
  have step: "replay_entry env flushed (Inr (i, entry_of codec c ws bs)) (l, d) = Ret (Inr (i, ?d))"
    using ok(1) Cons.prems(2) w
    by (simp add: Let_def replay_push_round [OF env ok(4,3)] max_absorb2)
  have "\<forall>(i, ws, bs) \<in> set rs. round_fits (rp_arrow env) (rp_conv env) (vc_mutable ?d) ws bs"
    using Cons.prems(4) round_fits_same [OF tp'(2)] by auto
  with Cons.IH [of ?s i ?d] ok Cons.prems(2) tp' step show ?case
    by (simp add: r add.assoc del: replay_entry.simps)
qed simp

section \<open>Properties\<close>


text \<open>
  A log kept as a list, an encoding of two batches only, tasks run in their order, and a region with bulk
  memtables.
\<close>

definition sample_log_store :: "(nat \<times> wal_entry) list log_store" where
  "sample_log_store = \<lparr>ls_entry = (\<lambda>_. True), ls_append = (\<lambda>es log. case es of
     [] \<Rightarrow> Some ([], log)
   | [(region, i, e)] \<Rightarrow> if i + 1 < 2 ^ 64 then Some ([(region, i)], log @ [(i, e)]) else None
   | _ \<Rightarrow> None)\<rparr>"

definition sample_read :: "(nat \<times> wal_entry) list \<Rightarrow> nat \<Rightarrow> (nat \<times> wal_entry) list" where
  "sample_read log start = filter (\<lambda>(i, e). start \<le> i) log"

definition sample_codec :: ipc_codec where
  "sample_codec = \<lparr>ipc_encode = (\<lambda>rows. if rows = [] then Some [] else if rows = [sample_kv 7] then Some [1] else None),
     ipc_decode = (\<lambda>bytes. Some (if bytes = [] then [] else [sample_kv 7]))\<rparr>"

definition sample_order :: task_order where
  "sample_order = \<lparr>to_mutations = (\<lambda>xs. xs), to_bulk = (\<lambda>xs. xs)\<rparr>"

definition sample_conversions :: conversions where
  "sample_conversions = \<lparr>cv_key_values = sample_converter, cv_bulk_part = (\<lambda>part. Inr (Some (stamped part)))\<rparr>"

definition sample_env :: replay_env where
  "sample_env = \<lparr>rp_arrow = sample_arrow, rp_conv = sample_conversions, rp_order = sample_order,
     rp_codec = sample_codec, rp_fill = (\<lambda>part. Inr part), rp_sparse = False, rp_region = RegionId 1, rp_noop = False,
     rp_allow_stale = False, rp_read = (\<lambda>_. Inr []), rp_on_opened = True\<rparr>"

definition bulk_control :: vc_data where
  "bulk_control = set_mutable (tp_new sample_metadata Second True 0 None) (sample_control 41 7)"

definition sample_batch :: bulk_part where
  "sample_batch = \<lparr>bp_rows = [sample_kv 7], bp_min_timestamp = 7, bp_max_timestamp = 7, bp_sequence = 0\<rparr>"

lemma bulk_control_simps:
  "vc_committed_sequence bulk_control = 41" "vc_last_entry_id bulk_control = 7"
  "vc_mutable bulk_control = tp_new sample_metadata Second True 0 None"
  "v_options (vc_version bulk_control) = region_options_default"
  by (simp_all add: bulk_control_def) (simp_all add: set_mutable_def)

lemma sample_store_ok:
  "log_ok sample_log_store sample_read (RegionId 1)" "order_ok sample_order" "env_ok sample_env sample_codec"
  "conversions_ok sample_conversions"
proof -
  show "log_ok sample_log_store sample_read (RegionId 1)"
    by (auto simp: log_ok_def sample_log_store_def sample_read_def split: if_splits)
  show ord: "order_ok sample_order" by (simp add: order_ok_def sample_order_def)
  show "env_ok sample_env sample_codec"
    using ord by (auto simp: env_ok_def sample_env_def codec_ok_def sample_codec_def split: if_splits)
  show "conversions_ok sample_conversions"
    by (simp add: conversions_ok_def sample_conversions_def sample_converter_ok converts_part_def)
qed

lemma sample_new_partitions_ok:
  "tp_wf (tp_new sample_metadata Second bulk 0 None)" "tp_rows (tp_new sample_metadata Second bulk 0 None) = []"
  by (simp_all add: tp_wf_def tp_new_def INITIAL_TIME_WINDOW_def tp_secs_def i64_defs tp_starts_def tp_rows_def)

lemma sample_round_fits:
  "round_fits sample_arrow sample_conversions (tp_new sample_metadata Second bulk 0 None)
     [(OpPut, [new_second 5, new_second 6])] [sample_batch]"
  "round_fits sample_arrow sample_conversions (tp_new sample_metadata Second bulk 0 None) [(OpDelete, [new_second 5])] []"
  using sample_arrow_ok sample_store_ok(4)
  by (simp_all add: round_fits_def rows_fit_def row_ok_def representable_def row_bucket_def tp_width_def part_fits_def
      batch_ok_def no_bucket_overflow_def first_bucket_def last_bucket_def sample_batch_def sample_kv_def ts_new_def
      tp_secs_def tp_new_def INITIAL_TIME_WINDOW_def ticks_def i64_defs)




end
