(* ===== verification/Manifest_Manager.thy ===== *)
theory Manifest_Manager
  imports Manifest
begin

text \<open>
  The manager of the manifest of a region and its storage, from \<open>src/src/mito2/src/manifest/manager.rs\<close>,
  \<open>src/src/mito2/src/manifest/checkpointer.rs\<close> and \<open>src/src/mito2/src/manifest/storage.rs\<close> with its
  submodules. The manifest directory is the deltas by version, the checkpoints by version, the
  version named by the file \<open>_last_checkpoint\<close> and the deltas of the staging directory, all
  decoded: names are the subject of the theory of manifest paths. A checkpoint is written by a
  background task, here a sequence of steps that other operations may interleave. Whether a write
  to the object store succeeds and which deletions take effect are arguments.
\<close>

section \<open>Definitions\<close>

subsection \<open>Storage\<close>

record region_checkpoint =
  cp_last_version :: nat
  cp_compacted_actions :: nat
  cp_checkpoint :: "region_manifest option"

type_synonym deltas = "(nat, region_meta_action list) hmap"

record manifest_store =
  ms_deltas :: deltas
  ms_checkpoints :: "(nat, region_checkpoint) hmap"
  ms_last_checkpoint :: "nat option"
  ms_staging :: deltas

definition MIN_VERSION :: nat where
  "MIN_VERSION = 0"

definition MAX_VERSION :: nat where
  "MAX_VERSION = usize_max"

definition sort_manifests :: "deltas \<Rightarrow> deltas" where
  "sort_manifests entries = sort_key fst entries"

definition scan_deltas :: "nat \<Rightarrow> nat \<Rightarrow> manifest_store \<Rightarrow> manifest_error + deltas" where
  "scan_deltas start end_version store =
     (if start > end_version then Inl InvalidScanIndex
      else Inr (sort_manifests (filter (\<lambda>(v, _). start \<le> v \<and> v < end_version) (ms_deltas store))))"

definition fetch_manifests_strict_from ::
  "nat \<Rightarrow> nat \<Rightarrow> manifest_store \<Rightarrow> manifest_error + deltas" where
  "fetch_manifests_strict_from start end_version store =
     (case scan_deltas start end_version store of
        Inl err \<Rightarrow> Inl err
      | Inr manifests \<Rightarrow> Inr (dropWhile (\<lambda>(v, _). v \<noteq> start) manifests))"

definition fetch_staging_manifests :: "manifest_store \<Rightarrow> deltas" where
  "fetch_staging_manifests store = sort_manifests (ms_staging store)"

definition clear_staging_manifests :: "manifest_store \<Rightarrow> manifest_store" where
  "clear_staging_manifests store = store\<lparr>ms_staging := []\<rparr>"

definition save_delta :: "nat \<Rightarrow> region_meta_action list \<Rightarrow> bool \<Rightarrow> manifest_store \<Rightarrow> manifest_store" where
  "save_delta version actions is_staging store =
     (if is_staging then store\<lparr>ms_staging := hmap_insert version actions (ms_staging store)\<rparr>
      else store\<lparr>ms_deltas := hmap_insert version actions (ms_deltas store)\<rparr>)"

text \<open>Saving a checkpoint writes its file, then the file that names it.\<close>

definition write_checkpoint :: "region_checkpoint \<Rightarrow> manifest_store \<Rightarrow> manifest_store" where
  "write_checkpoint cp store =
     store\<lparr>ms_checkpoints := hmap_insert (cp_last_version cp) cp (ms_checkpoints store)\<rparr>"

definition write_last_checkpoint :: "nat \<Rightarrow> manifest_store \<Rightarrow> manifest_store" where
  "write_last_checkpoint version store = store\<lparr>ms_last_checkpoint := Some version\<rparr>"

definition load_last_checkpoint :: "manifest_store \<Rightarrow> region_checkpoint option" where
  "load_last_checkpoint store = Option.bind (ms_last_checkpoint store) (hmap_get (ms_checkpoints store))"

text \<open>Files older than a version: whether each is a checkpoint, and its version.\<close>

type_synonym manifest_file = "bool \<times> nat"

definition files_until :: "nat \<Rightarrow> manifest_store \<Rightarrow> manifest_file list" where
  "files_until end_version store =
     filter (\<lambda>(_, v). v < end_version)
       (map (Pair False) (hmap_keys (ms_deltas store)) @ map (Pair True) (hmap_keys (ms_checkpoints store)))"

definition files_to_delete :: "nat \<Rightarrow> bool \<Rightarrow> manifest_store \<Rightarrow> manifest_file list" where
  "files_to_delete end_version keep_last_checkpoint store =
     (let entries = files_until end_version store;
          checkpoints = map snd (filter fst entries);
          checkpoint_version = (if keep_last_checkpoint \<and> checkpoints \<noteq> [] then Some (Max (set checkpoints)) else None)
      in filter (\<lambda>(is_checkpoint, version).
           case checkpoint_version of
             Some max_version \<Rightarrow> if is_checkpoint then version < max_version else version \<le> max_version
           | None \<Rightarrow> True) entries)"

definition delete_until :: "nat \<Rightarrow> bool \<Rightarrow> (manifest_file \<Rightarrow> bool) \<Rightarrow> manifest_store \<Rightarrow> manifest_store" where
  "delete_until end_version keep_last_checkpoint takes_effect store =
     (let gone = (\<lambda>f. f \<in> set (files_to_delete end_version keep_last_checkpoint store) \<and> takes_effect f)
      in store\<lparr>ms_deltas := filter (\<lambda>(v, _). \<not> gone (False, v)) (ms_deltas store),
               ms_checkpoints := filter (\<lambda>(v, _). \<not> gone (True, v)) (ms_checkpoints store)\<rparr>)"

subsection \<open>Checkpointer\<close>

text \<open>What the running checkpoint task does next.\<close>

datatype checkpoint_task = SaveCheckpoint region_checkpoint | SaveMetadata region_checkpoint | DeleteLogs nat

record manifest_options =
  mo_checkpoint_distance :: nat
  mo_enable_gc :: bool

record manifest_manager =
  mm_store :: manifest_store
  mm_last_version :: nat
  mm_last_checkpoint_version :: nat
  mm_task :: "checkpoint_task option"
  mm_manifest :: region_manifest
  mm_staging_manifest :: "region_manifest option"
  mm_stopped :: bool

definition update_manifest_removed_files :: "manifest_options \<Rightarrow> region_manifest \<Rightarrow> region_manifest" where
  "update_manifest_removed_files opts manifest =
     manifest\<lparr>m_removed_files := evict_old_removed_files (mo_enable_gc opts) (m_removed_files manifest)\<rparr>"

definition maybe_do_checkpoint :: "manifest_options \<Rightarrow> manifest_manager \<Rightarrow> manifest_manager" where
  "maybe_do_checkpoint opts mgr =
     (let manifest = mm_manifest mgr;
          last_checkpoint_version = mm_last_checkpoint_version mgr;
          start_version = (if last_checkpoint_version = 0 then MIN_VERSION else last_checkpoint_version + 1);
          end_version = m_manifest_version manifest
      in if mm_task mgr \<noteq> None then mgr
         else if mo_checkpoint_distance opts = 0 then mgr
         else if usize_sub end_version last_checkpoint_version < mo_checkpoint_distance opts then mgr
         else mgr\<lparr>mm_task := Some (SaveCheckpoint
                \<lparr>cp_last_version = end_version,
                 cp_compacted_actions = usize_add (usize_sub end_version start_version) 1,
                 cp_checkpoint = Some manifest\<rparr>)\<rparr>)"

text \<open>One step of the task: whether its write succeeds, and which of its deletions take effect.\<close>

definition checkpoint_task_step :: "bool \<Rightarrow> (manifest_file \<Rightarrow> bool) \<Rightarrow> manifest_manager \<Rightarrow> manifest_manager" where
  "checkpoint_task_step success takes_effect mgr =
     (case mm_task mgr of
        None \<Rightarrow> mgr
      | Some (SaveCheckpoint cp) \<Rightarrow>
          if success then mgr\<lparr>mm_store := write_checkpoint cp (mm_store mgr), mm_task := Some (SaveMetadata cp)\<rparr>
          else mgr\<lparr>mm_task := None\<rparr>
      | Some (SaveMetadata cp) \<Rightarrow>
          if success
          then mgr\<lparr>mm_store := write_last_checkpoint (cp_last_version cp) (mm_store mgr),
                   mm_last_checkpoint_version := cp_last_version cp,
                   mm_task := Some (DeleteLogs (cp_last_version cp))\<rparr>
          else mgr\<lparr>mm_task := None\<rparr>
      | Some (DeleteLogs version) \<Rightarrow>
          mgr\<lparr>mm_store := delete_until version True takes_effect (mm_store mgr), mm_task := None\<rparr>)"

text \<open>The whole task, when nothing fails and nothing interferes.\<close>

definition do_checkpoint :: "manifest_manager \<Rightarrow> manifest_manager" where
  "do_checkpoint mgr =
     checkpoint_task_step True (\<lambda>_. True)
       (checkpoint_task_step True (\<lambda>_. True) (checkpoint_task_step True (\<lambda>_. True) mgr))"

subsection \<open>Manager\<close>

definition creation_actions :: "region_metadata \<Rightarrow> nat \<Rightarrow> format_type \<Rightarrow> region_meta_action list" where
  "creation_actions metadata flushed_entry_id sst_format =
     Change \<lparr>rc_metadata = metadata, rc_sst_format = sst_format, rc_append_mode = None\<rparr> #
     (if flushed_entry_id > 0 then [Edit (edit_empty\<lparr>re_flushed_entry_id := Some flushed_entry_id\<rparr>)] else [])"

definition manager_new ::
  "region_metadata \<Rightarrow> nat \<Rightarrow> format_type \<Rightarrow> manifest_store \<Rightarrow> manifest_error + manifest_manager" where
  "manager_new metadata flushed_entry_id sst_format store =
     (let version = MIN_VERSION;
          builder = apply_change version
                      \<lparr>rc_metadata = metadata, rc_sst_format = sst_format, rc_append_mode = None\<rparr> builder_default
      in case try_build builder of
           Inl err \<Rightarrow> Inl err
         | Inr manifest \<Rightarrow>
             Inr \<lparr>mm_store = save_delta version (creation_actions metadata flushed_entry_id sst_format) False store,
                  mm_last_version = version, mm_last_checkpoint_version = MIN_VERSION, mm_task = None,
                  mm_manifest = manifest, mm_staging_manifest = None, mm_stopped = False\<rparr>)"

definition manager_open ::
  "expr_hash \<Rightarrow> clock \<Rightarrow> manifest_store \<Rightarrow> manifest_error + manifest_manager option" where
  "manager_open pev clk store =
     (let checkpoint = load_last_checkpoint store;
          last_checkpoint_version = (case checkpoint of Some cp \<Rightarrow> cp_last_version cp | None \<Rightarrow> MIN_VERSION);
          version = (case checkpoint of
                       Some cp \<Rightarrow> max MIN_VERSION (usize_add (cp_last_version cp) 1)
                     | None \<Rightarrow> MIN_VERSION);
          builder = (case checkpoint of Some cp \<Rightarrow> with_checkpoint (cp_checkpoint cp) | None \<Rightarrow> builder_default)
      in case scan_deltas version MAX_VERSION store of
           Inl err \<Rightarrow> Inl err
         | Inr manifests \<Rightarrow>
             (let builder = replay pev clk manifests builder
              in if \<not> contains_metadata builder then Inr None
                 else (case try_build builder of
                         Inl err \<Rightarrow> Inl err
                       | Inr manifest \<Rightarrow>
                           Inr (Some \<lparr>mm_store = store, mm_last_version = m_manifest_version manifest,
                                      mm_last_checkpoint_version = last_checkpoint_version, mm_task = None,
                                      mm_manifest = manifest, mm_staging_manifest = None, mm_stopped = False\<rparr>))))"

definition stop_manager :: "manifest_manager \<Rightarrow> manifest_manager" where
  "stop_manager mgr = mgr\<lparr>mm_stopped := True\<rparr>"

definition install_last_checkpoint ::
  "manifest_manager \<Rightarrow> (manifest_error + nat) \<times> manifest_manager" where
  "install_last_checkpoint mgr =
     (case load_last_checkpoint (mm_store mgr) of
        None \<Rightarrow> (Inl NoCheckpoint, mgr)
      | Some cp \<Rightarrow>
          (case try_build (with_checkpoint (cp_checkpoint cp)) of
             Inl err \<Rightarrow> (Inl err, mgr)
           | Inr manifest \<Rightarrow>
               (Inr (m_manifest_version manifest),
                mgr\<lparr>mm_last_version := m_manifest_version manifest, mm_manifest := manifest\<rparr>)))"

definition install_deltas ::
  "expr_hash \<Rightarrow> clock \<Rightarrow> nat \<Rightarrow> manifest_error + deltas \<Rightarrow> manifest_manager
     \<Rightarrow> (manifest_error + nat) \<times> manifest_manager" where
  "install_deltas pev clk target_version fetched mgr =
     (case fetched of
        Inl err \<Rightarrow> (Inl err, mgr)
      | Inr manifests \<Rightarrow>
          if manifests = [] then (Inl NoManifests, mgr)
          else (case try_build (replay pev clk manifests (with_checkpoint (Some (mm_manifest mgr)))) of
                  Inl err \<Rightarrow> (Inl err, mgr)
                | Inr manifest \<Rightarrow>
                    if m_manifest_version manifest < target_version then (Inl InstallManifestTo, mgr)
                    else (Inr (m_manifest_version manifest),
                          mgr\<lparr>mm_manifest := manifest, mm_last_version := m_manifest_version manifest\<rparr>)))"

definition install_manifest_to ::
  "expr_hash \<Rightarrow> clock \<Rightarrow> nat \<Rightarrow> manifest_manager \<Rightarrow> (manifest_error + nat) \<times> manifest_manager" where
  "install_manifest_to pev clk target_version mgr =
     (let last_version = mm_last_version mgr;
          fetch_from = (\<lambda>v. fetch_manifests_strict_from (usize_add v 1) (usize_add target_version 1) (mm_store mgr))
      in if last_version \<ge> target_version then (Inr last_version, mgr)
         else if mm_stopped mgr then (Inl RegionStopped, mgr)
         else (case fetch_from last_version of
                 Inl err \<Rightarrow> (Inl err, mgr)
               | Inr manifests \<Rightarrow>
                   if manifests \<noteq> [] then install_deltas pev clk target_version (Inr manifests) mgr
                   else (case install_last_checkpoint mgr of
                           (Inl err, mgr') \<Rightarrow> (Inl err, mgr')
                         | (Inr last_version, mgr') \<Rightarrow>
                             if last_version \<ge> target_version then (Inr last_version, mgr')
                             else install_deltas pev clk target_version (fetch_from last_version) mgr')))"

definition update_inner ::
  "manifest_options \<Rightarrow> expr_hash \<Rightarrow> clock \<Rightarrow> bool \<Rightarrow> region_meta_action list \<Rightarrow> bool \<Rightarrow> bool
     \<Rightarrow> manifest_manager \<Rightarrow> (manifest_error + nat) \<times> manifest_manager" where
  "update_inner opts pev clk saved actions is_staging allow_checkpoint mgr =
     (if mm_stopped mgr then (Inl RegionStopped, mgr)
      else
        let version = usize_add (mm_last_version mgr) 1;
            mgr = mgr\<lparr>mm_last_version := version\<rparr>
        in if \<not> saved then (Inl WriteManifest, mgr)
           else
             let mgr = mgr\<lparr>mm_store := save_delta version actions is_staging (mm_store mgr)\<rparr>;
                 base = (case mm_staging_manifest mgr of
                           Some m \<Rightarrow> if is_staging then m else mm_manifest mgr
                         | None \<Rightarrow> mm_manifest mgr)
             in case try_build (apply_actions pev clk version actions (with_checkpoint (Some base))) of
                  Inl err \<Rightarrow> (Inl err, mgr)
                | Inr manifest \<Rightarrow>
                    (Inr version,
                     if is_staging then mgr\<lparr>mm_staging_manifest := Some manifest\<rparr>
                     else let mgr = mgr\<lparr>mm_manifest := update_manifest_removed_files opts manifest\<rparr>
                          in if allow_checkpoint then maybe_do_checkpoint opts mgr else mgr))"

definition manager_update ::
  "manifest_options \<Rightarrow> expr_hash \<Rightarrow> clock \<Rightarrow> bool \<Rightarrow> region_meta_action list \<Rightarrow> bool
     \<Rightarrow> manifest_manager \<Rightarrow> (manifest_error + nat) \<times> manifest_manager" where
  "manager_update opts pev clk saved actions is_staging =
     update_inner opts pev clk saved actions is_staging (\<not> is_staging)"

definition update_normal_without_checkpoint ::
  "manifest_options \<Rightarrow> expr_hash \<Rightarrow> clock \<Rightarrow> bool \<Rightarrow> region_meta_action list
     \<Rightarrow> manifest_manager \<Rightarrow> (manifest_error + nat) \<times> manifest_manager" where
  "update_normal_without_checkpoint opts pev clk saved actions = update_inner opts pev clk saved actions False False"

definition manager_clear_deleted_files :: "removed_file list \<Rightarrow> manifest_manager \<Rightarrow> manifest_manager" where
  "manager_clear_deleted_files deleted mgr =
     mgr\<lparr>mm_manifest := (mm_manifest mgr)\<lparr>m_removed_files := clear_deleted_files deleted (m_removed_files (mm_manifest mgr))\<rparr>\<rparr>"

text \<open>The directory is listed unless it does not exist.\<close>

definition has_update :: "bool \<Rightarrow> manifest_manager \<Rightarrow> manifest_error + bool" where
  "has_update dir_exists mgr =
     (if \<not> dir_exists then Inl EmptyManifestDir
      else Inr (list_ex (\<lambda>v. v > mm_last_version mgr)
             (hmap_keys (ms_deltas (mm_store mgr)) @ hmap_keys (ms_checkpoints (mm_store mgr)))))"

definition merge_staged_actions :: "bool \<Rightarrow> manifest_manager \<Rightarrow> region_meta_action list option" where
  "merge_staged_actions is_staging mgr =
     (if \<not> is_staging then None
      else let merged = concat (map snd (fetch_staging_manifests (mm_store mgr)))
           in if merged = [] then None else Some merged)"

definition unset_staging_manifest :: "manifest_manager \<Rightarrow> manifest_manager" where
  "unset_staging_manifest mgr = mgr\<lparr>mm_staging_manifest := None\<rparr>"

text \<open>The staging manifest is unset even when the directory cannot be cleared.\<close>

definition clear_staging_manifest_and_dir :: "bool \<Rightarrow> manifest_manager \<Rightarrow> manifest_manager" where
  "clear_staging_manifest_and_dir cleared mgr =
     mgr\<lparr>mm_staging_manifest := None,
         mm_store := (if cleared then clear_staging_manifests (mm_store mgr) else mm_store mgr)\<rparr>"

subsection \<open>Examples\<close>

definition empty_store :: manifest_store where
  "empty_store = \<lparr>ms_deltas = [], ms_checkpoints = [], ms_last_checkpoint = None, ms_staging = []\<rparr>"

definition plain_metadata :: region_metadata where
  "plain_metadata =
     \<lparr>rm_region_id = RegionId 1, rm_column_metadatas = [], rm_primary_key = [], rm_schema_version = 0,
      rm_partition_expr = None, rm_partition_expr_version = 0\<rparr>"

definition plain_options :: manifest_options where
  "plain_options = \<lparr>mo_checkpoint_distance = 1, mo_enable_gc = True\<rparr>"

section \<open>Builders with metadata\<close>

lemma contains_metadata_action: "contains_metadata b \<Longrightarrow> contains_metadata (apply_action pev clk v a b)"
  by (cases a) (auto simp: contains_metadata_def apply_change_def apply_partition_expr_change_def apply_edit_scalars
      apply_truncate_def Let_def split: truncate_kind.splits)

lemma contains_metadata_actions: "contains_metadata b \<Longrightarrow> contains_metadata (apply_actions pev clk v as b)"
  by (induction as arbitrary: b) (auto simp: apply_actions_def contains_metadata_action)

lemma contains_metadata_replay: "contains_metadata b \<Longrightarrow> contains_metadata (replay pev clk h b)"
  by (induction h arbitrary: b) (auto simp: replay_def contains_metadata_actions)

lemma try_build_with_checkpoint:
  "try_build b = Inr m \<Longrightarrow> with_checkpoint (Some m) = b"
  "contains_metadata b \<Longrightarrow> \<exists>m. try_build b = Inr m"
  by (auto simp: try_build_def with_checkpoint_def contains_metadata_def split: option.splits)

lemma contains_metadata_checkpoint [simp]:
  "contains_metadata (with_checkpoint (Some m))" "b_manifest_version (with_checkpoint (Some m)) = m_manifest_version m"
  by (simp_all add: contains_metadata_def with_checkpoint_def)

lemma update_inner_accepted:
  assumes "\<not> mm_stopped mgr"
  shows "fst (update_inner opts pev clk True actions False allow_checkpoint mgr) = Inr (usize_add (mm_last_version mgr) 1)"
proof -
  have "\<exists>m'. try_build (apply_actions pev clk v actions (with_checkpoint (Some m))) = Inr m'" for v m
    by (intro try_build_with_checkpoint(2) contains_metadata_actions contains_metadata_checkpoint)
  then have "try_build (apply_actions pev clk v actions (with_checkpoint (Some m))) \<noteq> Inl err" for v m err
    by (metis Inl_Inr_False)
  with assms show ?thesis by (auto simp: update_inner_def Let_def split: sum.splits option.splits)
qed

end
