(* ===== verification/Region_Role.thy ===== *)
theory Region_Role
  imports Region_Open Manifest_Manager
begin

text \<open>
  The roles of a region and the updates of its manifest that each role admits, from
  \<open>src/src/mito2/src/region.rs\<close>: the state machine of the leader, the context that checks the state
  before it updates the manifest, the exit from staging, which publishes the staged actions to the
  manifest and to the version, and the tables of regions. The manifest lock makes an update one
  step; writes to the object store succeed or fail as the arguments say. Hooks, statistics and logs
  have no counterpart.
\<close>

section \<open>Definitions\<close>

subsection \<open>Role states\<close>

datatype region_leader_state = Writable | Staging | EnteringStaging | Altering | Dropping | Truncating | Editing | Downgrading

datatype region_role_state = LeaderState region_leader_state | FollowerState

fun into_leader_state :: "region_role_state \<Rightarrow> region_leader_state option" where
  "into_leader_state (LeaderState s) = Some s"
| "into_leader_state FollowerState = None"

fun role_state_as_str :: "region_role_state \<Rightarrow> string" where
  "role_state_as_str FollowerState = ''Follower''"
| "role_state_as_str (LeaderState Writable) = ''Leader(Writable)''"
| "role_state_as_str (LeaderState Staging) = ''Leader(Staging)''"
| "role_state_as_str (LeaderState EnteringStaging) = ''Leader(EnteringStaging)''"
| "role_state_as_str (LeaderState Altering) = ''Leader(Altering)''"
| "role_state_as_str (LeaderState Dropping) = ''Leader(Dropping)''"
| "role_state_as_str (LeaderState Truncating) = ''Leader(Truncating)''"
| "role_state_as_str (LeaderState Editing) = ''Leader(Editing)''"
| "role_state_as_str (LeaderState Downgrading) = ''Leader(Downgrading)''"

datatype region_role = RoleFollower | RoleLeader | RoleStagingLeader | RoleDowngradingLeader

datatype settable_region_role_state = SetFollower | SetDowngradingLeader | SetLeader | SetStagingLeader

datatype staging_partition_directive = UpdatePartitionExpr string | RejectAllWrites

fun directive_partition_expr :: "staging_partition_directive \<Rightarrow> string option" where
  "directive_partition_expr (UpdatePartitionExpr expr) = Some expr"
| "directive_partition_expr RejectAllWrites = None"

record staging_partition_info =
  sp_directive :: staging_partition_directive
  sp_rule_version :: nat

definition from_partition_directive :: "expr_hash \<Rightarrow> staging_partition_directive \<Rightarrow> staging_partition_info" where
  "from_partition_directive pev directive =
     \<lparr>sp_directive = directive,
      sp_rule_version = (case directive of
                           UpdatePartitionExpr expr \<Rightarrow> partition_expr_version pev (Some expr)
                         | RejectAllWrites \<Rightarrow> 0)\<rparr>"

record manifest_ctx =
  mc_manager :: manifest_manager
  mc_state :: region_role_state
  mc_staging_info :: "staging_partition_info option"

datatype region_error =
    RegionState region_role_state region_role_state
  | FlushableRegionState region_role_state
  | UpdateManifest region_role_state
  | RegionTruncated
  | RegionNotFound
  | UnexpectedActions
  | ManifestFailed manifest_error

definition manifest_ctx_new :: "manifest_manager \<Rightarrow> region_role_state \<Rightarrow> manifest_ctx" where
  "manifest_ctx_new manager state = \<lparr>mc_manager = manager, mc_state = state, mc_staging_info = None\<rparr>"

subsection \<open>Predicates on the state\<close>

definition is_writable :: "region_role_state \<Rightarrow> bool" where
  "is_writable s \<longleftrightarrow> s = LeaderState Writable \<or> s = LeaderState Staging"

definition is_flushable :: "region_role_state \<Rightarrow> bool" where
  "is_flushable s \<longleftrightarrow> s = LeaderState Writable \<or> s = LeaderState Staging \<or> s = LeaderState Downgrading"

definition should_abort_index :: "region_role_state \<Rightarrow> bool" where
  "should_abort_index s \<longleftrightarrow> s = FollowerState \<or> s = LeaderState Dropping \<or> s = LeaderState Truncating
     \<or> s = LeaderState Downgrading \<or> s = LeaderState Staging"

definition is_downgrading :: "region_role_state \<Rightarrow> bool" where
  "is_downgrading s \<longleftrightarrow> s = LeaderState Downgrading"

definition is_staging :: "region_role_state \<Rightarrow> bool" where
  "is_staging s \<longleftrightarrow> s = LeaderState Staging"

definition is_enter_staging :: "region_role_state \<Rightarrow> bool" where
  "is_enter_staging s \<longleftrightarrow> s = LeaderState EnteringStaging"

definition is_follower :: "region_role_state \<Rightarrow> bool" where
  "is_follower s \<longleftrightarrow> s = FollowerState"

fun region_role_of :: "region_role_state \<Rightarrow> region_role" where
  "region_role_of FollowerState = RoleFollower"
| "region_role_of (LeaderState Staging) = RoleStagingLeader"
| "region_role_of (LeaderState Downgrading) = RoleDowngradingLeader"
| "region_role_of (LeaderState _) = RoleLeader"

definition reject_all_writes_in_staging :: "manifest_ctx \<Rightarrow> bool" where
  "reject_all_writes_in_staging ctx =
     (if \<not> is_staging (mc_state ctx) then False
      else case mc_staging_info ctx of Some info \<Rightarrow> sp_directive info = RejectAllWrites | None \<Rightarrow> False)"

definition maybe_staging_partition_expr_str :: "manifest_ctx \<Rightarrow> vc_data \<Rightarrow> string option" where
  "maybe_staging_partition_expr_str ctx d =
     (if is_staging (mc_state ctx)
      then Option.bind (mc_staging_info ctx) (\<lambda>info. directive_partition_expr (sp_directive info))
      else rm_partition_expr (v_metadata (vc_version d)))"

definition expected_partition_expr_version :: "manifest_ctx \<Rightarrow> vc_data \<Rightarrow> nat" where
  "expected_partition_expr_version ctx d =
     (if is_staging (mc_state ctx)
      then (case mc_staging_info ctx of Some info \<Rightarrow> sp_rule_version info | None \<Rightarrow> 0)
      else rm_partition_expr_version (v_metadata (vc_version d)))"

subsection \<open>Transitions\<close>

definition compare_exchange_state ::
  "region_leader_state \<Rightarrow> region_role_state \<Rightarrow> manifest_ctx \<Rightarrow> region_error + manifest_ctx" where
  "compare_exchange_state expect state ctx =
     (if mc_state ctx = LeaderState expect then Inr (ctx\<lparr>mc_state := state\<rparr>)
      else Inl (RegionState (mc_state ctx) (LeaderState expect)))"

definition set_altering :: "manifest_ctx \<Rightarrow> region_error + manifest_ctx" where
  "set_altering = compare_exchange_state Writable (LeaderState Altering)"

definition set_dropping :: "region_leader_state \<Rightarrow> manifest_ctx \<Rightarrow> region_error + manifest_ctx" where
  "set_dropping expect = compare_exchange_state expect (LeaderState Dropping)"

definition set_truncating :: "manifest_ctx \<Rightarrow> region_error + manifest_ctx" where
  "set_truncating = compare_exchange_state Writable (LeaderState Truncating)"

definition set_editing :: "region_leader_state \<Rightarrow> manifest_ctx \<Rightarrow> region_error + manifest_ctx" where
  "set_editing expect = compare_exchange_state expect (LeaderState Editing)"

definition set_entering_staging :: "manifest_ctx \<Rightarrow> region_error + manifest_ctx" where
  "set_entering_staging = compare_exchange_state Writable (LeaderState EnteringStaging)"

text \<open>The staging manifests are cleared first; an error there is returned.\<close>

definition set_staging :: "bool \<Rightarrow> manifest_ctx \<Rightarrow> (region_error + unit) \<times> manifest_ctx" where
  "set_staging cleared ctx =
     (if \<not> cleared then (Inl (ManifestFailed WriteManifest), ctx)
      else let mgr = mc_manager ctx;
               ctx = ctx\<lparr>mc_manager := mgr\<lparr>mm_store := clear_staging_manifests (mm_store mgr)\<rparr>\<rparr>
           in case compare_exchange_state Writable (LeaderState Staging) ctx of
                Inl err \<Rightarrow> (Inl err, ctx)
              | Inr ctx \<Rightarrow> (Inr (), ctx))"

definition exit_staging :: "region_role_state \<Rightarrow> manifest_ctx \<Rightarrow> region_error + manifest_ctx" where
  "exit_staging next_state ctx =
     (case compare_exchange_state Staging next_state ctx of
        Inl err \<Rightarrow> Inl err
      | Inr ctx \<Rightarrow> Inr (ctx\<lparr>mc_staging_info := None\<rparr>))"

text \<open>The second component is whether the debug assertion holds.\<close>

definition set_staging_partition_info :: "staging_partition_info \<Rightarrow> manifest_ctx \<Rightarrow> manifest_ctx \<times> bool" where
  "set_staging_partition_info info ctx = (ctx\<lparr>mc_staging_info := Some info\<rparr>, mc_staging_info ctx = None)"

definition set_role :: "region_role \<Rightarrow> manifest_ctx \<Rightarrow> manifest_ctx" where
  "set_role next_role ctx =
     (case next_role of
        RoleFollower \<Rightarrow>
          (case exit_staging FollowerState ctx of
             Inr ctx' \<Rightarrow> ctx'
           | Inl _ \<Rightarrow> if mc_state ctx \<noteq> FollowerState then ctx\<lparr>mc_state := FollowerState\<rparr> else ctx)
      | RoleLeader \<Rightarrow>
          (case exit_staging (LeaderState Writable) ctx of
             Inr ctx' \<Rightarrow> ctx'
           | Inl _ \<Rightarrow>
               if mc_state ctx = FollowerState \<or> mc_state ctx = LeaderState Downgrading
               then ctx\<lparr>mc_state := LeaderState Writable\<rparr> else ctx)
      | RoleStagingLeader \<Rightarrow> ctx
      | RoleDowngradingLeader \<Rightarrow>
          (case exit_staging (LeaderState Downgrading) ctx of
             Inr ctx' \<Rightarrow> ctx'
           | Inl _ \<Rightarrow>
               (case compare_exchange_state Writable (LeaderState Downgrading) ctx of
                  Inr ctx' \<Rightarrow> ctx'
                | Inl _ \<Rightarrow> ctx)))"

definition switch_state_to_writable :: "region_leader_state \<Rightarrow> manifest_ctx \<Rightarrow> manifest_ctx" where
  "switch_state_to_writable expect ctx =
     (case compare_exchange_state expect (LeaderState Writable) ctx of Inr ctx' \<Rightarrow> ctx' | Inl _ \<Rightarrow> ctx)"

definition switch_state_to_staging :: "region_leader_state \<Rightarrow> manifest_ctx \<Rightarrow> manifest_ctx" where
  "switch_state_to_staging expect ctx =
     (case compare_exchange_state expect (LeaderState Staging) ctx of Inr ctx' \<Rightarrow> ctx' | Inl _ \<Rightarrow> ctx)"

subsection \<open>Updating the manifest\<close>

record manifest_env =
  me_opts :: manifest_options
  me_pev :: expr_hash
  me_clk :: clock

definition update_locked ::
  "manifest_env \<Rightarrow> bool \<Rightarrow> region_meta_action list \<Rightarrow> bool \<Rightarrow> manifest_ctx \<Rightarrow> (region_error + nat) \<times> manifest_ctx" where
  "update_locked env saved actions staging ctx =
     (let update = (if \<not> staging \<and> mc_state ctx = LeaderState Downgrading
                    then update_normal_without_checkpoint (me_opts env) (me_pev env) (me_clk env) saved actions
                    else manager_update (me_opts env) (me_pev env) (me_clk env) saved actions staging);
          (r, mgr) = update (mc_manager ctx)
      in (case r of Inl err \<Rightarrow> Inl (ManifestFailed err) | Inr version \<Rightarrow> Inr version, ctx\<lparr>mc_manager := mgr\<rparr>))"

text \<open>Whether an action is still applicable after a truncation.\<close>

definition action_applicable :: "region_manifest \<Rightarrow> region_meta_action \<Rightarrow> bool" where
  "action_applicable manifest action =
     (case action of
        Edit edit \<Rightarrow>
          (case m_truncated_entry_id manifest of
             None \<Rightarrow> True
           | Some truncated \<Rightarrow>
               (case re_flushed_entry_id edit of
                  None \<Rightarrow> True
                | Some flushed_entry_id \<Rightarrow>
                    truncated < flushed_entry_id
                    \<or> truncated = flushed_entry_id
                      \<and> (case re_flushed_sequence edit of
                            Some flushed_sequence \<Rightarrow> m_flushed_sequence manifest < flushed_sequence
                          | None \<Rightarrow> False))
               \<and> list_all (\<lambda>file. hmap_get (m_files manifest) (fm_file_id file) \<noteq> None) (re_files_to_remove edit))
      | _ \<Rightarrow> True)"

definition update_manifest_with_state_check ::
  "manifest_env \<Rightarrow> bool \<Rightarrow> region_meta_action list \<Rightarrow> bool \<Rightarrow> (region_role_state \<Rightarrow> region_error option)
     \<Rightarrow> manifest_ctx \<Rightarrow> (region_error + nat) \<times> manifest_ctx" where
  "update_manifest_with_state_check env saved actions staging check_state ctx =
     (case check_state (mc_state ctx) of
        Some err \<Rightarrow> (Inl err, ctx)
      | None \<Rightarrow>
          if \<not> list_all (action_applicable (mm_manifest (mc_manager ctx))) actions then (Inl RegionTruncated, ctx)
          else update_locked env saved actions staging ctx)"

definition check_update_state :: "region_leader_state \<Rightarrow> region_role_state \<Rightarrow> region_error option" where
  "check_update_state expect_state current =
     (if expect_state \<noteq> Downgrading
      then (if current = LeaderState expect_state \<or> current = LeaderState Downgrading then None
            else Some (UpdateManifest current))
      else (if current = LeaderState expect_state then None
            else Some (RegionState current (LeaderState expect_state))))"

definition update_manifest ::
  "manifest_env \<Rightarrow> bool \<Rightarrow> region_leader_state \<Rightarrow> region_meta_action list \<Rightarrow> bool \<Rightarrow> manifest_ctx
     \<Rightarrow> (region_error + nat) \<times> manifest_ctx" where
  "update_manifest env saved expect_state actions staging =
     update_manifest_with_state_check env saved actions staging (check_update_state expect_state)"

definition check_compaction_state :: "region_role_state \<Rightarrow> region_error option" where
  "check_compaction_state current =
     (if current = LeaderState Writable \<or> current = LeaderState Editing \<or> current = LeaderState Downgrading
      then None else Some (UpdateManifest current))"

definition update_manifest_for_compaction ::
  "manifest_env \<Rightarrow> bool \<Rightarrow> region_meta_action list \<Rightarrow> manifest_ctx \<Rightarrow> (region_error + nat) \<times> manifest_ctx" where
  "update_manifest_for_compaction env saved actions =
     update_manifest_with_state_check env saved actions False check_compaction_state"

datatype index_publication_stale = SourceChanged | SchemaChanged

datatype index_publication = Committed nat file_meta | Stale index_publication_stale

record index_build_source =
  ib_file_meta :: file_meta
  ib_schema_version :: nat

text \<open>Only the metadata of the index changes; \<open>now\<close> is the time of the publication.\<close>

definition committed_index :: "file_meta \<Rightarrow> file_meta \<Rightarrow> file_meta" where
  "committed_index source updated =
     source\<lparr>fm_available_indexes := fm_available_indexes updated, fm_indexes := fm_indexes updated,
            fm_index_file_size := fm_index_file_size updated, fm_index_version := fm_index_version updated\<rparr>"

definition update_manifest_for_index ::
  "manifest_env \<Rightarrow> bool \<Rightarrow> int \<Rightarrow> index_build_source \<Rightarrow> file_meta \<Rightarrow> manifest_ctx
     \<Rightarrow> (region_error + index_publication) \<times> manifest_ctx" where
  "update_manifest_for_index env saved now source updated ctx =
     (let mgr = mc_manager ctx;
          manifest = mm_manifest mgr
      in if \<not> (mc_state ctx = LeaderState Writable \<or> mc_state ctx = LeaderState Downgrading) \<or> mm_stopped mgr
         then (Inr (Stale SourceChanged), ctx)
         else if \<not> (case hmap_get (m_files manifest) (fm_file_id (ib_file_meta source)) of
                      Some file \<Rightarrow> file_meta_eq file (ib_file_meta source) | None \<Rightarrow> False)
         then (Inr (Stale SourceChanged), ctx)
         else if rm_schema_version (m_metadata manifest) \<noteq> ib_schema_version source
         then (Inr (Stale SchemaChanged), ctx)
         else let committed = committed_index (ib_file_meta source) updated;
                  edit = edit_empty\<lparr>re_files_to_add := [committed], re_timestamp_ms := Some now\<rparr>
              in case update_locked env saved [Edit edit] False ctx of
                   (Inl err, ctx') \<Rightarrow> (Inl err, ctx')
                 | (Inr version, ctx') \<Rightarrow> (Inr (Committed version committed), ctx'))"

subsection \<open>Leaving staging\<close>

fun is_change :: "region_meta_action \<Rightarrow> bool" where
  "is_change (Change c) = True"
| "is_change _ = False"

fun is_partition_expr_change :: "region_meta_action \<Rightarrow> bool" where
  "is_partition_expr_change (PartitionExprChange c) = True"
| "is_partition_expr_change _ = False"

fun is_edit :: "region_meta_action \<Rightarrow> bool" where
  "is_edit (Edit e) = True"
| "is_edit _ = False"

type_synonym region_state = "manifest_ctx \<times> vc_data"

text \<open>The staged actions that are published to the version.\<close>

definition publish_staged ::
  "expr_hash \<Rightarrow> region_meta_action list \<Rightarrow> vc_data \<Rightarrow> (vc_data \<times> file_handle list) outcome" where
  "publish_staged pev merged d =
     (let (partition_expr_change, change, edit) = split_region_change_and_edit merged;
          d1 = (case partition_expr_change of
                  Some expr \<Rightarrow> alter_metadata (set_partition_expr pev expr (v_metadata (vc_version d))) d
                | None \<Rightarrow> d);
          d2 = (case change of Some c \<Rightarrow> alter_metadata (rc_metadata c) d1 | None \<Rightarrow> d1)
      in vc_apply_edit (Some edit) [] d2)"

definition check_staged :: "region_metadata \<Rightarrow> region_meta_action list \<Rightarrow> bool" where
  "check_staged metadata merged =
     (let expect_change = list_ex is_change merged;
          expect_partition_expr_change = list_ex is_partition_expr_change merged
      in \<not> (expect_change \<and> expect_partition_expr_change)
         \<and> (expect_change \<or> expect_partition_expr_change)
         \<and> list_ex is_edit merged
         \<and> (case fst (snd (split_region_change_and_edit merged)) of
              Some c \<Rightarrow> rm_column_metadatas (rc_metadata c) = rm_column_metadatas metadata
            | None \<Rightarrow> True))"

text \<open>The version of the published manifest, if there was something to publish, and the new state.\<close>

definition exit_staging_on_success ::
  "manifest_env \<Rightarrow> bool \<Rightarrow> bool \<Rightarrow> region_state \<Rightarrow> ((region_error + nat option) \<times> region_state) outcome" where
  "exit_staging_on_success env saved cleared s =
     (let (ctx, d) = s
      in if mc_state ctx \<noteq> LeaderState Staging then Ret (Inl (RegionState (mc_state ctx) (LeaderState Staging)), s)
         else (case merge_staged_actions True (mc_manager ctx) of
           None \<Rightarrow>
             (case exit_staging (LeaderState Writable) ctx of
                Inl err \<Rightarrow> Ret (Inl err, s)
              | Inr ctx' \<Rightarrow> Ret (Inr None, (ctx', d)))
         | Some merged \<Rightarrow>
             if \<not> check_staged (v_metadata (vc_version d)) merged then Ret (Inl UnexpectedActions, s)
             else (case update_locked env saved merged False ctx of
               (Inl err, ctx') \<Rightarrow> Ret (Inl err, (ctx', d))
             | (Inr version, ctx') \<Rightarrow>
                 bind_outcome (publish_staged (me_pev env) merged d) (\<lambda>(d', marked).
                 let ctx1 = ctx'\<lparr>mc_manager := clear_staging_manifest_and_dir cleared (mc_manager ctx')\<rparr>
                 in (case exit_staging (LeaderState Writable) ctx1 of
                       Inl err \<Rightarrow> Ret (Inl err, (ctx1, d'))
                     | Inr ctx2 \<Rightarrow> Ret (Inr (Some version), (ctx2, d')))))))"

subsection \<open>Changing the role\<close>

text \<open>The running checkpoint task is joined: which of its writes succeed and which deletions take effect.\<close>

definition wait_for_pending_checkpoint ::
  "(nat \<Rightarrow> bool) \<Rightarrow> (manifest_file \<Rightarrow> bool) \<Rightarrow> manifest_manager \<Rightarrow> manifest_manager" where
  "wait_for_pending_checkpoint success takes_effect mgr =
     checkpoint_task_step (success 2) takes_effect
       (checkpoint_task_step (success 1) takes_effect (checkpoint_task_step (success 0) takes_effect mgr))"

text \<open>Whether to wait for the checkpoint, and the new state.\<close>

definition change_role ::
  "manifest_env \<Rightarrow> bool \<Rightarrow> bool \<Rightarrow> settable_region_role_state \<Rightarrow> region_state
     \<Rightarrow> ((region_error + bool) \<times> region_state) outcome" where
  "change_role env saved cleared state s =
     (let (ctx, d) = s;
          leave_staging = (\<lambda>role. case exit_staging (LeaderState Writable) ctx of
                                   Inl err \<Rightarrow> Ret (Inl err, s)
                                 | Inr ctx' \<Rightarrow> Ret (Inr True, (set_role role ctx', d)))
      in case state of
           SetLeader \<Rightarrow>
             if mc_state ctx = LeaderState Staging
             then bind_outcome (exit_staging_on_success env saved cleared s) (\<lambda>(r, s').
                  Ret (case r of Inl err \<Rightarrow> Inl err | Inr _ \<Rightarrow> Inr False, s'))
             else if mc_state ctx = LeaderState Writable then Ret (Inr False, s)
             else Ret (Inl (RegionState (mc_state ctx) (LeaderState Staging)), s)
         | SetStagingLeader \<Rightarrow>
             if mc_state ctx = LeaderState Writable
             then (case set_staging cleared ctx of
                     (Inl err, ctx') \<Rightarrow> Ret (Inl err, (ctx', d))
                   | (Inr _, ctx') \<Rightarrow> Ret (Inr False, (ctx', d)))
             else if mc_state ctx = LeaderState Staging then Ret (Inr False, s)
             else Ret (Inl (RegionState (mc_state ctx) (LeaderState Writable)), s)
         | SetFollower \<Rightarrow>
             if mc_state ctx = LeaderState Staging then leave_staging RoleFollower
             else if mc_state ctx = FollowerState then Ret (Inr False, s)
             else Ret (Inr True, (set_role RoleFollower ctx, d))
         | SetDowngradingLeader \<Rightarrow>
             if mc_state ctx = LeaderState Staging then leave_staging RoleDowngradingLeader
             else if mc_state ctx = LeaderState Writable then Ret (Inr True, (set_role RoleDowngradingLeader ctx, d))
             else if mc_state ctx = LeaderState Downgrading then Ret (Inr True, s)
             else Ret (Inr False, s))"

text \<open>A new leader persists a partition expression that the manifest lacks; a failure is only logged.\<close>

definition persist_backfilled_metadata :: "manifest_env \<Rightarrow> bool \<Rightarrow> region_state \<Rightarrow> region_state" where
  "persist_backfilled_metadata env saved s =
     (let (ctx, d) = s;
          metadata = v_metadata (vc_version d);
          sst_format = (case ro_sst_format (v_options (vc_version d)) of Some f \<Rightarrow> f | None \<Rightarrow> PrimaryKey)
      in if mc_state ctx = LeaderState Writable \<and> rm_partition_expr (m_metadata (mm_manifest (mc_manager ctx))) = None
            \<and> rm_partition_expr metadata \<noteq> None
         then (snd (update_locked env saved
                 [Change \<lparr>rc_metadata = metadata, rc_sst_format = sst_format, rc_append_mode = None\<rparr>] False ctx), d)
         else s)"

definition set_role_state_gracefully ::
  "manifest_env \<Rightarrow> bool \<Rightarrow> bool \<Rightarrow> (nat \<Rightarrow> bool) \<Rightarrow> (manifest_file \<Rightarrow> bool) \<Rightarrow> bool \<Rightarrow> settable_region_role_state
     \<Rightarrow> region_state \<Rightarrow> ((region_error + unit) \<times> region_state) outcome" where
  "set_role_state_gracefully env saved cleared success takes_effect saved_backfill state s =
     bind_outcome (change_role env saved cleared state s) (\<lambda>(r, (ctx, d)).
     case r of
       Inl err \<Rightarrow> Ret (Inl err, (ctx, d))
     | Inr wait \<Rightarrow>
         let ctx' = (if wait then ctx\<lparr>mc_manager := wait_for_pending_checkpoint success takes_effect (mc_manager ctx)\<rparr>
                     else ctx)
         in Ret (Inr (), persist_backfilled_metadata env saved_backfill (ctx', d)))"

subsection \<open>Tables of regions\<close>

type_synonym region_map = "(region_id, region_state) hmap"

definition get_region :: "region_map \<Rightarrow> region_id \<Rightarrow> region_error + region_state" where
  "get_region regions region = (case hmap_get regions region of Some r \<Rightarrow> Inr r | None \<Rightarrow> Inl RegionNotFound)"

definition region_in_state ::
  "(region_role_state \<Rightarrow> bool) \<Rightarrow> (region_role_state \<Rightarrow> region_error) \<Rightarrow> region_map \<Rightarrow> region_id \<Rightarrow> region_error + region_state" where
  "region_in_state p err regions region =
     (case get_region regions region of
        Inl e \<Rightarrow> Inl e
      | Inr r \<Rightarrow> if p (mc_state (fst r)) then Inr r else Inl (err (mc_state (fst r))))"

definition writable_region :: "region_map \<Rightarrow> region_id \<Rightarrow> region_error + region_state" where
  "writable_region = region_in_state is_writable (\<lambda>s. RegionState s (LeaderState Writable))"

definition follower_region :: "region_map \<Rightarrow> region_id \<Rightarrow> region_error + region_state" where
  "follower_region = region_in_state is_follower (\<lambda>s. RegionState s FollowerState)"

definition writable_non_staging_region :: "region_map \<Rightarrow> region_id \<Rightarrow> region_error + region_state" where
  "writable_non_staging_region regions region =
     (case writable_region regions region of
        Inl e \<Rightarrow> Inl e
      | Inr r \<Rightarrow> if is_staging (mc_state (fst r)) then Inl (RegionState (mc_state (fst r)) (LeaderState Writable)) else Inr r)"

definition staging_region :: "region_map \<Rightarrow> region_id \<Rightarrow> region_error + region_state" where
  "staging_region = region_in_state is_staging (\<lambda>s. RegionState s (LeaderState Staging))"

definition flushable_region :: "region_map \<Rightarrow> region_id \<Rightarrow> region_error + region_state" where
  "flushable_region = region_in_state is_flushable FlushableRegionState"

text \<open>Requests that wait for a region to open, by region. A request that is not registered is returned.\<close>

type_synonym 'w opening_regions = "(region_id, 'w list) hmap"

definition wait_for_opening_region :: "region_id \<Rightarrow> 'w \<Rightarrow> 'w opening_regions \<Rightarrow> 'w opening_regions \<times> 'w option" where
  "wait_for_opening_region region sender regions =
     (case hmap_get regions region of
        Some senders \<Rightarrow> (hmap_insert region (senders @ [sender]) regions, None)
      | None \<Rightarrow> (regions, Some sender))"

definition insert_sender :: "region_id \<Rightarrow> 'w \<Rightarrow> 'w opening_regions \<Rightarrow> 'w opening_regions" where
  "insert_sender region sender regions = hmap_insert region [sender] regions"

definition remove_sender :: "region_id \<Rightarrow> 'w opening_regions \<Rightarrow> 'w opening_regions \<times> 'w list" where
  "remove_sender region regions =
     (hmap_remove region regions, case hmap_get regions region of Some senders \<Rightarrow> senders | None \<Rightarrow> [])"

section \<open>Lemmas\<close>

lemma task_step_ends:
  "mm_task (wait_for_pending_checkpoint success takes_effect mgr) = None"
proof (cases "mm_task mgr")
  case (Some task)
  then show ?thesis by (cases task) (auto simp: wait_for_pending_checkpoint_def checkpoint_task_step_def)
qed (simp add: wait_for_pending_checkpoint_def checkpoint_task_step_def)

lemma set_role_follower [simp]: "mc_state (set_role RoleFollower ctx) = FollowerState"
  by (auto simp: set_role_def exit_staging_def compare_exchange_state_def split: sum.splits)

lemma follower_not_checked [simp]:
  "check_update_state expect FollowerState \<noteq> None" "check_compaction_state FollowerState \<noteq> None"
  by (simp_all add: check_update_state_def check_compaction_state_def)

lemma follower_update_rejected:
  assumes "mc_state ctx = FollowerState"
  shows "snd (update_manifest env saved expect actions staging ctx) = ctx"
    "\<exists>err. fst (update_manifest env saved expect actions staging ctx) = Inl err"
    "snd (update_manifest_for_compaction env saved actions ctx) = ctx"
    "\<exists>err. fst (update_manifest_for_compaction env saved actions ctx) = Inl err"
    "update_manifest_for_index env saved now source updated ctx = (Inr (Stale SourceChanged), ctx)"
  using assms follower_not_checked(1) [of expect] follower_not_checked(2)
  by (auto simp: update_manifest_def update_manifest_for_compaction_def update_manifest_with_state_check_def
      update_manifest_for_index_def Let_def split: option.splits)

lemma update_locked_accepted:
  assumes "\<not> mm_stopped (mc_manager ctx)"
  shows "fst (update_locked env True actions False ctx) = Inr (usize_add (mm_last_version (mc_manager ctx)) 1)"
proof -
  obtain r mgr where u: "(if mc_state ctx = LeaderState Downgrading
      then update_normal_without_checkpoint (me_opts env) (me_pev env) (me_clk env) True actions
      else manager_update (me_opts env) (me_pev env) (me_clk env) True actions False) (mc_manager ctx) = (r, mgr)"
    by (rule prod.exhaust)
  then have "r = Inr (usize_add (mm_last_version (mc_manager ctx)) 1)"
    using update_inner_accepted [OF assms, of "me_opts env" "me_pev env" "me_clk env" actions]
    by (auto simp: manager_update_def update_normal_without_checkpoint_def split: if_splits) (metis fst_conv)+
  with u show ?thesis by (simp add: update_locked_def Let_def)
qed

section \<open>Properties\<close>

text \<open>
  C18. A demoted region publishes nothing. Turning a region into a follower gracefully succeeds from
  every state and keeps its version; afterwards no checkpoint task is running that was started
  before, and no update of the manifest is admitted: those of the region, of a compaction and of an
  index build are all refused and leave the manifest, its directory and the state as they are.
\<close>

theorem demoted_region_publishes_nothing:
  assumes "set_role_state_gracefully env saved cleared success takes_effect saved_backfill SetFollower (ctx, d) = Ret (r, (ctx', d'))"
  shows "r = Inr () \<and> d' = d \<and> mc_state ctx' = FollowerState
    \<and> (mc_state ctx \<noteq> FollowerState \<longrightarrow> mm_task (mc_manager ctx') = None)
    \<and> (\<exists>err. update_manifest env saved' expect actions staging ctx' = (Inl err, ctx'))
    \<and> (\<exists>err. update_manifest_for_compaction env saved' actions ctx' = (Inl err, ctx'))
    \<and> update_manifest_for_index env saved' now source updated ctx' = (Inr (Stale SourceChanged), ctx')"
proof -
  have b: "persist_backfilled_metadata env saved_backfill (c, d) = (c, d)" if "mc_state c = FollowerState" for c
    using that by (simp add: persist_backfilled_metadata_def)
  have "r = Inr () \<and> d' = d \<and> mc_state ctx' = FollowerState
      \<and> (mc_state ctx \<noteq> FollowerState \<longrightarrow> mm_task (mc_manager ctx') = None)"
    using assms by (auto simp: set_role_state_gracefully_def change_role_def exit_staging_def compare_exchange_state_def
        b task_step_ends split: if_splits)
  then show ?thesis using follower_update_rejected [of ctx' env saved'] by (simp add: prod_eq_iff)
qed

theorem demoted_region_publishes_nothing_witness:
  "let mgr = (projr (manager_new plain_metadata 0 Flat empty_store))\<lparr>mm_task := Some (DeleteLogs 0)\<rparr>;
       env = \<lparr>me_opts = plain_options, me_pev = length, me_clk = (\<lambda>_ _. 0)\<rparr>;
       r = set_role_state_gracefully env True True (\<lambda>_. True) (\<lambda>_. True) True SetFollower
             (manifest_ctx_new mgr (LeaderState Writable), sample_control 0 0)
   in \<exists>ctx. r = Ret (Inr (), (ctx, sample_control 0 0)) \<and> mm_task (mc_manager ctx) = None
        \<and> (\<exists>err. update_manifest env True Writable [] False ctx = (Inl err, ctx))"
proof -
  define mgr where "mgr = (projr (manager_new plain_metadata 0 Flat empty_store))\<lparr>mm_task := Some (DeleteLogs 0)\<rparr>"
  define env where "env = \<lparr>me_opts = plain_options, me_pev = length, me_clk = (\<lambda>_ _. 0 :: int)\<rparr>"
  let ?ctx = "manifest_ctx_new mgr (LeaderState Writable)"
  obtain r ctx d where e: "set_role_state_gracefully env True True (\<lambda>_. True) (\<lambda>_. True) True SetFollower (?ctx, sample_control 0 0)
      = Ret (r, (ctx, d))"
    by (simp add: set_role_state_gracefully_def change_role_def manifest_ctx_new_def split_def) (metis prod.exhaust)
  from demoted_region_publishes_nothing [OF e, of True Writable "[]" False] e show ?thesis
    unfolding Let_def mgr_def [symmetric] env_def [symmetric] by (auto simp: manifest_ctx_new_def)
qed

text \<open>
  What a compaction rechecks when it commits: in a region that admits its update, the edit is refused
  exactly when the region has been fully truncated before and an input file is no longer in the
  manifest. In a region that was never fully truncated it is accepted even though its input files
  have been removed from the manifest.
\<close>

lemma compaction_inputs_rechecked_after_truncation:
  assumes "check_compaction_state (mc_state ctx) = None" and "\<not> mm_stopped (mc_manager ctx)" and "re_flushed_entry_id e = None"
  shows "if m_truncated_entry_id (mm_manifest (mc_manager ctx)) \<noteq> None
           \<and> list_ex (\<lambda>f. hmap_get (m_files (mm_manifest (mc_manager ctx))) (fm_file_id f) = None) (re_files_to_remove e)
         then update_manifest_for_compaction env True [Edit e] ctx = (Inl RegionTruncated, ctx)
         else fst (update_manifest_for_compaction env True [Edit e] ctx) = Inr (usize_add (mm_last_version (mc_manager ctx)) 1)"
  using assms update_locked_accepted [OF assms(2), of env "[Edit e]"]
  by (auto simp: update_manifest_for_compaction_def update_manifest_with_state_check_def action_applicable_def
      list_all_iff list_ex_iff split: option.splits)

text \<open>A file that is gone from a truncated manifest stays gone until an action adds it again.\<close>

definition gone_file :: "file_id \<Rightarrow> region_manifest \<Rightarrow> bool" where
  "gone_file i m \<longleftrightarrow> m_truncated_entry_id m \<noteq> None \<and> hmap_get (m_files m) i = None"

lemma gone_action:
  assumes "b_truncated_entry_id b \<noteq> None" and "hmap_get (b_files b) i = None" and "i \<notin> added_ids a"
  shows "b_truncated_entry_id (apply_action pev clk ver a b) \<noteq> None \<and> hmap_get (b_files (apply_action pev clk ver a b)) i = None"
proof (cases a)
  case (Edit e)
  have "filter (\<lambda>f. fm_file_id f = i) (re_files_to_add e) = []"
    using assms(3) by (auto simp: Edit filter_empty_conv)
  with assms show ?thesis by (simp add: Edit apply_edit_get apply_edit_scalars put_all_def)
next
  case (Truncate t)
  with assms show ?thesis
    by (cases "rt_kind t") (simp_all add: apply_truncate_def Let_def remove_all_get)
qed (use assms in \<open>auto simp: apply_change_def apply_partition_expr_change_def split: option.splits\<close>)

lemma gone_actions:
  assumes "b_truncated_entry_id b \<noteq> None" and "hmap_get (b_files b) i = None" and "i \<notin> (\<Union>a \<in> set actions. added_ids a)"
  shows "b_truncated_entry_id (apply_actions pev clk ver actions b) \<noteq> None
    \<and> hmap_get (b_files (apply_actions pev clk ver actions b)) i = None"
  using assms
proof (induction actions arbitrary: b)
  case (Cons a actions)
  from gone_action [OF Cons.prems(1,2), of a pev clk ver] Cons.prems(3) Cons.IH [of "apply_action pev clk ver a b"]
  show ?case by (simp add: apply_actions_def)
qed (simp add: apply_actions_def)

text \<open>What an update leaves of the files and of the truncated position: those of the manifest, or of the actions applied to it.\<close>

lemma update_inner_files:
  assumes "update_inner opts pev clk saved actions False allow mgr = (r, mgr')"
  shows "case r of
      Inl _ \<Rightarrow> mm_manifest mgr' = mm_manifest mgr
    | Inr version \<Rightarrow> m_files (mm_manifest mgr') = b_files (apply_actions pev clk version actions (with_checkpoint (Some (mm_manifest mgr))))
        \<and> m_truncated_entry_id (mm_manifest mgr')
          = b_truncated_entry_id (apply_actions pev clk version actions (with_checkpoint (Some (mm_manifest mgr))))"
  using assms
  by (auto simp: update_inner_def Let_def maybe_do_checkpoint_def update_manifest_removed_files_def try_build_def
      split: if_splits sum.splits option.splits)

lemma update_locked_files:
  assumes "update_locked env saved actions False ctx = (r, ctx')"
  shows "case r of
      Inl _ \<Rightarrow> mm_manifest (mc_manager ctx') = mm_manifest (mc_manager ctx)
    | Inr version \<Rightarrow>
        m_files (mm_manifest (mc_manager ctx'))
          = b_files (apply_actions (me_pev env) (me_clk env) version actions (with_checkpoint (Some (mm_manifest (mc_manager ctx)))))
        \<and> m_truncated_entry_id (mm_manifest (mc_manager ctx'))
          = b_truncated_entry_id (apply_actions (me_pev env) (me_clk env) version actions (with_checkpoint (Some (mm_manifest (mc_manager ctx)))))"
proof -
  let ?allow = "mc_state ctx \<noteq> LeaderState Downgrading"
  have "(if mc_state ctx = LeaderState Downgrading
      then update_normal_without_checkpoint (me_opts env) (me_pev env) (me_clk env) saved actions
      else manager_update (me_opts env) (me_pev env) (me_clk env) saved actions False)
    = update_inner (me_opts env) (me_pev env) (me_clk env) saved actions False ?allow"
    by (simp add: manager_update_def update_normal_without_checkpoint_def)
  with assms update_inner_files [of "me_opts env" "me_pev env" "me_clk env" saved actions ?allow "mc_manager ctx"]
  show ?thesis by (force simp: update_locked_def Let_def split: prod.splits sum.splits)
qed

lemma update_manifest_gone:
  assumes "gone_file i (mm_manifest (mc_manager ctx))" and "i \<notin> (\<Union>a \<in> set actions. added_ids a)"
  shows "gone_file i (mm_manifest (mc_manager (snd (update_manifest env saved expect actions False ctx))))"
proof -
  obtain r ctx' where u: "update_locked env saved actions False ctx = (r, ctx')" by (rule prod.exhaust)
  have "gone_file i (mm_manifest (mc_manager ctx'))"
    using assms update_locked_files [OF u]
      gone_actions [of "with_checkpoint (Some (mm_manifest (mc_manager ctx)))" i actions]
    by (cases r) (simp_all add: gone_file_def with_checkpoint_def)
  with assms(1) u show ?thesis
    by (simp add: update_manifest_def update_manifest_with_state_check_def split: option.splits)
qed

text \<open>Updates of the normal manifest one after the other, each tried in some state of the region and for some caller.\<close>

type_synonym normal_update = "region_role_state \<times> bool \<times> region_leader_state \<times> region_meta_action list"

definition run_updates :: "manifest_env \<Rightarrow> normal_update list \<Rightarrow> manifest_ctx \<Rightarrow> manifest_ctx" where
  "run_updates env = fold (\<lambda>(state, saved, expect, actions) ctx.
     snd (update_manifest env saved expect actions False (ctx\<lparr>mc_state := state\<rparr>)))"

lemma run_updates_gone:
  assumes "gone_file i (mm_manifest (mc_manager ctx))" and "\<forall>(_, _, _, actions) \<in> set us. i \<notin> (\<Union>a \<in> set actions. added_ids a)"
  shows "gone_file i (mm_manifest (mc_manager (run_updates env us ctx)))"
  using assms
proof (induction us arbitrary: ctx)
  case (Cons u us)
  obtain state saved expect actions where u: "u = (state, saved, expect, actions)" by (cases u) auto
  have "gone_file i (mm_manifest (mc_manager (snd (update_manifest env saved expect actions False (ctx\<lparr>mc_state := state\<rparr>)))))"
    using Cons.prems by (intro update_manifest_gone) (auto simp: u)
  from Cons.IH [OF this] Cons.prems(2) show ?case by (simp add: u run_updates_def)
qed (simp add: run_updates_def)

text \<open>
  C25. A compaction that crosses a full truncation never commits. After the truncation has been written
  to the manifest, whatever updates of the normal manifest follow (accepted, failed or refused, in
  any state of the region), the edit of a compaction one of whose input files was not added again is
  refused in every state and leaves the region unchanged; in a state that admits compactions the
  error says that the region was truncated.
\<close>

theorem truncated_compaction_never_commits:
  assumes "update_manifest env saved expect [Truncate tr] False ctx = (Inr version, ctx1)"
    and "rt_kind tr = TruncateAll entry_id sequence"
    and "f \<in> set (re_files_to_remove e)"
    and "\<forall>(_, _, _, actions) \<in> set us. fm_file_id f \<notin> (\<Union>a \<in> set actions. added_ids a)"
  shows "\<exists>err. update_manifest_for_compaction env saved' [Edit e] ((run_updates env us ctx1)\<lparr>mc_state := state\<rparr>)
      = (Inl err, (run_updates env us ctx1)\<lparr>mc_state := state\<rparr>)
    \<and> (check_compaction_state state = None \<longrightarrow> err = RegionTruncated)"
proof -
  from assms(1) have u: "update_locked env saved [Truncate tr] False ctx = (Inr version, ctx1)"
    by (auto simp: update_manifest_def update_manifest_with_state_check_def split: option.splits if_splits)
  have "gone_file (fm_file_id f) (mm_manifest (mc_manager ctx1))"
    using update_locked_files [OF u] assms(2) by (simp add: gone_file_def apply_actions_def apply_truncate_def Let_def)
  from run_updates_gone [OF this assms(4), of env] assms(3) show ?thesis
    by (auto simp: update_manifest_for_compaction_def update_manifest_with_state_check_def action_applicable_def gone_file_def
        list_all_iff split: option.splits)
qed

theorem truncated_compaction_never_commits_witness:
  "let ctx = manifest_ctx_new (projr (manager_new plain_metadata 0 Flat empty_store)) (LeaderState Truncating);
       env = \<lparr>me_opts = plain_options, me_pev = length, me_clk = (\<lambda>_ _. 0)\<rparr>;
       ctx1 = snd (update_manifest env True Truncating [Truncate \<lparr>rt_region_id = RegionId 1, rt_kind = TruncateAll 5 9, rt_timestamp_ms = None\<rparr>] False ctx);
       ctx2 = (run_updates env [(LeaderState Writable, True, Writable,
           [Edit (edit_empty\<lparr>re_files_to_add := [file_meta_default\<lparr>fm_file_id := 8\<rparr>]\<rparr>)])] ctx1)\<lparr>mc_state := LeaderState Writable\<rparr>
   in update_manifest_for_compaction env True [Edit (edit_empty\<lparr>re_files_to_remove := [file_meta_default\<lparr>fm_file_id := 7\<rparr>]\<rparr>)] ctx2
      = (Inl RegionTruncated, ctx2)"
proof -
  define ctx where "ctx = manifest_ctx_new (projr (manager_new plain_metadata 0 Flat empty_store)) (LeaderState Truncating)"
  define env where "env = \<lparr>me_opts = plain_options, me_pev = length, me_clk = (\<lambda>_ _. 0 :: int)\<rparr>"
  let ?t = "[Truncate \<lparr>rt_region_id = RegionId 1, rt_kind = TruncateAll 5 9, rt_timestamp_ms = None\<rparr>]"
  let ?us = "[(LeaderState Writable, True, Writable, [Edit (edit_empty\<lparr>re_files_to_add := [file_meta_default\<lparr>fm_file_id := 8\<rparr>]\<rparr>)])]
    :: normal_update list"
  have c: "mc_state ctx = LeaderState Truncating" "\<not> mm_stopped (mc_manager ctx)"
    by (simp_all add: ctx_def manifest_ctx_new_def manager_new_def Let_def try_build_def apply_change_def builder_default_def)
  obtain version where u: "update_manifest env True Truncating ?t False ctx = (Inr version, snd (update_manifest env True Truncating ?t False ctx))"
    using update_locked_accepted [OF c(2), of env ?t]
    by (cases "update_locked env True ?t False ctx")
      (auto simp: update_manifest_def update_manifest_with_state_check_def check_update_state_def c(1) action_applicable_def)
  have "\<forall>(_, _, _, actions) \<in> set ?us. fm_file_id (file_meta_default\<lparr>fm_file_id := 7\<rparr>) \<notin> (\<Union>a \<in> set actions. added_ids a)" by simp
  from truncated_compaction_never_commits [OF u _ _ this, of 5 9
      "edit_empty\<lparr>re_files_to_remove := [file_meta_default\<lparr>fm_file_id := 7\<rparr>]\<rparr>" True "LeaderState Writable"]
  show ?thesis unfolding Let_def ctx_def [symmetric] env_def [symmetric] by (simp add: check_compaction_state_def)
qed

text \<open>
  The staging partition info is cleared when a region leaves the state \<open>Staging\<close>, but an edit of a
  staging region is done in the state \<open>Editing\<close>: a demotion during the edit keeps the info, and the
  next entry into staging breaks the assertion that there is none. A failed drop of a staging
  region returns to \<open>Writable\<close> and keeps the info as well.
\<close>

lemma staging_info_outlives_staging:
  assumes "mc_state ctx = LeaderState Staging" and "mc_staging_info ctx = Some info"
  shows "\<exists>ctx1 ctx2. set_editing Staging ctx = Inr ctx1
      \<and> set_entering_staging (set_role RoleLeader (set_role RoleFollower ctx1)) = Inr ctx2
      \<and> \<not> snd (set_staging_partition_info info' ctx2)"
    and "\<exists>ctx1. set_dropping Staging ctx = Inr ctx1
      \<and> mc_state (switch_state_to_writable Dropping ctx1) = LeaderState Writable
      \<and> mc_staging_info (switch_state_to_writable Dropping ctx1) = Some info"
  using assms by (auto simp: set_editing_def set_entering_staging_def set_role_def exit_staging_def compare_exchange_state_def
      set_staging_partition_info_def set_dropping_def switch_state_to_writable_def)

end
