(* ===== verification/Manifest_Recovery.thy ===== *)
theory Manifest_Recovery
  imports Manifest_Manager
begin

text \<open>
  What the manifest directory recovers. The history of a region is the list of its updates with
  their versions. The manager and its checkpoint task run as a step relation whose steps are the
  single writes to the object store, so a crash may come between any two of them. The invariant
  relates the directory to the history; the record of removed files, which is trimmed in memory,
  is left out of the comparison.
\<close>

section \<open>Definitions\<close>

definition forget :: "region_manifest_builder \<Rightarrow> region_manifest_builder" where
  "forget b = b\<lparr>b_removed_files := []\<rparr>"

definition same_manifest :: "region_manifest \<Rightarrow> region_manifest \<Rightarrow> bool" where
  "same_manifest m m' \<longleftrightarrow> m\<lparr>m_removed_files := []\<rparr> = m'\<lparr>m_removed_files := []\<rparr>"

type_synonym history = deltas

definition manifest_of :: "expr_hash \<Rightarrow> history \<Rightarrow> region_manifest_builder" where
  "manifest_of pev h = replay pev (\<lambda>_ _. 0) h builder_default"

definition until :: "nat \<Rightarrow> history \<Rightarrow> history" where
  "until c h = filter (\<lambda>(v, _). v \<le> c) h"

definition since :: "nat \<Rightarrow> history \<Rightarrow> history" where
  "since c h = filter (\<lambda>(v, _). c < v) h"

fun is_remove :: "region_meta_action \<Rightarrow> bool" where
  "is_remove (Remove r) = True"
| "is_remove _ = False"

text \<open>An action list that the manager applies to the manifest, not only logs.\<close>

definition effective :: "region_meta_action list \<Rightarrow> bool" where
  "effective actions \<longleftrightarrow> list_ex (\<lambda>a. \<not> is_remove a) actions"

fun starts_with_change :: "history \<Rightarrow> bool" where
  "starts_with_change ((v, Change c # actions) # h) = True"
| "starts_with_change _ = False"

definition history_ok :: "history \<Rightarrow> bool" where
  "history_ok h \<longleftrightarrow> starts_with_change h \<and> sorted_wrt (<) (map fst h)
     \<and> list_all (\<lambda>(v, actions). effective actions \<and> v < MAX_VERSION) h"

definition checkpoint_ok :: "expr_hash \<Rightarrow> history \<Rightarrow> region_checkpoint \<Rightarrow> bool" where
  "checkpoint_ok pev h cp \<longleftrightarrow> cp_last_version cp \<in> fst ` set h
     \<and> (\<exists>m. cp_checkpoint cp = Some m \<and> forget (with_checkpoint (Some m)) = forget (manifest_of pev (until (cp_last_version cp) h)))"

definition store_ok :: "expr_hash \<Rightarrow> history \<Rightarrow> manifest_store \<Rightarrow> bool" where
  "store_ok pev h store \<longleftrightarrow> hmap_wf (ms_deltas store)
     \<and> (case ms_last_checkpoint store of
          None \<Rightarrow> \<forall>v. hmap_get (ms_deltas store) v = hmap_get h v
        | Some c \<Rightarrow>
            (\<forall>v > c. hmap_get (ms_deltas store) v = hmap_get h v)
            \<and> (\<exists>cp. hmap_get (ms_checkpoints store) c = Some cp \<and> cp_last_version cp = c \<and> checkpoint_ok pev h cp))"

definition task_ok :: "expr_hash \<Rightarrow> history \<Rightarrow> manifest_store \<Rightarrow> checkpoint_task \<Rightarrow> bool" where
  "task_ok pev h store task \<longleftrightarrow>
     (case task of
        SaveCheckpoint cp \<Rightarrow> checkpoint_ok pev h cp
          \<and> (\<forall>c. ms_last_checkpoint store = Some c \<longrightarrow> c \<le> cp_last_version cp)
      | SaveMetadata cp \<Rightarrow> checkpoint_ok pev h cp
          \<and> hmap_get (ms_checkpoints store) (cp_last_version cp) = Some cp
          \<and> (\<forall>c. ms_last_checkpoint store = Some c \<longrightarrow> c \<le> cp_last_version cp)
      | DeleteLogs v \<Rightarrow> ms_last_checkpoint store = Some v)"

definition recoverable :: "expr_hash \<Rightarrow> history \<Rightarrow> manifest_manager \<Rightarrow> bool" where
  "recoverable pev h mgr \<longleftrightarrow> history_ok h \<and> fst (last h) \<le> mm_last_version mgr
     \<and> forget (with_checkpoint (Some (mm_manifest mgr))) = forget (manifest_of pev h)
     \<and> store_ok pev h (mm_store mgr)
     \<and> (\<forall>task. mm_task mgr = Some task \<longrightarrow> task_ok pev h (mm_store mgr) task)"

inductive manager_step :: "manifest_options \<Rightarrow> expr_hash \<Rightarrow> history \<times> manifest_manager \<Rightarrow> history \<times> manifest_manager \<Rightarrow> bool"
  for opts :: manifest_options and pev :: expr_hash
where
  update: "effective actions \<Longrightarrow> mm_last_version mgr + 1 < MAX_VERSION \<Longrightarrow>
    update_inner opts pev clk True actions False allow_checkpoint mgr = (Inr version, mgr') \<Longrightarrow>
    manager_step opts pev (h, mgr) (h @ [(version, actions)], mgr')"
| update_fails: "mm_last_version mgr + 1 < MAX_VERSION \<Longrightarrow>
    update_inner opts pev clk False actions False allow_checkpoint mgr = (Inl err, mgr') \<Longrightarrow>
    manager_step opts pev (h, mgr) (h, mgr')"
| staged_update: "mm_last_version mgr + 1 < MAX_VERSION \<Longrightarrow>
    update_inner opts pev clk saved actions True allow_checkpoint mgr = (r, mgr') \<Longrightarrow>
    manager_step opts pev (h, mgr) (h, mgr')"
| checkpoint: "manager_step opts pev (h, mgr) (h, checkpoint_task_step success takes_effect mgr)"
| clear_deleted: "manager_step opts pev (h, mgr) (h, manager_clear_deleted_files deleted mgr)"
| clear_staging: "manager_step opts pev (h, mgr) (h, clear_staging_manifest_and_dir cleared mgr)"
| stop: "manager_step opts pev (h, mgr) (h, stop_manager mgr)"
| restart: "manager_open pev clk (mm_store mgr) = Inr (Some mgr') \<Longrightarrow> manager_step opts pev (h, mgr) (h, mgr')"

section \<open>Replaying a history\<close>

lemma forget_action:
  assumes "forget b1 = forget b2"
  shows "forget (apply_action pev clk v a b1) = forget (apply_action pev clk' v a b2)"
proof -
  have e: "b_metadata b1 = b_metadata b2" "b_files b1 = b_files b2"
    "b_flushed_entry_id b1 = b_flushed_entry_id b2" "b_flushed_sequence b1 = b_flushed_sequence b2"
    "b_manifest_version b1 = b_manifest_version b2" "b_truncated_entry_id b1 = b_truncated_entry_id b2"
    "b_compaction_time_window b1 = b_compaction_time_window b2" "b_committed_sequence b1 = b_committed_sequence b2"
    "b_sst_format b1 = b_sst_format b2" "b_append_mode b1 = b_append_mode b2"
    using assms by (cases b1; cases b2; simp add: forget_def)+
  show ?thesis
    by (rule region_manifest_builder.equality; cases a)
      (auto simp: e forget_def apply_change_def apply_partition_expr_change_def apply_edit_files apply_edit_scalars
        apply_truncate_def Let_def split: option.splits truncate_kind.splits)
qed

lemma forget_actions:
  "forget b1 = forget b2 \<Longrightarrow> forget (apply_actions pev clk v as b1) = forget (apply_actions pev clk' v as b2)"
proof (induction as arbitrary: b1 b2)
  case (Cons a as)
  then show ?case by (simp add: apply_actions_def forget_action [OF Cons.prems, of pev clk v a clk'])
qed (simp add: apply_actions_def)

lemma forget_replay:
  "forget b1 = forget b2 \<Longrightarrow> forget (replay pev clk h b1) = forget (replay pev clk' h b2)"
proof (induction h arbitrary: b1 b2)
  case (Cons e h)
  then show ?case
    by (cases e) (simp add: replay_def forget_actions [OF Cons.prems, of pev clk _ _ clk'])
qed (simp add: replay_def)

lemma replay_append: "replay pev clk (h @ h') b = replay pev clk h' (replay pev clk h b)"
  by (simp add: replay_def)

lemma version_action:
  "contains_metadata b \<Longrightarrow>
   b_manifest_version (apply_action pev clk v a b) = (if is_remove a then b_manifest_version b else v)"
  by (cases a) (auto simp: contains_metadata_def apply_change_def apply_partition_expr_change_def apply_edit_scalars
      apply_truncate_def Let_def split: truncate_kind.splits)

lemma version_actions:
  "contains_metadata b \<Longrightarrow>
   b_manifest_version (apply_actions pev clk v as b) = (if effective as then v else b_manifest_version b)"
proof (induction as arbitrary: b)
  case (Cons a as)
  have "apply_actions pev clk v (a # as) b = apply_actions pev clk v as (apply_action pev clk v a b)"
    by (simp add: apply_actions_def)
  with Cons.IH [OF contains_metadata_action [OF Cons.prems], of pev clk v a] show ?case
    by (simp add: version_action [OF Cons.prems] effective_def)
qed (simp add: apply_actions_def effective_def)

lemma forget_scalars:
  assumes "forget b1 = forget b2"
  shows "contains_metadata b1 = contains_metadata b2" "b_manifest_version b1 = b_manifest_version b2"
  using assms by (cases b1; cases b2; simp add: forget_def contains_metadata_def)+

lemma with_checkpoint_same:
  "same_manifest m m' \<longleftrightarrow> forget (with_checkpoint (Some m)) = forget (with_checkpoint (Some m'))"
  by (cases m; cases m') (auto simp: same_manifest_def forget_def with_checkpoint_def)

lemma manifest_of_snoc:
  assumes "forget b = forget (manifest_of pev h)"
  shows "forget (apply_actions pev clk v as b) = forget (manifest_of pev (h @ [(v, as)]))"
  using forget_actions [OF assms, of pev clk v as "\<lambda>_ _. 0"] by (simp add: manifest_of_def replay_def)

lemma manifest_of_metadata:
  assumes "starts_with_change h" shows "contains_metadata (manifest_of pev h)"
proof -
  obtain v c as h' where h: "h = (v, Change c # as) # h'" using assms by (cases h rule: starts_with_change.cases) auto
  have "contains_metadata (apply_action pev (\<lambda>_ _. 0) v (Change c) builder_default)"
    by (simp add: apply_change_def contains_metadata_def)
  then show ?thesis
    by (simp add: manifest_of_def h replay_def apply_actions_def
        contains_metadata_actions [unfolded apply_actions_def] contains_metadata_replay [unfolded replay_def apply_actions_def])
qed

section \<open>The invariant\<close>

lemma manifest_of_version:
  assumes "history_ok h"
  shows "b_manifest_version (manifest_of pev h) = fst (last h)"
proof (cases "butlast h = []")
  case True
  with assms obtain v c as where h: "h = [(v, Change c # as)]"
    by (cases h rule: starts_with_change.cases) (auto simp: history_ok_def split: if_splits)
  have m: "contains_metadata (apply_change v c builder_default)"
    by (simp add: apply_change_def contains_metadata_def)
  show ?thesis
    using version_actions [OF m, of pev "\<lambda>_ _. 0" v as]
    by (auto simp: h manifest_of_def replay_def apply_actions_def apply_change_def split: if_splits)
next
  case False
  define g where "g = butlast h"
  obtain v as where h: "h = g @ [(v, as)]"
    using False by (cases h rule: rev_cases) (auto simp: g_def)
  from assms False have "starts_with_change g"
    by (cases h rule: starts_with_change.cases) (auto simp: history_ok_def g_def split: if_splits)
  then have "contains_metadata (manifest_of pev g)" by (rule manifest_of_metadata)
  moreover have "effective as" using assms by (simp add: history_ok_def h)
  moreover have "manifest_of pev h = apply_actions pev (\<lambda>_ _. 0) v as (manifest_of pev g)"
    by (simp add: manifest_of_def h replay_def)
  ultimately show ?thesis by (simp add: version_actions h)
qed

lemma until_since: "sorted_wrt (<) (map fst h) \<Longrightarrow> until c h @ since c h = h"
proof (induction h)
  case (Cons e h)
  obtain v as where e: "e = (v, as)" by (cases e)
  show ?case
  proof (cases "v \<le> c")
    case False
    then have "\<forall>x \<in> set h. \<not> fst x \<le> c" using Cons.prems by (auto simp: e)
    then have "until c h = []" by (auto simp: until_def filter_empty_conv)
    with Cons False show ?thesis by (simp add: until_def since_def e)
  qed (use Cons in \<open>auto simp: until_def since_def e\<close>)
qed (simp add: until_def since_def)

lemma until_append: "c < v \<Longrightarrow> until c (h @ [(v, as)]) = until c h"
  by (simp add: until_def)

lemma until_last: "sorted_wrt (<) (map fst h) \<Longrightarrow> h \<noteq> [] \<Longrightarrow> until (fst (last h)) h = h"
proof -
  assume s: "sorted_wrt (<) (map fst h)" and "h \<noteq> []"
  then obtain g e where h: "h = g @ [e]" by (cases h rule: rev_cases) auto
  have "fst x \<le> fst (last h)" if "x \<in> set h" for x
    using s that by (auto simp: h sorted_wrt_append less_imp_le)
  then show ?thesis by (auto simp: until_def filter_id_conv)
qed

lemma history_versions:
  "history_ok h \<Longrightarrow> x \<in> set h \<Longrightarrow> fst x \<le> fst (last h)"
  "history_ok h \<Longrightarrow> h \<noteq> []"
  "history_ok h \<Longrightarrow> sorted_wrt (<) (map fst h)"
  "history_ok h \<Longrightarrow> fst (last h) < MAX_VERSION"
proof -
  show n: "history_ok h \<Longrightarrow> h \<noteq> []" by (auto simp: history_ok_def)
  show s: "history_ok h \<Longrightarrow> sorted_wrt (<) (map fst h)" by (simp add: history_ok_def)
  show "history_ok h \<Longrightarrow> x \<in> set h \<Longrightarrow> fst x \<le> fst (last h)"
    using until_last [OF s n] by (auto simp: until_def filter_id_conv)
  show "history_ok h \<Longrightarrow> fst (last h) < MAX_VERSION"
    using last_in_set [OF n] by (force simp: history_ok_def list_all_iff split_def)
qed

lemma sorted_assoc_unique:
  assumes "sorted_wrt (<) (map fst xs)" and "sorted_wrt (<) (map fst (ys :: ('k :: linorder \<times> 'v) list))"
    and "map_of xs = map_of ys"
  shows "xs = ys"
proof -
  have d: "distinct (map fst xs)" "distinct (map fst ys)"
    using assms(1,2) by (simp_all add: strict_sorted_iff)
  have rebuild: "map (\<lambda>k. (k, the (map_of zs k))) (map fst zs) = zs" if "distinct (map fst zs)" for zs :: "('k \<times> 'v) list"
    using that by (auto simp: o_def intro!: map_idI)
  have "set (map fst xs) = set (map fst ys)"
    using assms(3) by (metis dom_map_of_conv_image_fst set_map)
  then have "map fst xs = map fst ys"
    using assms(1,2) d by (intro sorted_distinct_set_unique) (simp_all add: strict_sorted_iff)
  then show ?thesis using rebuild [OF d(1)] rebuild [OF d(2)] assms(3) by simp
qed

lemma map_of_filter_key: "map_of (filter (\<lambda>(k, _). P k) xs) k = (if P k then map_of xs k else None)"
  by (induction xs) auto

lemma sort_key_assoc:
  fixes xs :: "(nat \<times> 'v) list"
  assumes "distinct (map fst xs)"
  shows "sorted_wrt (<) (map fst (sort_key fst xs))" "map_of (sort_key fst xs) = map_of xs"
proof -
  have d: "distinct (map fst (sort_key fst xs))"
    using assms by (simp add: distinct_map)
  with sorted_sort_key [of fst xs] show "sorted_wrt (<) (map fst (sort_key fst xs))"
    by (simp add: strict_sorted_iff)
  show "map_of (sort_key fst xs) = map_of xs"
    using map_of_inject_set [OF d assms] by simp
qed

text \<open>Scanning the deltas of a range of versions finds that part of the history.\<close>

lemma scan_range:
  assumes "hmap_wf (ms_deltas store)" and "history_ok h" and "lo \<le> hi"
    and "\<forall>v. lo \<le> v \<longrightarrow> v < hi \<longrightarrow> hmap_get (ms_deltas store) v = hmap_get h v"
  shows "scan_deltas lo hi store = Inr (filter (\<lambda>(v, _). lo \<le> v \<and> v < hi) h)"
proof -
  let ?d = "filter (\<lambda>(v, _). lo \<le> v \<and> v < hi) (ms_deltas store)"
  let ?h = "filter (\<lambda>(v, _). lo \<le> v \<and> v < hi) h"
  have d: "distinct (map fst ?d)" using assms(1) by (auto simp: hmap_wf_def distinct_map inj_on_def)
  have "map_of ?d v = map_of ?h v" for v
    using assms(4) by (auto simp: map_of_filter_key [of "\<lambda>v. lo \<le> v \<and> v < hi"])
  moreover have "sorted_wrt (<) (map fst ?h)"
    using assms(2) by (auto simp: history_ok_def sorted_wrt_map intro: sorted_wrt_filter)
  ultimately have "sort_key fst ?d = ?h"
    using sort_key_assoc [OF d] by (intro sorted_assoc_unique) auto
  then show ?thesis using assms(3) by (simp add: scan_deltas_def sort_manifests_def)
qed

lemma scan_history:
  assumes "hmap_wf (ms_deltas store)" and "history_ok h" and "lo \<le> MAX_VERSION"
    and "\<forall>v \<ge> lo. hmap_get (ms_deltas store) v = hmap_get h v"
  shows "scan_deltas lo MAX_VERSION store = Inr (filter (\<lambda>(v, _). lo \<le> v) h)"
proof -
  have "filter (\<lambda>(v, _). lo \<le> v \<and> v < MAX_VERSION) h = filter (\<lambda>(v, _). lo \<le> v) h"
    using assms(2) by (intro filter_cong) (auto simp: history_ok_def list_all_iff)
  with scan_range [OF assms(1-3)] assms(4) show ?thesis by simp
qed

lemma usize_succ: "v < MAX_VERSION \<Longrightarrow> usize_add v (Suc 0) = Suc v"
  by (simp add: usize_add_def wrap_usize_def MAX_VERSION_def usize_max_def)

lemma since_filter: "filter (\<lambda>(v, _). Suc c \<le> v) h = since c h"
  by (simp add: since_def Suc_le_eq)

text \<open>Where the replay of an opened directory starts, and from which manifest.\<close>

definition replay_start :: "manifest_store \<Rightarrow> nat" where
  "replay_start store =
     (case load_last_checkpoint store of
        Some cp \<Rightarrow> max MIN_VERSION (usize_add (cp_last_version cp) 1)
      | None \<Rightarrow> MIN_VERSION)"

definition replay_base :: "manifest_store \<Rightarrow> region_manifest_builder" where
  "replay_base store =
     (case load_last_checkpoint store of
        Some cp \<Rightarrow> with_checkpoint (cp_checkpoint cp)
      | None \<Rightarrow> builder_default)"

lemma replay_checkpoint:
  assumes "history_ok h" and "forget (with_checkpoint (Some m)) = forget (manifest_of pev (until c h))"
  shows "forget (replay pev clk (since c h) (with_checkpoint (Some m))) = forget (manifest_of pev h)"
proof -
  have "forget (replay pev clk (since c h) (with_checkpoint (Some m)))
    = forget (replay pev (\<lambda>_ _. 0) (since c h) (manifest_of pev (until c h)))"
    by (rule forget_replay) (rule assms(2))
  also have "\<dots> = forget (manifest_of pev (until c h @ since c h))"
    by (simp add: manifest_of_def replay_append)
  finally show ?thesis using until_since [OF history_versions(3) [OF assms(1)], of c] by simp
qed

lemma directory_replays:
  assumes "store_ok pev h store" and "history_ok h"
  shows "\<exists>r. scan_deltas (replay_start store) MAX_VERSION store = Inr r
     \<and> forget (replay pev clk r (replay_base store)) = forget (manifest_of pev h)"
proof (cases "ms_last_checkpoint store")
  case None
  then have "load_last_checkpoint store = None" by (simp add: load_last_checkpoint_def)
  moreover have "scan_deltas 0 MAX_VERSION store = Inr (filter (\<lambda>(v, _). 0 \<le> v) h)"
    using assms None by (intro scan_history) (auto simp: store_ok_def)
  moreover have "forget (replay pev clk h builder_default) = forget (manifest_of pev h)"
    by (simp add: manifest_of_def forget_replay)
  ultimately show ?thesis by (simp add: replay_start_def replay_base_def MIN_VERSION_def split_def)
next
  case (Some c)
  then obtain cp m where cp: "hmap_get (ms_checkpoints store) c = Some cp" "cp_last_version cp = c"
    "cp_checkpoint cp = Some m" "c \<in> fst ` set h"
    "forget (with_checkpoint (Some m)) = forget (manifest_of pev (until c h))"
    using assms(1) by (auto simp: store_ok_def checkpoint_ok_def)
  have c: "c < MAX_VERSION" using assms(2) cp(4) by (auto simp: history_ok_def list_all_iff)
  have "load_last_checkpoint store = Some cp" by (simp add: load_last_checkpoint_def Some cp)
  then have "replay_start store = Suc c" "replay_base store = with_checkpoint (Some m)"
    by (simp_all add: replay_start_def replay_base_def cp usize_succ [OF c] MIN_VERSION_def)
  moreover have "scan_deltas (Suc c) MAX_VERSION store = Inr (filter (\<lambda>(v, _). Suc c \<le> v) h)"
    using assms Some c by (intro scan_history) (auto simp: store_ok_def)
  ultimately show ?thesis by (simp add: since_filter replay_checkpoint [OF assms(2) cp(5)])
qed

text \<open>Opening the directory of a history returns the manifest of the history.\<close>

lemma open_recovers:
  assumes "store_ok pev h store" and "history_ok h"
  shows "\<exists>mgr. manager_open pev clk store = Inr (Some mgr) \<and> mm_store mgr = store \<and> mm_task mgr = None
     \<and> mm_last_version mgr = fst (last h)
     \<and> forget (with_checkpoint (Some (mm_manifest mgr))) = forget (manifest_of pev h)"
proof -
  obtain r where r: "scan_deltas (replay_start store) MAX_VERSION store = Inr r"
    "forget (replay pev clk r (replay_base store)) = forget (manifest_of pev h)"
    using directory_replays [OF assms] by blast
  have m: "contains_metadata (replay pev clk r (replay_base store))"
    using forget_scalars(1) [OF r(2)] manifest_of_metadata assms(2) by (simp add: history_ok_def)
  then obtain m where b: "try_build (replay pev clk r (replay_base store)) = Inr m"
    using try_build_with_checkpoint(2) by blast
  have w: "with_checkpoint (Some m) = replay pev clk r (replay_base store)" by (rule try_build_with_checkpoint(1) [OF b])
  have "m_manifest_version m = fst (last h)"
    using forget_scalars(2) [OF r(2)] manifest_of_version [OF assms(2), of pev] w contains_metadata_checkpoint(2) [of m] by simp
  then show ?thesis
    using r m b w by (simp add: manager_open_def Let_def replay_start_def replay_base_def)
qed

section \<open>Every step keeps the directory recoverable\<close>

lemma history_snoc:
  assumes "history_ok h" and "fst (last h) < v" and "v < MAX_VERSION" and "effective as"
  shows "history_ok (h @ [(v, as)])"
proof -
  have "starts_with_change (h @ [(v, as)])"
    using assms(1) by (cases h rule: starts_with_change.cases) (auto simp: history_ok_def)
  moreover have "\<forall>x \<in> set h. fst x < v" using history_versions(1) [OF assms(1)] assms(2) by fastforce
  ultimately show ?thesis using assms by (auto simp: history_ok_def sorted_wrt_append)
qed

lemma history_get_snoc:
  assumes "history_ok h" and "fst (last h) < v"
  shows "hmap_get (h @ [(v, as)]) u = (if u = v then Some as else hmap_get h u)"
proof -
  have "v \<notin> fst ` set h" using history_versions(1) [OF assms(1)] assms(2) by fastforce
  then have "hmap_get h v = None" by (simp add: map_of_eq_None_iff)
  then show ?thesis by (auto simp: map_add_def split: option.splits)
qed

lemma checkpoint_ok_snoc:
  assumes "checkpoint_ok pev h cp" and "history_ok h" and "fst (last h) < v"
  shows "checkpoint_ok pev (h @ [(v, as)]) cp"
proof -
  have "cp_last_version cp \<le> fst (last h)"
    using assms(1) history_versions(1) [OF assms(2)] by (auto simp: checkpoint_ok_def)
  with assms(3) have "cp_last_version cp < v" by simp
  then show ?thesis using assms(1) by (auto simp: checkpoint_ok_def until_append)
qed

lemma store_ok_save:
  assumes "store_ok pev h store" and "history_ok h" and "fst (last h) < v"
  shows "store_ok pev (h @ [(v, as)]) (save_delta v as False store)"
proof (cases "ms_last_checkpoint store")
  case None
  with assms(1) show ?thesis
    by (simp add: store_ok_def save_delta_def hmap_get_insert history_get_snoc [OF assms(2,3)] del: map_of_append)
next
  case (Some c)
  with assms(1) obtain cp where "hmap_get (ms_checkpoints store) c = Some cp" "cp_last_version cp = c" "checkpoint_ok pev h cp"
    by (auto simp: store_ok_def)
  with assms Some show ?thesis
    by (auto simp: store_ok_def save_delta_def hmap_get_insert history_get_snoc checkpoint_ok_snoc simp del: map_of_append)
qed

lemma task_ok_save:
  assumes "task_ok pev h store task" and "history_ok h" and "fst (last h) < v"
  shows "task_ok pev (h @ [(v, as)]) (save_delta v as False store) task"
  using assms by (cases task) (auto simp: task_ok_def save_delta_def checkpoint_ok_snoc)

lemma store_ok_staging [simp]:
  "store_ok pev h (store\<lparr>ms_staging := s\<rparr>) = store_ok pev h store"
  "task_ok pev h (store\<lparr>ms_staging := s\<rparr>) task = task_ok pev h store task"
  by (simp_all add: store_ok_def task_ok_def split: checkpoint_task.splits option.splits)

lemma recoverable_checkpoint_start:
  assumes "recoverable pev h mgr"
  shows "recoverable pev h (maybe_do_checkpoint opts mgr)"
proof (cases "maybe_do_checkpoint opts mgr = mgr")
  case False
  then obtain cp where t: "maybe_do_checkpoint opts mgr = mgr\<lparr>mm_task := Some (SaveCheckpoint cp)\<rparr>"
    and cp: "cp_last_version cp = m_manifest_version (mm_manifest mgr)" "cp_checkpoint cp = Some (mm_manifest mgr)"
    by (auto simp: maybe_do_checkpoint_def Let_def split: if_splits)
  have h: "history_ok h" and m: "forget (with_checkpoint (Some (mm_manifest mgr))) = forget (manifest_of pev h)"
    using assms by (auto simp: recoverable_def)
  have v: "cp_last_version cp = fst (last h)"
    using forget_scalars(2) [OF m] by (simp add: cp manifest_of_version [OF h])
  have "fst (last h) \<in> fst ` set h" using history_versions(2) [OF h] by simp
  then have ok: "checkpoint_ok pev h cp"
    using m by (simp add: checkpoint_ok_def cp(2) v until_last [OF history_versions(3) [OF h] history_versions(2) [OF h]])
  have "c \<le> cp_last_version cp" if "ms_last_checkpoint (mm_store mgr) = Some c" for c
    using assms that history_versions(1) [OF h] v by (auto simp: recoverable_def store_ok_def checkpoint_ok_def)
  with assms ok t show ?thesis by (auto simp: recoverable_def task_ok_def)
qed (use assms in simp)

lemma forget_removed [simp]:
  "forget (with_checkpoint (Some (m\<lparr>m_removed_files := r\<rparr>))) = forget (with_checkpoint (Some m))"
  by (simp add: forget_def with_checkpoint_def)

lemma recoverable_update:
  assumes "recoverable pev h mgr" and "effective actions" and "mm_last_version mgr + 1 < MAX_VERSION"
    and "update_inner opts pev clk True actions False allow_checkpoint mgr = (Inr version, mgr')"
  shows "recoverable pev (h @ [(version, actions)]) mgr'"
proof -
  define v where "v = Suc (mm_last_version mgr)"
  have h: "history_ok h" and l: "fst (last h) < v" and s: "store_ok pev h (mm_store mgr)"
    and m: "forget (with_checkpoint (Some (mm_manifest mgr))) = forget (manifest_of pev h)"
    and t: "\<forall>task. mm_task mgr = Some task \<longrightarrow> task_ok pev h (mm_store mgr) task"
    using assms(1) by (auto simp: recoverable_def v_def)
  have u: "usize_add (mm_last_version mgr) (Suc 0) = v" using assms(3) by (simp add: usize_succ v_def)
  let ?b = "apply_actions pev clk v actions (with_checkpoint (Some (mm_manifest mgr)))"
  obtain m' where m': "try_build ?b = Inr m'"
    using try_build_with_checkpoint(2) [OF contains_metadata_actions] contains_metadata_checkpoint by blast
  define mgr1 where "mgr1 = mgr\<lparr>mm_last_version := v, mm_store := save_delta v actions False (mm_store mgr),
    mm_manifest := update_manifest_removed_files opts m'\<rparr>"
  have r: "version = v \<and> mgr' = (if allow_checkpoint then maybe_do_checkpoint opts mgr1 else mgr1)"
    using assms(4) m' by (auto simp: update_inner_def Let_def u mgr1_def split: if_splits option.splits)
  have "recoverable pev (h @ [(v, actions)]) mgr1"
    using history_snoc [OF h l _ assms(2)] store_ok_save [OF s h l] task_ok_save [OF _ h l] t assms(3)
      manifest_of_snoc [OF m, of clk v actions] try_build_with_checkpoint(1) [OF m']
    by (simp add: recoverable_def mgr1_def v_def update_manifest_removed_files_def)
  with r show ?thesis by (simp add: recoverable_checkpoint_start)
qed

lemma delete_until_keeps:
  "v \<ge> c \<Longrightarrow> hmap_get (ms_deltas (delete_until c True eff store)) v = hmap_get (ms_deltas store) v"
  "v \<ge> c \<Longrightarrow> hmap_get (ms_checkpoints (delete_until c True eff store)) v = hmap_get (ms_checkpoints store) v"
  "ms_last_checkpoint (delete_until c True eff store) = ms_last_checkpoint store"
  "hmap_wf (ms_deltas store) \<Longrightarrow> hmap_wf (ms_deltas (delete_until c True eff store))"
  by (auto simp: delete_until_def Let_def map_of_filter_key files_to_delete_def files_until_def hmap_wf_def distinct_map
      intro: inj_on_subset)

lemma recoverable_checkpoint_step:
  assumes "recoverable pev h mgr"
  shows "recoverable pev h (checkpoint_task_step success takes_effect mgr)"
proof (cases "mm_task mgr")
  case (Some task)
  with assms have t: "task_ok pev h (mm_store mgr) task" and s: "store_ok pev h (mm_store mgr)" by (auto simp: recoverable_def)
  show ?thesis
  proof (cases task)
    case (SaveCheckpoint cp)
    with t s have "store_ok pev h (write_checkpoint cp (mm_store mgr))"
      by (auto simp: store_ok_def task_ok_def write_checkpoint_def hmap_get_insert split: option.splits)
    with t assms SaveCheckpoint Some show ?thesis
      by (auto simp: recoverable_def checkpoint_task_step_def task_ok_def write_checkpoint_def hmap_get_insert)
  next
    case (SaveMetadata cp)
    with t s have "store_ok pev h (write_last_checkpoint (cp_last_version cp) (mm_store mgr))"
      by (auto simp: store_ok_def task_ok_def write_last_checkpoint_def split: option.splits)
    with t assms SaveMetadata Some show ?thesis
      by (auto simp: recoverable_def checkpoint_task_step_def task_ok_def write_last_checkpoint_def)
  next
    case (DeleteLogs v)
    with t s have "store_ok pev h (delete_until v True takes_effect (mm_store mgr))"
      by (auto simp: store_ok_def task_ok_def delete_until_keeps)
    with assms DeleteLogs Some show ?thesis by (auto simp: recoverable_def checkpoint_task_step_def)
  qed
qed (use assms in \<open>simp add: checkpoint_task_step_def\<close>)

lemma recoverable_other_update:
  assumes "recoverable pev h mgr" and "mm_last_version mgr + 1 < MAX_VERSION" and "is_staging \<or> \<not> saved"
    and "update_inner opts pev clk saved actions is_staging allow_checkpoint mgr = (r, mgr')"
  shows "recoverable pev h mgr'"
proof -
  have "usize_add (mm_last_version mgr) (Suc 0) = Suc (mm_last_version mgr)" using assms(2) by (simp add: usize_succ)
  with assms show ?thesis
    by (auto simp: recoverable_def update_inner_def Let_def save_delta_def split: if_splits option.splits sum.splits)
qed

lemma recoverable_step:
  assumes "manager_step opts pev s s'" and "recoverable pev (fst s) (snd s)"
  shows "recoverable pev (fst s') (snd s')"
  using assms
proof (cases rule: manager_step.cases)
  case (restart clk mgr mgr' h)
  with assms(2) open_recovers [of pev h "mm_store mgr" clk] show ?thesis by (auto simp: recoverable_def)
qed (use assms(2) in \<open>auto simp: recoverable_update recoverable_checkpoint_step stop_manager_def
    dest: recoverable_other_update, auto simp: recoverable_def manager_clear_deleted_files_def
    clear_staging_manifest_and_dir_def clear_staging_manifests_def\<close>)

lemma recoverable_steps:
  assumes "(manager_step opts pev)\<^sup>*\<^sup>* s s'" and "recoverable pev (fst s) (snd s)"
  shows "recoverable pev (fst s') (snd s')"
  using assms by (induction rule: rtranclp_induct) (auto intro: recoverable_step)

section \<open>Creation and followers\<close>

definition created_history :: "region_metadata \<Rightarrow> nat \<Rightarrow> format_type \<Rightarrow> history" where
  "created_history metadata flushed_entry_id sst_format = [(MIN_VERSION, creation_actions metadata flushed_entry_id sst_format)]"

lemma created_history_ok: "history_ok (created_history metadata flushed_entry_id sst_format)"
  by (simp add: history_ok_def created_history_def creation_actions_def effective_def MIN_VERSION_def MAX_VERSION_def usize_max_def)

lemma created_store_ok:
  "store_ok pev (created_history metadata flushed_entry_id sst_format)
     (save_delta MIN_VERSION (creation_actions metadata flushed_entry_id sst_format) False empty_store)"
  by (simp add: store_ok_def created_history_def save_delta_def empty_store_def hmap_wf_def)

lemma created_recoverable:
  assumes "manager_new metadata 0 sst_format empty_store = Inr mgr"
  shows "recoverable pev (created_history metadata 0 sst_format) mgr"
proof -
  let ?b = "apply_change MIN_VERSION \<lparr>rc_metadata = metadata, rc_sst_format = sst_format, rc_append_mode = None\<rparr> builder_default"
  have b: "manifest_of pev (created_history metadata 0 sst_format) = ?b"
    by (simp add: manifest_of_def created_history_def creation_actions_def replay_def apply_actions_def)
  obtain m where m: "try_build ?b = Inr m" and mgr: "mm_manifest mgr = m"
      "mm_store mgr = save_delta MIN_VERSION (creation_actions metadata 0 sst_format) False empty_store"
      "mm_last_version mgr = MIN_VERSION" "mm_task mgr = None"
    using assms by (auto simp: manager_new_def Let_def split: sum.splits)
  show ?thesis
    using created_history_ok created_store_ok try_build_with_checkpoint(1) [OF m]
    by (simp add: recoverable_def mgr b) (simp add: created_history_def)
qed

text \<open>The versions after the first one of a follower, up to a target.\<close>

definition between :: "nat \<Rightarrow> nat \<Rightarrow> history \<Rightarrow> history" where
  "between v t h = filter (\<lambda>(u, _). v < u \<and> u \<le> t) h"

lemma until_between: "sorted_wrt (<) (map fst h) \<Longrightarrow> v \<le> t \<Longrightarrow> until v h @ between v t h = until t h"
proof -
  assume s: "sorted_wrt (<) (map fst h)" and "v \<le> t"
  then have "until v (until t h) = until v h" "since v (until t h) = between v t h"
    by (auto simp: until_def since_def between_def intro!: filter_cong)
  moreover have "sorted_wrt (<) (map fst (until t h))"
    using s by (auto simp: until_def sorted_wrt_map intro: sorted_wrt_filter)
  ultimately show ?thesis using until_since [of "until t h" v] by simp
qed

lemma history_until:
  assumes "history_ok h" and "c \<in> fst ` set h"
  shows "history_ok (until c h)" "fst (last (until c h)) = c"
proof -
  have s: "sorted_wrt (<) (map fst h)" using assms(1) by (simp add: history_ok_def)
  have c: "c \<in> fst ` set (until c h)" using assms(2) by (force simp: until_def)
  obtain v a as h' where h: "h = (v, Change a # as) # h'"
    using assms(1) by (cases h rule: starts_with_change.cases) (auto simp: history_ok_def)
  have "v \<le> c" using assms(2) s by (auto simp: h less_imp_le)
  then have "starts_with_change (until c h)" by (simp add: h until_def)
  moreover have "sorted_wrt (<) (map fst (until c h))"
    using s by (auto simp: until_def sorted_wrt_map intro: sorted_wrt_filter)
  ultimately show ok: "history_ok (until c h)" using assms(1) by (auto simp: history_ok_def until_def list_all_iff)
  have "c \<le> fst (last (until c h))" using c history_versions(1) [OF ok] by auto
  moreover have "fst (last (until c h)) \<le> c" using last_in_set [OF history_versions(2) [OF ok]] by (auto simp: until_def)
  ultimately show "fst (last (until c h)) = c" by simp
qed

lemma strict_from_history:
  assumes "hmap_wf (ms_deltas store)" and "history_ok h" and "v < t" and "Suc v \<in> fst ` set h"
    and "\<forall>u. v < u \<longrightarrow> u \<le> t \<longrightarrow> hmap_get (ms_deltas store) u = hmap_get h u"
  shows "fetch_manifests_strict_from (Suc v) (Suc t) store = Inr (between v t h)" "between v t h \<noteq> []"
proof -
  have b: "filter (\<lambda>(u, _). Suc v \<le> u \<and> u < Suc t) h = between v t h"
    by (auto simp: between_def intro: filter_cong)
  have s: "scan_deltas (Suc v) (Suc t) store = Inr (between v t h)"
    using scan_range [of store h "Suc v" "Suc t"] assms unfolding b by simp
  have k: "Suc v \<in> fst ` set (between v t h)" using assms(3,4) by (force simp: between_def)
  then show "between v t h \<noteq> []" by auto
  then obtain u as bs where x: "between v t h = (u, as) # bs" by (cases "between v t h") auto
  have "sorted_wrt (<) (map fst (between v t h))"
    using assms(2) by (auto simp: history_ok_def between_def sorted_wrt_map intro: sorted_wrt_filter)
  moreover have "(u, as) \<in> set (between v t h)" by (simp add: x)
  then have "v < u" by (simp add: between_def)
  ultimately have "u = Suc v" using k by (auto simp: x)
  then show "fetch_manifests_strict_from (Suc v) (Suc t) store = Inr (between v t h)"
    by (simp add: fetch_manifests_strict_from_def s x)
qed

lemma install_between:
  assumes "history_ok h" and "t \<in> fst ` set h" and "v \<le> t" and "between v t h \<noteq> []"
    and "forget (with_checkpoint (Some (mm_manifest f))) = forget (manifest_of pev (until v h))"
  shows "\<exists>f'. install_deltas pev clk t (Inr (between v t h)) f = (Inr t, f')
     \<and> forget (with_checkpoint (Some (mm_manifest f'))) = forget (manifest_of pev (until t h)) \<and> mm_last_version f' = t"
proof -
  let ?b = "replay pev clk (between v t h) (with_checkpoint (Some (mm_manifest f)))"
  have "forget ?b = forget (replay pev (\<lambda>_ _. 0) (between v t h) (manifest_of pev (until v h)))"
    by (rule forget_replay) (rule assms(5))
  then have b: "forget ?b = forget (manifest_of pev (until t h))"
    by (simp add: manifest_of_def until_between [OF history_versions(3) [OF assms(1)] assms(3), symmetric] replay_append)
  obtain m where m: "try_build ?b = Inr m"
    using try_build_with_checkpoint(2) [OF contains_metadata_replay] contains_metadata_checkpoint by blast
  have w: "with_checkpoint (Some m) = ?b" by (rule try_build_with_checkpoint(1) [OF m])
  have "m_manifest_version m = t"
    using forget_scalars(2) [OF b] manifest_of_version [OF history_until(1) [OF assms(1,2)], of pev]
      history_until(2) [OF assms(1,2)] w contains_metadata_checkpoint(2) [of m] by simp
  then show ?thesis using assms(4) b w by (simp add: install_deltas_def m)
qed

section \<open>Properties\<close>

text \<open>
  C3. The manifest survives crashes. Start from a region that is created with the flushed entry id 0 (with
  a positive one the first manifest differs from the one in memory) and let the manager run: updates
  that succeed or whose write fails, with at least one action that is not a removal of the region and
  versions below the greatest one, staged updates, the checkpoint task advancing one write at a
  time between them and failing at any point, deletions of old files of which any part takes
  effect, restarts. At every moment the directory opens, and the manifest it yields is the one in
  memory and the one of the updates that succeeded, in everything but the record of removed files.
\<close>

theorem manifest_survives_crashes:
  assumes "manager_new metadata 0 sst_format empty_store = Inr mgr0"
    and "(manager_step opts pev)\<^sup>*\<^sup>* (created_history metadata 0 sst_format, mgr0) (h, mgr)"
  shows "\<exists>mgr' m. manager_open pev clk (mm_store mgr) = Inr (Some mgr')
     \<and> same_manifest (mm_manifest mgr') (mm_manifest mgr)
     \<and> try_build (manifest_of pev h) = Inr m \<and> same_manifest (mm_manifest mgr') m"
proof -
  have r: "recoverable pev h mgr"
    using recoverable_steps [OF assms(2)] created_recoverable [OF assms(1)] by simp
  then have h: "history_ok h" and s: "store_ok pev h (mm_store mgr)" by (simp_all add: recoverable_def)
  obtain mgr' where o: "manager_open pev clk (mm_store mgr) = Inr (Some mgr')"
    "forget (with_checkpoint (Some (mm_manifest mgr'))) = forget (manifest_of pev h)"
    using open_recovers [OF s h] by blast
  obtain m where m: "try_build (manifest_of pev h) = Inr m"
    using try_build_with_checkpoint(2) [OF manifest_of_metadata] h by (auto simp: history_ok_def)
  with o r show ?thesis
    using try_build_with_checkpoint(1) [OF m] by (auto simp: recoverable_def with_checkpoint_same)
qed

theorem manifest_survives_crashes_witness:
  "let e = Edit (edit_empty\<lparr>re_flushed_entry_id := Some 5\<rparr>);
       mgr0 = projr (manager_new plain_metadata 0 Flat empty_store);
       mgr1 = snd (manager_update plain_options length (\<lambda>_ _. 0) True [e] False mgr0);
       mgr2 = checkpoint_task_step True (\<lambda>_. True) mgr1
   in \<exists>mgr' m. manager_open length (\<lambda>_ _. 0) (mm_store mgr2) = Inr (Some mgr')
        \<and> same_manifest (mm_manifest mgr') (mm_manifest mgr2)
        \<and> try_build (manifest_of length (created_history plain_metadata 0 Flat @ [(1, [e])])) = Inr m
        \<and> same_manifest (mm_manifest mgr') m"
proof -
  define e where "e = Edit (edit_empty\<lparr>re_flushed_entry_id := Some 5\<rparr>)"
  define mgr0 where "mgr0 = projr (manager_new plain_metadata 0 Flat empty_store)"
  define mgr1 where "mgr1 = snd (manager_update plain_options length (\<lambda>_ _. 0) True [e] False mgr0)"
  define mgr2 where "mgr2 = checkpoint_task_step True (\<lambda>_. True) mgr1"
  let ?step = "manager_step plain_options length" and ?h = "created_history plain_metadata 0 Flat"
  have n: "manager_new plain_metadata 0 Flat empty_store = Inr mgr0"
    by (simp add: mgr0_def manager_new_def Let_def try_build_def apply_change_def)
  have u: "update_inner plain_options length (\<lambda>_ _. 0) True [e] False True mgr0 = (Inr 1, mgr1)"
    by (simp add: mgr1_def manager_update_def update_inner_def mgr0_def manager_new_def Let_def try_build_def
        apply_change_def apply_actions_def e_def apply_edit_scalars with_checkpoint_def usize_add_def wrap_usize_def MIN_VERSION_def)
  have "mm_last_version mgr0 + 1 < MAX_VERSION"
    by (simp add: mgr0_def manager_new_def Let_def try_build_def apply_change_def MIN_VERSION_def MAX_VERSION_def usize_max_def)
  then have "?step (?h, mgr0) (?h @ [(1, [e])], mgr1)"
    using u by (intro manager_step.update) (simp_all add: effective_def e_def)
  moreover have "?step (?h @ [(1, [e])], mgr1) (?h @ [(1, [e])], mgr2)"
    unfolding mgr2_def by (rule manager_step.checkpoint)
  ultimately have "?step\<^sup>*\<^sup>* (?h, mgr0) (?h @ [(1, [e])], mgr2)" by (meson r_into_rtranclp rtranclp.rtrancl_into_rtrancl)
  from manifest_survives_crashes [OF n this, of "\<lambda>_ _. 0"]
  show ?thesis unfolding Let_def e_def mgr0_def mgr1_def mgr2_def .
qed

lemma checkpoint_version:
  assumes "history_ok h" and "checkpoint_ok pev h cp" and "cp_checkpoint cp = Some m"
  shows "m_manifest_version m = cp_last_version cp"
proof -
  have c: "cp_last_version cp \<in> fst ` set h"
    and f: "forget (with_checkpoint (Some m)) = forget (manifest_of pev (until (cp_last_version cp) h))"
    using assms(2,3) by (auto simp: checkpoint_ok_def)
  show ?thesis
    using forget_scalars(2) [OF f] manifest_of_version [OF history_until(1) [OF assms(1) c], of pev]
      history_until(2) [OF assms(1) c] by simp
qed

lemma strict_from_gap:
  assumes "hmap_get (ms_deltas store) start = None" and "start \<le> end_version"
  shows "fetch_manifests_strict_from start end_version store = Inr []"
proof -
  have "start \<notin> fst ` set (ms_deltas store)" using assms(1) by (simp add: map_of_eq_None_iff)
  then show ?thesis
    using assms(2) by (auto simp: fetch_manifests_strict_from_def scan_deltas_def sort_manifests_def)
      (metis image_eqI fst_conv)
qed

text \<open>
  C23. A follower installs a newer manifest. If the deltas after its version up to the target are in
  the directory, it installs exactly the manifest of the target version. If the next delta is gone
  and there is a checkpoint at or past the target, it installs the manifest of the checkpoint.
\<close>

theorem follower_installs_target:
  assumes "history_ok h" and "hmap_wf (ms_deltas (mm_store f))" and "\<not> mm_stopped f"
    and "mm_last_version f = v" and "v < t" and "t \<in> fst ` set h"
    and "forget (with_checkpoint (Some (mm_manifest f))) = forget (manifest_of pev (until v h))"
  shows "(Suc v \<in> fst ` set h \<longrightarrow>
       (\<forall>u. v < u \<longrightarrow> u \<le> t \<longrightarrow> hmap_get (ms_deltas (mm_store f)) u = hmap_get h u) \<longrightarrow>
       (\<exists>f'. install_manifest_to pev clk t f = (Inr t, f') \<and> mm_last_version f' = t
          \<and> forget (with_checkpoint (Some (mm_manifest f'))) = forget (manifest_of pev (until t h))))
    \<and> (hmap_get (ms_deltas (mm_store f)) (Suc v) = None \<longrightarrow>
       (\<forall>cp. load_last_checkpoint (mm_store f) = Some cp \<longrightarrow> checkpoint_ok pev h cp \<longrightarrow> t \<le> cp_last_version cp \<longrightarrow>
          (\<exists>f'. install_manifest_to pev clk t f = (Inr (cp_last_version cp), f')
             \<and> mm_last_version f' = cp_last_version cp
             \<and> forget (with_checkpoint (Some (mm_manifest f'))) = forget (manifest_of pev (until (cp_last_version cp) h)))))"
proof (intro conjI impI allI)
  have "t < MAX_VERSION" using assms(1,6) by (auto simp: history_ok_def list_all_iff)
  then have u: "usize_add v (Suc 0) = Suc v" "usize_add t (Suc 0) = Suc t" using assms(5) by (simp_all add: usize_succ)
  {
    assume n: "Suc v \<in> fst ` set h"
      and d: "\<forall>u. v < u \<longrightarrow> u \<le> t \<longrightarrow> hmap_get (ms_deltas (mm_store f)) u = hmap_get h u"
    note s = strict_from_history [OF assms(2,1,5) n d]
    show "\<exists>f'. install_manifest_to pev clk t f = (Inr t, f') \<and> mm_last_version f' = t
        \<and> forget (with_checkpoint (Some (mm_manifest f'))) = forget (manifest_of pev (until t h))"
      using install_between [OF assms(1,6) less_imp_le [OF assms(5)] s(2) assms(7), of clk] assms(3-5) s
      by (auto simp: install_manifest_to_def u)
  next
    fix cp
    assume g: "hmap_get (ms_deltas (mm_store f)) (Suc v) = None" and l: "load_last_checkpoint (mm_store f) = Some cp"
      and c: "checkpoint_ok pev h cp" "t \<le> cp_last_version cp"
    then obtain m where m: "cp_checkpoint cp = Some m"
      "forget (with_checkpoint (Some m)) = forget (manifest_of pev (until (cp_last_version cp) h))"
      by (auto simp: checkpoint_ok_def)
    have "fetch_manifests_strict_from (Suc v) (Suc t) (mm_store f) = Inr []"
      using strict_from_gap [OF g] assms(5) by simp
    then show "\<exists>f'. install_manifest_to pev clk t f = (Inr (cp_last_version cp), f')
        \<and> mm_last_version f' = cp_last_version cp
        \<and> forget (with_checkpoint (Some (mm_manifest f'))) = forget (manifest_of pev (until (cp_last_version cp) h))"
      using assms(3-5) c m checkpoint_version [OF assms(1) c(1) m(1)]
      by (simp add: install_manifest_to_def u install_last_checkpoint_def l)
  }
qed

theorem follower_installs_target_witness:
  "let e = Edit (edit_empty\<lparr>re_flushed_entry_id := Some 5\<rparr>);
       mgr0 = projr (manager_new plain_metadata 0 Flat empty_store);
       f = mgr0\<lparr>mm_store := save_delta 1 [e] False (mm_store mgr0)\<rparr>;
       h = created_history plain_metadata 0 Flat @ [(1, [e])]
   in \<exists>f'. install_manifest_to length (\<lambda>_ _. 0) 1 f = (Inr 1, f') \<and> mm_last_version f' = 1
        \<and> forget (with_checkpoint (Some (mm_manifest f'))) = forget (manifest_of length (until 1 h))"
proof -
  define e where "e = Edit (edit_empty\<lparr>re_flushed_entry_id := Some 5\<rparr>)"
  define mgr0 where "mgr0 = projr (manager_new plain_metadata 0 Flat empty_store)"
  define f where "f = mgr0\<lparr>mm_store := save_delta 1 [e] False (mm_store mgr0)\<rparr>"
  let ?h0 = "created_history plain_metadata 0 Flat"
  define h where "h = ?h0 @ [(1, [e])]"
  have n: "manager_new plain_metadata 0 Flat empty_store = Inr mgr0"
    by (simp add: mgr0_def manager_new_def Let_def try_build_def apply_change_def)
  have r: "recoverable length ?h0 mgr0" by (rule created_recoverable [OF n])
  have l: "fst (last ?h0) < 1" by (simp add: created_history_def MIN_VERSION_def)
  have v: "mm_last_version f = 0" "\<not> mm_stopped f" and st: "ms_last_checkpoint (mm_store f) = None"
    by (simp_all add: f_def mgr0_def manager_new_def Let_def try_build_def apply_change_def MIN_VERSION_def save_delta_def empty_store_def)
  have h: "history_ok h"
    unfolding h_def by (rule history_snoc [OF created_history_ok l]) (simp_all add: MAX_VERSION_def usize_max_def effective_def e_def)
  have s: "store_ok length h (mm_store f)"
    unfolding h_def f_def using r l created_history_ok by (simp add: recoverable_def store_ok_save)
  have "until 0 h = ?h0" by (simp add: h_def until_def created_history_def MIN_VERSION_def)
  then have m: "forget (with_checkpoint (Some (mm_manifest f))) = forget (manifest_of length (until 0 h))"
    using r by (simp add: f_def recoverable_def)
  have d: "\<forall>u. hmap_get (ms_deltas (mm_store f)) u = hmap_get h u" and wf: "hmap_wf (ms_deltas (mm_store f))"
    using s st by (simp_all add: store_ok_def)
  have "Suc 0 \<in> fst ` set h" and "1 \<in> fst ` set h" by (simp_all add: h_def)
  with follower_installs_target [OF h wf v(2) v(1) _ _ m, of 1 "\<lambda>_ _. 0"] d show ?thesis
    unfolding Let_def e_def mgr0_def f_def h_def by simp
qed

text \<open>The directory after one update and a complete checkpoint: it opens with the manifest of memory.\<close>

lemma checkpointed_manifest_opens:
  assumes "mm_task mgr = None" and "mm_last_checkpoint_version mgr = 0" and "mo_checkpoint_distance opts = 1"
    and "mm_last_version mgr = 0" and "ms_deltas (mm_store mgr) = [(0, actions)]" and "ms_checkpoints (mm_store mgr) = []"
    and "\<not> mm_stopped mgr" and "try_build (apply_actions pev clk 1 [Change c] (with_checkpoint (Some (mm_manifest mgr)))) = Inr m"
  shows "\<exists>mgr'. manager_open pev clk' (mm_store (do_checkpoint (snd (manager_update opts pev clk True [Change c] False mgr)))) = Inr (Some mgr')
    \<and> mm_manifest mgr' = update_manifest_removed_files opts m"
proof -
  define m' where "m' = update_manifest_removed_files opts m"
  define cp where "cp = \<lparr>cp_last_version = 1, cp_compacted_actions = 2, cp_checkpoint = Some m'\<rparr>"
  define st where "st = (mm_store mgr)\<lparr>ms_deltas := [(0, actions), (1, [Change c])]\<rparr>"
  have u: "usize_add 0 1 = 1" "usize_add 1 1 = 2" "usize_sub 1 0 = 1"
    by (simp_all add: usize_add_def wrap_usize_def usize_sub_def)
  have v: "m_manifest_version m' = 1"
    using assms(8) by (auto simp: m'_def update_manifest_removed_files_def try_build_def apply_actions_def apply_change_def)
  have s: "save_delta 1 [Change c] False (mm_store mgr) = st" by (simp add: st_def save_delta_def assms(5))
  have "snd (manager_update opts pev clk True [Change c] False mgr)
      = mgr\<lparr>mm_last_version := 1, mm_store := st, mm_manifest := m', mm_task := Some (SaveCheckpoint cp)\<rparr>"
    using assms(1-4,7,8) v
    by (auto simp: manager_update_def update_inner_def u s maybe_do_checkpoint_def MIN_VERSION_def cp_def m'_def [symmetric] Let_def
        simp del: One_nat_def split: option.splits)
  then have d: "mm_store (do_checkpoint (snd (manager_update opts pev clk True [Change c] False mgr)))
      = delete_until 1 True (\<lambda>_. True) (write_last_checkpoint 1 (write_checkpoint cp st))"
    by (simp add: do_checkpoint_def checkpoint_task_step_def cp_def)
  have f: "delete_until 1 True (\<lambda>_. True) (write_last_checkpoint 1 (write_checkpoint cp st))
      = st\<lparr>ms_deltas := [(1, [Change c])], ms_checkpoints := [(1, cp)], ms_last_checkpoint := Some 1\<rparr>"
    by (simp add: delete_until_def write_last_checkpoint_def write_checkpoint_def st_def cp_def files_to_delete_def files_until_def
        hmap_keys_def assms(6))
  have "contains_metadata (with_checkpoint (Some m'))" "try_build (with_checkpoint (Some m')) = Inr m'" by simp_all
  then show ?thesis
    unfolding d f
    by (simp add: manager_open_def load_last_checkpoint_def cp_def u scan_deltas_def sort_manifests_def MIN_VERSION_def MAX_VERSION_def
        usize_max_def replay_def m'_def del: One_nat_def)
qed

text \<open>
  The first manifest in memory lacks the flushed entry id that is persisted. A region created
  with a positive flushed entry id has zero in its manifest in memory, though its directory opens
  with the right one. Once an update has been checkpointed from memory, the directory opens with
  zero: the replay of the log would start from its first entry.
\<close>

theorem created_manifest_forgets_flushed_entry:
  assumes "0 < flushed_entry_id" and "manager_new metadata flushed_entry_id sst_format empty_store = Inr mgr"
    and "mo_checkpoint_distance opts = 1"
  shows "m_flushed_entry_id (mm_manifest mgr) = 0
    \<and> (\<exists>mgr'. manager_open pev clk (mm_store mgr) = Inr (Some mgr') \<and> m_flushed_entry_id (mm_manifest mgr') = flushed_entry_id)
    \<and> (\<exists>mgr'. manager_open pev clk (mm_store (do_checkpoint (snd (manager_update opts pev clk True [Change c] False mgr)))) = Inr (Some mgr')
         \<and> m_flushed_entry_id (mm_manifest mgr') = 0)"
proof -
  let ?rc = "\<lparr>rc_metadata = metadata, rc_sst_format = sst_format, rc_append_mode = None\<rparr>"
  define m where "m = projr (try_build (apply_change 0 ?rc builder_default))"
  have m: "try_build (apply_change 0 ?rc builder_default) = Inr m" by (simp add: m_def try_build_def apply_change_def)
  have z: "m_flushed_entry_id m = 0" by (simp add: m_def try_build_def apply_change_def builder_default_def)
  have mgr: "mgr = \<lparr>mm_store = empty_store\<lparr>ms_deltas := [(0, creation_actions metadata flushed_entry_id sst_format)]\<rparr>,
      mm_last_version = 0, mm_last_checkpoint_version = 0, mm_task = None, mm_manifest = m, mm_staging_manifest = None, mm_stopped = False\<rparr>"
    using assms(2) by (simp add: manager_new_def MIN_VERSION_def m save_delta_def empty_store_def)
  have "\<exists>mgr'. manager_open pev clk (mm_store mgr) = Inr (Some mgr') \<and> m_flushed_entry_id (mm_manifest mgr') = flushed_entry_id"
    using assms(1)
    by (simp add: mgr manager_open_def load_last_checkpoint_def empty_store_def scan_deltas_def sort_manifests_def MIN_VERSION_def
        MAX_VERSION_def usize_max_def replay_def apply_actions_def creation_actions_def apply_change_def contains_metadata_def
        apply_edit_scalars try_build_def Let_def max_option_def edit_empty_def builder_default_def)
  moreover define m1 where "m1 = projr (try_build (apply_actions pev clk 1 [Change c] (with_checkpoint (Some m))))"
  have m1: "try_build (apply_actions pev clk 1 [Change c] (with_checkpoint (Some m))) = Inr m1" "m_flushed_entry_id m1 = 0"
    by (simp_all add: m1_def try_build_def apply_actions_def apply_change_def with_checkpoint_def z)
  have "\<exists>mgr'. manager_open pev clk (mm_store (do_checkpoint (snd (manager_update opts pev clk True [Change c] False mgr)))) = Inr (Some mgr')
      \<and> mm_manifest mgr' = update_manifest_removed_files opts m1"
    by (rule checkpointed_manifest_opens) (use m1 assms(3) in \<open>simp_all add: mgr empty_store_def\<close>)
  then have "\<exists>mgr'. manager_open pev clk (mm_store (do_checkpoint (snd (manager_update opts pev clk True [Change c] False mgr)))) = Inr (Some mgr')
      \<and> m_flushed_entry_id (mm_manifest mgr') = 0"
    using m1(2) by (auto simp: update_manifest_removed_files_def)
  ultimately show ?thesis using z by (simp add: mgr)
qed

lemma staged_update_frame:
  assumes "manager_update opts pev clk True actions True mgr = (Inr version, mgr')" and "mm_last_version mgr < MAX_VERSION"
  shows "version = Suc (mm_last_version mgr)" "mm_last_version mgr' = version" "\<not> mm_stopped mgr'"
    "ms_deltas (mm_store mgr') = ms_deltas (mm_store mgr)"
    "ms_last_checkpoint (mm_store mgr') = ms_last_checkpoint (mm_store mgr)"
  using assms by (auto simp: manager_update_def update_inner_def Let_def usize_succ save_delta_def
      split: if_splits option.splits sum.splits)

lemma update_frame:
  assumes "manager_update opts pev clk True actions False mgr = (Inr version, mgr')" and "mm_last_version mgr < MAX_VERSION"
  shows "version = Suc (mm_last_version mgr)"
    "ms_deltas (mm_store mgr') = hmap_insert version actions (ms_deltas (mm_store mgr))"
    "ms_last_checkpoint (mm_store mgr') = ms_last_checkpoint (mm_store mgr)"
  using assms by (auto simp: manager_update_def update_inner_def Let_def usize_succ save_delta_def maybe_do_checkpoint_def
      split: if_splits option.splits sum.splits)

text \<open>
  C24. Staged updates block followers. A staged update takes its version from the same counter as the
  updates of the normal directory, so the next normal update leaves a gap there. A follower that
  is exactly at the version before the staged update cannot install that update when the directory
  has no checkpoint at all, though the directory itself opens at the new version. (A follower that
  is further behind is not covered: only its first delta is checked for a gap.)
\<close>

theorem staged_update_blocks_followers:
  assumes "recoverable pev h mgr" and "fst (last h) = mm_last_version mgr" and "mm_last_version mgr + 2 < MAX_VERSION"
    and "ms_last_checkpoint (mm_store mgr) = None" and "effective actions"
    and "manager_update opts pev clk True staged True mgr = (Inr v1, mgr1)"
    and "manager_update opts pev clk True actions False mgr1 = (Inr v2, mgr2)"
    and "mm_store f = mm_store mgr2" and "mm_last_version f = mm_last_version mgr" and "\<not> mm_stopped f"
  shows "v2 = mm_last_version mgr + 2 \<and> install_manifest_to pev clk v2 f = (Inl NoCheckpoint, f)
    \<and> (\<exists>mgr'. manager_open pev clk (mm_store mgr2) = Inr (Some mgr') \<and> mm_last_version mgr' = v2)"
proof -
  let ?v = "mm_last_version mgr"
  have m: "?v < MAX_VERSION" "Suc ?v < MAX_VERSION" "Suc (Suc ?v) < MAX_VERSION" using assms(3) by simp_all
  note s = staged_update_frame [OF assms(6) m(1)]
  have l: "mm_last_version mgr1 = Suc ?v" using s by simp
  with m(2) have l': "mm_last_version mgr1 < MAX_VERSION" by simp
  note u = update_frame [OF assms(7) l']
  have v2: "v2 = Suc (Suc ?v)" using u(1) l by simp
  have h: "history_ok h" and d: "\<forall>v. hmap_get (ms_deltas (mm_store mgr)) v = hmap_get h v"
    using assms(1,4) by (auto simp: recoverable_def store_ok_def)
  have "hmap_get h (Suc ?v) = None" using history_versions(1) [OF h] assms(2) by (force simp: map_of_eq_None_iff)
  then have g: "hmap_get (ms_deltas (mm_store f)) (Suc ?v) = None"
    using d by (simp add: assms(8) u(2) s(4) v2 hmap_get_insert)
  have "load_last_checkpoint (mm_store f) = None"
    by (simp add: load_last_checkpoint_def assms(8) u(3) s(5) assms(4))
  then have i: "install_manifest_to pev clk v2 f = (Inl NoCheckpoint, f)"
    using strict_from_gap [OF g, of "Suc v2"] m
    by (simp add: install_manifest_to_def assms(9,10) v2 usize_succ install_last_checkpoint_def)
  have "recoverable pev h mgr1"
    by (rule recoverable_other_update [OF assms(1) _ _ assms(6) [unfolded manager_update_def]]) (use m in simp_all)
  then have r: "recoverable pev (h @ [(v2, actions)]) mgr2"
    using recoverable_update [OF _ assms(5) _ assms(7) [unfolded manager_update_def]] l m by simp
  then have "store_ok pev (h @ [(v2, actions)]) (mm_store mgr2)" "history_ok (h @ [(v2, actions)])"
    by (simp_all add: recoverable_def)
  from open_recovers [OF this, of clk] v2 i show ?thesis by auto
qed

theorem staged_update_blocks_followers_witness:
  "let mgr = projr (manager_new plain_metadata 0 Flat empty_store);
       e = [Edit (edit_empty\<lparr>re_flushed_entry_id := Some 5\<rparr>)];
       mgr1 = snd (manager_update plain_options length (\<lambda>_ _. 0) True e True mgr);
       mgr2 = snd (manager_update plain_options length (\<lambda>_ _. 0) True e False mgr1);
       f = mgr\<lparr>mm_store := mm_store mgr2\<rparr>
   in install_manifest_to length (\<lambda>_ _. 0) 2 f = (Inl NoCheckpoint, f)"
proof -
  define mgr where "mgr = projr (manager_new plain_metadata 0 Flat empty_store)"
  define e where "e = [Edit (edit_empty\<lparr>re_flushed_entry_id := Some 5\<rparr>)]"
  define mgr1 where "mgr1 = snd (manager_update plain_options length (\<lambda>_ _. 0) True e True mgr)"
  define mgr2 where "mgr2 = snd (manager_update plain_options length (\<lambda>_ _. 0) True e False mgr1)"
  define f where "f = mgr\<lparr>mm_store := mm_store mgr2\<rparr>"
  have n: "manager_new plain_metadata 0 Flat empty_store = Inr mgr"
    by (simp add: mgr_def manager_new_def Let_def try_build_def apply_change_def)
  have v: "mm_last_version mgr = 0" "\<not> mm_stopped mgr" "ms_last_checkpoint (mm_store mgr) = None" "mm_staging_manifest mgr = None"
    by (simp_all add: mgr_def manager_new_def Let_def try_build_def apply_change_def MIN_VERSION_def save_delta_def empty_store_def)
  have k: "try_build (apply_actions length (\<lambda>_ _. 0) w e (with_checkpoint (Some m))) \<noteq> Inl err" for w m err
    using try_build_with_checkpoint(2) [OF contains_metadata_actions [OF contains_metadata_checkpoint(1)], of length "\<lambda>_ _. 0" w e m]
    by auto
  have u1: "manager_update plain_options length (\<lambda>_ _. 0) True e True mgr = (Inr 1, mgr1)"
    and v1: "\<not> mm_stopped mgr1" "mm_last_version mgr1 = 1"
    using k v by (auto simp: mgr1_def manager_update_def update_inner_def Let_def usize_add_def wrap_usize_def split: sum.splits)
  have u2: "manager_update plain_options length (\<lambda>_ _. 0) True e False mgr1 = (Inr 2, mgr2)"
    using k v1 by (auto simp: mgr2_def manager_update_def update_inner_def Let_def usize_add_def wrap_usize_def split: sum.splits option.splits)
  have "install_manifest_to length (\<lambda>_ _. 0) 2 f = (Inl NoCheckpoint, f)"
    using staged_update_blocks_followers [OF created_recoverable [OF n, of length] _ _ v(3) _ u1 u2, of f]
    by (simp add: v created_history_def MIN_VERSION_def MAX_VERSION_def usize_max_def effective_def e_def f_def)
  then show ?thesis unfolding Let_def f_def mgr2_def mgr1_def mgr_def e_def .
qed

text \<open>
  A cleanup of which only a part takes effect may leave a hole in the deltas. A follower whose next
  delta is still there installs the target without the update of the hole: here it misses the file
  that the lost delta added.
\<close>

lemma partial_cleanup_skips_an_update:
  fixes f1 :: file_meta
  defines "store \<equiv> \<lparr>ms_deltas = [(0, creation_actions plain_metadata 0 Flat), (1, [Edit edit_empty]),
      (2, [Edit (edit_empty\<lparr>re_files_to_add := [f1]\<rparr>)]), (3, [Edit edit_empty])],
      ms_checkpoints = [], ms_last_checkpoint = None, ms_staging = []\<rparr>"
    and "f \<equiv> projr (manager_new plain_metadata 0 Flat empty_store)"
  shows "\<exists>f'. install_manifest_to length (\<lambda>_ _. 0) 3
      (f\<lparr>mm_store := delete_until 3 True (\<lambda>x. x = (False, 2)) store\<rparr>) = (Inr 3, f') \<and> m_files (mm_manifest f') = []"
proof -
  let ?s = "delete_until 3 True (\<lambda>x. x = (False, 2)) store"
  have d: "?s = store\<lparr>ms_deltas := [(0, creation_actions plain_metadata 0 Flat), (1, [Edit edit_empty]), (3, [Edit edit_empty])]\<rparr>"
    by (simp add: delete_until_def store_def files_to_delete_def files_until_def hmap_keys_def)
  have s: "fetch_manifests_strict_from 1 4 ?s = Inr [(1, [Edit edit_empty]), (3, [Edit edit_empty])]"
    unfolding d by (simp add: fetch_manifests_strict_from_def scan_deltas_def sort_manifests_def)
  have f: "mm_last_version f = 0" "\<not> mm_stopped f" "m_files (mm_manifest f) = []"
    by (simp_all add: f_def manager_new_def Let_def try_build_def apply_change_def builder_default_def MIN_VERSION_def)
  have u: "usize_add 0 (Suc 0) = 1" "usize_add 3 (Suc 0) = 4" by (simp_all add: usize_add_def wrap_usize_def)
  show ?thesis
    using f s by (simp add: install_manifest_to_def u install_deltas_def replay_def apply_actions_def try_build_def
        apply_edit_scalars apply_edit_files edit_empty_def with_checkpoint_def)
qed

end
