(* ===== verification/Region_Steps.thy ===== *)
theory Region_Steps
  imports Region_Role Manifest_Recovery
begin

text \<open>
  The changes of a region that are written to its manifest and applied to its version, from
  \<open>src/src/mito2/src/worker/handle_truncate.rs\<close> and \<open>src/src/mito2/src/worker/handle_manifest.rs\<close>, and
  the region as a state machine: the history of its manifest, the manager and the data of the
  version control. A background task updates the manifest and the worker applies the same change to
  the version when the task reports; here a step does both, so changes reach the version in the
  order in which they were written to the manifest.
\<close>

section \<open>Definitions\<close>

subsection \<open>Truncation\<close>

datatype truncate_request = RequestAll | RequestUnflushed | RequestByTimeRanges "(timestamp \<times> timestamp) list"

datatype truncate_plan =
    NothingToTruncate
  | TruncateAction truncate_kind
  | DiscardAction nat nat

definition files_to_truncate :: "(timestamp \<times> timestamp) list \<Rightarrow> sst_version \<Rightarrow> file_meta list" where
  "files_to_truncate time_ranges ssts =
     map fh_meta (filter (\<lambda>h. list_ex (\<lambda>(start, end_ts).
         fst (fh_time_range h) \<ge> start \<and> snd (fh_time_range h) \<le> end_ts) time_ranges) (all_handles ssts))"

definition handle_truncate_request :: "truncate_request \<Rightarrow> vc_data \<Rightarrow> truncate_plan" where
  "handle_truncate_request req d =
     (let v = vc_version d
      in case req of
           RequestAll \<Rightarrow> TruncateAction (TruncateAll (vc_last_entry_id d) (vc_committed_sequence d))
         | RequestUnflushed \<Rightarrow>
             if mv_is_empty (v_memtables v) \<and> v_flushed_entry_id v = vc_last_entry_id d
                \<and> v_flushed_sequence v = vc_committed_sequence d
             then NothingToTruncate
             else DiscardAction (vc_last_entry_id d) (vc_committed_sequence d)
         | RequestByTimeRanges time_ranges \<Rightarrow>
             (let files = files_to_truncate time_ranges (v_ssts v)
              in if files = [] then NothingToTruncate else TruncateAction (TruncatePartial files)))"

definition discard_edit :: "nat \<Rightarrow> nat \<Rightarrow> region_edit" where
  "discard_edit discarded_entry_id discarded_sequence =
     edit_empty\<lparr>re_flushed_entry_id := Some discarded_entry_id, re_flushed_sequence := Some discarded_sequence\<rparr>"

subsection \<open>Schema changes\<close>

definition update_region_version ::
  "open_config \<Rightarrow> region_metadata \<Rightarrow> region_options option \<Rightarrow> vc_data \<Rightarrow> vc_data" where
  "update_region_version config new_meta new_options d =
     (case new_options of
        Some options \<Rightarrow>
          alter_schema_and_format (oc_unit_of config) new_meta options
            (builder_for_options (oc_default_flat_format config) options) d
      | None \<Rightarrow> alter_schema (oc_unit_of config) new_meta d)"

section \<open>The region as a state machine\<close>

text \<open>
  The discipline of edits: added files have distinct ids and levels within bounds; a file that is
  added again keeps its level and either is unchanged or brings a newer index; a removed file is
  named with the level it has; flushed positions are positions that were written.
\<close>

definition edit_ok :: "region_manifest_builder \<Rightarrow> vc_data \<Rightarrow> region_edit \<Rightarrow> bool" where
  "edit_ok b d e \<longleftrightarrow>
     distinct (map fm_file_id (re_files_to_add e))
     \<and> (\<forall>f \<in> set (re_files_to_add e). fm_level f < MAX_LEVEL
          \<and> (\<forall>g. hmap_get (b_files b) (fm_file_id f) = Some g \<longrightarrow>
               fm_level g = fm_level f \<and> (file_meta_eq g f \<or> \<not> is_index_up_to_date g f)))
     \<and> (\<forall>r \<in> set (re_files_to_remove e). fm_level r < MAX_LEVEL
          \<and> (\<forall>g. hmap_get (fold (\<lambda>f. hmap_insert (fm_file_id f) f) (re_files_to_add e) (b_files b)) (fm_file_id r) = Some g
               \<longrightarrow> fm_level g = fm_level r))
     \<and> max_option 0 (re_flushed_entry_id e) \<le> vc_last_entry_id d
     \<and> max_option 0 (re_flushed_sequence e) \<le> max_option (vc_committed_sequence d) (re_committed_sequence e)"

text \<open>New options keep a time window once there is one.\<close>

definition window_kept :: "vc_data \<Rightarrow> region_options \<Rightarrow> bool" where
  "window_kept d options \<longleftrightarrow>
     co_time_window (ro_compaction options) \<noteq> None \<or> co_time_window (ro_compaction (v_options (vc_version d))) = None"

text \<open>The changes of the version that go with actions written to the manifest.\<close>

inductive published ::
  "open_config \<Rightarrow> expr_hash \<Rightarrow> region_manifest_builder \<Rightarrow> region_meta_action list \<Rightarrow> vc_data \<Rightarrow> vc_data \<Rightarrow> bool"
  for config :: open_config and pev :: expr_hash and b :: region_manifest_builder
where
  published_edit: "edit_ok b d e \<Longrightarrow> vc_apply_edit (Some e) ids d = Ret (d', marked) \<Longrightarrow>
    published config pev b [Edit e] d d'"
| published_truncate: "handle_truncate_request req d = TruncateAction kind \<Longrightarrow>
    vc_truncate (oc_unit_of config) kind d = Ret (d', marked) \<Longrightarrow>
    published config pev b [Truncate \<lparr>rt_region_id = region, rt_kind = kind, rt_timestamp_ms = None\<rparr>] d d'"
| published_discard: "handle_truncate_request req d = DiscardAction entry_id sequence \<Longrightarrow>
    published config pev b [Edit (discard_edit entry_id sequence)] d (discard_unflushed (oc_unit_of config) entry_id sequence d)"
| published_change: "(\<And>options. new_options = Some options \<Longrightarrow> window_kept d options) \<Longrightarrow>
    published config pev b [Change c] d (update_region_version config (rc_metadata c) new_options d)"
| published_staged: "check_staged (v_metadata (vc_version d)) merged \<Longrightarrow> \<forall>a \<in> set merged. \<not> is_truncate a \<Longrightarrow>
    no_readd merged \<Longrightarrow> edit_ok b d (split_edit merged) \<Longrightarrow>
    publish_staged pev merged d = Ret (d', marked) \<Longrightarrow> published config pev b merged d d'"

text \<open>The changes of the version that leave the manifest as it is.\<close>

inductive unpublished :: "vc_data \<Rightarrow> vc_data \<Rightarrow> bool" where
  unpublished_options: "window_kept d options \<Longrightarrow> unpublished d (alter_options options d)"
| unpublished_freeze: "vc_freeze_mutable d = Ret d' \<Longrightarrow> unpublished d d'"
| unpublished_flush: "vc_apply_edit None ids d = Ret (d', marked) \<Longrightarrow> unpublished d d'"
| unpublished_write: "vc_committed_sequence d < wc_next_sequence ctx \<Longrightarrow> vc_last_entry_id d < wc_next_entry_id ctx \<Longrightarrow>
    write_region_ctx ao cv ord (ctx, d) = Ret (ctx', d') \<Longrightarrow> unpublished d d'"

type_synonym region_run_state = "history \<times> manifest_manager \<times> vc_data"

inductive region_run ::
  "open_config \<Rightarrow> manifest_options \<Rightarrow> expr_hash \<Rightarrow> region_run_state \<Rightarrow> region_run_state \<Rightarrow> bool"
  for config :: open_config and opts :: manifest_options and pev :: expr_hash
where
  run_publish: "published config pev (manifest_of pev h) actions d d' \<Longrightarrow> mm_last_version mgr + 1 < MAX_VERSION \<Longrightarrow>
    update_inner opts pev clk True actions False allow_checkpoint mgr = (Inr version, mgr') \<Longrightarrow>
    region_run config opts pev (h, mgr, d) (h @ [(version, actions)], mgr', d')"
| run_manager: "manager_step opts pev (h, mgr) (h, mgr') \<Longrightarrow> region_run config opts pev (h, mgr, d) (h, mgr', d)"
| run_version: "unpublished d d' \<Longrightarrow> region_run config opts pev (h, mgr, d) (h, mgr, d')"
| run_reopen: "manager_open pev clk (mm_store mgr) = Inr (Some mgr') \<Longrightarrow>
    co_time_window (ro_compaction options) = co_time_window (ro_compaction (v_options (vc_version d))) \<Longrightarrow>
    open_region config env (mm_manifest mgr') (m_metadata (mm_manifest mgr')) options None True = Ret (Inr d') \<Longrightarrow>
    region_run config opts pev (h, mgr, d) (h, mgr', d')"

subsection \<open>Agreement of manifest and version\<close>

definition level_file :: "(file_id, file_meta) hmap \<Rightarrow> level \<Rightarrow> file_id \<Rightarrow> file_meta option" where
  "level_file files l i = (case hmap_get files i of Some f \<Rightarrow> if fm_level f = l then Some f else None | None \<Rightarrow> None)"

definition files_agree :: "sst_version \<Rightarrow> (file_id, file_meta) hmap \<Rightarrow> bool" where
  "files_agree ssts files \<longleftrightarrow>
     (\<forall>l i. rel_option (\<lambda>h f. file_meta_eq (fh_meta h) f) (sv_lookup ssts l i) (level_file files l i))"

definition effective_window :: "region_options \<Rightarrow> duration option \<Rightarrow> duration option" where
  "effective_window options window =
     (case co_time_window (ro_compaction options) of Some w \<Rightarrow> Some w | None \<Rightarrow> window)"

definition agrees :: "region_manifest_builder \<Rightarrow> version \<Rightarrow> bool" where
  "agrees b v \<longleftrightarrow>
     b_metadata b = Some (v_metadata v) \<and> files_agree (v_ssts v) (b_files b)
     \<and> v_flushed_entry_id v = b_flushed_entry_id b \<and> v_flushed_sequence v = b_flushed_sequence b
     \<and> v_truncated_entry_id v = b_truncated_entry_id b
     \<and> v_compaction_time_window v = effective_window (v_options v) (b_compaction_time_window b)"

definition positions_ok :: "region_manifest_builder \<Rightarrow> vc_data \<Rightarrow> bool" where
  "positions_ok b d \<longleftrightarrow>
     v_flushed_entry_id (vc_version d) \<le> vc_last_entry_id d \<and> v_flushed_sequence (vc_version d) \<le> vc_committed_sequence d
     \<and> max_option 0 (b_committed_sequence b) \<le> vc_committed_sequence d"

definition refines :: "region_manifest_builder \<Rightarrow> vc_data \<Rightarrow> bool" where
  "refines b d \<longleftrightarrow> builder_wf b \<and> sv_wf (v_ssts (vc_version d)) \<and> agrees b (vc_version d) \<and> positions_ok b d"

text \<open>Two versions that hold the same durable state.\<close>

definition durably_equal :: "version \<Rightarrow> version \<Rightarrow> bool" where
  "durably_equal v w \<longleftrightarrow>
     v_metadata v = v_metadata w
     \<and> (\<forall>l i. rel_option (\<lambda>h k. file_meta_eq (fh_meta h) (fh_meta k)) (sv_lookup (v_ssts v) l i) (sv_lookup (v_ssts w) l i))
     \<and> v_flushed_entry_id v = v_flushed_entry_id w \<and> v_flushed_sequence v = v_flushed_sequence w
     \<and> v_truncated_entry_id v = v_truncated_entry_id w \<and> v_compaction_time_window v = v_compaction_time_window w"

section \<open>Files\<close>

lemma ts_eq_trans: "ts_eq a b \<Longrightarrow> ts_eq b c \<Longrightarrow> ts_eq a c"
  and ts_eq_sym: "ts_eq a b \<Longrightarrow> ts_eq b a"
  by (simp_all add: ts_eq_iff)

lemma file_meta_eq_sym: "file_meta_eq a b \<Longrightarrow> file_meta_eq b a"
  by (cases a; cases b) (auto simp: file_meta_eq_def ts_eq_sym)

lemma file_meta_eq_trans: "file_meta_eq a b \<Longrightarrow> file_meta_eq b c \<Longrightarrow> file_meta_eq a c"
  by (cases a; cases b; cases c) (auto simp: file_meta_eq_def dest: ts_eq_trans)

lemma files_agreeD:
  assumes "files_agree s m"
  shows "hmap_get m i = Some f \<Longrightarrow> fm_level f = l \<Longrightarrow> \<exists>h. sv_lookup s l i = Some h \<and> file_meta_eq (fh_meta h) f"
    and "hmap_get m i = Some f \<Longrightarrow> fm_level f \<noteq> l \<Longrightarrow> sv_lookup s l i = None"
    and "hmap_get m i = None \<Longrightarrow> sv_lookup s l i = None"
    and "sv_lookup s l i = Some h \<Longrightarrow> \<exists>f. hmap_get m i = Some f \<and> fm_level f = l \<and> file_meta_eq (fh_meta h) f"
proof -
  have "rel_option (\<lambda>h f. file_meta_eq (fh_meta h) f) (sv_lookup s l i) (level_file m l i)"
    using assms by (simp add: files_agree_def)
  then show "hmap_get m i = Some f \<Longrightarrow> fm_level f = l \<Longrightarrow> \<exists>h. sv_lookup s l i = Some h \<and> file_meta_eq (fh_meta h) f"
    and "hmap_get m i = Some f \<Longrightarrow> fm_level f \<noteq> l \<Longrightarrow> sv_lookup s l i = None"
    and "hmap_get m i = None \<Longrightarrow> sv_lookup s l i = None"
    and "sv_lookup s l i = Some h \<Longrightarrow> \<exists>f. hmap_get m i = Some f \<and> fm_level f = l \<and> file_meta_eq (fh_meta h) f"
    by (auto simp: level_file_def option_rel_Some1 option_rel_Some2 split: option.splits if_splits)
qed

lemma files_agreeI:
  assumes "\<And>l i. rel_option (\<lambda>h f. file_meta_eq (fh_meta h) f) (sv_lookup s l i) (level_file m l i)"
  shows "files_agree s m"
  using assms by (simp add: files_agree_def)

lemma filter_distinct_key:
  "distinct (map k xs) \<Longrightarrow> filter (\<lambda>x. k x = i) xs = [] \<or> (\<exists>x \<in> set xs. k x = i \<and> filter (\<lambda>x. k x = i) xs = [x])"
proof (induction xs)
  case (Cons x xs)
  show ?case
  proof (cases "k x = i")
    case True
    with Cons.prems have "filter (\<lambda>x. k x = i) xs = []" by (auto simp: filter_empty_conv image_iff)
    with True show ?thesis by auto
  qed (use Cons in auto)
qed simp

lemma index_up_to_date_eq: "file_meta_eq a b \<Longrightarrow> is_index_up_to_date a f = is_index_up_to_date b f"
  using file_meta_eq_fields(4,5) [of a b] by (simp add: is_index_up_to_date_def exists_index_def)

lemma upsert_agrees:
  assumes "file_meta_eq (fh_meta h) g" and "file_meta_eq g f \<or> \<not> is_index_up_to_date g f"
  shows "file_meta_eq (fh_meta (upsert_handle (Some h) f)) f"
  using assms index_up_to_date_eq [OF assms(1), of f] file_meta_eq_trans [OF assms(1), of f]
  by (auto simp: upsert_handle_def)

text \<open>Adding files keeps manifest and version in agreement.\<close>

lemma files_agree_add:
  assumes "files_agree s m" and "distinct (map fm_file_id fs)" and "add_files fs s = Ret s'"
    and "\<And>f g. f \<in> set fs \<Longrightarrow> hmap_get m (fm_file_id f) = Some g \<Longrightarrow>
      fm_level g = fm_level f \<and> (file_meta_eq g f \<or> \<not> is_index_up_to_date g f)"
  shows "files_agree s' (fold (\<lambda>f. hmap_insert (fm_file_id f) f) fs m)"
proof (rule files_agreeI)
  fix l i
  have lk: "sv_lookup s' l i = put_all upsert_handle (filter (\<lambda>f. fm_level f = l) (filter (\<lambda>f. fm_file_id f = i) fs)) (sv_lookup s l i)"
    using add_files_lookup [OF assms(3), of l i] by (simp add: conj_commute)
  have m: "hmap_get (fold (\<lambda>f. hmap_insert (fm_file_id f) f) fs m) i = put_all (\<lambda>_ f. f) (filter (\<lambda>f. fm_file_id f = i) fs) (hmap_get m i)"
    by (rule insert_all_get)
  from filter_distinct_key [OF assms(2), of i]
  show "rel_option (\<lambda>h f. file_meta_eq (fh_meta h) f) (sv_lookup s' l i) (level_file (fold (\<lambda>f. hmap_insert (fm_file_id f) f) fs m) l i)"
  proof
    assume "filter (\<lambda>f. fm_file_id f = i) fs = []"
    with assms(1) show ?thesis unfolding lk level_file_def m by (simp add: files_agree_def level_file_def)
  next
    assume "\<exists>f \<in> set fs. fm_file_id f = i \<and> filter (\<lambda>f. fm_file_id f = i) fs = [f]"
    then obtain f where f: "f \<in> set fs" "fm_file_id f = i" "filter (\<lambda>f. fm_file_id f = i) fs = [f]" by blast
    show ?thesis
    proof (cases "fm_level f = l")
      case True
      have "file_meta_eq (fh_meta (upsert_handle (sv_lookup s l i) f)) f"
      proof (cases "sv_lookup s l i")
        case (Some h)
        then obtain g where "hmap_get m i = Some g" "file_meta_eq (fh_meta h) g"
          using files_agreeD(4) [OF assms(1)] by blast
        with Some assms(4) [OF f(1), of g] f(2) show ?thesis by (auto intro: upsert_agrees)
      qed (simp add: upsert_handle_def)
      with True f show ?thesis unfolding lk level_file_def m by (simp add: put_all_def)
    next
      case False
      have "sv_lookup s l i = None"
        using False assms(4) [OF f(1)] f(2) files_agreeD(2,3) [OF assms(1), of i] by (cases "hmap_get m i") auto
      with False f show ?thesis unfolding lk level_file_def m by (simp add: put_all_def)
    qed
  qed
qed

lemma files_agree_remove:
  assumes "files_agree s m" and "remove_files fs s = Ret (s', marked)"
    and "\<And>f g. f \<in> set fs \<Longrightarrow> hmap_get m (fm_file_id f) = Some g \<Longrightarrow> fm_level g = fm_level f"
  shows "files_agree s' (fold (\<lambda>f. hmap_remove (fm_file_id f)) fs m)"
proof (rule files_agreeI)
  fix l i
  let ?m = "fold (\<lambda>f. hmap_remove (fm_file_id f)) fs m"
  have m: "hmap_get ?m i = (if i \<in> fm_file_id ` set fs then None else hmap_get m i)" by (rule remove_all_get)
  have lk: "sv_lookup s' l i = (if \<exists>f \<in> set fs. fm_level f = l \<and> fm_file_id f = i then None else sv_lookup s l i)"
    by (rule remove_files_lookup [OF assms(2)])
  have "sv_lookup s' l i = None" if "i \<in> fm_file_id ` set fs"
  proof (rule ccontr)
    assume "sv_lookup s' l i \<noteq> None"
    then obtain h where h: "sv_lookup s l i = Some h" "\<not> (\<exists>f \<in> set fs. fm_level f = l \<and> fm_file_id f = i)"
      unfolding lk by (auto split: if_splits)
    from that obtain f where "f \<in> set fs" "fm_file_id f = i" by auto
    with h assms(3) files_agreeD(4) [OF assms(1) h(1)] show False by auto
  qed
  moreover have "sv_lookup s' l i = sv_lookup s l i" if "i \<notin> fm_file_id ` set fs" unfolding lk using that by auto
  ultimately show "rel_option (\<lambda>h f. file_meta_eq (fh_meta h) f) (sv_lookup s' l i) (level_file ?m l i)"
    using assms(1) by (cases "i \<in> fm_file_id ` set fs") (simp_all add: files_agree_def level_file_def m)
qed

section \<open>Each change keeps the agreement\<close>

lemma build_version_fields [simp]:
  "v_metadata (build_version b) = vb_metadata b" "v_memtables (build_version b) = vb_memtables b"
  "v_ssts (build_version b) = vb_ssts b" "v_flushed_entry_id (build_version b) = vb_flushed_entry_id b"
  "v_flushed_sequence (build_version b) = vb_flushed_sequence b" "v_truncated_entry_id (build_version b) = vb_truncated_entry_id b"
  "v_options (build_version b) = vb_options b"
  "v_compaction_time_window (build_version b) = effective_window (vb_options b) (vb_compaction_time_window b)"
  by (simp_all add: build_version_def effective_window_def)

lemma from_version_fields [simp]:
  "vb_metadata (from_version v) = v_metadata v" "vb_memtables (from_version v) = v_memtables v"
  "vb_ssts (from_version v) = v_ssts v" "vb_flushed_entry_id (from_version v) = v_flushed_entry_id v"
  "vb_flushed_sequence (from_version v) = v_flushed_sequence v" "vb_truncated_entry_id (from_version v) = v_truncated_entry_id v"
  "vb_options (from_version v) = v_options v" "vb_compaction_time_window (from_version v) = v_compaction_time_window v"
  by (simp_all add: from_version_def)

lemma effective_window_twice [simp]: "effective_window o1 (effective_window o1 w) = effective_window o1 w"
  by (simp add: effective_window_def split: option.splits)

lemma vb_apply_edit_fields:
  assumes "vb_apply_edit e v = Ret (b, m)"
  shows "\<exists>s1. add_files (re_files_to_add e) (vb_ssts v) = Ret s1
      \<and> (\<exists>m. remove_files (re_files_to_remove e) s1 = Ret (vb_ssts b, m))"
    "vb_metadata b = vb_metadata v" "vb_options b = vb_options v"
    "vb_flushed_entry_id b = max_option (vb_flushed_entry_id v) (re_flushed_entry_id e)"
    "vb_flushed_sequence b = max_option (vb_flushed_sequence v) (re_flushed_sequence e)"
    "vb_truncated_entry_id b = vb_truncated_entry_id v"
    "vb_compaction_time_window b = (case re_compaction_time_window e of Some w \<Rightarrow> Some w | None \<Rightarrow> vb_compaction_time_window v)"
  using assms by (auto simp: vb_apply_edit_def Let_def bind_outcome_Ret_iff add_files_def remove_files_def
      split: if_splits cong: option.case_cong)

lemma vc_apply_edit_builder:
  assumes "vc_apply_edit (Some e) ids d = Ret (d', marked)"
  shows "\<exists>b m mem. vb_apply_edit e (from_version (vc_version d)) = Ret (b, m)
    \<and> d' = d\<lparr>vc_committed_sequence := max_option (vc_committed_sequence d) (re_committed_sequence e),
        vc_version := build_version (b\<lparr>vb_memtables := mem\<rparr>)\<rparr>"
proof -
  obtain b m where b: "vb_apply_edit e (from_version (vc_version d)) = Ret (b, m)"
    and d': "d' = d\<lparr>vc_committed_sequence := max_option (vc_committed_sequence d) (re_committed_sequence e),
        vc_version := build_version (vb_remove_memtables ids b)\<rparr>"
    using assms by (auto simp: vc_apply_edit_def Let_def bind_outcome_Ret_iff max_option_def split: option.splits)
  have "vb_remove_memtables ids b = b\<lparr>vb_memtables := vb_memtables (vb_remove_memtables ids b)\<rparr>"
    by (simp add: vb_remove_memtables_def)
  with b d' show ?thesis by metis
qed

lemma vc_apply_edit_fields:
  assumes "vc_apply_edit (Some e) ids d = Ret (d', marked)"
  shows "\<exists>s1. add_files (re_files_to_add e) (v_ssts (vc_version d)) = Ret s1
      \<and> (\<exists>m. remove_files (re_files_to_remove e) s1 = Ret (v_ssts (vc_version d'), m))" (is ?files)
    "v_metadata (vc_version d') = v_metadata (vc_version d)" (is ?metadata)
    "v_options (vc_version d') = v_options (vc_version d)" (is ?options)
    "v_flushed_entry_id (vc_version d') = max_option (v_flushed_entry_id (vc_version d)) (re_flushed_entry_id e)" (is ?entry)
    "v_flushed_sequence (vc_version d') = max_option (v_flushed_sequence (vc_version d)) (re_flushed_sequence e)" (is ?sequence)
    "v_truncated_entry_id (vc_version d') = v_truncated_entry_id (vc_version d)" (is ?truncated)
    "v_compaction_time_window (vc_version d') = effective_window (v_options (vc_version d))
       (case re_compaction_time_window e of Some w \<Rightarrow> Some w | None \<Rightarrow> v_compaction_time_window (vc_version d))" (is ?window)
    "vc_committed_sequence d' = max_option (vc_committed_sequence d) (re_committed_sequence e)" (is ?committed)
    "vc_last_entry_id d' = vc_last_entry_id d" (is ?last)
proof -
  obtain b m mem where b: "vb_apply_edit e (from_version (vc_version d)) = Ret (b, m)"
    and d': "d' = d\<lparr>vc_committed_sequence := max_option (vc_committed_sequence d) (re_committed_sequence e),
        vc_version := build_version (b\<lparr>vb_memtables := mem\<rparr>)\<rparr>"
    using vc_apply_edit_builder [OF assms] by blast
  from vb_apply_edit_fields [OF b]
  show ?files ?metadata ?options ?entry ?sequence ?truncated ?window ?committed ?last
    by (simp_all add: d' cong: option.case_cong)
qed

lemma refines_edit:
  assumes "refines b d" and "edit_ok b d e" and "vc_apply_edit (Some e) ids d = Ret (d', marked)"
  shows "refines (apply_edit now ver e b) d'"
proof -
  note f = vc_apply_edit_fields [OF assms(3)]
  obtain s1 m where s1: "add_files (re_files_to_add e) (v_ssts (vc_version d)) = Ret s1"
    and s2: "remove_files (re_files_to_remove e) s1 = Ret (v_ssts (vc_version d'), m)" using f(1) by blast
  have wf: "builder_wf b" "sv_wf (v_ssts (vc_version d))" and a: "agrees b (vc_version d)" and p: "positions_ok b d"
    using assms(1) by (simp_all add: refines_def)
  have "files_agree s1 (fold (\<lambda>f. hmap_insert (fm_file_id f) f) (re_files_to_add e) (b_files b))"
    using a assms(2) s1 by (intro files_agree_add) (auto simp: agrees_def edit_ok_def)
  then have fa: "files_agree (v_ssts (vc_version d')) (b_files (apply_edit now ver e b))"
    unfolding apply_edit_files using assms(2) by (intro files_agree_remove [OF _ s2]) (auto simp: edit_ok_def)
  have "sv_wf (v_ssts (vc_version d'))" using sv_wf_add_files [OF wf(2) s1] sv_wf_remove_files s2 by blast
  moreover have "builder_wf (apply_edit now ver e b)"
    using builder_wf_action [OF wf(1), of _ "\<lambda>_ _. now" ver "Edit e"] by simp
  moreover have "agrees (apply_edit now ver e b) (vc_version d')"
    using a fa by (auto simp: agrees_def f apply_edit_scalars effective_window_def split: option.splits)
  moreover have "positions_ok (apply_edit now ver e b) d'"
    using p assms(2) by (auto simp: positions_ok_def f apply_edit_scalars edit_ok_def max_option_def merge_max_def split: option.splits)
  ultimately show ?thesis by (simp add: refines_def)
qed

text \<open>The agreement reads of a manifest only what its files, positions and metadata say.\<close>

lemma files_agree_cong: "(\<And>i. hmap_get m i = hmap_get m' i) \<Longrightarrow> files_agree s m = files_agree s m'"
  by (simp add: files_agree_def level_file_def)

lemma refines_cong:
  assumes "edit_agree b1 b2" and "b_metadata b1 = b_metadata b2" and "b_truncated_entry_id b1 = b_truncated_entry_id b2"
    and "builder_wf b2" and "refines b1 d"
  shows "refines b2 d"
  using assms files_agree_cong [of "b_files b1" "b_files b2"]
  by (auto simp: refines_def edit_agree_def agrees_def positions_ok_def)

lemma refines_forget: "forget b1 = forget b2 \<Longrightarrow> refines b1 d = refines b2 d"
  by (cases b1; cases b2) (simp add: forget_def refines_def agrees_def positions_ok_def builder_wf_def)

lemma sv_lookup_new [simp]: "sv_lookup sst_version_new l i = None"
  by (simp add: sv_lookup_def level_get_def sst_version_new_def new_level_meta_vec_def level_meta_new_def nth_append
      bind_eq_None_conv)

lemma all_handles_lookup:
  assumes "sv_wf s" and "h \<in> set (all_handles s)"
  shows "sv_lookup s (fm_level (fh_meta h)) (fm_file_id (fh_meta h)) = Some h"
proof -
  obtain l where l: "l < length (sv_levels s)" "h \<in> set (hmap_values (lm_files (sv_levels s ! l)))"
    using assms(2) by (auto simp: all_handles_def in_set_conv_nth [of _ "sv_levels s"])
  moreover have "hmap_wf (lm_files (sv_levels s ! l))" using assms(1) l(1) by (simp add: sv_wf_def levels_wf_def)
  ultimately obtain i where "hmap_get (lm_files (sv_levels s ! l)) i = Some h" by (auto simp: hmap_values_get)
  with l have "sv_lookup s l i = Some h" by (simp add: sv_lookup_def level_get_def)
  moreover with assms(1) have "fm_file_id (fh_meta h) = i" "fm_level (fh_meta h) = l" by (auto simp: sv_wf_def)
  ultimately show ?thesis by simp
qed

lemmas setter_defs = set_memtables_def set_metadata_def set_flushed_entry_id_def set_flushed_sequence_def
  set_truncated_entry_id_def set_compaction_time_window_def set_options_def clear_files_def

lemma refines_truncate:
  assumes "refines b d" and "handle_truncate_request req d = TruncateAction kind"
    and "vc_truncate unit_of kind d = Ret (d', marked)"
  shows "refines (apply_truncate now ver \<lparr>rt_region_id = region, rt_kind = kind, rt_timestamp_ms = ms\<rparr> b) d'"
proof -
  have wf: "builder_wf b" "sv_wf (v_ssts (vc_version d))" and a: "agrees b (vc_version d)" and p: "positions_ok b d"
    using assms(1) by (simp_all add: refines_def)
  let ?t = "\<lparr>rt_region_id = region, rt_kind = kind, rt_timestamp_ms = ms\<rparr>"
  have bw: "builder_wf (apply_truncate now ver ?t b)"
    using builder_wf_action [OF wf(1), of _ "\<lambda>_ _. now" ver "Truncate ?t"] by simp
  show ?thesis
  proof (cases kind)
    case (TruncateAll entry_id sequence)
    have k: "entry_id = vc_last_entry_id d" "sequence = vc_committed_sequence d"
      using assms(2) TruncateAll by (auto simp: handle_truncate_request_def Let_def split: truncate_request.splits if_splits)
    have "files_agree sst_version_new []" by (simp add: files_agree_def level_file_def)
    with a p bw assms(3) show ?thesis
      by (auto simp: TruncateAll vc_truncate_def Let_def refines_def agrees_def positions_ok_def apply_truncate_def setter_defs k sv_wf_new)
  next
    case (TruncatePartial fs)
    obtain ranges where fs: "fs = files_to_truncate ranges (v_ssts (vc_version d))"
      using assms(2) TruncatePartial by (auto simp: handle_truncate_request_def Let_def split: truncate_request.splits if_splits)
    obtain s where s: "remove_files fs (v_ssts (vc_version d)) = Ret (s, marked)"
      and d': "d' = d\<lparr>vc_version := build_version ((from_version (vc_version d))\<lparr>vb_ssts := s\<rparr>)\<rparr>"
      using assms(3) by (auto simp: TruncatePartial vc_truncate_def vb_remove_files_def bind_outcome_Ret_iff Let_def)
    have fa: "files_agree (v_ssts (vc_version d)) (b_files b)" using a by (simp add: agrees_def)
    have "fm_level g = fm_level f" if "f \<in> set fs" "hmap_get (b_files b) (fm_file_id f) = Some g" for f g
      using that all_handles_lookup [OF wf(2)] files_agreeD(4) [OF fa] by (fastforce simp: fs files_to_truncate_def)
    then have "files_agree s (fold (\<lambda>f. hmap_remove (fm_file_id f)) fs (b_files b))"
      by (intro files_agree_remove [OF fa s]) auto
    moreover have "sv_wf s" using sv_wf_remove_files [OF wf(2) s] .
    ultimately show ?thesis
      using a p bw by (simp add: TruncatePartial refines_def agrees_def positions_ok_def apply_truncate_def d')
  qed
qed

lemma refines_discard:
  assumes "refines b d" and "handle_truncate_request req d = DiscardAction entry_id sequence"
  shows "refines (apply_edit now ver (discard_edit entry_id sequence) b) (discard_unflushed unit_of entry_id sequence d)"
proof -
  have k: "entry_id = vc_last_entry_id d" "sequence = vc_committed_sequence d"
    using assms(2) by (auto simp: handle_truncate_request_def Let_def split: truncate_request.splits if_splits)
  have "builder_wf (apply_edit now ver (discard_edit entry_id sequence) b)"
    using builder_wf_action [of b _ "\<lambda>_ _. now" ver "Edit (discard_edit entry_id sequence)"] assms(1) by (simp add: refines_def)
  then show ?thesis
    using assms(1) by (auto simp: refines_def agrees_def positions_ok_def discard_unflushed_def Let_def setter_defs apply_edit_scalars
        apply_edit_files discard_edit_def edit_empty_def max_option_def merge_max_def k split: option.splits)
qed

lemma window_kept_agrees:
  assumes "window_kept d options" and "v_compaction_time_window (vc_version d) = effective_window (v_options (vc_version d)) w"
  shows "effective_window options (v_compaction_time_window (vc_version d)) = effective_window options w"
  using assms by (auto simp: window_kept_def effective_window_def split: option.splits)

lemma refines_change:
  assumes "refines b d" and "\<And>options. new_options = Some options \<Longrightarrow> window_kept d options"
  shows "refines (apply_change ver c b) (update_region_version config (rc_metadata c) new_options d)"
proof (cases new_options)
  case None
  with assms(1) show ?thesis
    by (simp add: refines_def agrees_def positions_ok_def update_region_version_def alter_schema_def Let_def setter_defs
        apply_change_def builder_wf_def)
next
  case (Some options)
  have "effective_window options (v_compaction_time_window (vc_version d)) = effective_window options (b_compaction_time_window b)"
    using assms(1) by (intro window_kept_agrees [OF assms(2) [OF Some]]) (simp add: refines_def agrees_def)
  with assms(1) Some show ?thesis
    by (simp add: refines_def agrees_def positions_ok_def update_region_version_def alter_schema_and_format_def Let_def setter_defs
        apply_change_def builder_wf_def)
qed

subsection \<open>Leaving staging\<close>

lemma set_partition_expr_twice [simp]:
  "set_partition_expr pev x (set_partition_expr pev y m) = set_partition_expr pev x m"
  by (simp add: set_partition_expr_def)

definition staged_metadata :: "expr_hash \<Rightarrow> string option option \<Rightarrow> region_change option \<Rightarrow> region_metadata \<Rightarrow> region_metadata" where
  "staged_metadata pev p rc m =
     (case rc of
        Some c \<Rightarrow> rc_metadata c
      | None \<Rightarrow> (case p of Some expr \<Rightarrow> set_partition_expr pev expr m | None \<Rightarrow> m))"

lemma actions_metadata:
  assumes "b_metadata b = Some (staged_metadata pev p rc m)" and "\<forall>a \<in> set as. \<not> is_truncate a"
    and "(\<not> list_ex is_change as \<and> rc = None) \<or> (\<not> list_ex is_partition_expr_change as \<and> p = None)"
  shows "b_metadata (apply_actions pev clk ver as b) =
      Some (staged_metadata pev (fst (fold split_step as (p, rc, e))) (fst (snd (fold split_step as (p, rc, e)))) m)
    \<and> b_truncated_entry_id (apply_actions pev clk ver as b) = b_truncated_entry_id b"
  using assms
proof (induction as arbitrary: b p rc e)
  case (Cons a as)
  show ?case
  proof (cases a)
    case (Change c)
    with Cons.prems Cons.IH [of "apply_change ver c b" p "Some c" e] show ?thesis
      by (auto simp: apply_actions_def staged_metadata_def apply_change_def)
  next
    case (PartitionExprChange expr)
    with Cons.prems Cons.IH [of "apply_partition_expr_change pev ver expr b" "Some expr" rc e] show ?thesis
      by (auto simp: apply_actions_def staged_metadata_def apply_partition_expr_change_def split: option.splits)
  next
    case (Edit f)
    with Cons.prems Cons.IH [of "apply_edit (clk ver a) ver f b" p rc "merge_edit e f"] show ?thesis
      by (auto simp: apply_actions_def apply_edit_scalars)
  next
    case (Remove x)
    with Cons.prems Cons.IH [of b p rc e] show ?thesis by (auto simp: apply_actions_def)
  qed (use Cons.prems in auto)
qed (simp add: apply_actions_def)

lemma alter_metadata_twice [simp]: "alter_metadata m (alter_metadata m' d) = alter_metadata m d"
  by (simp add: alter_metadata_def setter_defs build_version_def from_version_def split: option.splits)

lemma refines_metadata:
  "refines b d \<Longrightarrow> refines (b\<lparr>b_metadata := Some m\<rparr>) (alter_metadata m d)"
  by (simp add: refines_def agrees_def positions_ok_def alter_metadata_def setter_defs builder_wf_def)

lemma alter_metadata_id:
  assumes "agrees b (vc_version d)" shows "alter_metadata (v_metadata (vc_version d)) d = d"
proof -
  have "v_compaction_time_window (vc_version d) = effective_window (v_options (vc_version d)) (b_compaction_time_window b)"
    using assms by (simp add: agrees_def)
  then have "build_version (from_version (vc_version d)) = vc_version d"
    by (intro version.equality) (simp_all)
  then show ?thesis by (simp add: alter_metadata_def set_metadata_def from_version_def)
qed

lemma publish_staged_apply_edit:
  assumes "agrees b (vc_version d)"
  shows "publish_staged pev merged d = vc_apply_edit (Some (split_edit merged)) []
    (alter_metadata (staged_metadata pev (fst (split_region_change_and_edit merged))
       (fst (snd (split_region_change_and_edit merged))) (v_metadata (vc_version d))) d)"
proof -
  obtain p rc e where "split_region_change_and_edit merged = (p, rc, e)" by (rule prod_cases3)
  then show ?thesis
    using alter_metadata_id [OF assms] by (simp add: publish_staged_def staged_metadata_def split: option.splits)
qed

lemma refines_staged:
  assumes "refines b d" and "check_staged (v_metadata (vc_version d)) merged" and "\<forall>a \<in> set merged. \<not> is_truncate a"
    and "no_readd merged" and "edit_ok b d (split_edit merged)" and "publish_staged pev merged d = Ret (d', marked)"
  shows "refines (apply_actions pev clk ver merged b) d'"
proof -
  define m where "m = staged_metadata pev (fst (split_region_change_and_edit merged))
    (fst (snd (split_region_change_and_edit merged))) (v_metadata (vc_version d))"
  have a: "agrees b (vc_version d)" using assms(1) by (simp add: refines_def)
  have ok: "edit_ok (b\<lparr>b_metadata := Some m\<rparr>) (alter_metadata m d) (split_edit merged)"
    using assms(5) by (simp add: edit_ok_def alter_metadata_def)
  have ap: "vc_apply_edit (Some (split_edit merged)) [] (alter_metadata m d) = Ret (d', marked)"
    using assms(6) publish_staged_apply_edit [OF a, of pev merged] by (simp add: m_def)
  note r = refines_edit [OF refines_metadata [OF assms(1)] ok ap, of 0 0]
  have md: "b_metadata (apply_actions pev clk ver merged b) = Some m
      \<and> b_truncated_entry_id (apply_actions pev clk ver merged b) = b_truncated_entry_id b"
    unfolding m_def split_region_change_and_edit_def
    by (rule actions_metadata)
      (use a assms(2,3) in \<open>auto simp: agrees_def staged_metadata_def check_staged_def Let_def\<close>)
  have "edit_agree (apply_edit 0 0 (split_edit merged) (b\<lparr>b_metadata := Some m\<rparr>)) (apply_edit 0 0 (split_edit merged) b)"
    by (simp add: edit_agree_def apply_edit_get apply_edit_scalars cong: option.case_cong)
  then have e: "edit_agree (apply_edit 0 0 (split_edit merged) (b\<lparr>b_metadata := Some m\<rparr>)) (apply_actions pev clk ver merged b)"
    by (rule edit_agree_trans) (rule edit_agree_sym [OF split_edit_sequential [OF assms(3,4)]])
  show ?thesis
    by (rule refines_cong [OF e _ _ _ r])
      (use md assms(1) in \<open>simp_all add: apply_edit_scalars builder_wf_actions refines_def\<close>)
qed

lemma refines_published:
  assumes "published config pev b actions d d'" and "refines b d"
  shows "refines (apply_actions pev clk ver actions b) d'"
  using assms
proof (cases rule: published.cases)
  case (published_edit e ids marked)
  with assms(2) show ?thesis by (simp add: apply_actions_def refines_edit)
next
  case (published_truncate req kind marked region)
  with assms(2) show ?thesis by (simp add: apply_actions_def refines_truncate)
next
  case (published_discard req entry_id sequence)
  with assms(2) show ?thesis by (simp add: apply_actions_def refines_discard)
next
  case (published_change new_options c)
  with assms(2) show ?thesis by (simp add: apply_actions_def refines_change)
next
  case (published_staged marked)
  with assms(2) show ?thesis by (simp add: refines_staged)
qed

lemma published_effective:
  assumes "published config pev b actions d d'" shows "effective actions"
  using assms
proof (cases rule: published.cases)
  case (published_staged marked)
  then obtain a where a: "a \<in> set actions" "is_edit a" by (auto simp: check_staged_def Let_def list_ex_iff)
  have "\<not> is_remove a" using a(2) by (cases a rule: is_edit.cases) auto
  with a(1) show ?thesis by (auto simp: effective_def list_ex_iff)
qed (auto simp: effective_def)

subsection \<open>Changes of the version alone\<close>

lemma set_mutable_same [simp]: "set_mutable (vc_mutable d) d = d"
  by (simp add: set_mutable_def)

definition same_context :: "write_ctx \<times> vc_data \<Rightarrow> write_ctx \<times> vc_data \<Rightarrow> bool" where
  "same_context s s' \<longleftrightarrow> (\<exists>tp. snd s' = set_mutable tp (snd s)) \<and> wc_next_sequence (fst s') = wc_next_sequence (fst s)
     \<and> wc_next_entry_id (fst s') = wc_next_entry_id (fst s)"

lemma same_context_refl [simp]: "same_context s s"
  by (simp add: same_context_def) (metis set_mutable_same)

lemma same_context_trans: "same_context s s' \<Longrightarrow> same_context s' s2 \<Longrightarrow> same_context s s2"
  by (auto simp: same_context_def)

lemma fold_same_context:
  assumes "fold_outcome f xs s = Ret s'" and "\<And>x s s'. f x s = Ret s' \<Longrightarrow> same_context s s'"
  shows "same_context s s'"
  by (rule fold_outcome_invariant [OF assms(1), of "same_context s"]) (auto intro: same_context_trans assms(2))

lemma write_memtable_frame:
  assumes "write_memtable ao cv order (ctx, d) = Ret s'"
  shows "same_context (ctx, d) s'"
proof (cases "wc_failed ctx")
  case False
  then obtain xs where "fold_outcome (write_mutation ao cv) xs (ctx\<lparr>wc_wal_entry := (wc_wal_entry ctx)\<lparr>we_mutations := []\<rparr>\<rparr>, d) = Ret s'"
    using assms by (auto simp: write_memtable_def Let_def)
  moreover have "same_context s s'" if "write_mutation ao cv x s = Ret s'" for x s s'
    using that by (cases x; cases s) (auto simp: bind_outcome_Ret_iff same_context_def split: if_splits)
  ultimately have "same_context (ctx\<lparr>wc_wal_entry := (wc_wal_entry ctx)\<lparr>we_mutations := []\<rparr>\<rparr>, d) s'"
    by (rule fold_same_context)
  then show ?thesis by (simp add: same_context_def)
qed (use assms in \<open>simp add: write_memtable_def\<close>)

lemma write_bulk_frame:
  assumes "write_bulk ao cv order (ctx, d) = Ret s'"
  shows "same_context (ctx, d) s'"
proof (cases "wc_failed ctx \<or> wc_bulk_parts ctx = []")
  case False
  then obtain xs where "fold_outcome (write_bulk_task ao cv) xs (ctx\<lparr>wc_bulk_parts := []\<rparr>, d) = Ret s'"
    using assms by (auto simp: write_bulk_def Let_def)
  moreover have "same_context s s'" if "write_bulk_task ao cv x s = Ret s'" for x s s'
    using that by (cases x; cases s) (auto simp: bind_outcome_Ret_iff same_context_def)
  ultimately have "same_context (ctx\<lparr>wc_bulk_parts := []\<rparr>, d) s'" by (rule fold_same_context)
  then show ?thesis by (simp add: same_context_def)
qed (use assms in \<open>auto simp: write_bulk_def\<close>)

lemma write_region_frame:
  assumes "write_region_ctx ao cv ord (ctx, d) = Ret (ctx', d')"
  shows "\<exists>tp. d' = set_mutable tp d \<or>
    d' = set_sequence_and_entry_id (usize_sub (wc_next_sequence ctx) 1) (usize_sub (wc_next_entry_id ctx) 1) (set_mutable tp d)"
proof -
  obtain ctx1 d1 ctx2 d2 where w1: "write_memtable ao cv (to_mutations ord) (ctx, d) = Ret (ctx1, d1)"
    and w2: "write_bulk ao cv (to_bulk ord) (ctx1, d1) = Ret (ctx2, d2)"
    and d': "d' = publish_sequence_and_entry_id ctx2 d2"
    using assms by (auto simp: write_region_ctx_def bind_outcome_Ret_iff)
  have "same_context (ctx, d) (ctx1, d1)" by (rule write_memtable_frame [OF w1])
  moreover have "same_context (ctx1, d1) (ctx2, d2)" by (rule write_bulk_frame [OF w2])
  ultimately have "same_context (ctx, d) (ctx2, d2)" by (rule same_context_trans)
  then show ?thesis by (auto simp: d' publish_sequence_and_entry_id_def same_context_def)
qed

lemma refines_unpublished:
  assumes "unpublished d d'" and "refines b d"
  shows "refines b d'"
  using assms(1)
proof (cases rule: unpublished.cases)
  case (unpublished_options options)
  have "effective_window options (v_compaction_time_window (vc_version d)) = effective_window options (b_compaction_time_window b)"
    using assms(2) by (intro window_kept_agrees [OF unpublished_options(2)]) (simp add: refines_def agrees_def)
  with assms(2) unpublished_options show ?thesis
    by (simp add: refines_def agrees_def positions_ok_def alter_options_def setter_defs)
next
  case unpublished_freeze
  then obtain mem where "d' = d \<or> d' = d\<lparr>vc_version := build_version (set_memtables mem (from_version (vc_version d)))\<rparr>"
    by (auto simp: vc_freeze_mutable_def Let_def bind_outcome_Ret_iff split: option.splits)
  with assms(2) show ?thesis by (auto simp: refines_def agrees_def positions_ok_def setter_defs)
next
  case (unpublished_flush ids marked)
  then have "d' = d\<lparr>vc_version := build_version (vb_remove_memtables ids (from_version (vc_version d)))\<rparr>"
    by (simp add: vc_apply_edit_def)
  with assms(2) show ?thesis by (simp add: refines_def agrees_def positions_ok_def vb_remove_memtables_def)
next
  case (unpublished_write ctx ao cv ord ctx')
  have u: "usize_sub n (Suc 0) = n - 1" if "m < n" for n m :: nat using that by (simp add: usize_sub_def)
  from write_region_frame [OF unpublished_write(3)] unpublished_write(1,2) assms(2) show ?thesis
    by (auto simp: refines_def agrees_def positions_ok_def set_mutable_def set_sequence_and_entry_id_def u)
qed

subsection \<open>Reopening\<close>

lemma manifest_files_rebuild:
  assumes "builder_wf b"
  shows "hmap_get (fold (\<lambda>f. hmap_insert (fm_file_id f) f) (hmap_values (b_files b)) []) i = hmap_get (b_files b) i"
    and "distinct (map fm_file_id (hmap_values (b_files b)))"
proof -
  have wf: "hmap_wf (b_files b)" and id: "\<And>i f. hmap_get (b_files b) i = Some f \<Longrightarrow> fm_file_id f = i"
    using assms by (auto simp: builder_wf_def)
  have "map fm_file_id (hmap_values (b_files b)) = map fst (b_files b)"
    using wf id by (auto simp: hmap_values_def hmap_wf_def)
  then show d: "distinct (map fm_file_id (hmap_values (b_files b)))" using wf by (simp add: hmap_wf_def)
  let ?fs = "filter (\<lambda>f. fm_file_id f = i) (hmap_values (b_files b))"
  show "hmap_get (fold (\<lambda>f. hmap_insert (fm_file_id f) f) (hmap_values (b_files b)) []) i = hmap_get (b_files b) i"
  proof (cases "hmap_get (b_files b) i")
    case None
    then have "?fs = []" using id wf by (auto simp: filter_empty_conv hmap_values_get)
    with None show ?thesis by (simp add: insert_all_get)
  next
    case (Some f)
    then have "f \<in> set ?fs" using id wf by (auto simp: hmap_values_get)
    then have "?fs = [f]" using filter_distinct_key [OF d, of i] by (metis empty_iff empty_set set_ConsD)
    with Some show ?thesis by (simp add: insert_all_get put_all_def)
  qed
qed

lemma open_version_agrees:
  assumes "builder_wf (with_checkpoint (Some m))" and "\<And>i f. hmap_get (m_files m) i = Some f \<Longrightarrow> fm_level f < MAX_LEVEL"
  shows "\<exists>v. open_version config m (m_metadata m) options = Ret v \<and> sv_wf (v_ssts v) \<and> agrees (with_checkpoint (Some m)) v
    \<and> co_time_window (ro_compaction (v_options v)) = co_time_window (ro_compaction options)
    \<and> mv_is_empty (v_memtables v)"
proof -
  have w: "b_files (with_checkpoint (Some m)) = m_files m" by (simp add: with_checkpoint_def)
  have "hmap_wf (m_files m)" using assms(1) by (simp add: builder_wf_def w)
  then have "\<forall>f \<in> set (hmap_values (m_files m)). fm_level f < length (sv_levels sst_version_new)"
    using assms(2) sv_wf_new by (auto simp: hmap_values_get sv_wf_def)
  then obtain s where s: "add_files (hmap_values (m_files m)) sst_version_new = Ret s"
    using add_files_Panic [of "hmap_values (m_files m)" sst_version_new] by (cases "add_files (hmap_values (m_files m)) sst_version_new") auto
  have "files_agree s (fold (\<lambda>f. hmap_insert (fm_file_id f) f) (hmap_values (m_files m)) [])"
    using manifest_files_rebuild(2) [OF assms(1)] s by (intro files_agree_add) (auto simp: w files_agree_def level_file_def)
  then have fa: "files_agree s (m_files m)"
    by (rule iffD1 [OF files_agree_cong [OF manifest_files_rebuild(1) [OF assms(1), unfolded w]]])
  define o1 where "o1 = sanitize_region_options m options"
  have san: "co_time_window (ro_compaction o1) = co_time_window (ro_compaction options)"
    by (simp add: o1_def sanitize_region_options_def Let_def split: option.splits)
  define mutable where "mutable = tp_new (m_metadata m) (oc_unit_of config (m_metadata m))
    (builder_for_options (oc_default_flat_format config) o1) 0
    (case co_time_window (ro_compaction o1) of Some w \<Rightarrow> Some w | None \<Rightarrow> m_compaction_time_window m)"
  let ?b = "\<lparr>vb_metadata = m_metadata m, vb_memtables = mv_new mutable, vb_ssts = s, vb_flushed_entry_id = m_flushed_entry_id m,
    vb_flushed_sequence = m_flushed_sequence m, vb_truncated_entry_id = m_truncated_entry_id m,
    vb_compaction_time_window = m_compaction_time_window m, vb_options = o1\<rparr>"
  have "version_builder_from_manifest m (m_metadata m) mutable o1 = Ret ?b"
    by (simp add: version_builder_from_manifest_def vb_add_files_def version_builder_new_def s setter_defs)
  then have "open_version config m (m_metadata m) options = Ret (build_version ?b)"
    unfolding open_version_def Let_def o1_def [symmetric] mutable_def [symmetric] by simp
  moreover have "agrees (with_checkpoint (Some m)) (build_version ?b)"
    using fa by (simp add: agrees_def with_checkpoint_def)
  moreover have "mv_is_empty (mv_new mutable)"
    by (simp add: mv_is_empty_def mv_new_def tp_is_empty_def mutable_def tp_new_def)
  ultimately show ?thesis using sv_wf_add_files [OF sv_wf_new s] san by simp
qed

lemma sv_lookup_level: "sv_wf s \<Longrightarrow> sv_lookup s l i = Some h \<Longrightarrow> l < MAX_LEVEL"
  by (auto simp: sv_wf_def sv_lookup_def level_get_def bind_eq_Some_conv split: if_splits)

lemma refines_levels: "refines b d \<Longrightarrow> hmap_get (b_files b) i = Some f \<Longrightarrow> fm_level f < MAX_LEVEL"
  using files_agreeD(1) [of "v_ssts (vc_version d)" "b_files b" i f] sv_lookup_level
  by (fastforce simp: refines_def agrees_def)

lemma agrees_forget: "forget b1 = forget b2 \<Longrightarrow> agrees b1 v = agrees b2 v \<and> builder_wf b1 = builder_wf b2 \<and> b_files b1 = b_files b2"
  by (cases b1; cases b2) (simp add: forget_def agrees_def builder_wf_def)

lemma agrees_durably_equal:
  assumes "agrees b v" and "agrees b w"
    and "co_time_window (ro_compaction (v_options v)) = co_time_window (ro_compaction (v_options w))"
  shows "durably_equal v w"
proof -
  have "rel_option (\<lambda>h k. file_meta_eq (fh_meta h) (fh_meta k)) (sv_lookup (v_ssts v) l i) (sv_lookup (v_ssts w) l i)" for l i
  proof -
    have "rel_option (\<lambda>h f. file_meta_eq (fh_meta h) f) (sv_lookup (v_ssts v) l i) (level_file (b_files b) l i)"
      "rel_option (\<lambda>h f. file_meta_eq (fh_meta h) f) (sv_lookup (v_ssts w) l i) (level_file (b_files b) l i)"
      using assms(1,2) by (simp_all add: agrees_def files_agree_def)
    then show ?thesis
      by (cases "level_file (b_files b) l i") (auto simp: option_rel_Some2 elim!: file_meta_eq_trans intro: file_meta_eq_sym)
  qed
  with assms show ?thesis by (auto simp: durably_equal_def agrees_def effective_window_def)
qed

text \<open>What opening the manifest of a live region gives.\<close>

lemma reopen_agrees:
  assumes "refines b d" and "forget (with_checkpoint (Some m)) = forget b"
  shows "\<exists>v. open_version config m (m_metadata m) options = Ret v \<and> sv_wf (v_ssts v) \<and> agrees b v
    \<and> co_time_window (ro_compaction (v_options v)) = co_time_window (ro_compaction options) \<and> mv_is_empty (v_memtables v)"
proof -
  note f = agrees_forget [OF assms(2)]
  have "builder_wf (with_checkpoint (Some m))" using f assms(1) by (simp add: refines_def)
  moreover have "fm_level g < MAX_LEVEL" if "hmap_get (m_files m) i = Some g" for i g
    using refines_levels [OF assms(1), of i g] f that by (simp add: with_checkpoint_def)
  ultimately show ?thesis using open_version_agrees [of m config options] f by auto
qed

lemma reopen_refines:
  assumes "refines b d" and "forget (with_checkpoint (Some m)) = forget b"
    and "open_region config env m (m_metadata m) options None True = Ret (Inr d')"
  shows "refines b d'"
proof -
  obtain v where v: "open_version config m (m_metadata m) options = Ret v" "sv_wf (v_ssts v)" "agrees b v"
    using reopen_agrees [OF assms(1,2)] by blast
  have c: "m_committed_sequence m = b_committed_sequence b"
    using assms(2) by (cases b) (simp add: forget_def with_checkpoint_def)
  have d': "d' = (case m_committed_sequence m of None \<Rightarrow> vc_new v
      | Some committed \<Rightarrow> if committed > vc_committed_sequence (vc_new v) then set_committed_sequence committed (vc_new v) else vc_new v)"
    using assms(3) by (auto simp: open_region_def v(1) Let_def split: option.splits)
  show ?thesis
    using assms(1) v by (auto simp: d' c refines_def positions_ok_def vc_new_def set_committed_sequence_def max_option_def split: option.splits)
qed

definition run_ok :: "expr_hash \<Rightarrow> region_run_state \<Rightarrow> bool" where
  "run_ok pev s = (case s of (h, mgr, d) \<Rightarrow> recoverable pev h mgr \<and> refines (manifest_of pev h) d)"

lemma run_ok_step:
  assumes "region_run config opts pev s s'" and "run_ok pev s"
  shows "run_ok pev s'"
  using assms(1)
proof (cases rule: region_run.cases)
  case (run_publish h actions d d' mgr clk allow_checkpoint version mgr')
  have r: "recoverable pev h mgr" "refines (manifest_of pev h) d" using assms(2) run_publish by (simp_all add: run_ok_def)
  have "recoverable pev (h @ [(version, actions)]) mgr'"
    by (rule recoverable_update [OF r(1) published_effective [OF run_publish(3)] run_publish(4,5)])
  moreover have "manifest_of pev (h @ [(version, actions)]) = apply_actions pev (\<lambda>_ _. 0) version actions (manifest_of pev h)"
    by (simp add: manifest_of_def replay_def)
  ultimately show ?thesis using refines_published [OF run_publish(3) r(2)] run_publish by (simp add: run_ok_def)
next
  case (run_manager h mgr mgr' d)
  with assms(2) recoverable_step [OF run_manager(3)] show ?thesis by (simp add: run_ok_def)
next
  case (run_version d d' h mgr)
  with assms(2) refines_unpublished [OF run_version(3)] show ?thesis by (simp add: run_ok_def)
next
  case (run_reopen clk mgr mgr' options d env d' h)
  have r: "recoverable pev h mgr" "refines (manifest_of pev h) d" using assms(2) run_reopen by (simp_all add: run_ok_def)
  have r': "recoverable pev h mgr'"
    using recoverable_step [OF manager_step.restart [OF run_reopen(3)], of h] r by simp
  then have "refines (manifest_of pev h) d'"
    by (intro reopen_refines [OF r(2) _ run_reopen(5)]) (simp add: recoverable_def)
  with r' run_reopen show ?thesis by (simp add: run_ok_def)
qed

lemma run_ok_steps:
  assumes "(region_run config opts pev)\<^sup>*\<^sup>* s s'" and "run_ok pev s"
  shows "run_ok pev s'"
  using assms by (induction rule: rtranclp_induct) (auto intro: run_ok_step)

definition created_region :: "open_config \<Rightarrow> region_metadata \<Rightarrow> region_options \<Rightarrow> vc_data" where
  "created_region config metadata options = vc_new (create_version config metadata options 0)"

lemma created_run_ok:
  assumes "manager_new metadata 0 sst_format empty_store = Inr mgr"
  shows "run_ok pev (created_history metadata 0 sst_format, mgr, created_region config metadata options)"
proof -
  have b: "manifest_of pev (created_history metadata 0 sst_format)
      = apply_change 0 \<lparr>rc_metadata = metadata, rc_sst_format = sst_format, rc_append_mode = None\<rparr> builder_default"
    by (simp add: manifest_of_def created_history_def creation_actions_def replay_def apply_actions_def MIN_VERSION_def)
  have "files_agree sst_version_new []" by (simp add: files_agree_def level_file_def)
  then have "refines (manifest_of pev (created_history metadata 0 sst_format)) (created_region config metadata options)"
    unfolding b by (simp add: refines_def agrees_def positions_ok_def created_region_def create_version_def Let_def vc_new_def setter_defs
        version_builder_new_def apply_change_def builder_default_def builder_wf_def sv_wf_new)
  with created_recoverable [OF assms, of pev] show ?thesis by (simp add: run_ok_def)
qed

definition edit_fits :: "region_edit \<Rightarrow> bool" where
  "edit_fits e \<longleftrightarrow> (\<forall>f \<in> set (re_files_to_add e) \<union> set (re_files_to_remove e). fm_level f < MAX_LEVEL)"

lemma apply_edit_fits:
  assumes "sv_wf (v_ssts (vc_version d))" and "edit_fits e"
  shows "\<exists>d' marked. vc_apply_edit (Some e) ids d = Ret (d', marked) \<and> sv_wf (v_ssts (vc_version d'))"
proof -
  let ?s = "v_ssts (vc_version d)"
  have "add_files (re_files_to_add e) ?s \<noteq> Panic"
    unfolding add_files_Panic using assms by (auto simp: sv_wf_def edit_fits_def not_le)
  then obtain s1 where s1: "add_files (re_files_to_add e) ?s = Ret s1" by (cases "add_files (re_files_to_add e) ?s") auto
  have "remove_files (re_files_to_remove e) s1 \<noteq> Panic"
    unfolding remove_files_Panic using sv_wf_add_files [OF assms(1) s1] assms(2) by (auto simp: sv_wf_def edit_fits_def not_le)
  then obtain s2 marked where s2: "remove_files (re_files_to_remove e) s1 = Ret (s2, marked)"
    by (cases "remove_files (re_files_to_remove e) s1") auto
  show ?thesis
    using sv_wf_remove_files [OF sv_wf_add_files [OF assms(1) s1] s2] assms(1)
    by (simp add: vc_apply_edit_def vb_apply_edit_def Let_def s1 s2 vb_remove_memtables_def)
qed

text \<open>An edit panics exactly when it names a level outside the array.\<close>

lemma edit_panics_iff:
  assumes "sv_wf (v_ssts (vc_version d))"
  shows "vc_apply_edit (Some e) ids d = Panic \<longleftrightarrow> \<not> edit_fits e"
proof
  let ?s = "v_ssts (vc_version d)"
  assume "\<not> edit_fits e"
  then obtain f where f: "f \<in> set (re_files_to_add e) \<or> f \<in> set (re_files_to_remove e)" "MAX_LEVEL \<le> fm_level f"
    by (auto simp: edit_fits_def not_less)
  have "remove_files (re_files_to_remove e) s1 = Panic" if s1: "add_files (re_files_to_add e) ?s = Ret s1" for s1
  proof -
    have "f \<notin> set (re_files_to_add e)" using add_files_Panic [of "re_files_to_add e" ?s] s1 f(2) assms by (auto simp: sv_wf_def)
    with f sv_wf_add_files [OF assms s1] show ?thesis unfolding remove_files_Panic by (auto simp: sv_wf_def)
  qed
  with f(1) show "vc_apply_edit (Some e) ids d = Panic"
    by (cases "add_files (re_files_to_add e) ?s") (auto simp: vc_apply_edit_def vb_apply_edit_def Let_def)
next
  assume "vc_apply_edit (Some e) ids d = Panic"
  with apply_edit_fits [OF assms, of e ids] show "\<not> edit_fits e" by auto
qed

lemma edit_never_panics:
  assumes "refines b d" and "edit_ok b d e"
  shows "\<exists>d' marked. vc_apply_edit (Some e) ids d = Ret (d', marked)"
  using apply_edit_fits [of d e ids] assms by (auto simp: refines_def edit_ok_def edit_fits_def)

lemma truncation_never_panics:
  assumes "refines b d" and "handle_truncate_request req d = TruncateAction kind"
  shows "\<exists>d' marked. vc_truncate unit_of kind d = Ret (d', marked)"
proof (cases kind)
  case (TruncatePartial fs)
  let ?s = "v_ssts (vc_version d)"
  have wf: "sv_wf ?s" using assms(1) by (simp add: refines_def)
  obtain ranges where "fs = files_to_truncate ranges ?s"
    using assms(2) TruncatePartial by (auto simp: handle_truncate_request_def Let_def split: truncate_request.splits if_splits)
  then have "\<forall>f \<in> set fs. fm_level f < MAX_LEVEL"
    using all_handles_lookup [OF wf] sv_lookup_level [OF wf] by (fastforce simp: files_to_truncate_def)
  then obtain r where "remove_files fs ?s = Ret r"
    using remove_files_Panic [of fs ?s] wf by (cases "remove_files fs ?s") (auto simp: sv_wf_def)
  then show ?thesis by (cases r) (simp add: TruncatePartial vc_truncate_def vb_remove_files_def Let_def)
qed (simp add: vc_truncate_def Let_def)

section \<open>An example\<close>

definition sample_config :: open_config where
  "sample_config = \<lparr>oc_default_flat_format = True, oc_unit_of = (\<lambda>_. Millisecond)\<rparr>"

definition sample_add :: region_edit where
  "sample_add = edit_empty\<lparr>re_files_to_add := [file_meta_default]\<rparr>"

definition sample_manager :: manifest_manager where
  "sample_manager = projr (manager_new plain_metadata 0 Flat empty_store)"

definition sample_created :: vc_data where
  "sample_created = created_region sample_config plain_metadata region_options_default"

lemma sample_manager_new: "manager_new plain_metadata 0 Flat empty_store = Inr sample_manager"
  by (simp add: sample_manager_def manager_new_def Let_def try_build_def apply_change_def)

lemma sample_run:
  "\<exists>d. vc_apply_edit (Some sample_add) [] sample_created = Ret (d, [])
     \<and> v_options (vc_version d) = v_options (vc_version sample_created)
     \<and> (region_run sample_config plain_options length)\<^sup>*\<^sup>* (created_history plain_metadata 0 Flat, sample_manager, sample_created)
        (created_history plain_metadata 0 Flat @ [(1, [Edit sample_add])],
         snd (manager_update plain_options length (\<lambda>_ _. 0) True [Edit sample_add] False sample_manager), d)"
proof -
  let ?h = "created_history plain_metadata 0 Flat"
  have r: "refines (manifest_of length ?h) sample_created"
    using created_run_ok [OF sample_manager_new, of length sample_config region_options_default] by (simp add: run_ok_def sample_created_def)
  have u: "update_inner plain_options length (\<lambda>_ _. 0) True [Edit sample_add] False True sample_manager
      = (Inr 1, snd (manager_update plain_options length (\<lambda>_ _. 0) True [Edit sample_add] False sample_manager))"
    by (simp add: manager_update_def update_inner_def sample_manager_def manager_new_def Let_def try_build_def apply_change_def
        apply_actions_def sample_add_def with_checkpoint_def apply_edit_scalars usize_add_def wrap_usize_def MIN_VERSION_def)
  have m: "mm_last_version sample_manager + 1 < MAX_VERSION"
    by (simp add: sample_manager_def manager_new_def Let_def try_build_def apply_change_def MIN_VERSION_def MAX_VERSION_def usize_max_def)
  have e: "edit_ok (manifest_of length ?h) sample_created sample_add"
    by (simp add: edit_ok_def sample_add_def edit_empty_def file_meta_default_def MAX_LEVEL_def manifest_of_def created_history_def
        creation_actions_def replay_def apply_actions_def apply_change_def builder_default_def)
  obtain d marked where d: "vc_apply_edit (Some sample_add) [] sample_created = Ret (d, marked)"
    using edit_never_panics [OF r e] by blast
  have "marked = []"
    using d by (auto simp: vc_apply_edit_def vb_apply_edit_def Let_def sample_add_def edit_empty_def remove_files_def bind_outcome_Ret_iff)
  moreover have "v_options (vc_version d) = v_options (vc_version sample_created)"
    using d by (auto simp: vc_apply_edit_def vb_apply_edit_def Let_def bind_outcome_Ret_iff vb_remove_memtables_def split: if_splits)
  moreover have "region_run sample_config plain_options length (?h, sample_manager, sample_created) (?h @ [(1, [Edit sample_add])],
      snd (manager_update plain_options length (\<lambda>_ _. 0) True [Edit sample_add] False sample_manager), d)"
    by (rule region_run.run_publish [OF published.published_edit [OF e d] m u])
  ultimately show ?thesis using d by (intro exI [of _ d]) simp
qed

section \<open>Properties\<close>

text \<open>
  C1. A region refines its manifest. Start from a region that is created with the flushed entry id 0
  and let it run: edits, full and partial truncations, discarded memtables, schema changes, published
  staging actions, writes, freezes and flushes of the memtables, changed options, every step of the
  manifest manager with its crashes and failed writes, and reopens. At every moment the directory of
  the manifest opens, and the version that opening builds from it, with options that have the time
  window of the region in memory, holds the durable state of the version in memory: the same
  metadata, the same files at the same levels, the same flushed and truncated positions and the same
  compaction time window; its memtables are empty.

  The steps follow the discipline that the definitions above spell out: edits satisfy
  \<open>edit_ok\<close> (added files have distinct ids and valid levels, a file added again keeps its level and
  is unchanged or brings a newer index, a removed file is named with its level, flushed positions
  were written); published staging actions have no truncation and add no file they removed before;
  new options keep a time window once there is one (\<open>window_kept\<close>); and a reopen uses options
  with the same time window. A region created with a positive flushed entry id is excluded: its
  manifest forgets that id (\<open>created_manifest_forgets_flushed_entry\<close>).
\<close>

theorem reopened_region_is_durably_equal:
  assumes "manager_new metadata 0 sst_format empty_store = Inr mgr0"
    and "(region_run config opts pev)\<^sup>*\<^sup>* (created_history metadata 0 sst_format, mgr0, created_region config metadata options0) (h, mgr, d)"
    and "co_time_window (ro_compaction options) = co_time_window (ro_compaction (v_options (vc_version d)))"
  shows "\<exists>mgr' v. manager_open pev clk (mm_store mgr) = Inr (Some mgr')
     \<and> open_version config (mm_manifest mgr') (m_metadata (mm_manifest mgr')) options = Ret v
     \<and> durably_equal v (vc_version d) \<and> mv_is_empty (v_memtables v)"
proof -
  have r: "recoverable pev h mgr" "refines (manifest_of pev h) d"
    using run_ok_steps [OF assms(2) created_run_ok [OF assms(1)]] by (simp_all add: run_ok_def)
  then obtain mgr' where o: "manager_open pev clk (mm_store mgr) = Inr (Some mgr')"
    "forget (with_checkpoint (Some (mm_manifest mgr'))) = forget (manifest_of pev h)"
    using open_recovers [of pev h "mm_store mgr" clk] by (auto simp: recoverable_def)
  obtain v where v: "open_version config (mm_manifest mgr') (m_metadata (mm_manifest mgr')) options = Ret v"
    "agrees (manifest_of pev h) v" "co_time_window (ro_compaction (v_options v)) = co_time_window (ro_compaction options)"
    "mv_is_empty (v_memtables v)"
    using reopen_agrees [OF r(2) o(2), of config options] by blast
  have "durably_equal v (vc_version d)"
    using r(2) v(3) assms(3) by (intro agrees_durably_equal [OF v(2)]) (simp_all add: refines_def)
  with o(1) v show ?thesis by blast
qed

theorem reopened_region_is_durably_equal_witness:
  "let config = \<lparr>oc_default_flat_format = True, oc_unit_of = (\<lambda>_. Millisecond)\<rparr>;
       e = edit_empty\<lparr>re_files_to_add := [file_meta_default]\<rparr>;
       mgr0 = projr (manager_new plain_metadata 0 Flat empty_store);
       mgr = snd (manager_update plain_options length (\<lambda>_ _. 0) True [Edit e] False mgr0)
   in \<exists>d mgr' v. vc_apply_edit (Some e) [] (created_region config plain_metadata region_options_default) = Ret (d, [])
        \<and> manager_open length (\<lambda>_ _. 0) (mm_store mgr) = Inr (Some mgr')
        \<and> open_version config (mm_manifest mgr') (m_metadata (mm_manifest mgr')) region_options_default = Ret v
        \<and> durably_equal v (vc_version d) \<and> mv_is_empty (v_memtables v)"
proof -
  obtain d where d: "vc_apply_edit (Some sample_add) [] sample_created = Ret (d, [])"
    and run: "(region_run sample_config plain_options length)\<^sup>*\<^sup>* (created_history plain_metadata 0 Flat, sample_manager, sample_created)
      (created_history plain_metadata 0 Flat @ [(1, [Edit sample_add])], snd (manager_update plain_options length (\<lambda>_ _. 0) True [Edit sample_add] False sample_manager), d)"
    and o: "v_options (vc_version d) = v_options (vc_version sample_created)"
    using sample_run by blast
  have "co_time_window (ro_compaction region_options_default) = co_time_window (ro_compaction (v_options (vc_version d)))"
    by (simp add: o sample_created_def created_region_def create_version_def create_options_def Let_def setter_defs version_builder_new_def
        region_options_default_def vc_new_def)
  from reopened_region_is_durably_equal [OF sample_manager_new run [unfolded sample_created_def] this, of "\<lambda>_ _. 0"]
  show ?thesis
    unfolding Let_def sample_config_def [symmetric] sample_add_def [symmetric] sample_manager_def [symmetric] sample_created_def [symmetric]
    using d by (intro exI [of _ d]) simp
qed



end
