(* ===== verification/Region_Edit.thy ===== *)
theory Region_Edit
  imports Region_Steps "HOL-Library.Multiset"
begin

text \<open>
  Direct edits of a region and the queue they wait in, from
  \<open>src/src/mito2/src/worker/handle_manifest.rs\<close> and \<open>src/src/mito2/src/request.rs\<close>. An edit is numbered,
  its manifest is updated by a background task while the region is in the state \<open>Editing\<close>, and the
  worker applies it when the task reports; requests that arrive meanwhile are queued. The worker
  is modelled for one region: the region unless it was removed, its queue if it has one, the tasks
  with their results, and the replies sent. What the writes that stalled behind an edit make of the
  region is an argument.
\<close>

section \<open>Definitions\<close>

subsection \<open>The queue\<close>

record 'w edit_request =
  er_edit :: region_edit
  er_waiters :: "'w list"

datatype edit_reply = EditDone | EditBusy | EditNotFound | EditFailed region_error

definition QUEUE_MAX_LEN :: nat where
  "QUEUE_MAX_LEN = 128"

text \<open>The queue, and the waiters that are told that the region is busy.\<close>

definition enqueue_edit :: "'w edit_request \<Rightarrow> 'w edit_request list \<Rightarrow> 'w edit_request list \<times> 'w list" where
  "enqueue_edit request requests =
     (if length requests > QUEUE_MAX_LEN then (requests, er_waiters request) else (requests @ [request], []))"

definition can_merge :: "region_edit \<Rightarrow> bool" where
  "can_merge edit \<longleftrightarrow>
     list_all (\<lambda>f. fm_sequence f = None) (re_files_to_add edit)
     \<and> re_files_to_remove edit = [] \<and> re_timestamp_ms edit = None \<and> re_compaction_time_window edit = None
     \<and> re_flushed_entry_id edit = None \<and> re_flushed_sequence edit = None \<and> re_committed_sequence edit = None"

fun merge_queued :: "'w edit_request \<Rightarrow> 'w edit_request list \<Rightarrow> 'w edit_request \<times> 'w edit_request list" where
  "merge_queued merged [] = (merged, [])"
| "merge_queued merged (request # requests) =
     (if can_merge (er_edit request)
      then merge_queued
             (merged\<lparr>er_edit := (er_edit merged)\<lparr>re_files_to_add := re_files_to_add (er_edit merged) @ re_files_to_add (er_edit request)\<rparr>,
                     er_waiters := er_waiters merged @ er_waiters request\<rparr>) requests
      else (merged, request # requests))"

fun dequeue_edit :: "'w edit_request list \<Rightarrow> 'w edit_request option \<times> 'w edit_request list" where
  "dequeue_edit [] = (None, [])"
| "dequeue_edit (request # requests) =
     (if \<not> can_merge (er_edit request) then (Some request, requests)
      else (let (merged, rest) = merge_queued request requests in (Some merged, rest)))"

subsection \<open>The worker\<close>

text \<open>A task whose result has not arrived has no result.\<close>

record 'w edit_task =
  et_edit :: region_edit
  et_waiters :: "'w list"
  et_is_staging :: bool
  et_result :: "(region_error + unit) option"

record 'w edit_worker =
  ew_region :: "region_state option"
  ew_queue :: "'w edit_request list option"
  ew_tasks :: "'w edit_task list"
  ew_replies :: "('w \<times> edit_reply) list"

definition reply_with :: "edit_reply \<Rightarrow> 'w list \<Rightarrow> 'w edit_worker \<Rightarrow> 'w edit_worker" where
  "reply_with reply waiters w = w\<lparr>ew_replies := ew_replies w @ map (\<lambda>x. (x, reply)) waiters\<rparr>"

text \<open>The added files get the sequence after the committed one.\<close>

definition number_edit :: "nat \<Rightarrow> region_edit \<Rightarrow> region_edit" where
  "number_edit committed_sequence edit =
     (let file_sequence = usize_add committed_sequence 1
      in edit\<lparr>re_committed_sequence := Some file_sequence,
              re_files_to_add := map (\<lambda>file. file\<lparr>fm_sequence := (if file_sequence = 0 then None else Some file_sequence),
                                                   fm_preserve_row_sequence := False\<rparr>) (re_files_to_add edit)\<rparr>)"

definition handle_region_edit :: "'w edit_request \<Rightarrow> 'w edit_worker \<Rightarrow> 'w edit_worker" where
  "handle_region_edit request w =
     (case ew_region w of
        None \<Rightarrow> reply_with EditNotFound (er_waiters request) w
      | Some (ctx, d) \<Rightarrow>
          if \<not> is_writable (mc_state ctx) then
            (if mc_state ctx = LeaderState Editing
             then (let requests = (case ew_queue w of Some q \<Rightarrow> q | None \<Rightarrow> []);
                       (requests', rejected) = enqueue_edit request requests
                   in reply_with EditBusy rejected (w\<lparr>ew_queue := Some requests'\<rparr>))
             else reply_with EditBusy (er_waiters request) w)
          else
            (let edit = number_edit (vc_committed_sequence d) (er_edit request);
                 staging = is_staging (mc_state ctx)
             in case set_editing (if staging then Staging else Writable) ctx of
                  Inl err \<Rightarrow> reply_with (EditFailed err) (er_waiters request) w
                | Inr ctx' \<Rightarrow>
                    w\<lparr>ew_region := Some (ctx', d),
                      ew_tasks := ew_tasks w @ [\<lparr>et_edit = edit, et_waiters = er_waiters request,
                                                  et_is_staging = staging, et_result = None\<rparr>]\<rparr>))"

text \<open>The background task. Preloading caches does not touch the region.\<close>

definition edit_region ::
  "manifest_env \<Rightarrow> bool \<Rightarrow> 'w edit_task \<Rightarrow> manifest_ctx \<Rightarrow> 'w edit_task \<times> manifest_ctx" where
  "edit_region env saved task ctx =
     (let (r, ctx') = update_manifest env saved Editing [Edit (et_edit task)] (et_is_staging task) ctx
      in (task\<lparr>et_result := Some (case r of Inl err \<Rightarrow> Inl err | Inr _ \<Rightarrow> Inr ())\<rparr>, ctx'))"

definition reject_region_edit_queue_as_not_found :: "'w edit_worker \<Rightarrow> 'w edit_worker" where
  "reject_region_edit_queue_as_not_found w =
     (case ew_queue w of
        Some requests \<Rightarrow> reply_with EditNotFound (concat (map er_waiters requests)) (w\<lparr>ew_queue := None\<rparr>)
      | None \<Rightarrow> w)"

text \<open>Taking the next request off the queue and starting it.\<close>

definition next_edit :: "'w edit_worker \<Rightarrow> 'w edit_worker" where
  "next_edit w =
     (case ew_queue w of
        None \<Rightarrow> w
      | Some requests \<Rightarrow>
          (let (request, rest) = dequeue_edit requests;
               w' = w\<lparr>ew_queue := (if rest = [] then None else Some rest)\<rparr>
           in case request of Some r \<Rightarrow> handle_region_edit r w' | None \<Rightarrow> w'))"

definition handle_region_edit_result ::
  "(region_state \<Rightarrow> region_state) \<Rightarrow> 'w edit_task \<Rightarrow> region_error + unit \<Rightarrow> 'w edit_worker \<Rightarrow> 'w edit_worker outcome" where
  "handle_region_edit_result stalled task result w =
     (case ew_region w of
        None \<Rightarrow> Ret (reply_with EditNotFound (et_waiters task) (reject_region_edit_queue_as_not_found w))
      | Some (ctx, d) \<Rightarrow>
          bind_outcome
            (if et_is_staging task then Ret (switch_state_to_staging Editing ctx, d)
             else bind_outcome
                    (if isl result then Ret (d, []) else vc_apply_edit (Some (et_edit task)) [] d)
                    (\<lambda>(d', marked). Ret (switch_state_to_writable Editing ctx, d')))
            (\<lambda>region.
               let w1 = reply_with (case result of Inl err \<Rightarrow> EditFailed err | Inr _ \<Rightarrow> EditDone) (et_waiters task)
                          (w\<lparr>ew_region := Some region\<rparr>)
               in Ret (next_edit (w1\<lparr>ew_region := Some (stalled region)\<rparr>))))"

definition remove_region :: "'w edit_worker \<Rightarrow> 'w edit_worker" where
  "remove_region w = reject_region_edit_queue_as_not_found (w\<lparr>ew_region := None\<rparr>)"

subsection \<open>Runs\<close>

datatype 'w edit_event = Submit "'w edit_request" | RunTask nat bool | Finish nat | ChangeRole region_role | CloseRegion

text \<open>The manager of a region that was removed is stopped and refuses the update.\<close>

definition run_task :: "manifest_env \<Rightarrow> nat \<Rightarrow> bool \<Rightarrow> 'w edit_worker \<Rightarrow> 'w edit_worker" where
  "run_task env i saved w =
     (case ew_region w of
        Some (ctx, d) \<Rightarrow>
          if i < length (ew_tasks w) \<and> et_result (ew_tasks w ! i) = None
          then (let (task, ctx') = edit_region env saved (ew_tasks w ! i) ctx
                in w\<lparr>ew_tasks := (ew_tasks w)[i := task], ew_region := Some (ctx', d)\<rparr>)
          else w
      | None \<Rightarrow>
          if i < length (ew_tasks w) \<and> et_result (ew_tasks w ! i) = None
          then w\<lparr>ew_tasks := (ew_tasks w)[i := (ew_tasks w ! i)\<lparr>et_result := Some (Inl (ManifestFailed RegionStopped))\<rparr>]\<rparr>
          else w)"

definition finish_task :: "(region_state \<Rightarrow> region_state) \<Rightarrow> nat \<Rightarrow> 'w edit_worker \<Rightarrow> 'w edit_worker outcome" where
  "finish_task stalled i w =
     (if i < length (ew_tasks w)
      then (case et_result (ew_tasks w ! i) of
              Some result \<Rightarrow>
                handle_region_edit_result stalled (ew_tasks w ! i) result
                  (w\<lparr>ew_tasks := take i (ew_tasks w) @ drop (Suc i) (ew_tasks w)\<rparr>)
            | None \<Rightarrow> Ret w)
      else Ret w)"

fun edit_event_step ::
  "manifest_env \<Rightarrow> (region_state \<Rightarrow> region_state) \<Rightarrow> 'w edit_event \<Rightarrow> 'w edit_worker \<Rightarrow> 'w edit_worker outcome" where
  "edit_event_step env stalled (Submit request) w = Ret (handle_region_edit request w)"
| "edit_event_step env stalled (RunTask i saved) w = Ret (run_task env i saved w)"
| "edit_event_step env stalled (Finish i) w = finish_task stalled i w"
| "edit_event_step env stalled (ChangeRole role) w =
     Ret (case ew_region w of Some (ctx, d) \<Rightarrow> w\<lparr>ew_region := Some (set_role role ctx, d)\<rparr> | None \<Rightarrow> w)"
| "edit_event_step env stalled CloseRegion w = Ret (remove_region w)"

definition edit_run ::
  "manifest_env \<Rightarrow> (region_state \<Rightarrow> region_state) \<Rightarrow> 'w edit_event list \<Rightarrow> 'w edit_worker \<Rightarrow> 'w edit_worker outcome" where
  "edit_run env stalled = fold_outcome (edit_event_step env stalled)"

definition edit_worker_new :: "region_state \<Rightarrow> 'w edit_worker" where
  "edit_worker_new region = \<lparr>ew_region = Some region, ew_queue = None, ew_tasks = [], ew_replies = []\<rparr>"

section \<open>Every waiter is accounted for\<close>

definition queued :: "'w edit_worker \<Rightarrow> 'w edit_request list" where
  "queued w = (case ew_queue w of Some q \<Rightarrow> q | None \<Rightarrow> [])"

definition accounted :: "'w edit_worker \<Rightarrow> 'w multiset" where
  "accounted w = mset (concat (map er_waiters (queued w))) + mset (concat (map et_waiters (ew_tasks w))) + mset (map fst (ew_replies w))"

fun submitted :: "'w edit_event list \<Rightarrow> 'w multiset" where
  "submitted [] = {#}"
| "submitted (Submit request # events) = mset (er_waiters request) + submitted events"
| "submitted (_ # events) = submitted events"

lemma accounted_reply [simp]: "accounted (reply_with reply ws w) = accounted w + mset ws"
  by (simp add: accounted_def queued_def reply_with_def comp_def)

lemma reply_with_fields [simp]:
  "ew_region (reply_with reply ws w) = ew_region w" "ew_queue (reply_with reply ws w) = ew_queue w"
  "ew_tasks (reply_with reply ws w) = ew_tasks w" "queued (reply_with reply ws w) = queued w"
  by (simp_all add: reply_with_def queued_def)

lemma merge_queued_waiters:
  "merge_queued merged requests = (merged', rest) \<Longrightarrow>
   mset (er_waiters merged') + mset (concat (map er_waiters rest)) = mset (er_waiters merged) + mset (concat (map er_waiters requests))"
  by (induction merged requests rule: merge_queued.induct) (auto split: if_splits)

lemma dequeue_edit_waiters:
  "dequeue_edit requests = (r, rest) \<Longrightarrow>
   mset (concat (map er_waiters requests)) = (case r of Some request \<Rightarrow> mset (er_waiters request) | None \<Rightarrow> {#}) + mset (concat (map er_waiters rest))"
  by (cases requests) (auto split: if_splits prod.splits dest: merge_queued_waiters)

lemma accounted_handle_edit: "accounted (handle_region_edit request w) = accounted w + mset (er_waiters request)"
proof -
  have "accounted (w\<lparr>ew_queue := Some (queued w @ [request])\<rparr>) = accounted w + mset (er_waiters request)"
    "accounted (w\<lparr>ew_queue := Some (queued w)\<rparr>) = accounted w"
    by (simp_all add: accounted_def queued_def)
  then show ?thesis
    unfolding handle_region_edit_def queued_def [symmetric]
    by (auto simp: Let_def enqueue_edit_def split: option.splits sum.splits) (simp_all add: accounted_def queued_def)
qed

lemma accounted_next_edit: "accounted (next_edit w) = accounted w"
proof (cases "ew_queue w")
  case (Some requests)
  obtain r rest where d: "dequeue_edit requests = (r, rest)" by fastforce
  with Some show ?thesis
    using dequeue_edit_waiters [OF d]
    by (auto simp: next_edit_def accounted_handle_edit split: option.splits) (auto simp: accounted_def queued_def)
qed (simp add: next_edit_def)

lemma accounted_reject: "accounted (reject_region_edit_queue_as_not_found w) = accounted w"
  by (auto simp: reject_region_edit_queue_as_not_found_def split: option.splits) (simp add: accounted_def queued_def)

lemma accounted_result:
  "handle_region_edit_result stalled task result w = Ret w' \<Longrightarrow> accounted w' = accounted w + mset (et_waiters task)"
proof (cases "ew_region w")
  case None
  then show "handle_region_edit_result stalled task result w = Ret w' \<Longrightarrow> ?thesis"
    by (auto simp: handle_region_edit_result_def accounted_reject)
next
  case (Some region)
  have a: "accounted (w\<lparr>ew_region := x\<rparr>) = accounted w" for x by (simp add: accounted_def queued_def)
  have b: "accounted ((reply_with reply ws (w\<lparr>ew_region := x\<rparr>))\<lparr>ew_region := y\<rparr>) = accounted w + mset ws" for x y reply ws
    by (simp add: accounted_def queued_def reply_with_def comp_def)
  from Some show "handle_region_edit_result stalled task result w = Ret w' \<Longrightarrow> ?thesis"
    by (auto simp: handle_region_edit_result_def bind_outcome_Ret_iff Let_def accounted_next_edit b split: prod.splits)
qed

lemma accounted_remove_task:
  assumes "i < length ts"
  shows "mset (concat (map et_waiters (take i ts @ drop (Suc i) ts))) + mset (et_waiters (ts ! i)) = mset (concat (map et_waiters ts))"
proof -
  have "mset (concat (map et_waiters ts)) = mset (concat (map et_waiters (take i ts @ ts ! i # drop (Suc i) ts)))"
    using id_take_nth_drop [OF assms] by simp
  then show ?thesis by simp
qed

lemma accounted_finish:
  assumes "finish_task stalled i w = Ret w'"
  shows "accounted w' = accounted w"
proof (cases "i < length (ew_tasks w) \<and> et_result (ew_tasks w ! i) \<noteq> None")
  case True
  then obtain result where r: "handle_region_edit_result stalled (ew_tasks w ! i) result
      (w\<lparr>ew_tasks := take i (ew_tasks w) @ drop (Suc i) (ew_tasks w)\<rparr>) = Ret w'"
    using assms by (auto simp: finish_task_def)
  show ?thesis
    using accounted_result [OF r] accounted_remove_task [of i "ew_tasks w"] True by (simp add: accounted_def queued_def ac_simps)
qed (use assms in \<open>auto simp: finish_task_def split: if_splits\<close>)

lemma accounted_run_task: "accounted (run_task env i saved w) = accounted w"
proof -
  have e: "et_waiters (fst (edit_region env saved task ctx)) = et_waiters task" for task :: "'a edit_task" and ctx
    by (simp add: edit_region_def split: prod.splits)
  have m: "map et_waiters ((ew_tasks w)[i := t]) = map et_waiters (ew_tasks w)" if "i < length (ew_tasks w)" "et_waiters t = et_waiters (ew_tasks w ! i)" for t
    using that by (metis list_update_id map_update nth_map)
  show ?thesis
    by (auto simp: run_task_def accounted_def queued_def m e Let_def split_beta split: option.splits)
qed

lemma accounted_step: "edit_event_step env stalled event w = Ret w' \<Longrightarrow> accounted w' = accounted w + submitted [event]"
proof (cases event)
  case CloseRegion
  have "accounted (w\<lparr>ew_region := None\<rparr>) = accounted w" by (simp add: accounted_def queued_def)
  then show "edit_event_step env stalled event w = Ret w' \<Longrightarrow> ?thesis"
    using CloseRegion by (auto simp: remove_region_def accounted_reject)
qed (auto simp: accounted_handle_edit accounted_run_task accounted_finish, simp_all add: accounted_def queued_def split: option.splits)

lemma submitted_append: "submitted (xs @ ys) = submitted xs + submitted ys"
  by (induction xs rule: submitted.induct) simp_all

lemma accounted_run: "edit_run env stalled events w = Ret w' \<Longrightarrow> accounted w' = accounted w + submitted events"
  unfolding edit_run_def
proof (induction events arbitrary: w)
  case (Cons event events)
  then obtain w1 where w1: "edit_event_step env stalled event w = Ret w1"
    "fold_outcome (edit_event_step env stalled) events w1 = Ret w'"
    by (auto simp: bind_outcome_Ret_iff)
  show ?case using Cons.IH [OF w1(2)] accounted_step [OF w1(1)] submitted_append [of "[event]" events] by simp
qed simp

section \<open>Edits of a leader\<close>

definition files_wf :: "region_state \<Rightarrow> bool" where
  "files_wf region \<longleftrightarrow> sv_wf (v_ssts (vc_version (snd region)))"

text \<open>Writes that stalled leave the state and the files of the region as they are.\<close>

definition stalled_ok :: "(region_state \<Rightarrow> region_state) \<Rightarrow> bool" where
  "stalled_ok stalled \<longleftrightarrow>
     (\<forall>region. mc_state (fst (stalled region)) = mc_state (fst region) \<and> (files_wf region \<longrightarrow> files_wf (stalled region)))"

definition quiet :: "'w edit_worker \<Rightarrow> bool" where
  "quiet w \<longleftrightarrow> (\<exists>ctx d. ew_region w = Some (ctx, d) \<and> is_writable (mc_state ctx)) \<and> ew_tasks w = [] \<and> ew_queue w = None"

definition busy :: "'w edit_worker \<Rightarrow> bool" where
  "busy w \<longleftrightarrow> (\<exists>ctx d. ew_region w = Some (ctx, d) \<and> mc_state ctx = LeaderState Editing) \<and> length (ew_tasks w) = 1 \<and> ew_queue w \<noteq> Some []"

definition edits_fit :: "'w edit_worker \<Rightarrow> bool" where
  "edits_fit w \<longleftrightarrow>
     (\<forall>r \<in> set (queued w). edit_fits (er_edit r)) \<and> (\<forall>t \<in> set (ew_tasks w). edit_fits (et_edit t))
     \<and> (\<forall>region. ew_region w = Some region \<longrightarrow> files_wf region)"

lemma number_edit_fits: "edit_fits (number_edit n e) = edit_fits e"
  by (simp add: edit_fits_def number_edit_def Let_def ball_Un)

lemma merge_queued_fits:
  "merge_queued merged requests = (merged', rest) \<Longrightarrow> edit_fits (er_edit merged) \<Longrightarrow> \<forall>r \<in> set requests. edit_fits (er_edit r) \<Longrightarrow>
   edit_fits (er_edit merged') \<and> set rest \<subseteq> set requests \<and> length rest \<le> length requests"
proof (induction merged requests rule: merge_queued.induct)
  case (2 merged request requests)
  show ?case
  proof (cases "can_merge (er_edit request)")
    case True
    have "edit_fits ((er_edit merged)\<lparr>re_files_to_add := re_files_to_add (er_edit merged) @ re_files_to_add (er_edit request)\<rparr>)"
      using 2(3,4) by (auto simp: edit_fits_def)
    with 2 True show ?thesis by auto
  qed (use 2 in auto)
qed simp

lemma dequeue_edit_fits:
  assumes "dequeue_edit requests = (r, rest)" and "requests \<noteq> []" and "\<forall>r \<in> set requests. edit_fits (er_edit r)"
  shows "\<exists>request. r = Some request \<and> edit_fits (er_edit request) \<and> set rest \<subseteq> set requests \<and> length rest < length requests"
proof (cases requests)
  case (Cons request requests')
  then show ?thesis
    using assms merge_queued_fits [of request requests'] by (auto simp: Let_def split: if_splits prod.splits)
qed (use assms in simp)

lemma handle_edit_live:
  assumes "quiet w \<or> busy w" and "edits_fit w" and "edit_fits (er_edit request)"
  shows "busy (handle_region_edit request w) \<and> edits_fit (handle_region_edit request w)"
  using assms(1)
proof
  assume "quiet w"
  then obtain ctx d where w: "ew_region w = Some (ctx, d)" "is_writable (mc_state ctx)" "ew_tasks w = []" "ew_queue w = None"
    by (auto simp: quiet_def)
  then have "set_editing (if is_staging (mc_state ctx) then Staging else Writable) ctx = Inr (ctx\<lparr>mc_state := LeaderState Editing\<rparr>)"
    by (auto simp: set_editing_def compare_exchange_state_def is_writable_def is_staging_def)
  with w assms(2,3) show ?thesis
    by (auto simp: handle_region_edit_def Let_def busy_def edits_fit_def queued_def files_wf_def number_edit_fits)
next
  assume "busy w"
  then obtain ctx d where w: "ew_region w = Some (ctx, d)" "mc_state ctx = LeaderState Editing" "length (ew_tasks w) = 1"
    "ew_queue w \<noteq> Some []"
    by (auto simp: busy_def)
  with assms(2,3) show ?thesis
    by (auto simp: handle_region_edit_def Let_def is_writable_def busy_def edits_fit_def queued_def enqueue_edit_def split: option.splits)
qed

text \<open>When an edit has ended: the region is writable, and the queue may hold the next.\<close>

lemma next_edit_live:
  assumes "ew_region w = Some (ctx, d)" and "is_writable (mc_state ctx)" and "ew_tasks w = []" and "ew_queue w \<noteq> Some []"
    and "edits_fit w"
  shows "(quiet (next_edit w) \<or> busy (next_edit w)) \<and> edits_fit (next_edit w) \<and> length (queued (next_edit w)) \<le> length (queued w) - 1
    \<and> (ew_queue w = None \<longrightarrow> quiet (next_edit w))"
proof (cases "ew_queue w")
  case None
  with assms show ?thesis by (auto simp: next_edit_def quiet_def queued_def)
next
  case (Some requests)
  obtain r rest where d: "dequeue_edit requests = (r, rest)" by fastforce
  have "requests \<noteq> []" "\<forall>r \<in> set requests. edit_fits (er_edit r)" using Some assms(4,5) by (auto simp: edits_fit_def queued_def)
  then obtain request where r: "r = Some request" "edit_fits (er_edit request)" "set rest \<subseteq> set requests" "length rest < length requests"
    using dequeue_edit_fits [OF d] by blast
  define w1 where "w1 = w\<lparr>ew_queue := (if rest = [] then None else Some rest)\<rparr>"
  have n: "next_edit w = handle_region_edit request w1"
    using Some d r(1) by (simp add: next_edit_def w1_def)
  have e: "set_editing (if is_staging (mc_state ctx) then Staging else Writable) ctx = Inr (ctx\<lparr>mc_state := LeaderState Editing\<rparr>)"
    using assms(2) by (auto simp: set_editing_def compare_exchange_state_def is_writable_def is_staging_def)
  have q: "queued w1 = rest" "queued w = requests" using Some by (auto simp: w1_def queued_def)
  have "busy (next_edit w) \<and> edits_fit (next_edit w) \<and> queued (next_edit w) = rest"
    unfolding n using assms r e q
    by (auto simp: handle_region_edit_def w1_def Let_def busy_def edits_fit_def queued_def files_wf_def number_edit_fits)
  with r(4) q(2) Some show ?thesis by auto
qed

lemma edit_region_fields [simp]:
  "mc_state (snd (edit_region env saved t ctx)) = mc_state ctx" "et_edit (fst (edit_region env saved t ctx)) = et_edit t"
  "et_result (fst (edit_region env saved t ctx)) \<noteq> None"
  by (simp_all add: edit_region_def update_manifest_def update_manifest_with_state_check_def update_locked_def split_beta Let_def
      split: option.splits)

definition edits_reported :: "'w edit_worker \<Rightarrow> bool" where
  "edits_reported w \<longleftrightarrow> (\<forall>t \<in> set (ew_tasks w). et_result t \<noteq> None)"

lemma run_task_quiet: "quiet w \<Longrightarrow> run_task env i saved w = w"
  by (auto simp: quiet_def run_task_def split: option.splits)

lemma run_task_busy:
  assumes "busy w" and "edits_fit w"
  shows "busy (run_task env i saved w)" and "edits_fit (run_task env i saved w)"
    and "queued (run_task env i saved w) = queued w" and "edits_reported (run_task env 0 saved w)"
proof -
  obtain ctx d t where w: "ew_region w = Some (ctx, d)" "mc_state ctx = LeaderState Editing" "ew_tasks w = [t]" "ew_queue w \<noteq> Some []"
    using assms(1) by (auto simp: busy_def length_Suc_conv)
  have e: "run_task env j saved w = (if j = 0 \<and> et_result t = None
      then w\<lparr>ew_tasks := [fst (edit_region env saved t ctx)], ew_region := Some (snd (edit_region env saved t ctx), d)\<rparr> else w)" for j
    using w by (auto simp: run_task_def split_beta Let_def)
  show "busy (run_task env i saved w)" using assms w by (simp add: e busy_def)
  show "edits_fit (run_task env i saved w)" using assms w by (auto simp: e edits_fit_def queued_def files_wf_def)
  show "queued (run_task env i saved w) = queued w" by (simp add: e queued_def)
  show "edits_reported (run_task env 0 saved w)" using w edit_region_fields(3) by (auto simp: e edits_reported_def simp del: not_None_eq)
qed

lemma finish_live:
  assumes "stalled_ok stalled" and "quiet w \<or> busy w" and "edits_fit w"
  shows "\<exists>w'. finish_task stalled i w = Ret w' \<and> (quiet w' \<or> busy w') \<and> edits_fit w'
    \<and> (quiet w \<longrightarrow> w' = w)
    \<and> (busy w \<and> i = 0 \<and> edits_reported w \<longrightarrow>
         length (queued w') \<le> length (queued w) - 1 \<and> (queued w = [] \<longrightarrow> quiet w'))"
proof (cases "i < length (ew_tasks w) \<and> et_result (ew_tasks w ! i) \<noteq> None")
  case False
  then have "finish_task stalled i w = Ret w" by (auto simp: finish_task_def)
  with False assms(2,3) show ?thesis by (auto simp: quiet_def busy_def length_Suc_conv edits_reported_def)
next
  case True
  then have "busy w" using assms(2) by (auto simp: quiet_def)
  then obtain ctx d t result where w: "ew_region w = Some (ctx, d)" "mc_state ctx = LeaderState Editing" "ew_tasks w = [t]"
    "ew_queue w \<noteq> Some []" "et_result t = Some result" "i = 0"
    using True by (auto simp: busy_def length_Suc_conv)
  have fit: "edit_fits (et_edit t)" "sv_wf (v_ssts (vc_version d))"
    using assms(3) w by (auto simp: edits_fit_def files_wf_def)
  obtain d' marked where d': "(if isl result then Ret (d, []) else vc_apply_edit (Some (et_edit t)) [] d) = Ret (d', marked)"
    "sv_wf (v_ssts (vc_version d'))"
    using apply_edit_fits [OF fit(2,1), of "[]"] fit(2) by (cases "isl result") auto
  obtain region where region: "(if et_is_staging t then Ret (switch_state_to_staging Editing ctx, d)
      else bind_outcome (if isl result then Ret (d, []) else vc_apply_edit (Some (et_edit t)) [] d)
        (\<lambda>(d', marked). Ret (switch_state_to_writable Editing ctx, d'))) = Ret region"
    and wr: "is_writable (mc_state (fst region))" "files_wf region"
    unfolding d'(1) using d'(2) fit(2) w(2)
    by (cases "et_is_staging t")
      (auto simp: switch_state_to_staging_def switch_state_to_writable_def compare_exchange_state_def is_writable_def files_wf_def)
  define w1 where "w1 = (reply_with (case result of Inl err \<Rightarrow> EditFailed err | Inr _ \<Rightarrow> EditDone) (et_waiters t)
      (w\<lparr>ew_tasks := [], ew_region := Some region\<rparr>))\<lparr>ew_region := Some (stalled region)\<rparr>"
  have f: "finish_task stalled i w = Ret (next_edit w1)"
    using w region by (simp add: finish_task_def handle_region_edit_result_def w1_def Let_def)
  obtain ctx1 d1 where s: "stalled region = (ctx1, d1)" by fastforce
  have ok: "is_writable (mc_state ctx1)" "files_wf (stalled region)"
    using spec [OF assms(1) [unfolded stalled_ok_def], of region] wr s by simp_all
  have w1: "ew_region w1 = Some (ctx1, d1)" "ew_tasks w1 = []" "ew_queue w1 = ew_queue w" "queued w1 = queued w"
    by (simp_all add: w1_def s queued_def reply_with_def)
  have "edits_fit w1" using assms(3) w1 ok(2) s by (auto simp: edits_fit_def)
  with f w1 w(4) next_edit_live [OF w1(1) ok(1) w1(2)] \<open>busy w\<close> show ?thesis
    by (auto simp: quiet_def busy_def queued_def split: option.splits)
qed

fun plain_event :: "'w edit_event \<Rightarrow> bool" where
  "plain_event (Submit request) = edit_fits (er_edit request)"
| "plain_event (RunTask i saved) = True"
| "plain_event (Finish i) = True"
| "plain_event _ = False"

lemma plain_step_live:
  assumes "stalled_ok stalled" and "quiet w \<or> busy w" and "edits_fit w" and "plain_event event"
  shows "\<exists>w'. edit_event_step env stalled event w = Ret w' \<and> (quiet w' \<or> busy w') \<and> edits_fit w'"
proof (cases event)
  case (Submit request)
  with assms(4) handle_edit_live [OF assms(2,3), of request] show ?thesis by auto
next
  case (RunTask i saved)
  with run_task_quiet [of w env i saved] run_task_busy(1,2) [of w env i saved] assms(2,3) show ?thesis by auto
next
  case (Finish i)
  with finish_live [OF assms(1-3), of i] show ?thesis by auto
qed (use assms(4) in auto)

lemma plain_run_live:
  assumes "stalled_ok stalled" and "list_all plain_event events" and "quiet w \<or> busy w" and "edits_fit w"
  shows "\<exists>w'. edit_run env stalled events w = Ret w' \<and> (quiet w' \<or> busy w') \<and> edits_fit w'"
  using assms(2-)
proof (induction events arbitrary: w)
  case (Cons event events)
  then obtain w1 where w1: "edit_event_step env stalled event w = Ret w1" "quiet w1 \<or> busy w1" "edits_fit w1"
    using plain_step_live [OF assms(1) Cons.prems(2,3), of event env] by auto
  with Cons show ?case by (auto simp: edit_run_def)
qed (simp add: edit_run_def)

text \<open>Each round runs the task and handles its result.\<close>

definition rounds :: "bool list \<Rightarrow> 'w edit_event list" where
  "rounds saves = concat (map (\<lambda>saved. [RunTask 0 saved, Finish 0]) saves)"

lemma rounds_drain:
  assumes "stalled_ok stalled" and "quiet w \<or> busy w" and "edits_fit w" and "length (queued w) < length saves"
  shows "\<exists>w'. edit_run env stalled (rounds saves) w = Ret w' \<and> quiet w'"
  using assms(2-)
proof (induction saves arbitrary: w)
  case (Cons saved saves)
  define w1 where "w1 = run_task env 0 saved w"
  have r: "quiet w \<longrightarrow> w1 = w" "busy w \<longrightarrow> busy w1 \<and> queued w1 = queued w \<and> edits_reported w1" "edits_fit w1"
    using run_task_quiet [of w env 0 saved] run_task_busy(1-3) [of w env 0 saved] run_task_busy(4) [of w env saved] Cons.prems(1,2)
    by (auto simp: w1_def)
  then obtain w2 where w2: "finish_task stalled 0 w1 = Ret w2" "quiet w2 \<or> busy w2" "edits_fit w2" "quiet w1 \<longrightarrow> w2 = w1"
    "busy w1 \<and> edits_reported w1 \<longrightarrow> length (queued w2) \<le> length (queued w1) - 1 \<and> (queued w1 = [] \<longrightarrow> quiet w2)"
    using finish_live [OF assms(1), of w1 0] Cons.prems(1) by auto
  have e: "edit_run env stalled (rounds (saved # saves)) w = edit_run env stalled (rounds saves) w2"
    by (simp add: edit_run_def rounds_def w1_def [symmetric] w2(1))
  show ?case
  proof (cases "quiet w2")
    case True
    have "edit_run env stalled (rounds saves) w2 = Ret w2" for saves
      using True by (induction saves) (auto simp: edit_run_def rounds_def finish_task_def run_task_quiet, simp add: quiet_def)
    with True e show ?thesis by auto
  next
    case False
    then have "busy w" using Cons.prems(1) r(1) w2(4) by auto
    then have "length (queued w2) \<le> length (queued w) - 1" "queued w \<noteq> []" using False r w2(5) by auto
    then have "length (queued w2) < length saves" using Cons.prems(3) by (cases "queued w") auto
    with Cons.IH [OF w2(2,3)] e show ?thesis by auto
  qed
qed simp

section \<open>The length of the queue\<close>

lemma merge_queued_shorter: "merge_queued merged requests = (merged', rest) \<Longrightarrow> length rest \<le> length requests"
  by (induction merged requests rule: merge_queued.induct) (auto split: if_splits)

lemma dequeue_edit_shorter: "dequeue_edit requests = (r, rest) \<Longrightarrow> length rest \<le> length requests - 1"
  by (cases requests) (auto split: if_splits prod.splits dest: merge_queued_shorter)

lemma handle_edit_queue: "length (queued (handle_region_edit request w)) \<le> max (length (queued w)) (Suc QUEUE_MAX_LEN)"
  by (auto simp: handle_region_edit_def Let_def enqueue_edit_def queued_def reply_with_def split: option.splits sum.splits)

lemma next_edit_queue: "length (queued (next_edit w)) \<le> max (length (queued w)) (Suc QUEUE_MAX_LEN)"
proof (cases "ew_queue w")
  case (Some requests)
  obtain r rest where d: "dequeue_edit requests = (r, rest)" by fastforce
  let ?w = "w\<lparr>ew_queue := (if rest = [] then None else Some rest)\<rparr>"
  have "length (queued ?w) \<le> length (queued w)" using Some dequeue_edit_shorter [OF d] by (auto simp: queued_def)
  then have "max (length (queued ?w)) (Suc QUEUE_MAX_LEN) \<le> max (length (queued w)) (Suc QUEUE_MAX_LEN)" by simp
  moreover have "length (queued (next_edit w)) \<le> max (length (queued ?w)) (Suc QUEUE_MAX_LEN)"
    using Some d handle_edit_queue [of _ ?w] by (cases r) (simp_all add: next_edit_def Let_def)
  ultimately show ?thesis by linarith
qed (simp add: next_edit_def queued_def)

lemma queue_step:
  assumes "edit_event_step env stalled event w = Ret w'" and "length (queued w) \<le> Suc QUEUE_MAX_LEN"
  shows "length (queued w') \<le> Suc QUEUE_MAX_LEN"
proof (cases event)
  case (Submit request)
  with assms handle_edit_queue [of request w] show ?thesis by auto
next
  case (RunTask i saved)
  with assms show ?thesis by (auto simp: run_task_def queued_def split_beta Let_def split: option.splits if_splits)
next
  case (Finish i)
  have r: "queued (reject_region_edit_queue_as_not_found v) = []" for v :: "'a edit_worker"
    by (simp add: reject_region_edit_queue_as_not_found_def queued_def reply_with_def split: option.splits)
  have n: "length (queued (next_edit v)) \<le> Suc QUEUE_MAX_LEN" if "queued v = queued w" for v :: "'a edit_worker"
    using next_edit_queue [of v] assms(2) that by simp
  have q: "queued ((reply_with x y (v\<lparr>ew_tasks := ts, ew_region := a\<rparr>))\<lparr>ew_region := b\<rparr>) = queued v" for x y a b ts and v :: "'a edit_worker"
    by (simp add: queued_def reply_with_def)
  from Finish assms show ?thesis
    by (auto simp: finish_task_def handle_region_edit_result_def r bind_outcome_Ret_iff Let_def split: if_splits option.splits prod.splits)
      (auto intro!: n simp: q)
next
  case (ChangeRole role)
  with assms show ?thesis by (auto simp: queued_def split: option.splits)
next
  case CloseRegion
  with assms show ?thesis by (auto simp: remove_region_def reject_region_edit_queue_as_not_found_def queued_def reply_with_def split: option.splits)
qed

lemma queue_run:
  assumes "edit_run env stalled events w = Ret w'" and "length (queued w) \<le> Suc QUEUE_MAX_LEN"
  shows "length (queued w') \<le> Suc QUEUE_MAX_LEN"
  by (rule fold_outcome_invariant [OF assms(1) [unfolded edit_run_def], of "\<lambda>w. length (queued w) \<le> Suc QUEUE_MAX_LEN"])
    (use assms(2) in \<open>auto intro: queue_step\<close>)

section \<open>Properties\<close>

text \<open>
  C8. No edit is forgotten and none is answered twice. Whatever requests arrive, in whatever order
  the background tasks update the manifest and report, and whenever the role of the region changes
  or the region is closed, each waiter of a request is either answered once, or belongs to one task
  that has not reported, or stands once in the queue, which never holds more than 129 requests.
\<close>

theorem edit_waiters_conserved:
  assumes "edit_run env stalled events (edit_worker_new region) = Ret w"
  shows "mset (concat (map er_waiters (case ew_queue w of Some q \<Rightarrow> q | None \<Rightarrow> [])))
      + mset (concat (map et_waiters (ew_tasks w))) + mset (map fst (ew_replies w)) = submitted events
    \<and> length (case ew_queue w of Some q \<Rightarrow> q | None \<Rightarrow> []) \<le> QUEUE_MAX_LEN + 1"
  using accounted_run [OF assms] queue_run [OF assms]
  by (simp add: accounted_def queued_def edit_worker_new_def)

theorem edit_waiters_conserved_witness:
  "let region = (manifest_ctx_new (projr (manager_new plain_metadata 0 Flat empty_store)) (LeaderState Writable), sample_control 0 0);
       request = (\<lambda>x. \<lparr>er_edit = edit_empty, er_waiters = [x :: nat]\<rparr>)
   in \<exists>w. edit_run \<lparr>me_opts = plain_options, me_pev = length, me_clk = (\<lambda>_ _. 0)\<rparr> id
            [Submit (request 1), Submit (request 2), ChangeRole RoleFollower, Submit (request 3)] (edit_worker_new region) = Ret w
        \<and> mset (concat (map er_waiters (case ew_queue w of Some q \<Rightarrow> q | None \<Rightarrow> [])))
          + mset (concat (map et_waiters (ew_tasks w))) + mset (map fst (ew_replies w)) = {#1, 2, 3#}"
proof -
  let ?env = "\<lparr>me_opts = plain_options, me_pev = length, me_clk = (\<lambda>_ _. 0 :: int)\<rparr>"
  let ?region = "(manifest_ctx_new (projr (manager_new plain_metadata 0 Flat empty_store)) (LeaderState Writable), sample_control 0 0)"
  let ?request = "\<lambda>x. \<lparr>er_edit = edit_empty, er_waiters = [x :: nat]\<rparr>"
  let ?events = "[Submit (?request 1), Submit (?request 2), ChangeRole RoleFollower, Submit (?request 3)]"
  obtain w where w: "edit_run ?env id ?events (edit_worker_new ?region) = Ret w" by (simp add: edit_run_def)
  from edit_waiters_conserved [OF w] w show ?thesis unfolding Let_def by (intro exI [of _ w]) simp
qed

text \<open>
  C11. Every edit of a leader is answered. While the region stays a leader, whatever requests arrive
  and however the tasks proceed, the worker does not panic, and from any point on it is enough that
  a hundred and thirty times a running task completes and its result is handled, whether or not the
  manifest could be written: then every request has been answered, exactly once per waiter, and no
  request is queued or running.
\<close>

theorem every_edit_is_answered:
  assumes "stalled_ok stalled" and "is_writable (mc_state (fst region))" and "files_wf region"
    and "list_all plain_event events" and "length saves = QUEUE_MAX_LEN + 2"
  shows "\<exists>w. edit_run env stalled (events @ rounds saves) (edit_worker_new region) = Ret w
     \<and> mset (map fst (ew_replies w)) = submitted events \<and> ew_tasks w = [] \<and> ew_queue w = None"
proof -
  have n: "quiet (edit_worker_new region)" "edits_fit (edit_worker_new region)"
    using assms(2,3) by (cases region; auto simp: edit_worker_new_def quiet_def edits_fit_def queued_def)+
  obtain w1 where w1: "edit_run env stalled events (edit_worker_new region) = Ret w1" "quiet w1 \<or> busy w1" "edits_fit w1"
    using plain_run_live [OF assms(1,4), of "edit_worker_new region" env] n by blast
  have "length (queued w1) < length saves"
    using queue_run [OF w1(1)] assms(5) by (simp add: edit_worker_new_def queued_def)
  then obtain w where w: "edit_run env stalled (rounds saves) w1 = Ret w" "quiet w"
    using rounds_drain [OF assms(1) w1(2,3)] by blast
  have "submitted (rounds saves) = {#}" by (induction saves) (auto simp: rounds_def)
  then have "accounted w = submitted events"
    using accounted_run [OF w1(1)] accounted_run [OF w(1)] by (simp add: accounted_def queued_def edit_worker_new_def)
  with w w1(1) show ?thesis
    by (auto simp: edit_run_def fold_outcome_append accounted_def queued_def quiet_def)
qed

theorem every_edit_is_answered_witness:
  "let region = (manifest_ctx_new (projr (manager_new plain_metadata 0 Flat empty_store)) (LeaderState Writable), sample_control 0 0);
       request = (\<lambda>x. \<lparr>er_edit = edit_empty\<lparr>re_timestamp_ms := Some x\<rparr>, er_waiters = [x]\<rparr>)
   in \<exists>w. edit_run \<lparr>me_opts = plain_options, me_pev = length, me_clk = (\<lambda>_ _. 0)\<rparr> id
            ([Submit (request 1), Submit (request 2), RunTask 0 False, Submit (request 3)] @ rounds (replicate 130 True)) (edit_worker_new region) = Ret w
        \<and> mset (map fst (ew_replies w)) = {#1, 2, 3#} \<and> ew_tasks w = [] \<and> ew_queue w = None"
proof -
  let ?region = "(manifest_ctx_new (projr (manager_new plain_metadata 0 Flat empty_store)) (LeaderState Writable), sample_control 0 0)"
  let ?request = "\<lambda>x. \<lparr>er_edit = edit_empty\<lparr>re_timestamp_ms := Some x\<rparr>, er_waiters = [x]\<rparr>"
  have "stalled_ok id" by (simp add: stalled_ok_def)
  moreover have "is_writable (mc_state (fst ?region))" by (simp add: manifest_ctx_new_def is_writable_def)
  moreover have "files_wf ?region"
    by (simp add: files_wf_def sample_control_def vc_new_def setter_defs version_builder_new_def sv_wf_new)
  moreover have "list_all plain_event [Submit (?request 1), Submit (?request 2), RunTask 0 False, Submit (?request 3)]"
    by (simp add: edit_fits_def edit_empty_def)
  ultimately show ?thesis
    unfolding Let_def
    using every_edit_is_answered [of id ?region "[Submit (?request 1), Submit (?request 2), RunTask 0 False, Submit (?request 3)]"
        "replicate 130 True" "\<lparr>me_opts = plain_options, me_pev = length, me_clk = (\<lambda>_ _. 0)\<rparr>"]
    by (simp add: QUEUE_MAX_LEN_def add_mset_commute)
qed

text \<open>
  When the region is demoted during an edit, the next request is taken off the queue and told that
  the region is busy, and no task is left to take the others off: they are not answered, whatever
  the worker does with its tasks.
\<close>

lemma demotion_strands_queued_edits:
  assumes "ew_region w = Some (ctx, d)" and "mc_state ctx = FollowerState" and "ew_tasks w = [t]" and "et_result t = Some (Inl err)"
    and "ew_queue w = Some (r1 # r2 # rest)" and "\<not> can_merge (er_edit r1)"
    and "stalled (ctx, d) = (ctx, d)"
  shows "\<exists>w'. finish_task stalled 0 w = Ret w' \<and> ew_queue w' = Some (r2 # rest) \<and> ew_tasks w' = []
     \<and> run_task env i saved w' = w' \<and> finish_task stalled i w' = Ret w'"
  using assms
  by (cases "et_is_staging t")
    (auto simp: finish_task_def handle_region_edit_result_def switch_state_to_staging_def switch_state_to_writable_def
      compare_exchange_state_def next_edit_def handle_region_edit_def is_writable_def run_task_def reply_with_def)

end
