(* ===== verification/Time_Range.thy ===== *)
theory Time_Range
  imports Timestamp
begin

text \<open>
  Half-open ranges of \<open>src/src/common/time/src/range.rs\<close>: \<open>GenericRange\<close> over any ordered type with
  a default value, its instance \<open>TimestampRange\<close>, and \<open>TimestampMillis\<close> of \<open>timestamp_millis.rs\<close>,
  whose ranges are \<open>RangeMillis\<close>. The bound type is a preorder (\<open>PartialOrd\<close>); the default value
  of the type (\<open>T::default()\<close>) is the argument \<open>d\<close>. The locale \<open>total_key\<close> states what the range
  algebra needs of the bound type and proves it once; it is interpreted for both bound types.
\<close>

section \<open>Definitions\<close>

subsection \<open>Generic ranges\<close>

record 'a generic_range =
  gr_start :: "'a option"
  gr_end :: "'a option"

definition po_eq :: "'a::preorder \<Rightarrow> 'a \<Rightarrow> bool" where
  "po_eq a b \<longleftrightarrow> a \<le> b \<and> b \<le> a"

definition gr_empty :: "'a \<Rightarrow> 'a generic_range" where
  "gr_empty d = \<lparr>gr_start = Some d, gr_end = Some d\<rparr>"

fun from_optional :: "'a::preorder \<Rightarrow> 'a option \<Rightarrow> 'a option \<Rightarrow> 'a generic_range" where
  "from_optional d (Some s) (Some e) =
     (if s < e then \<lparr>gr_start = Some s, gr_end = Some e\<rparr> else gr_empty d)"
| "from_optional d s e = \<lparr>gr_start = s, gr_end = e\<rparr>"

definition gr_and :: "'a::preorder \<Rightarrow> 'a generic_range \<Rightarrow> 'a generic_range \<Rightarrow> 'a generic_range" where
  "gr_and d r1 r2 =
     (let start =
            (case (gr_start r1, gr_start r2) of
               (Some l, Some r) \<Rightarrow> if l > r then Some l else Some r
             | (Some l, None) \<Rightarrow> Some l
             | (None, Some r) \<Rightarrow> Some r
             | (None, None) \<Rightarrow> None);
          end =
            (case (gr_end r1, gr_end r2) of
               (Some l, Some r) \<Rightarrow> if l > r then Some r else Some l
             | (Some l, None) \<Rightarrow> Some l
             | (None, Some r) \<Rightarrow> Some r
             | (None, None) \<Rightarrow> None)
      in from_optional d start end)"

definition gr_is_empty :: "'a::preorder generic_range \<Rightarrow> bool" where
  "gr_is_empty r = (case (gr_start r, gr_end r) of (Some s, Some e) \<Rightarrow> po_eq s e | _ \<Rightarrow> False)"

definition gr_or :: "'a::preorder \<Rightarrow> 'a generic_range \<Rightarrow> 'a generic_range \<Rightarrow> 'a generic_range" where
  "gr_or d r1 r2 =
     (if gr_is_empty r1 then r2
      else if gr_is_empty r2 then r1
      else
        (let start =
               (case (gr_start r1, gr_start r2) of
                  (Some l, Some r) \<Rightarrow> if l > r then Some r else Some l
                | _ \<Rightarrow> None);
             end =
               (case (gr_end r1, gr_end r2) of
                  (Some l, Some r) \<Rightarrow> if l > r then Some l else Some r
                | _ \<Rightarrow> None)
         in from_optional d start end))"

definition gr_intersects :: "'a::preorder \<Rightarrow> 'a generic_range \<Rightarrow> 'a generic_range \<Rightarrow> bool" where
  "gr_intersects d r1 r2 \<longleftrightarrow> \<not> gr_is_empty (gr_and d r1 r2)"

definition gr_new :: "'a::preorder \<Rightarrow> 'a \<Rightarrow> 'a generic_range option" where
  "gr_new s e = (if s \<le> e then Some \<lparr>gr_start = Some s, gr_end = Some e\<rparr> else None)"

definition min_to_max :: "'a generic_range" where
  "min_to_max = \<lparr>gr_start = None, gr_end = None\<rparr>"

definition gr_contains :: "'a::preorder generic_range \<Rightarrow> 'a \<Rightarrow> bool" where
  "gr_contains r t =
     (case (gr_start r, gr_end r) of
        (Some s, Some e) \<Rightarrow> t \<ge> s \<and> t < e
      | (Some s, None) \<Rightarrow> t \<ge> s
      | (None, Some e) \<Rightarrow> t < e
      | (None, None) \<Rightarrow> True)"

subsection \<open>Timestamp ranges\<close>

type_synonym timestamp_range = "timestamp generic_range"

definition checked_succ :: "timestamp \<Rightarrow> timestamp option" where
  "checked_succ t = map_option (\<lambda>v. ts_new v (ts_unit t)) (checked_add_i64 (ts_value t) 1)"

definition checked_pred :: "timestamp \<Rightarrow> timestamp option" where
  "checked_pred t = map_option (\<lambda>v. ts_new v (ts_unit t)) (checked_sub_i64 (ts_value t) 1)"

definition new_inclusive :: "timestamp option \<Rightarrow> timestamp option \<Rightarrow> timestamp_range" where
  "new_inclusive start end =
     (if (case (start, end) of (Some s, Some e) \<Rightarrow> s > e | _ \<Rightarrow> False) then gr_empty ts_default
      else from_optional ts_default start (Option.bind end checked_succ))"

definition with_unit :: "int \<Rightarrow> int \<Rightarrow> time_unit \<Rightarrow> timestamp_range option" where
  "with_unit start end u = gr_new (ts_new start u) (ts_new end u)"

definition range_single :: "timestamp \<Rightarrow> timestamp_range" where
  "range_single t = from_optional ts_default (Some t) (checked_succ t)"

definition from_start :: "timestamp \<Rightarrow> timestamp_range" where
  "from_start start = \<lparr>gr_start = Some start, gr_end = None\<rparr>"

definition until_end :: "timestamp \<Rightarrow> bool \<Rightarrow> timestamp_range" where
  "until_end end inclusive =
     \<lparr>gr_start = None, gr_end = (if inclusive then checked_succ end else Some end)\<rparr>"

definition range_from_pair :: "timestamp \<Rightarrow> timestamp \<Rightarrow> timestamp_range" where
  "range_from_pair start end =
     (if start > end then gr_empty ts_default else new_inclusive (Some start) (Some end))"

datatype 'a bound = Included 'a | Excluded 'a | Unbounded

definition range_from_bounds :: "timestamp bound \<Rightarrow> timestamp bound \<Rightarrow> timestamp_range" where
  "range_from_bounds lo hi =
     (let start = (case lo of Included x \<Rightarrow> Some x | Excluded x \<Rightarrow> checked_pred x | Unbounded \<Rightarrow> None);
          end = (case hi of Included x \<Rightarrow> checked_succ x | Excluded x \<Rightarrow> Some x | Unbounded \<Rightarrow> None)
      in from_optional ts_default start end)"

subsection \<open>Milliseconds\<close>

datatype timestamp_millis = TimestampMillis (as_i64: int)

instantiation timestamp_millis :: linorder
begin

definition less_eq_timestamp_millis :: "timestamp_millis \<Rightarrow> timestamp_millis \<Rightarrow> bool" where
  "less_eq_timestamp_millis a b \<longleftrightarrow> as_i64 a \<le> as_i64 b"

definition less_timestamp_millis :: "timestamp_millis \<Rightarrow> timestamp_millis \<Rightarrow> bool" where
  "less_timestamp_millis a b \<longleftrightarrow> as_i64 a < as_i64 b"

instance
  by standard (auto simp: less_eq_timestamp_millis_def less_timestamp_millis_def
      timestamp_millis.expand)

end

type_synonym range_millis = "timestamp_millis generic_range"

subsection \<open>Specification side\<close>

text \<open>
  The set of points a range stands for, with the bound type measured by \<open>key\<close>, and the Rust
  range a pair of bounds stands for.
\<close>

definition gr_points :: "('a \<Rightarrow> int) \<Rightarrow> 'a generic_range \<Rightarrow> int set" where
  "gr_points key r =
     {k. (\<forall>s. gr_start r = Some s \<longrightarrow> key s \<le> k) \<and> (\<forall>e. gr_end r = Some e \<longrightarrow> k < key e)}"

definition gr_wf :: "'a::preorder generic_range \<Rightarrow> bool" where
  "gr_wf r = (case (gr_start r, gr_end r) of (Some s, Some e) \<Rightarrow> s \<le> e | _ \<Rightarrow> True)"

fun within_bounds :: "'a::preorder bound \<Rightarrow> 'a bound \<Rightarrow> 'a \<Rightarrow> bool" where
  "within_bounds lo hi t \<longleftrightarrow>
     (case lo of Included x \<Rightarrow> x \<le> t | Excluded x \<Rightarrow> x < t | Unbounded \<Rightarrow> True)
     \<and> (case hi of Included x \<Rightarrow> t \<le> x | Excluded x \<Rightarrow> t < x | Unbounded \<Rightarrow> True)"

section \<open>The range algebra over a measured bound type\<close>

locale total_key =
  fixes key :: "'a::preorder \<Rightarrow> int"
  assumes key_le: "a \<le> b \<longleftrightarrow> key a \<le> key b"
    and key_less: "a < b \<longleftrightarrow> key a < key b"
begin

lemma contains_points: "gr_contains r t \<longleftrightarrow> key t \<in> gr_points key r"
  by (cases "gr_start r"; cases "gr_end r") (auto simp: gr_contains_def gr_points_def key_le key_less)

lemma from_optional_points:
  "gr_points key (from_optional d s e) =
     {k. (\<forall>x. s = Some x \<longrightarrow> key x \<le> k) \<and> (\<forall>x. e = Some x \<longrightarrow> k < key x)}"
  by (cases s; cases e) (auto simp: gr_points_def gr_empty_def key_less)

lemma from_optional_wf: "gr_wf (from_optional d s e)"
  by (cases s; cases e) (auto simp: gr_wf_def gr_empty_def less_imp_le)

lemma and_points: "gr_points key (gr_and d r1 r2) = gr_points key r1 \<inter> gr_points key r2"
  by (cases "gr_start r1"; cases "gr_start r2"; cases "gr_end r1"; cases "gr_end r2")
    (auto simp: gr_and_def from_optional_points gr_points_def [of key r1] gr_points_def [of key r2]
       key_less simp del: from_optional.simps)

lemma and_wf: "gr_wf (gr_and d r1 r2)"
  by (simp add: gr_and_def Let_def from_optional_wf)

lemma is_empty_points:
  assumes "gr_wf r"
  shows "gr_is_empty r \<longleftrightarrow> gr_points key r = {}"
proof (cases "gr_start r")
  case None
  then have "(case gr_end r of None \<Rightarrow> 0 | Some e \<Rightarrow> key e - 1) \<in> gr_points key r"
    by (auto simp: gr_points_def split: option.splits)
  with None show ?thesis by (auto simp: gr_is_empty_def)
next
  case (Some s)
  with assms have "gr_is_empty r \<longleftrightarrow> key s \<notin> gr_points key r"
    by (cases "gr_end r") (auto simp: gr_is_empty_def gr_points_def gr_wf_def po_eq_def key_le)
  moreover have "gr_points key r \<noteq> {} \<Longrightarrow> key s \<in> gr_points key r"
    using Some by (auto simp: gr_points_def)
  ultimately show ?thesis by auto
qed

lemma intersects_points: "gr_intersects d r1 r2 \<longleftrightarrow> gr_points key r1 \<inter> gr_points key r2 \<noteq> {}"
  by (simp add: gr_intersects_def is_empty_points and_wf and_points)

lemma is_empty_no_points: "gr_is_empty r \<Longrightarrow> gr_points key r = {}"
  by (auto simp: gr_is_empty_def gr_points_def po_eq_def key_le split: option.splits)

lemma or_covers: "gr_points key r1 \<union> gr_points key r2 \<subseteq> gr_points key (gr_or d r1 r2)"
  using is_empty_no_points [of r1] is_empty_no_points [of r2]
  by (cases "gr_start r1"; cases "gr_start r2"; cases "gr_end r1"; cases "gr_end r2")
    (auto simp: gr_or_def from_optional_points gr_points_def [of key r1] gr_points_def [of key r2]
       key_less simp del: from_optional.simps)

lemma subset_start:
  assumes sub: "gr_points key r1 \<subseteq> gr_points key r" and k: "k \<in> gr_points key r1"
    and s: "gr_start r = Some s"
  shows "\<exists>l. gr_start r1 = Some l \<and> key s \<le> key l"
proof (cases "gr_start r1")
  case None
  with k have "min k (key s - 1) \<in> gr_points key r1" by (fastforce simp: gr_points_def)
  with sub have "min k (key s - 1) \<in> gr_points key r" by blast
  with s show ?thesis by (simp add: gr_points_def)
next
  case (Some l)
  with k have "key l \<in> gr_points key r1" by (auto simp: gr_points_def)
  with sub have "key l \<in> gr_points key r" by blast
  with s Some show ?thesis by (simp add: gr_points_def)
qed

lemma subset_end:
  assumes sub: "gr_points key r1 \<subseteq> gr_points key r" and k: "k \<in> gr_points key r1"
    and e: "gr_end r = Some e"
  shows "\<exists>h. gr_end r1 = Some h \<and> key h \<le> key e"
proof (cases "gr_end r1")
  case None
  with k have "max k (key e) \<in> gr_points key r1" by (fastforce simp: gr_points_def)
  with sub have "max k (key e) \<in> gr_points key r" by blast
  with e show ?thesis by (simp add: gr_points_def)
next
  case (Some h)
  with k have "key h - 1 \<in> gr_points key r1" by (force simp: gr_points_def)
  with sub have "key h - 1 \<in> gr_points key r" by blast
  with e Some show ?thesis by (simp add: gr_points_def)
qed

lemma or_least:
  assumes wf: "gr_wf r1" "gr_wf r2"
    and sub: "gr_points key r1 \<union> gr_points key r2 \<subseteq> gr_points key r"
  shows "gr_points key (gr_or d r1 r2) \<subseteq> gr_points key r"
proof (cases "gr_is_empty r1 \<or> gr_is_empty r2")
  case True
  with sub show ?thesis by (auto simp: gr_or_def)
next
  case False
  with wf obtain k1 k2 where k: "k1 \<in> gr_points key r1" "k2 \<in> gr_points key r2"
    by (auto simp: is_empty_points)
  then have S: "\<exists>l1 l2. gr_start r1 = Some l1 \<and> gr_start r2 = Some l2
      \<and> key s \<le> key l1 \<and> key s \<le> key l2" if "gr_start r = Some s" for s
    using sub that subset_start [of r1 r k1 s] subset_start [of r2 r k2 s] by auto
  have E: "\<exists>h1 h2. gr_end r1 = Some h1 \<and> gr_end r2 = Some h2
      \<and> key h1 \<le> key e \<and> key h2 \<le> key e" if "gr_end r = Some e" for e
    using sub that subset_end [of r1 r k1 e] subset_end [of r2 r k2 e] k by auto
  show ?thesis
  proof
    fix k
    assume k: "k \<in> gr_points key (gr_or d r1 r2)"
    have "key s \<le> k" if "gr_start r = Some s" for s
      using S [OF that] k False
      by (auto simp: gr_or_def from_optional_points simp del: from_optional.simps split: if_splits)
    moreover have "k < key e" if "gr_end r = Some e" for e
      using E [OF that] k False
      by (auto simp: gr_or_def from_optional_points simp del: from_optional.simps split: if_splits)
    ultimately show "k \<in> gr_points key r" by (simp add: gr_points_def)
  qed
qed

end

text \<open>Timestamps are measured by their instant, milliseconds by their value.\<close>

interpretation ts: total_key instant_ns
  by unfold_locales (simp_all add: ts_order)

interpretation millis: total_key as_i64
  by unfold_locales (simp_all add: less_eq_timestamp_millis_def less_timestamp_millis_def)

section \<open>Timestamp ranges\<close>

lemma checked_succ_Some:
  "checked_succ t = Some t' \<longleftrightarrow> in_i64 (ts_value t + 1) \<and> t' = ts_new (ts_value t + 1) (ts_unit t)"
  by (auto simp: checked_succ_def checked_ops try_i64_Some)

lemma checked_pred_Some:
  "checked_pred t = Some t' \<longleftrightarrow> in_i64 (ts_value t - 1) \<and> t' = ts_new (ts_value t - 1) (ts_unit t)"
  by (auto simp: checked_pred_def checked_ops try_i64_Some)

lemma instant_ns_ts_new: "instant_ns (ts_new v u) = v * instant_ns (ts_new 1 u)"
  by (simp add: instant_ns_def)

lemma checked_succ_instant:
  assumes "checked_succ t = Some t'"
  shows "instant_ns t < instant_ns t'"
  using assms by (auto simp: checked_succ_Some instant_ns_def)

lemma checked_pred_instant:
  assumes "checked_pred t = Some t'"
  shows "instant_ns t' < instant_ns t"
  using assms by (auto simp: checked_pred_Some instant_ns_def)

lemma checked_succ_same_unit:
  assumes "checked_succ e = Some e'" and "ts_unit t = ts_unit e"
  shows "t < e' \<longleftrightarrow> t \<le> e"
  using assms by (auto simp: checked_succ_Some ts_order instant_ns_same_unit)

text \<open>
  The range algebra on timestamps of any units is the algebra of half-open intervals of
  instants. An instant is in \<open>and\<close> exactly when it is in both ranges, \<open>intersects\<close> holds exactly
  when the ranges have an instant in common, and \<open>or\<close> of well-formed ranges is the least range
  that covers both.
\<close>

theorem timestamp_range_algebra:
  "gr_points instant_ns (gr_and ts_default r1 r2) = gr_points instant_ns r1 \<inter> gr_points instant_ns r2
   \<and> (gr_contains (gr_and ts_default r1 r2) t \<longleftrightarrow> gr_contains r1 t \<and> gr_contains r2 t)
   \<and> (gr_intersects ts_default r1 r2 \<longleftrightarrow> gr_points instant_ns r1 \<inter> gr_points instant_ns r2 \<noteq> {})
   \<and> gr_points instant_ns r1 \<union> gr_points instant_ns r2 \<subseteq> gr_points instant_ns (gr_or ts_default r1 r2)
   \<and> (gr_wf r1 \<and> gr_wf r2 \<and> gr_points instant_ns r1 \<union> gr_points instant_ns r2 \<subseteq> gr_points instant_ns r
        \<longrightarrow> gr_points instant_ns (gr_or ts_default r1 r2) \<subseteq> gr_points instant_ns r)"
  using ts.or_least [of r1 r2 r] ts.or_covers [of r1 r2]
  by (simp add: ts.and_points ts.contains_points ts.intersects_points)

text \<open>
  Conversion of a Rust range of timestamps never loses an instant: whatever combination of
  included, excluded and missing bounds the range has, a timestamp it holds is in the resulting
  \<open>TimestampRange\<close>, including at the ends of the 64-bit value range where the successor or
  predecessor of a bound does not exist.
\<close>

theorem range_from_bounds_covers:
  assumes "within_bounds lo hi t"
  shows "gr_contains (range_from_bounds lo hi) t"
proof -
  have "instant_ns x \<le> instant_ns t"
    if "(case lo of Included x \<Rightarrow> Some x | Excluded x \<Rightarrow> checked_pred x | Unbounded \<Rightarrow> None) = Some x" for x
    using that assms by (cases lo) (auto simp: ts_order dest: checked_pred_instant)
  moreover have "instant_ns t < instant_ns x"
    if "(case hi of Included x \<Rightarrow> checked_succ x | Excluded x \<Rightarrow> Some x | Unbounded \<Rightarrow> None) = Some x" for x
    using that assms by (cases hi) (auto simp: ts_order dest: checked_succ_instant)
  ultimately show ?thesis
    by (simp add: range_from_bounds_def ts.contains_points ts.from_optional_points
        del: from_optional.simps)
qed

text \<open>
  An inclusive range from \<open>s\<close> to \<open>e\<close> holds exactly the timestamps \<open>t\<close> with \<open>s \<le> t \<le> e\<close> among
  those of the unit of \<open>e\<close>, whether \<open>s\<close> and \<open>e\<close> are in order or not. At the largest value of the
  unit the exclusive end does not exist and the range stays exact.
\<close>

theorem new_inclusive_exact:
  assumes "ts_unit t = ts_unit e" and "in_i64 (ts_value t)" and "in_i64 (ts_value e)"
  shows "(gr_contains (new_inclusive (Some s) (Some e)) t \<longleftrightarrow> s \<le> t \<and> t \<le> e)
    \<and> (gr_contains (range_from_pair s e) t \<longleftrightarrow> s \<le> t \<and> t \<le> e)"
proof (cases "s > e")
  case True
  then show ?thesis
    by (auto simp: new_inclusive_def range_from_pair_def gr_empty_def gr_contains_def ts_order)
next
  case False
  have "(\<forall>x. checked_succ e = Some x \<longrightarrow> t < x) \<longleftrightarrow> t \<le> e"
  proof (cases "checked_succ e")
    case None
    then have "ts_value e = i64_max"
      using assms(3) by (auto simp: checked_succ_def checked_ops try_i64_None in_i64_def)
    with None assms show ?thesis by (simp add: ts_order instant_ns_same_unit in_i64_def)
  next
    case (Some e')
    then show ?thesis using assms(1) checked_succ_same_unit by simp
  qed
  with False show ?thesis
    by (simp add: new_inclusive_def range_from_pair_def ts.contains_points ts.from_optional_points
        ts_order del: from_optional.simps)
qed

end
