(* ===== verification/Compaction_Window.thy ===== *)
theory Compaction_Window
  imports Time_Range Sst_Version
begin

text \<open>
  Compaction by strict time windows: the buckets of \<open>src/src/mito2/src/compaction/buckets.rs\<close>, the
  picker of \<open>src/src/mito2/src/compaction/window.rs\<close> and the outputs of pickers in
  \<open>src/src/mito2/src/compaction/picker.rs\<close>. A \<open>BTreeMap\<close> is an association list in ascending order of
  its keys. The loop of \<open>file_time_bucket_span\<close> need not end, so it is a partial function: \<open>None\<close>
  stands for a loop that never returns. Reserving the result panics when its size in bytes is
  beyond the greatest \<open>isize\<close>; that there may be less memory is not modelled.
\<close>

section \<open>Definitions\<close>

subsection \<open>Ordered maps\<close>

text \<open>\<open>entry(k)\<close> with what an absent or a present value becomes.\<close>

fun bmap_update :: "'k::linorder \<Rightarrow> ('v option \<Rightarrow> 'v) \<Rightarrow> ('k \<times> 'v) list \<Rightarrow> ('k \<times> 'v) list" where
  "bmap_update k f [] = [(k, f None)]"
| "bmap_update k f ((k', v) # m) =
     (if k < k' then (k, f None) # (k', v) # m
      else if k = k' then (k, f (Some v)) # m
      else (k', v) # bmap_update k f m)"

definition bmap_wf :: "('k::linorder \<times> 'v) list \<Rightarrow> bool" where
  "bmap_wf m \<longleftrightarrow> sorted_wrt (<) (map fst m)"

subsection \<open>Buckets\<close>

definition TIME_BUCKETS :: "int list" where
  "TIME_BUCKETS = [60 * 60, 2 * 60 * 60, 12 * 60 * 60, 24 * 60 * 60, 7 * 24 * 60 * 60]"

text \<open>
  Binary search of a sorted slice: the position of the value, or the position at which it would be
  inserted.
\<close>

definition binary_search :: "int list \<Rightarrow> int \<Rightarrow> nat + nat" where
  "binary_search xs x =
     (case position (\<lambda>y. x \<le> y) xs of
        None \<Rightarrow> Inl (length xs)
      | Some i \<Rightarrow> if xs ! i = x then Inr i else Inl i)"

definition fit_time_bucket :: "int \<Rightarrow> int outcome" where
  "fit_time_bucket span_sec =
     (if span_sec \<ge> 0
      then Ret (case binary_search TIME_BUCKETS span_sec of
                  Inr idx \<Rightarrow> TIME_BUCKETS ! idx
                | Inl idx \<Rightarrow> if idx < length TIME_BUCKETS then TIME_BUCKETS ! idx else last TIME_BUCKETS)
      else Panic)"

definition infer_time_bucket :: "file_handle list \<Rightarrow> int outcome" where
  "infer_time_bucket files =
     (let (min_ts, max_ts) =
            fold (\<lambda>f (min_ts, max_ts). (ts_min min_ts (fst (fh_time_range f)), ts_max max_ts (snd (fh_time_range f))))
              files (ts_new i64_max Second, ts_new i64_min Second)
      in bind_outcome (unwrap (convert_to min_ts Second)) (\<lambda>min_sec.
         bind_outcome (unwrap (convert_to max_ts Second)) (\<lambda>max_sec.
         case checked_sub_i64 (ts_value max_sec) (ts_value min_sec) of
           Some span \<Rightarrow> fit_time_bucket span
         | None \<Rightarrow> Ret (last TIME_BUCKETS))))"

subsection \<open>Windows of a file\<close>

text \<open>The remainder of the source language has the sign of the dividend.\<close>

definition window_size :: "int \<Rightarrow> int \<Rightarrow> int" where
  "window_size bucket_sec start_aligned =
     (if start_aligned smod bucket_sec = 0 then bucket_sec else \<bar>start_aligned smod bucket_sec\<bar>)"

definition window_upper :: "int \<Rightarrow> int \<Rightarrow> int" where
  "window_upper bucket_sec start_aligned =
     (case checked_add_i64 start_aligned (window_size bucket_sec start_aligned) of
        Some upper \<Rightarrow> upper
      | None \<Rightarrow> i64_max)"

partial_function (option) span_loop :: "int \<Rightarrow> int \<Rightarrow> int \<Rightarrow> (int \<times> int) list option" where
  "span_loop bucket_sec end_aligned start_aligned =
     (if start_aligned \<le> end_aligned
      then Option.bind (span_loop bucket_sec end_aligned (window_upper bucket_sec start_aligned))
             (\<lambda>rest. Some ((start_aligned, window_upper bucket_sec start_aligned) # rest))
      else Some [])"

text \<open>\<open>Vec::with_capacity\<close> for pairs of 64-bit integers, and the capacity the code computes.\<close>

definition span_capacity :: "int \<Rightarrow> int \<Rightarrow> int \<Rightarrow> int" where
  "span_capacity bucket_sec start_aligned end_aligned =
     wrap_i64 (wrap_i64 (end_aligned - start_aligned) sdiv bucket_sec + 1) mod 2 ^ 64"

definition with_capacity :: "int \<Rightarrow> 'a \<Rightarrow> 'a outcome" where
  "with_capacity n x = (if n * 16 \<le> i64_max then Ret x else Panic)"

definition file_time_bucket_span :: "int \<Rightarrow> int \<Rightarrow> int \<Rightarrow> (int \<times> int) list option outcome" where
  "file_time_bucket_span start_sec end_sec bucket_sec =
     (if start_sec \<le> end_sec
      then bind_outcome (align_by_bucket start_sec bucket_sec) (\<lambda>s.
           let start_aligned = (case s of Some v \<Rightarrow> v | None \<Rightarrow> i64_min)
           in bind_outcome (align_by_bucket end_sec bucket_sec) (\<lambda>e.
              let end_aligned =
                    (case e of Some v \<Rightarrow> v
                     | None \<Rightarrow> wrap_i64 (start_aligned + wrap_i64 (end_sec - start_sec)))
              in with_capacity (span_capacity bucket_sec start_aligned end_aligned)
                   (span_loop bucket_sec end_aligned start_aligned)))
      else Panic)"

subsection \<open>Windows of a region\<close>

type_synonym time_windows = "(int \<times> int \<times> file_handle list) list"

definition push_window :: "file_handle \<Rightarrow> int \<times> int \<Rightarrow> time_windows \<Rightarrow> time_windows" where
  "push_window file b buckets =
     (case b of (lower_bound, upper_bound) \<Rightarrow>
        bmap_update lower_bound
          (\<lambda>e. let (u, files) = (case e of Some e \<Rightarrow> e | None \<Rightarrow> (upper_bound, [])) in (u, files @ [file]))
          buckets)"

text \<open>The outer \<open>None\<close> of the state is a loop that never returns.\<close>

definition assign_file :: "int \<Rightarrow> file_handle \<Rightarrow> time_windows option \<Rightarrow> time_windows option outcome" where
  "assign_file bucket_sec file buckets =
     (case buckets of
        None \<Rightarrow> Ret None
      | Some m \<Rightarrow>
          if fh_compacting file then Ret (Some m)
          else bind_outcome (unwrap (convert_to (fst (fh_time_range file)) Second)) (\<lambda>start.
               bind_outcome (unwrap (convert_to (snd (fh_time_range file)) Second)) (\<lambda>end.
               bind_outcome (file_time_bucket_span (ts_value start) (ts_value end) bucket_sec) (\<lambda>bounds.
               Ret (map_option (\<lambda>bounds. fold (push_window file) bounds m) bounds)))))"

definition assign_files_to_time_windows :: "int \<Rightarrow> file_handle list \<Rightarrow> time_windows option outcome" where
  "assign_files_to_time_windows bucket_sec files = fold_outcome (assign_file bucket_sec) files (Some [])"

subsection \<open>Windows of a time range\<close>

definition window_in_range :: "timestamp generic_range \<Rightarrow> int \<Rightarrow> int \<Rightarrow> bool" where
  "window_in_range time_range lower_bound upper_bound \<longleftrightarrow>
     (case gr_end time_range of None \<Rightarrow> True | Some range_end \<Rightarrow> new_second lower_bound < range_end)
     \<and> (case gr_start time_range of None \<Rightarrow> True | Some range_start \<Rightarrow> range_start < new_second upper_bound)"

definition file_windows_of :: "time_windows \<Rightarrow> (region_file_id, int list) hmap" where
  "file_windows_of windows =
     fold (\<lambda>(lower_bound, _, files) m.
             fold (\<lambda>file m. hmap_insert (fh_file_id file)
                     ((case hmap_get m (fh_file_id file) of Some ws \<Rightarrow> ws | None \<Rightarrow> []) @ [lower_bound]) m) files m)
       windows []"

text \<open>
  The search for dependent windows: the windows selected so far, the queue of windows to expand,
  and the ids of the files already seen.
\<close>

type_synonym closure = "int list \<times> int list \<times> region_file_id list"

fun select_window :: "int \<Rightarrow> int list \<times> int list \<Rightarrow> int list \<times> int list" where
  "select_window w (selected, pending) =
     (if w \<in> set selected then (selected, pending) else (selected @ [w], pending @ [w]))"

fun visit_file :: "(region_file_id, int list) hmap \<Rightarrow> file_handle \<Rightarrow> closure \<Rightarrow> closure outcome" where
  "visit_file file_windows file (selected, pending, visited) =
     (if fh_file_id file \<in> set visited then Ret (selected, pending, visited)
      else (case hmap_get file_windows (fh_file_id file) of
              None \<Rightarrow> Panic
            | Some ws \<Rightarrow>
                (case fold select_window ws (selected, pending) of
                   (selected, pending) \<Rightarrow> Ret (selected, pending, fh_file_id file # visited))))"

definition dependents :: "(region_file_id, int list) hmap \<Rightarrow> int set" where
  "dependents m = (\<Union>ws \<in> snd ` set m. set ws)"

lemma select_window_new:
  "\<exists>new. fold select_window ws (selected, pending) = (selected @ new, pending @ new)
    \<and> set new = set ws - set selected"
proof (induction ws rule: rev_induct)
  case (snoc w ws)
  then obtain new where new: "fold select_window ws (selected, pending) = (selected @ new, pending @ new)"
    "set new = set ws - set selected" by blast
  show ?case
  proof (cases "w \<in> set selected \<union> set new")
    case True
    with new show ?thesis by (intro exI [of _ new]) auto
  next
    case False
    with new show ?thesis by (intro exI [of _ "new @ [w]"]) auto
  qed
qed simp

lemma visit_file_new:
  assumes "fold_outcome (visit_file m) files (selected, pending, visited) = Ret st"
  shows "\<exists>new visited'. st = (selected @ new, pending @ new, visited')
    \<and> set new \<subseteq> dependents m - set selected"
proof -
  let ?P = "\<lambda>st. \<exists>new visited'. st = (selected @ new, pending @ new, visited')
    \<and> set new \<subseteq> dependents m - set selected"
  show ?thesis
  proof (rule fold_outcome_invariant [OF assms, where P = ?P])
    fix fh st st'
    assume "?P st" and "visit_file m fh st = Ret st'"
    then obtain new visited where st: "st = (selected @ new, pending @ new, visited)"
      "set new \<subseteq> dependents m - set selected" "visit_file m fh (selected @ new, pending @ new, visited) = Ret st'"
      by auto
    show "?P st'"
    proof (cases "fh_file_id fh \<in> set visited")
      case False
      with st(3) obtain ws where ws: "hmap_get m (fh_file_id fh) = Some ws"
        by (auto split: option.splits)
      from ws have "set ws \<subseteq> dependents m" by (force simp: dependents_def dest: map_of_SomeD)
      with select_window_new [of ws "selected @ new" "pending @ new"] st ws False
      show ?thesis by (auto split: prod.splits)
    qed (use st in auto)
  qed auto
qed

function close_windows :: "time_windows \<Rightarrow> (region_file_id, int list) hmap \<Rightarrow> closure \<Rightarrow> int list outcome" where
  "close_windows windows file_windows (selected, [], visited) = Ret selected"
| "close_windows windows file_windows (selected, lower_bound # pending, visited) =
     (case map_of windows lower_bound of
        None \<Rightarrow> Panic
      | Some (_, files) \<Rightarrow>
          (case fold_outcome (visit_file file_windows) files (selected, pending, visited) of
             Panic \<Rightarrow> Panic
           | Ret st \<Rightarrow> close_windows windows file_windows st))"
  by pat_completeness auto
termination
proof (relation "measures [\<lambda>(w, m, selected, pending, visited). card (dependents m - set selected),
                           \<lambda>(w, m, selected, pending, visited). length pending]")
  fix windows :: time_windows and m selected lower_bound pending visited st files and upper_bound :: int
  let ?R = "measures [\<lambda>(w, m, selected, pending, visited). card (dependents m - set selected),
      \<lambda>(w, m, selected, pending, visited). length pending] :: ((time_windows \<times> (region_file_id, int list) hmap \<times> closure) \<times> _) set"
  assume "fold_outcome (visit_file m) files (selected, pending, visited) = Ret st"
  then obtain new visited' where st: "st = (selected @ new, pending @ new, visited')"
    "set new \<subseteq> dependents m - set selected" using visit_file_new by blast
  have fin: "finite (dependents m - set selected)" by (simp add: dependents_def)
  show "((windows, m, st), (windows, m, selected, lower_bound # pending, visited)) \<in> ?R"
  proof (cases "new = []")
    case False
    then have "dependents m - set (selected @ new) \<subset> dependents m - set selected" using st(2) by (cases new) auto
    with psubset_card_mono [OF fin this] st show ?thesis by simp
  qed (use st in simp)
qed auto

definition filter_time_windows :: "time_windows \<Rightarrow> timestamp generic_range option \<Rightarrow> time_windows outcome" where
  "filter_time_windows windows time_range =
     (case time_range of
        None \<Rightarrow> Ret windows
      | Some time_range \<Rightarrow>
          (let selected = map fst (filter (\<lambda>(lower_bound, upper_bound, _).
                 window_in_range time_range lower_bound upper_bound) windows)
           in bind_outcome (close_windows windows (file_windows_of windows) (selected, selected, [])) (\<lambda>selected.
              Ret (filter (\<lambda>w. fst w \<in> set selected) windows))))"

subsection \<open>Outputs of a picker\<close>

record compaction_output =
  co_output_level :: level
  co_inputs :: "file_handle list"
  co_filter_deleted :: bool
  co_output_time_range :: "timestamp generic_range option"

record serialized_compaction_output =
  so_output_level :: level
  so_inputs :: "file_meta list"
  so_filter_deleted :: bool
  so_output_time_range :: "timestamp generic_range option"

record picker_output =
  po_outputs :: "compaction_output list"
  po_expired_ssts :: "file_handle list"
  po_time_window_size :: int
  po_max_file_size :: "nat option"

record serialized_picker_output =
  sp_outputs :: "serialized_compaction_output list"
  sp_expired_ssts :: "file_meta list"
  sp_time_window_size :: int
  sp_max_file_size :: "nat option"

definition to_serialized :: "picker_output \<Rightarrow> serialized_picker_output" where
  "to_serialized input =
     \<lparr>sp_outputs = map (\<lambda>out. \<lparr>so_output_level = co_output_level out, so_inputs = map fh_meta (co_inputs out),
                              so_filter_deleted = co_filter_deleted out,
                              so_output_time_range = co_output_time_range out\<rparr>) (po_outputs input),
      sp_expired_ssts = map fh_meta (po_expired_ssts input),
      sp_time_window_size = po_time_window_size input,
      sp_max_file_size = po_max_file_size input\<rparr>"

definition from_serialized :: "serialized_picker_output \<Rightarrow> picker_output" where
  "from_serialized input =
     \<lparr>po_outputs = map (\<lambda>out. \<lparr>co_output_level = so_output_level out, co_inputs = map fh_new (so_inputs out),
                              co_filter_deleted = so_filter_deleted out,
                              co_output_time_range = so_output_time_range out\<rparr>) (sp_outputs input),
      po_expired_ssts = map fh_new (sp_expired_ssts input),
      po_time_window_size = sp_time_window_size input,
      po_max_file_size = sp_max_file_size input\<rparr>"

definition get_expired_ssts :: "level_meta list \<Rightarrow> time_to_live option \<Rightarrow> timestamp \<Rightarrow> file_handle list" where
  "get_expired_ssts levels ttl now =
     (case ttl of
        None \<Rightarrow> []
      | Some ttl \<Rightarrow> concat (map (\<lambda>l. get_expired_files l now ttl) levels))"

definition build_output :: "time_windows \<Rightarrow> compaction_output list outcome" where
  "build_output windows =
     fold_outcome (\<lambda>(lower_bound, upper_bound, files) outputs.
         bind_outcome (unwrap (gr_new (new_second lower_bound) (new_second upper_bound))) (\<lambda>output_time_range.
         Ret (outputs @ [\<lparr>co_output_level = 1, co_inputs = files, co_filter_deleted = False,
                          co_output_time_range = Some output_time_range\<rparr>])))
       windows []"

subsection \<open>The picker\<close>

text \<open>What a picker reads of the version of the region it compacts.\<close>

record compaction_version =
  cv_ssts :: sst_version
  cv_ttl :: "time_to_live option"
  cv_compaction_time_window :: "duration option"

record windowed_picker =
  wp_time_window_seconds :: "int option"
  wp_time_range :: "timestamp generic_range option"

definition level0_files :: "sst_version \<Rightarrow> file_handle list outcome" where
  "level0_files ssts =
     (case sv_levels ssts of [] \<Rightarrow> Panic | l # _ \<Rightarrow> Ret (hmap_values (lm_files l)))"

definition calculate_time_window :: "windowed_picker \<Rightarrow> compaction_version \<Rightarrow> int outcome" where
  "calculate_time_window p v =
     (case wp_time_window_seconds p of
        Some w \<Rightarrow> Ret w
      | None \<Rightarrow>
          (case cv_compaction_time_window v of
             Some t \<Rightarrow> Ret (wrap_i64 (duration_as Second t))
           | None \<Rightarrow> bind_outcome (level0_files (cv_ssts v)) infer_time_bucket))"

definition live_files :: "compaction_version \<Rightarrow> file_handle list \<Rightarrow> file_handle list" where
  "live_files v expired =
     filter (\<lambda>f. fh_file_id f \<notin> fh_file_id ` set expired)
       (concat (map (\<lambda>l. hmap_values (lm_files l)) (sv_levels (cv_ssts v))))"

text \<open>\<open>Ret None\<close> stands for a call that never returns.\<close>

definition pick_inner ::
  "windowed_picker \<Rightarrow> compaction_version \<Rightarrow> timestamp
     \<Rightarrow> (compaction_output list \<times> file_handle list \<times> int) option outcome" where
  "pick_inner p v current_time =
     bind_outcome (calculate_time_window p v) (\<lambda>time_window.
     let expired_ssts = get_expired_ssts (sv_levels (cv_ssts v)) (cv_ttl v) current_time
     in bind_outcome (assign_files_to_time_windows time_window (live_files v expired_ssts)) (\<lambda>windows.
        case windows of
          None \<Rightarrow> Ret None
        | Some windows \<Rightarrow>
            bind_outcome (filter_time_windows windows (wp_time_range p)) (\<lambda>windows.
            bind_outcome (build_output windows) (\<lambda>outputs.
            Ret (Some (outputs, expired_ssts, time_window))))))"

text \<open>
  The picker runs on a blocking thread; a panic there reaches the caller as a join error. \<open>None\<close>
  is a call that never returns.
\<close>

datatype compaction_error = JoinError

fun join_blocking :: "'a outcome \<Rightarrow> compaction_error + 'a" where
  "join_blocking Panic = Inl JoinError"
| "join_blocking (Ret x) = Inr x"

definition windowed_pick ::
  "windowed_picker \<Rightarrow> compaction_version \<Rightarrow> timestamp \<Rightarrow> (compaction_error + picker_output option) option" where
  "windowed_pick p v current_time =
     (case join_blocking (pick_inner p v current_time) of
        Inl e \<Rightarrow> Some (Inl e)
      | Inr None \<Rightarrow> None
      | Inr (Some (outputs, expired_ssts, time_window)) \<Rightarrow>
          Some (Inr (Some \<lparr>po_outputs = outputs, po_expired_ssts = expired_ssts,
                          po_time_window_size = time_window, po_max_file_size = None\<rparr>)))"

section \<open>Lemmas\<close>

subsection \<open>Ordered maps\<close>

lemma map_of_bmap_update:
  "bmap_wf m \<Longrightarrow> map_of (bmap_update k f m) k' = (if k' = k then Some (f (map_of m k)) else map_of m k')"
proof (induction k f m rule: bmap_update.induct)
  case (2 k f k1 v m)
  have "map_of m k = None" if "k < k1"
  proof -
    have "\<forall>x \<in> set (map fst m). k < x" using 2(2) that by (auto simp: bmap_wf_def)
    then show ?thesis by (force simp: map_of_eq_None_iff)
  qed
  with 2 show ?case by (auto simp: bmap_wf_def)
qed simp

lemma keys_bmap_update: "fst ` set (bmap_update k f m) = insert k (fst ` set m)"
  by (induction k f m rule: bmap_update.induct) auto

lemma bmap_wf_update: "bmap_wf m \<Longrightarrow> bmap_wf (bmap_update k f m)"
proof (induction k f m rule: bmap_update.induct)
  case (2 k f k1 v m)
  then show ?case using keys_bmap_update [of k f m] by (force simp: bmap_wf_def)
qed (simp add: bmap_wf_def)

lemma bmap_wf_distinct: "bmap_wf m \<Longrightarrow> distinct (map fst m)"
  by (auto simp: bmap_wf_def strict_sorted_iff)

lemma bmap_entry: "bmap_wf m \<Longrightarrow> (k, v) \<in> set m \<longleftrightarrow> map_of m k = Some v"
  using bmap_wf_distinct [of m] by (simp add: map_of_eq_Some_iff)

subsection \<open>Windows of a file\<close>

text \<open>
  The window of a second: the multiples of the bucket around it, cut at the least and greatest
  64-bit integers.
\<close>

definition win_lower :: "int \<Rightarrow> int \<Rightarrow> int" where
  "win_lower b t = max i64_min (t div b * b)"

definition win_upper :: "int \<Rightarrow> int \<Rightarrow> int" where
  "win_upper b t = min i64_max ((t div b + 1) * b)"

abbreviation win :: "int \<Rightarrow> int \<Rightarrow> int \<times> int" where
  "win b t \<equiv> (win_lower b t, win_upper b t)"

lemma div_between:
  fixes b :: int
  assumes "0 < b" and "q * b \<le> t" and "t < (q + 1) * b"
  shows "t div b = q"
  using assms by (intro int_div_pos_eq [of t b q "t - b * q"]) (auto simp: algebra_simps)

lemma win_bounds:
  assumes "0 < b" and "in_i64 t" and "t < i64_max"
  shows "win_lower b t \<le> t" and "t < win_upper b t" and "in_i64 (win_lower b t)" and "in_i64 (win_upper b t)"
  using floor_bucket_bounds [OF assms(1), of t] assms
  by (auto simp: win_lower_def win_upper_def i64_defs algebra_simps)

lemma win_lower_mono: "0 < b \<Longrightarrow> s \<le> t \<Longrightarrow> win_lower b s \<le> win_lower b t"
  unfolding win_lower_def by (intro max.mono mult_right_mono zdiv_mono1) auto

lemma win_same:
  assumes "0 < b" and "in_i64 t" and "win_lower b s \<le> t" and "t < win_upper b s"
  shows "t div b = s div b"
proof (rule div_between [OF assms(1)])
  show "s div b * b \<le> t" using assms by (simp add: win_lower_def)
  show "t < (s div b + 1) * b" using assms by (simp add: win_upper_def)
qed

lemma window_upper_eq:
  assumes "0 < b" and "in_i64 lo" and "lo = win_lower b lo"
  shows "window_upper b lo = win_upper b lo"
proof (cases "b dvd lo")
  case True
  then have "lo smod b = 0" and "(lo div b + 1) * b = lo + b"
    by (auto simp: signed_modulo_int_def algebra_simps)
  then show ?thesis using assms
    by (auto simp: window_upper_def window_size_def win_upper_def checked_ops try_i64_def i64_defs)
next
  case False
  then have "lo \<noteq> lo div b * b" by (metis dvd_triv_right)
  with assms have neg: "lo = i64_min" by (auto simp: win_lower_def max_def split: if_splits)
  have "lo mod b \<noteq> 0" using False by (simp add: dvd_eq_mod_eq_0)
  then have m: "(- lo) mod b = b - lo mod b" using assms(1) by (simp add: zmod_zminus1_eq_if)
  have "lo smod b = - ((- lo) mod b)" using assms(1) neg by (simp add: signed_modulo_int_def i64_min_def)
  moreover have "0 < (- lo) mod b" using \<open>lo mod b \<noteq> 0\<close> m pos_mod_bound [OF assms(1), of lo] by simp
  ultimately have "window_size b lo = b - lo mod b" using m by (simp add: window_size_def)
  moreover have "lo + (b - lo mod b) = (lo div b + 1) * b"
    using div_mult_mod_eq [of lo b] by (simp add: algebra_simps)
  moreover have "i64_min \<le> (lo div b + 1) * b"
    using floor_bucket_bounds [OF assms(1), of lo] neg by (simp add: algebra_simps)
  ultimately show ?thesis
    by (auto simp: window_upper_def win_upper_def checked_ops try_i64_def in_i64_def min_def)
qed

text \<open>Each round of the loop moves to the next window, so it ends unless the end is the greatest integer.\<close>

lemma span_loop_windows:
  assumes "0 < b" and "e < i64_max" and "in_i64 lo" and "lo = win_lower b lo"
  shows "\<exists>ws. span_loop b e lo = Some ws \<and> set ws = win b ` {lo..e} \<and> sorted_wrt (<) (map fst ws)"
  using assms(3,4)
proof (induction "nat (e - lo + 1)" arbitrary: lo rule: less_induct)
  case less
  show ?case
  proof (cases "lo \<le> e")
    case False
    then show ?thesis by (simp add: span_loop.simps)
  next
    case True
    have lo: "lo < i64_max" using True assms(2) by simp
    let ?up = "win_upper b lo"
    note bounds = win_bounds [OF assms(1) less.prems(1) lo]
    have same: "win b t = win b lo" if "lo \<le> t" "t < ?up" for t
    proof -
      have "in_i64 t" using that less.prems bounds(4) by (auto simp: in_i64_def)
      then have "t div b = lo div b" using win_same [OF assms(1), of t lo] that less.prems(2) by simp
      then show ?thesis by (simp add: win_lower_def win_upper_def)
    qed
    have up: "?up = win_lower b ?up" if "?up < i64_max"
      using that bounds(4) assms(1) by (auto simp: win_upper_def win_lower_def in_i64_def)
    have "\<exists>ws. span_loop b e ?up = Some ws \<and> set ws = win b ` {?up..e} \<and> sorted_wrt (<) (map fst ws)"
    proof (cases "?up \<le> e")
      case True
      with assms(2) bounds(2) show ?thesis by (intro less.hyps up bounds(4)) auto
    next
      case False
      then show ?thesis by (simp add: span_loop.simps)
    qed
    then obtain ws where ws: "span_loop b e ?up = Some ws" "set ws = win b ` {?up..e}" "sorted_wrt (<) (map fst ws)"
      by blast
    have "span_loop b e lo = Some (win b lo # ws)"
      using True ws(1) window_upper_eq [OF assms(1) less.prems] less.prems(2)
      by (subst span_loop.simps) simp
    moreover have "set (win b lo # ws) = win b ` {lo..e}"
    proof -
      have "win b ` {lo..e} = win b ` {lo..min (?up - 1) e} \<union> win b ` {?up..e}"
        using bounds(2) True by (subst image_Un [symmetric], intro arg_cong [where f = "image _"]) auto
      moreover have "win b ` {lo..min (?up - 1) e} = (\<lambda>_. win b lo) ` {lo..min (?up - 1) e}"
        by (intro image_cong refl same) auto
      moreover have "{lo..min (?up - 1) e} \<noteq> {}" using bounds(2) True less.prems(2) [symmetric] by simp
      ultimately show ?thesis using ws(2) by (simp add: image_constant_conv)
    qed
    moreover have "lo < l" if "l \<in> fst ` set ws" for l
    proof -
      from that ws(2) obtain t where t: "?up \<le> t" "t \<le> e" "l = win_lower b t" by auto
      have "in_i64 ?up" "?up < i64_max" using t assms(2) bounds(4) by auto
      then have "?up \<le> win_lower b t"
        using up win_lower_mono [OF assms(1) t(1)] by simp
      with bounds(2) t show ?thesis by simp
    qed
    ultimately show ?thesis using ws(3) less.prems(2) [symmetric] by (intro exI [of _ "win b lo # ws"]) auto
  qed
qed

lemma win_lower_aligned:
  assumes "0 < b" and "in_i64 s" and "s < i64_max"
  shows "win_lower b s div b = s div b" and "win_lower b (win_lower b s) = win_lower b s"
proof -
  show d: "win_lower b s div b = s div b"
    using win_same [OF assms(1), of "win_lower b s" s] win_bounds [OF assms] by simp
  show "win_lower b (win_lower b s) = win_lower b s"
    unfolding win_lower_def [of b "win_lower b s"] d by (simp add: win_lower_def)
qed

text \<open>The end the loop runs to lies in the window of the last second, also where aligning it underflows.\<close>

lemma end_aligned:
  assumes b: "0 < b" "in_i64 b" and s: "in_i64 s" and e: "s \<le> e" "e < i64_max"
    and ea: "ea = (case try_i64 (e div b * b) of
        Some v \<Rightarrow> v | None \<Rightarrow> wrap_i64 (win_lower b s + wrap_i64 (e - s)))"
  shows "win_lower b s \<le> ea" "ea \<le> e" "ea div b = e div b"
proof -
  let ?sa = "win_lower b s"
  have e': "in_i64 e" using s e by (auto simp: in_i64_def)
  note floor = floor_bucket_bounds [OF b(1), of e]
  have "?sa \<le> ea \<and> ea \<le> e \<and> ea div b = e div b"
  proof (cases "in_i64 (e div b * b)")
    case True
    then have "ea = win_lower b e" by (simp add: ea try_i64_def win_lower_def in_i64_def)
    moreover have "ea div b = e div b" using True b by (simp add: ea try_i64_def)
    ultimately show ?thesis
      using win_lower_mono [OF b(1) e(1)] win_bounds [OF b(1) e' e(2)] by simp
  next
    case False
    then have m: "e div b * b < i64_min" using floor e' by (auto simp: in_i64_def)
    have "s div b * b \<le> e div b * b" using b(1) e by (intro mult_right_mono zdiv_mono1) auto
    with m have sa: "?sa = i64_min" by (simp add: win_lower_def)
    have "e - s < b" using m floor s by (auto simp: in_i64_def)
    then have r: "in_i64 (e - s)" "in_i64 (i64_min + (e - s))"
      using s e' e b(2) m floor by (auto simp: i64_defs)
    with False have ea': "ea = i64_min + (e - s)" by (simp add: ea sa try_i64_def)
    moreover have "ea div b = e div b"
      unfolding ea' using m s e floor by (intro div_between [OF b(1)]) (auto simp: in_i64_def algebra_simps)
    ultimately show ?thesis using s e sa by (auto simp: in_i64_def)
  qed
  then show "?sa \<le> ea" "ea \<le> e" "ea div b = e div b" by simp_all
qed

lemma end_aligned_close:
  assumes b: "0 < b" "in_i64 b" and s: "in_i64 s" and e: "s \<le> e" "e < i64_max"
    and ea: "ea = (case try_i64 (e div b * b) of
        Some v \<Rightarrow> v | None \<Rightarrow> wrap_i64 (win_lower b s + wrap_i64 (e - s)))"
  shows "ea \<le> e div b * b \<or> ea - win_lower b s < b \<and> ea - win_lower b s \<le> i64_max"
proof (cases "in_i64 (e div b * b)")
  case False
  note floor = floor_bucket_bounds [OF b(1), of e]
  have m: "e div b * b < i64_min" using False floor s e by (auto simp: in_i64_def)
  then have "ea < i64_min + b" using end_aligned(2) [OF assms] floor by (auto simp: algebra_simps)
  moreover have "i64_min \<le> win_lower b s" by (simp add: win_lower_def)
  ultimately show ?thesis using b(2) by (simp add: in_i64_def)
qed (simp add: ea try_i64_def)

lemma win_image:
  assumes "0 < b" and "sa \<le> s" and "sa div b = s div b" and "sa \<le> ea" and "ea \<le> e"
    and "ea div b = e div b" and "s \<le> e"
  shows "win b ` {sa..ea} = win b ` {s..e}"
proof -
  have same: "win b t = win b u" if "t div b = u div b" for t u using that by (simp add: win_lower_def win_upper_def)
  show ?thesis
  proof (intro equalityI image_subsetI)
    fix t
    assume t: "t \<in> {sa..ea}"
    show "win b t \<in> win b ` {s..e}"
    proof (cases "s \<le> t")
      case False
      with t assms zdiv_mono1 [of sa t b] zdiv_mono1 [of t s b] have "t div b = s div b" by auto
      from same [OF this] assms(7) show ?thesis by auto
    qed (use t assms in auto)
  next
    fix t
    assume t: "t \<in> {s..e}"
    show "win b t \<in> win b ` {sa..ea}"
    proof (cases "t \<le> ea")
      case False
      with t assms zdiv_mono1 [of ea t b] zdiv_mono1 [of t e b] have "t div b = ea div b" by auto
      from same [OF this] assms(4) show ?thesis by auto
    qed (use t assms in auto)
  qed
qed

text \<open>
  The windows between two seconds fit into an allocation, and so does the distance of the first and the
  last of them into a 64-bit integer.
\<close>

definition span_bounded :: "int \<Rightarrow> int \<Rightarrow> int \<Rightarrow> bool" where
  "span_bounded b s e \<longleftrightarrow> e div b - s div b + 1 < 2 ^ 59 \<and> (e div b - s div b) * b \<le> i64_max"

lemma span_capacity_fits:
  assumes b: "0 < b" and sa: "s div b * b \<le> sa" "sa \<le> ea" and d: "ea \<le> e div b * b \<or> ea - sa < b \<and> ea - sa \<le> i64_max"
    and f: "span_bounded b s e"
  shows "with_capacity (span_capacity b sa ea) x = Ret x"
proof -
  let ?d = "ea - sa" and ?n = "e div b - s div b"
  have "?d \<le> i64_max \<and> ?d div b < 2 ^ 59 - 1"
    using d
  proof
    assume "ea \<le> e div b * b"
    then have "?d \<le> ?n * b" using sa by (simp add: algebra_simps)
    moreover from this have "?d div b \<le> ?n * b div b" using b by (intro zdiv_mono1) auto
    ultimately show ?thesis using f b by (auto simp: span_bounded_def)
  qed (use sa in auto)
  moreover have "0 \<le> ?d div b" using sa b by (simp add: pos_imp_zdiv_nonneg_iff)
  moreover have "?d sdiv b = ?d div b" using sa b by (cases "ea = sa") (auto simp: signed_divide_int_def)
  moreover have "wrap_i64 ?d = ?d" using calculation(1) sa by (intro wrap_i64_id) (auto simp: i64_defs)
  ultimately show ?thesis by (simp add: with_capacity_def span_capacity_def i64_defs)
qed

lemma bucket_span_windows:
  assumes b: "0 < b" "in_i64 b" and s: "in_i64 s" and e: "s \<le> e" "e < i64_max" and f: "span_bounded b s e"
  shows "\<exists>ws. file_time_bucket_span s e b = Ret (Some ws) \<and> set ws = win b ` {s..e} \<and> sorted_wrt (<) (map fst ws)"
proof -
  have e': "in_i64 e" and s_max: "s < i64_max" using s e by (auto simp: in_i64_def)
  define ea where "ea = (case try_i64 (e div b * b) of
      Some v \<Rightarrow> v | None \<Rightarrow> wrap_i64 (win_lower b s + wrap_i64 (e - s)))"
  note ea = end_aligned [OF b s e ea_def]
  note sa = win_lower_aligned [OF b(1) s s_max] win_bounds [OF b(1) s s_max]
  have "s div b * b \<le> i64_max" using floor_bucket_bounds [OF b(1), of s] s by (simp add: in_i64_def)
  then have "(case try_i64 (s div b * b) of Some v \<Rightarrow> v | None \<Rightarrow> i64_min) = win_lower b s"
    by (auto simp: try_i64_def win_lower_def in_i64_def)
  then have "file_time_bucket_span s e b = with_capacity (span_capacity b (win_lower b s) ea) (span_loop b ea (win_lower b s))"
    using e(1) by (simp add: file_time_bucket_span_def align_by_bucket_eq [OF b(1)] s e' ea_def Let_def
        cong: option.case_cong)
  moreover have "ea \<le> e div b * b \<or> ea - win_lower b s < b \<and> ea - win_lower b s \<le> i64_max"
    by (rule end_aligned_close [OF b s e ea_def])
  moreover have "s div b * b \<le> win_lower b s" by (simp add: win_lower_def)
  ultimately have "file_time_bucket_span s e b = Ret (span_loop b ea (win_lower b s))"
    using span_capacity_fits [OF b(1) _ ea(1) _ f] by simp
  moreover have "win b ` {win_lower b s..ea} = win b ` {s..e}"
    by (rule win_image [OF b(1) sa(3,1) ea e(1)])
  moreover have "ea < i64_max" using ea(2) e by simp
  ultimately show ?thesis using span_loop_windows [OF b(1) _ sa(5) sa(2) [symmetric], of ea] by simp
qed

text \<open>When the last window starts at the greatest integer, the loop stays there.\<close>

lemma span_loop_stuck:
  assumes "in_i64 lo"
  shows "span_loop b i64_max lo = None"
proof -
  have "span_loop b i64_max lo \<noteq> Some ws" if "in_i64 lo" for ws lo
    using that
  proof (induction ws arbitrary: lo)
    case (Cons w ws)
    have "in_i64 (window_upper b lo)"
      by (auto simp: window_upper_def checked_ops try_i64_def i64_defs split: if_splits)
    from Cons.IH [OF this] Cons.prems show ?case by (subst span_loop.simps) (auto split: bind_splits)
  qed (subst span_loop.simps, auto simp: in_i64_def split: bind_splits)
  with assms show ?thesis by (cases "span_loop b i64_max lo") auto
qed

text \<open>
  C31. For a bucket of a positive number of seconds and a file that ends before the greatest 64-bit
  second, with fewer than 2 ^ 59 windows and a distance of the first and the last window that fits 64
  bits (so that reserving the result does not panic), the loop ends, and the windows it returns are
  those of the seconds of the file, in ascending order and each once. Nothing is stated of a file
  that ends at the greatest second: the loop then does not end if the bucket divides that second, and
  otherwise the last window stops before it.
\<close>

theorem bucket_span_terminates:
  assumes "0 < b" and "in_i64 b" and "in_i64 s" and "s \<le> e" and "e < i64_max"
    and "e div b - s div b + 1 < 2 ^ 59" and "(e div b - s div b) * b \<le> i64_max"
  shows "\<exists>ws. file_time_bucket_span s e b = Ret (Some ws)
    \<and> set ws = (\<lambda>t. (max i64_min (t div b * b), min i64_max ((t div b + 1) * b))) ` {s..e}
    \<and> sorted_wrt (<) (map fst ws)"
  using bucket_span_windows [OF assms(1-5)] assms(6,7) by (simp add: win_lower_def win_upper_def span_bounded_def)

theorem bucket_span_terminates_witness:
  "\<exists>ws. file_time_bucket_span (- 5) 25 10 = Ret (Some ws)
     \<and> set ws = (\<lambda>t. (max i64_min (t div 10 * 10), min i64_max ((t div 10 + 1) * 10))) ` {- 5..25}
     \<and> sorted_wrt (<) (map fst ws)"
  by (rule bucket_span_terminates) (simp_all add: i64_defs)

text \<open>
  For a file that ends at the greatest 64-bit second, when that second is a multiple of the
  bucket, the loop never ends, unless the result is too large to be reserved.
\<close>

lemma bucket_span_diverges:
  assumes "0 < b" and "b dvd i64_max" and "in_i64 s" and "span_bounded b s i64_max"
  shows "file_time_bucket_span s i64_max b = Ret None"
proof -
  let ?sa = "case try_i64 (s div b * b) of None \<Rightarrow> i64_min | Some v \<Rightarrow> v"
  have e: "i64_max div b * b = i64_max" using assms(2) by simp
  have "s div b * b \<le> s" using floor_bucket_bounds [OF assms(1)] by simp
  then have sa: "in_i64 ?sa" "s div b * b \<le> ?sa"
    using assms(3) by (auto simp: try_i64_def i64_defs split: if_splits)
  have "with_capacity (span_capacity b ?sa i64_max) x = Ret x" for x :: "(int \<times> int) list option"
    using sa(1) e by (intro span_capacity_fits [OF assms(1) sa(2) _ _ assms(4)]) (auto simp: in_i64_def)
  moreover have "align_by_bucket i64_max b = Ret (Some i64_max)"
    using assms(1) e by (simp add: align_by_bucket_eq try_i64_def i64_defs)
  moreover have "s \<le> i64_max" using assms(3) by (simp add: in_i64_def)
  ultimately show ?thesis
    using assms sa(1) by (simp add: file_time_bucket_span_def align_by_bucket_eq Let_def span_loop_stuck)
qed

end
