(* ===== verification/Compaction_Plan.thy ===== *)
theory Compaction_Plan
  imports Compaction_Window
begin

text \<open>
  What the picker by strict windows promises: every instant of every input file lies in exactly one
  output, the output has the file among its inputs, and restricting the windows to a time range
  keeps all windows of every file it rewrites.
\<close>

section \<open>Files in windows\<close>

text \<open>
  Files a region holds: valid timestamps in order, with an end before the greatest second and not too
  many windows.
\<close>

definition first_sec :: "file_handle \<Rightarrow> int" where
  "first_sec f = instant_ns (fst (fh_time_range f)) div 1000000000"

definition last_sec :: "file_handle \<Rightarrow> int" where
  "last_sec f = instant_ns (snd (fh_time_range f)) div 1000000000"

definition file_range_ok :: "int \<Rightarrow> file_handle \<Rightarrow> bool" where
  "file_range_ok b f \<longleftrightarrow>
     ts_wf (fst (fh_time_range f)) \<and> ts_wf (snd (fh_time_range f))
     \<and> fst (fh_time_range f) \<le> snd (fh_time_range f) \<and> last_sec f < i64_max
     \<and> span_bounded b (first_sec f) (last_sec f)"

definition in_window :: "int \<Rightarrow> int \<Rightarrow> file_handle \<Rightarrow> bool" where
  "in_window b lo f \<longleftrightarrow> \<not> fh_compacting f \<and> lo \<in> win_lower b ` {first_sec f..last_sec f}"

text \<open>The windows of a list of files: each window lists the files that touch it.\<close>

definition windows_of :: "int \<Rightarrow> file_handle list \<Rightarrow> time_windows \<Rightarrow> bool" where
  "windows_of b fs m \<longleftrightarrow> bmap_wf m
     \<and> (\<forall>lo. map_of m lo =
          (let gs = filter (in_window b lo) fs in if gs = [] then None else Some (win_upper b lo, gs)))"

lemma win_upper_lower:
  "0 < b \<Longrightarrow> in_i64 t \<Longrightarrow> t < i64_max \<Longrightarrow> win_upper b (win_lower b t) = win_upper b t"
  using win_lower_aligned(1) [of b t] by (simp add: win_upper_def)

lemma file_secs:
  assumes "file_range_ok b f"
  shows "first_sec f \<le> last_sec f" and "in_i64 (first_sec f)" and "last_sec f < i64_max"
  using assms convert_to_second(2) [of "fst (fh_time_range f)"]
  by (auto simp: file_range_ok_def first_sec_def last_sec_def ts_order intro: zdiv_mono1)

lemma bmap_wf_push: "bmap_wf m \<Longrightarrow> bmap_wf (push_window f w m)"
  by (simp add: push_window_def bmap_wf_update split: prod.split)

lemma push_windows_lookup:
  assumes "bmap_wf m" and "distinct (map fst ws)"
  shows "bmap_wf (fold (push_window f) ws m) \<and> map_of (fold (push_window f) ws m) lo =
    (case map_of ws lo of
       None \<Rightarrow> map_of m lo
     | Some up \<Rightarrow> Some (case map_of m lo of None \<Rightarrow> (up, [f]) | Some (u, fs) \<Rightarrow> (u, fs @ [f])))"
  using assms
proof (induction ws arbitrary: m)
  case (Cons w ws)
  obtain l u where w: "w = (l, u)" by fastforce
  have "map_of (push_window f w m) k = (if k = l
      then Some (case map_of m l of None \<Rightarrow> (u, [f]) | Some (u, fs) \<Rightarrow> (u, fs @ [f])) else map_of m k)" for k
    using map_of_bmap_update [OF Cons.prems(1)]
    by (auto simp: w push_window_def split: option.splits prod.splits)
  with Cons.IH [OF bmap_wf_push [OF Cons.prems(1)], of f w] Cons.prems(2) show ?case
    by (auto simp: w map_of_eq_None_iff [symmetric] dest: map_of_SomeD split: option.splits)
qed simp

lemma assign_file_windows:
  assumes b: "0 < b" "in_i64 b" and f: "file_range_ok b f" and m: "windows_of b fs m"
  shows "\<exists>m'. assign_file b f (Some m) = Ret (Some m') \<and> windows_of b (fs @ [f]) m'"
proof (cases "fh_compacting f")
  case True
  with m show ?thesis by (simp add: assign_file_def windows_of_def in_window_def)
next
  case False
  note secs = file_secs [OF f]
  obtain ws where ws: "file_time_bucket_span (first_sec f) (last_sec f) b = Ret (Some ws)"
    "set ws = win b ` {first_sec f..last_sec f}" "sorted_wrt (<) (map fst ws)"
    using bucket_span_windows [OF b secs(2,1,3)] f unfolding file_range_ok_def by blast
  have d: "distinct (map fst ws)" using ws(3) by (simp add: strict_sorted_iff)
  have look: "map_of ws lo = (if lo \<in> win_lower b ` {first_sec f..last_sec f} then Some (win_upper b lo) else None)" for lo
  proof (cases "lo \<in> win_lower b ` {first_sec f..last_sec f}")
    case True
    then obtain t where t: "first_sec f \<le> t" "t \<le> last_sec f" "lo = win_lower b t" by auto
    then have "in_i64 t" "t < i64_max" using secs by (auto simp: in_i64_def)
    with b(1) t have "(lo, win_upper b lo) = win b t" by (simp add: win_upper_lower)
    with t ws(2) have "(lo, win_upper b lo) \<in> set ws" by auto
    with True d show ?thesis by simp
  next
    case False
    then have "lo \<notin> fst ` set ws" using ws(2) by auto
    with False show ?thesis by (simp add: map_of_eq_None_iff)
  qed
  have "windows_of b (fs @ [f]) (fold (push_window f) ws m)"
    using m push_windows_lookup [OF _ d, of m f] False
    by (auto simp: windows_of_def look in_window_def Let_def split: option.splits if_splits)
  moreover have "assign_file b f (Some m) = Ret (Some (fold (push_window f) ws m))"
    using f False ws(1) by (simp add: assign_file_def file_range_ok_def convert_to_second first_sec_def last_sec_def)
  ultimately show ?thesis by blast
qed

lemma assign_windows:
  assumes "0 < b" and "in_i64 b" and "\<forall>f \<in> set fs. file_range_ok b f"
  shows "\<exists>m. assign_files_to_time_windows b fs = Ret (Some m) \<and> windows_of b fs m"
  using assms(3)
proof (induction fs rule: rev_induct)
  case Nil
  then show ?case by (simp add: assign_files_to_time_windows_def windows_of_def bmap_wf_def)
next
  case (snoc f fs)
  then obtain m where m: "assign_files_to_time_windows b fs = Ret (Some m)" "windows_of b fs m" by auto
  from assign_file_windows [OF assms(1,2) _ m(2), of f] snoc.prems m(1) show ?case
    by (auto simp: assign_files_to_time_windows_def fold_outcome_append)
qed

section \<open>Outputs\<close>

definition window_output :: "int \<times> int \<times> file_handle list \<Rightarrow> compaction_output" where
  "window_output w = (case w of (lo, up, fs) \<Rightarrow>
     \<lparr>co_output_level = 1, co_inputs = fs, co_filter_deleted = False,
      co_output_time_range = Some \<lparr>gr_start = Some (new_second lo), gr_end = Some (new_second up)\<rparr>\<rparr>)"

lemma build_output_windows:
  assumes "\<forall>(lo, up, fs) \<in> set m. lo \<le> up"
  shows "build_output m = Ret (map window_output m)"
  using assms
proof (induction m rule: rev_induct)
  case (snoc w m)
  obtain lo up fs where w: "w = (lo, up, fs)" by (cases w) auto
  with snoc have "build_output m = Ret (map window_output m)" "lo \<le> up" by auto
  then show ?case
    by (simp add: build_output_def fold_outcome_append w window_output_def gr_new_def ts_order instant_ns_def)
qed (simp add: build_output_def)

lemma windows_of_entry:
  assumes "windows_of b fs m" and "0 < b" and "\<forall>f \<in> set fs. file_range_ok b f" and "(lo, up, gs) \<in> set m"
  shows "up = win_upper b lo" and "gs = filter (in_window b lo) fs" and "gs \<noteq> []"
    and "\<exists>t. in_i64 t \<and> t < i64_max \<and> lo = win_lower b t"
proof -
  from assms(1,4) have "map_of m lo = Some (up, gs)" by (simp add: windows_of_def bmap_entry)
  with assms(1) show "up = win_upper b lo" "gs = filter (in_window b lo) fs" "gs \<noteq> []"
    by (auto simp: windows_of_def Let_def split: if_splits)
  then obtain f where f: "f \<in> set fs" "in_window b lo f" by (auto simp: filter_empty_conv)
  then obtain t where "first_sec f \<le> t" "t \<le> last_sec f" "lo = win_lower b t" by (auto simp: in_window_def)
  with file_secs [of b f] f assms(3) show "\<exists>t. in_i64 t \<and> t < i64_max \<and> lo = win_lower b t"
    by (intro exI [of _ t]) (auto simp: in_i64_def)
qed

lemma window_contains:
  "gr_contains \<lparr>gr_start = Some (new_second lo), gr_end = Some (new_second up)\<rparr> t
     \<longleftrightarrow> lo \<le> instant_ns t div 1000000000 \<and> instant_ns t div 1000000000 < up"
proof -
  have "lo * 1000000000 \<le> instant_ns t \<longleftrightarrow> lo \<le> instant_ns t div 1000000000"
    and "instant_ns t < up * 1000000000 \<longleftrightarrow> instant_ns t div 1000000000 < up" by linarith+
  then show ?thesis by (simp add: gr_contains_def ts_order instant_ns_def)
qed

lemma windows_partition:
  assumes m: "windows_of b fs m" and b: "0 < b" and fs: "\<forall>f \<in> set fs. file_range_ok b f"
    and f: "f \<in> set fs" "\<not> fh_compacting f" and t: "fst (fh_time_range f) \<le> t" "t \<le> snd (fh_time_range f)"
  shows "\<exists>lo up gs. f \<in> set gs \<and> (\<forall>w. w \<in> set m \<and> fst w \<le> instant_ns t div 1000000000
      \<and> instant_ns t div 1000000000 < fst (snd w) \<longleftrightarrow> w = (lo, up, gs))"
proof -
  let ?t = "instant_ns t div 1000000000"
  let ?gs = "filter (in_window b (win_lower b ?t)) fs"
  have rng: "first_sec f \<le> ?t" "?t \<le> last_sec f"
    using t by (simp_all add: first_sec_def last_sec_def ts_order zdiv_mono1)
  with file_secs [of b f] f fs have t': "in_i64 ?t" "?t < i64_max" by (auto simp: in_i64_def)
  note up = win_upper_lower [OF b t']
  have "in_window b (win_lower b ?t) f" using rng f by (simp add: in_window_def)
  then have f_in: "f \<in> set ?gs" using f by simp
  then have entry: "(win_lower b ?t, win_upper b ?t, ?gs) \<in> set m"
    using m up by (auto simp: windows_of_def bmap_entry Let_def filter_empty_conv)
  have only: "w = (win_lower b ?t, win_upper b ?t, ?gs)" if w: "w \<in> set m" "fst w \<le> ?t" "?t < fst (snd w)" for w
  proof -
    obtain lo u gs where e: "w = (lo, u, gs)" by (cases w) auto
    note wo = windows_of_entry [OF m b fs w(1) [unfolded e]]
    from wo(1,4) obtain s where s: "in_i64 s" "s < i64_max" "lo = win_lower b s" "u = win_upper b s"
      using win_upper_lower [OF b] by auto
    with win_same [OF b t'(1), of s] w e have "?t div b = s div b" by simp
    then have "lo = win_lower b ?t" using s by (simp add: win_lower_def)
    with wo(1,2) up e show ?thesis by simp
  qed
  have "win_lower b ?t \<le> ?t" "?t < win_upper b ?t" using win_bounds [OF b t'] by simp_all
  with entry have "w = (win_lower b ?t, win_upper b ?t, ?gs) \<Longrightarrow>
      w \<in> set m \<and> fst w \<le> ?t \<and> ?t < fst (snd w)" for w by simp
  with only f_in show ?thesis by blast
qed

definition output_covers :: "compaction_output \<Rightarrow> timestamp \<Rightarrow> bool" where
  "output_covers out t \<longleftrightarrow>
     (case co_output_time_range out of Some r \<Rightarrow> gr_contains r t | None \<Rightarrow> True)"

lemma window_output_covers:
  "output_covers (window_output w) t
     \<longleftrightarrow> fst w \<le> instant_ns t div 1000000000 \<and> instant_ns t div 1000000000 < fst (snd w)"
  using window_contains [of "fst w" "fst (snd w)" t]
  by (cases w) (simp add: output_covers_def window_output_def)

lemma co_inputs_window_output: "co_inputs (window_output w) = snd (snd w)"
  by (simp add: window_output_def split: prod.splits)

lemma windows_ordered:
  assumes "windows_of b fs m" and "0 < b" and "\<forall>f \<in> set fs. file_range_ok b f"
  shows "\<forall>(lo, up, gs) \<in> set m. lo \<le> up"
proof -
  have "lo \<le> up" if "(lo, up, gs) \<in> set m" for lo up gs
  proof -
    from windows_of_entry [OF assms that] obtain t where "in_i64 t" "t < i64_max" "lo = win_lower b t" "up = win_upper b lo"
      by blast
    with win_bounds [OF assms(2), of t] win_upper_lower [OF assms(2), of t] show ?thesis by simp
  qed
  then show ?thesis by blast
qed

section \<open>Windows that share files\<close>

definition files_of :: "time_windows \<Rightarrow> int \<Rightarrow> region_file_id set" where
  "files_of windows w = (case map_of windows w of None \<Rightarrow> {} | Some (_, fs) \<Rightarrow> fh_file_id ` set fs)"

definition shares_file :: "time_windows \<Rightarrow> int \<Rightarrow> int \<Rightarrow> bool" where
  "shares_file windows a b \<longleftrightarrow> files_of windows a \<inter> files_of windows b \<noteq> {}"

definition windows_of_file :: "(region_file_id, int list) hmap \<Rightarrow> region_file_id \<Rightarrow> int set" where
  "windows_of_file m i = (case hmap_get m i of None \<Rightarrow> {} | Some ws \<Rightarrow> set ws)"

lemma file_windows_inner:
  fixes m :: "(region_file_id, int list) hmap"
  defines "step \<equiv> \<lambda>lo f m. hmap_insert (fh_file_id f)
      ((case hmap_get m (fh_file_id f) of Some ws \<Rightarrow> ws | None \<Rightarrow> []) @ [lo]) m"
  shows "windows_of_file (fold (step lo) fs m) i = windows_of_file m i \<union> (if i \<in> fh_file_id ` set fs then {lo} else {})
    \<and> (hmap_get (fold (step lo) fs m) i = None \<longleftrightarrow> hmap_get m i = None \<and> i \<notin> fh_file_id ` set fs)"
proof (induction fs arbitrary: m)
  case (Cons f fs)
  have "windows_of_file (step lo f m) i = windows_of_file m i \<union> (if i = fh_file_id f then {lo} else {})"
    "hmap_get (step lo f m) i = None \<longleftrightarrow> hmap_get m i = None \<and> i \<noteq> fh_file_id f"
    by (auto simp: step_def windows_of_file_def hmap_simps split: option.splits)
  with Cons [of "step lo f m"] show ?case by auto
qed simp

lemma file_windows_fold:
  "windows_of_file (fold (\<lambda>(lo, _, fs) m. fold (\<lambda>f m. hmap_insert (fh_file_id f)
        ((case hmap_get m (fh_file_id f) of Some ws \<Rightarrow> ws | None \<Rightarrow> []) @ [lo]) m) fs m) windows m) i
     = windows_of_file m i \<union> {lo. \<exists>up fs. (lo, up, fs) \<in> set windows \<and> i \<in> fh_file_id ` set fs}
   \<and> (hmap_get (fold (\<lambda>(lo, _, fs) m. fold (\<lambda>f m. hmap_insert (fh_file_id f)
        ((case hmap_get m (fh_file_id f) of Some ws \<Rightarrow> ws | None \<Rightarrow> []) @ [lo]) m) fs m) windows m) i = None
     \<longleftrightarrow> hmap_get m i = None \<and> \<not> (\<exists>lo up fs. (lo, up, fs) \<in> set windows \<and> i \<in> fh_file_id ` set fs))"
proof (induction windows arbitrary: m)
  case (Cons w windows)
  obtain lo up fs where w: "w = (lo, up, fs)" by (cases w) auto
  show ?case unfolding w using Cons file_windows_inner [of lo fs m i] by simp blast
qed simp

lemma file_windows_spec:
  assumes "bmap_wf windows"
  shows "windows_of_file (file_windows_of windows) i = {w. i \<in> files_of windows w}"
    and "hmap_get (file_windows_of windows) i = None \<longleftrightarrow> (\<forall>w. i \<notin> files_of windows w)"
proof -
  have e: "(\<exists>up fs. (w, up, fs) \<in> set windows \<and> i \<in> fh_file_id ` set fs) \<longleftrightarrow> i \<in> files_of windows w" for w
    by (auto simp: files_of_def bmap_entry [OF assms] split: option.splits)
  have "windows_of_file (file_windows_of windows) i = {w. \<exists>up fs. (w, up, fs) \<in> set windows \<and> i \<in> fh_file_id ` set fs}"
    "hmap_get (file_windows_of windows) i = None \<longleftrightarrow> (\<forall>w. \<not> (\<exists>up fs. (w, up, fs) \<in> set windows \<and> i \<in> fh_file_id ` set fs))"
    unfolding file_windows_of_def using file_windows_fold [of windows "[]" i]
    by (simp_all add: windows_of_file_def [of "[]"])
  then show "windows_of_file (file_windows_of windows) i = {w. i \<in> files_of windows w}"
    "hmap_get (file_windows_of windows) i = None \<longleftrightarrow> (\<forall>w. i \<notin> files_of windows w)"
    unfolding e by simp_all
qed

text \<open>
  The invariant of the search: selected windows are reachable from the first ones, and every file
  of a selected window that is not queued any more is visited, with all its windows selected.
  While a window is expanded it is the exception \<open>E\<close>.
\<close>

definition closure_ok :: "time_windows \<Rightarrow> int set \<Rightarrow> int set \<Rightarrow> closure \<Rightarrow> bool" where
  "closure_ok windows S E st \<longleftrightarrow>
     (case st of (selected, pending, visited) \<Rightarrow>
        S \<subseteq> set selected \<and> set pending \<subseteq> set selected
        \<and> (\<forall>w \<in> set selected. map_of windows w \<noteq> None \<and> (\<exists>w0 \<in> S. (shares_file windows)\<^sup>*\<^sup>* w0 w))
        \<and> (\<forall>w \<in> set selected - set pending - E. files_of windows w \<subseteq> set visited)
        \<and> (\<forall>i \<in> set visited. {w. i \<in> files_of windows w} \<subseteq> set selected))"

lemma visit_file_ok:
  assumes wf: "bmap_wf windows" and ok: "closure_ok windows S {lb} (selected, pending, visited)"
    and lb: "lb \<in> set selected" and f: "fh_file_id f \<in> files_of windows lb"
  shows "\<exists>selected' pending' visited'. visit_file (file_windows_of windows) f (selected, pending, visited)
      = Ret (selected', pending', visited')
    \<and> closure_ok windows S {lb} (selected', pending', visited')
    \<and> set selected \<subseteq> set selected' \<and> insert (fh_file_id f) (set visited) \<subseteq> set visited'"
proof (cases "fh_file_id f \<in> set visited")
  case True
  with ok show ?thesis by auto
next
  case False
  let ?W = "{w. fh_file_id f \<in> files_of windows w}"
  obtain ws where ws: "hmap_get (file_windows_of windows) (fh_file_id f) = Some ws" "set ws = ?W"
    using file_windows_spec [OF wf, of "fh_file_id f"] f by (auto simp: windows_of_file_def split: option.splits)
  obtain new where new: "fold select_window ws (selected, pending) = (selected @ new, pending @ new)"
    "set new = ?W - set selected" using select_window_new ws(2) by metis
  have "(shares_file windows)\<^sup>*\<^sup>* w0 w" if "(shares_file windows)\<^sup>*\<^sup>* w0 lb" "w \<in> set new" for w0 w
    using that new(2) f by (intro rtranclp.rtrancl_into_rtrancl [OF that(1)]) (auto simp: shares_file_def)
  moreover have "map_of windows w \<noteq> None" if "w \<in> set new" for w
    using that new(2) by (auto simp: files_of_def split: option.splits)
  moreover obtain w0 where "w0 \<in> S" "(shares_file windows)\<^sup>*\<^sup>* w0 lb"
    using ok lb by (auto simp: closure_ok_def)
  ultimately have reach: "\<forall>w \<in> set new. map_of windows w \<noteq> None \<and> (\<exists>w0 \<in> S. (shares_file windows)\<^sup>*\<^sup>* w0 w)"
    by blast
  have "closure_ok windows S {lb} (selected @ new, pending @ new, fh_file_id f # visited)"
    unfolding closure_ok_def prod.case
  proof (intro conjI)
    show "\<forall>w \<in> set (selected @ new). map_of windows w \<noteq> None \<and> (\<exists>w0 \<in> S. (shares_file windows)\<^sup>*\<^sup>* w0 w)"
      using ok reach by (simp add: closure_ok_def ball_Un)
    show "\<forall>w \<in> set (selected @ new) - set (pending @ new) - {lb}. files_of windows w \<subseteq> set (fh_file_id f # visited)"
      using ok by (fastforce simp: closure_ok_def)
    show "\<forall>i \<in> set (fh_file_id f # visited). {w. i \<in> files_of windows w} \<subseteq> set (selected @ new)"
      using ok new(2) by (auto simp: closure_ok_def)
  qed (use ok in \<open>auto simp: closure_ok_def\<close>)
  with False ws(1) new(1) show ?thesis by auto
qed

lemma visit_files_ok:
  assumes "bmap_wf windows" and "closure_ok windows S {lb} (selected, pending, visited)"
    and "lb \<in> set selected" and "fh_file_id ` set fs \<subseteq> files_of windows lb"
  shows "\<exists>selected' pending' visited'. fold_outcome (visit_file (file_windows_of windows)) fs (selected, pending, visited)
      = Ret (selected', pending', visited')
    \<and> closure_ok windows S {lb} (selected', pending', visited')
    \<and> set selected \<subseteq> set selected' \<and> fh_file_id ` set fs \<union> set visited \<subseteq> set visited'"
  using assms(2-)
proof (induction fs arbitrary: selected pending visited)
  case (Cons f fs)
  from visit_file_ok [OF assms(1) Cons.prems(1,2), of f] Cons.prems(3) obtain s1 p1 v1 where
    1: "visit_file (file_windows_of windows) f (selected, pending, visited) = Ret (s1, p1, v1)"
      "closure_ok windows S {lb} (s1, p1, v1)" "set selected \<subseteq> set s1"
      "insert (fh_file_id f) (set visited) \<subseteq> set v1" by auto
  have "lb \<in> set s1" using 1(3) Cons.prems(2) by blast
  from Cons.IH [OF 1(2) this] Cons.prems(3) obtain s2 p2 v2 where
    "fold_outcome (visit_file (file_windows_of windows)) fs (s1, p1, v1) = Ret (s2, p2, v2)"
      "closure_ok windows S {lb} (s2, p2, v2)" "set s1 \<subseteq> set s2" "fh_file_id ` set fs \<union> set v1 \<subseteq> set v2" by auto
  with 1 show ?case by (simp del: visit_file.simps) blast
qed auto

lemma close_windows_ok:
  assumes "bmap_wf windows" and "m = file_windows_of windows" and "closure_ok windows S {} st"
  shows "\<exists>selected'. close_windows windows m st = Ret selected'
    \<and> set selected' = {w. \<exists>w0 \<in> S. (shares_file windows)\<^sup>*\<^sup>* w0 w}"
  using assms
proof (induction windows m st rule: close_windows.induct)
  case (1 windows m selected visited)
  have "w' \<in> set selected" if "w0 \<in> S" "(shares_file windows)\<^sup>*\<^sup>* w0 w'" for w0 w'
    using that(2,1)
  proof (induction rule: rtranclp_induct)
    case (step w w')
    then obtain i where "i \<in> files_of windows w" "i \<in> files_of windows w'" by (auto simp: shares_file_def)
    moreover have "files_of windows w \<subseteq> set visited"
      and "\<forall>i \<in> set visited. {w. i \<in> files_of windows w} \<subseteq> set selected"
      using step 1(3) by (simp_all add: closure_ok_def)
    ultimately show ?case by blast
  qed (use 1(3) in \<open>auto simp: closure_ok_def\<close>)
  with 1(3) show ?case by (auto simp: closure_ok_def)
next
  case (2 windows m selected lb pending visited)
  from 2(4) have lb: "lb \<in> set selected" by (simp add: closure_ok_def)
  then obtain up fs where fs: "map_of windows lb = Some (up, fs)" using 2(4) by (auto simp: closure_ok_def)
  then have files: "files_of windows lb = fh_file_id ` set fs" by (simp add: files_of_def)
  have "closure_ok windows S {lb} (selected, pending, visited)" using 2(4) by (auto simp: closure_ok_def)
  from visit_files_ok [OF 2(2) this lb, of fs] files obtain s1 p1 v1 where
    1: "fold_outcome (visit_file (file_windows_of windows)) fs (selected, pending, visited) = Ret (s1, p1, v1)"
      "closure_ok windows S {lb} (s1, p1, v1)" "fh_file_id ` set fs \<subseteq> set v1" by auto
  have "files_of windows w \<subseteq> set v1" if "w \<in> set s1 - set p1" for w
    using that 1(2,3) files by (cases "w = lb") (simp_all add: closure_ok_def)
  with 1(2) have "closure_ok windows S {} (s1, p1, v1)" by (simp add: closure_ok_def)
  from "2.IH" [OF fs refl 1(1) [folded 2(3)] 2(2,3) this] show ?case using fs 1(1) 2(3) by simp
qed

lemma filter_windows_reachable:
  assumes "bmap_wf windows"
  shows "filter_time_windows windows (Some r) = Ret (filter (\<lambda>w. \<exists>w0 \<in> set windows.
      window_in_range r (fst w0) (fst (snd w0)) \<and> (shares_file windows)\<^sup>*\<^sup>* (fst w0) (fst w)) windows)"
proof -
  let ?S = "map fst (filter (\<lambda>(lo, up, _). window_in_range r lo up) windows)"
  have "closure_ok windows (set ?S) {} (?S, ?S, [])"
    by (force simp: closure_ok_def map_of_eq_None_iff)
  from close_windows_ok [OF assms refl this] obtain sel where
    sel: "close_windows windows (file_windows_of windows) (?S, ?S, []) = Ret sel"
      "set sel = {w. \<exists>w0 \<in> set ?S. (shares_file windows)\<^sup>*\<^sup>* w0 w}" by blast
  have "fst w \<in> set sel \<longleftrightarrow> (\<exists>w0 \<in> set windows. window_in_range r (fst w0) (fst (snd w0))
      \<and> (shares_file windows)\<^sup>*\<^sup>* (fst w0) (fst w))" for w :: "int \<times> int \<times> file_handle list"
    unfolding sel(2) by (auto simp: case_prod_beta) (metis fst_conv snd_conv, blast)
  with sel(1) show ?thesis by (simp add: filter_time_windows_def Let_def)
qed

text \<open>
  What the restriction keeps: some of the windows, all that meet the range, and with a window of a file all
  windows of the file.
\<close>

lemma filter_windows_keeps:
  assumes wf: "bmap_wf windows"
  shows "\<exists>m. filter_time_windows windows range_opt = Ret m \<and> set m \<subseteq> set windows
    \<and> (\<forall>w \<in> set windows. (case range_opt of None \<Rightarrow> True | Some r \<Rightarrow> window_in_range r (fst w) (fst (snd w))) \<longrightarrow> w \<in> set m)
    \<and> (\<forall>w \<in> set m. \<forall>w' \<in> set windows. set (snd (snd w)) \<inter> set (snd (snd w')) \<noteq> {} \<longrightarrow> w' \<in> set m)"
proof (cases range_opt)
  case None
  then show ?thesis by (simp add: filter_time_windows_def)
next
  case (Some r)
  let ?reach = "\<lambda>w :: int \<times> int \<times> file_handle list. \<exists>w0 \<in> set windows. window_in_range r (fst w0) (fst (snd w0))
      \<and> (shares_file windows)\<^sup>*\<^sup>* (fst w0) (fst w)"
  have files: "files_of windows (fst w) = fh_file_id ` set (snd (snd w))" if "w \<in> set windows" for w
    using that bmap_entry [OF wf, of "fst w" "snd w"] by (simp add: files_of_def split: prod.splits)
  have share: "?reach w'" if "?reach w" "w \<in> set windows" "w' \<in> set windows" "set (snd (snd w)) \<inter> set (snd (snd w')) \<noteq> {}" for w w'
  proof -
    have "shares_file windows (fst w) (fst w')" using that(2-4) files by (auto simp: shares_file_def)
    with that(1) show ?thesis by (meson rtranclp.rtrancl_into_rtrancl)
  qed
  show ?thesis
  proof (intro exI [of _ "filter ?reach windows"] conjI ballI impI)
    show "filter_time_windows windows range_opt = Ret (filter ?reach windows)"
      unfolding Some by (rule filter_windows_reachable [OF wf])
    show "w \<in> set (filter ?reach windows)"
      if "w \<in> set windows" "case range_opt of None \<Rightarrow> True | Some r \<Rightarrow> window_in_range r (fst w) (fst (snd w))" for w
    proof -
      have "?reach w" using that by (intro bexI [of _ w] conjI) (simp_all add: Some)
      with that(1) show ?thesis by simp
    qed
    show "w' \<in> set (filter ?reach windows)"
      if "w \<in> set (filter ?reach windows)" "w' \<in> set windows" "set (snd (snd w)) \<inter> set (snd (snd w')) \<noteq> {}" for w w'
      using that share [of w w'] unfolding set_filter mem_Collect_eq by blast
  qed simp
qed

lemma range_window:
  assumes "gr_contains r t" and "lo \<le> instant_ns t div 1000000000" and "instant_ns t div 1000000000 < up"
  shows "window_in_range r lo up"
proof -
  have "lo * 1000000000 \<le> instant_ns t" "instant_ns t < up * 1000000000" using assms(2,3) by linarith+
  with assms(1) show ?thesis
    by (auto simp: window_in_range_def gr_contains_def ts_order instant_ns_def split: option.splits)
qed

text \<open>The files of a region that are not expired and not being compacted.\<close>

definition free_files :: "compaction_version \<Rightarrow> timestamp \<Rightarrow> file_handle set" where
  "free_files v now = {f \<in> set (live_files v (get_expired_ssts (sv_levels (cv_ssts v)) (cv_ttl v) now)). \<not> fh_compacting f}"

lemma picked_windows:
  assumes "calculate_time_window p v = Ret b" and "0 < b" and "in_i64 b"
    and "\<forall>f \<in> set (live_files v (get_expired_ssts (sv_levels (cv_ssts v)) (cv_ttl v) now)). file_range_ok b f"
  obtains m k where "windows_of b (live_files v (get_expired_ssts (sv_levels (cv_ssts v)) (cv_ttl v) now)) m" and "set k \<subseteq> set m"
    and "\<forall>w \<in> set m. (case wp_time_range p of None \<Rightarrow> True | Some r \<Rightarrow> window_in_range r (fst w) (fst (snd w))) \<longrightarrow> w \<in> set k"
    and "\<forall>w \<in> set k. \<forall>w' \<in> set m. set (snd (snd w)) \<inter> set (snd (snd w')) \<noteq> {} \<longrightarrow> w' \<in> set k"
    and "pick_inner p v now = Ret (Some (map window_output k, get_expired_ssts (sv_levels (cv_ssts v)) (cv_ttl v) now, b))"
proof -
  let ?fs = "live_files v (get_expired_ssts (sv_levels (cv_ssts v)) (cv_ttl v) now)"
  obtain m where m: "assign_files_to_time_windows b ?fs = Ret (Some m)" "windows_of b ?fs m"
    using assign_windows [OF assms(2-4)] by blast
  obtain k where k: "filter_time_windows m (wp_time_range p) = Ret k" "set k \<subseteq> set m"
    and range_kept: "\<forall>w \<in> set m. (case wp_time_range p of None \<Rightarrow> True | Some r \<Rightarrow> window_in_range r (fst w) (fst (snd w))) \<longrightarrow> w \<in> set k"
    and file_kept: "\<forall>w \<in> set k. \<forall>w' \<in> set m. set (snd (snd w)) \<inter> set (snd (snd w')) \<noteq> {} \<longrightarrow> w' \<in> set k"
    using filter_windows_keeps [of m "wp_time_range p"] m(2) unfolding windows_of_def by blast
  have "build_output k = Ret (map window_output k)"
    using windows_ordered [OF m(2) assms(2,4)] k(2) by (intro build_output_windows) blast
  then have "pick_inner p v now = Ret (Some (map window_output k, get_expired_ssts (sv_levels (cv_ssts v)) (cv_ttl v) now, b))"
    by (simp add: pick_inner_def assms(1) m(1) k(1) Let_def)
  with that m(2) k(2) range_kept file_kept show ?thesis by blast
qed

text \<open>
  C9. Compaction by strict windows divides the data of what it picks, with or without a requested time
  range. The picker returns. Its inputs are files that are neither expired nor being compacted; every
  such file with an instant in the requested range (all of them, if no range is requested) is an
  input; and of every input file each instant lies in the time range of exactly one output, which has
  the file among its inputs, so that no row of a rewritten file is dropped or written twice. This is
  for a positive window and files whose ranges are valid, end before the greatest 64-bit second and
  span few enough windows for their list to be reserved.
\<close>

theorem windowed_outputs_partition:
  assumes "calculate_time_window p v = Ret b" and "0 < b" and "in_i64 b"
    and "\<forall>f \<in> set (live_files v (get_expired_ssts (sv_levels (cv_ssts v)) (cv_ttl v) now)). file_range_ok b f"
  shows "\<exists>outs. pick_inner p v now = Ret (Some (outs, get_expired_ssts (sv_levels (cv_ssts v)) (cv_ttl v) now, b))
    \<and> (\<forall>out \<in> set outs. set (co_inputs out) \<subseteq> free_files v now)
    \<and> (\<forall>f \<in> free_files v now. \<forall>t. fst (fh_time_range f) \<le> t \<longrightarrow> t \<le> snd (fh_time_range f) \<longrightarrow>
         (case wp_time_range p of None \<Rightarrow> True | Some r \<Rightarrow> gr_contains r t) \<longrightarrow>
         (\<exists>out \<in> set outs. f \<in> set (co_inputs out)))
    \<and> (\<forall>out0 \<in> set outs. \<forall>f \<in> set (co_inputs out0). \<forall>t.
         fst (fh_time_range f) \<le> t \<longrightarrow> t \<le> snd (fh_time_range f) \<longrightarrow>
         (\<exists>!out. out \<in> set outs \<and> output_covers out t)
         \<and> (\<forall>out \<in> set outs. output_covers out t \<longrightarrow> f \<in> set (co_inputs out)))"
proof -
  let ?fs = "live_files v (get_expired_ssts (sv_levels (cv_ssts v)) (cv_ttl v) now)"
  obtain m k where m: "windows_of b ?fs m" and k: "set k \<subseteq> set m"
    and range_kept: "\<forall>w \<in> set m. (case wp_time_range p of None \<Rightarrow> True | Some r \<Rightarrow> window_in_range r (fst w) (fst (snd w))) \<longrightarrow> w \<in> set k"
    and file_kept: "\<forall>w \<in> set k. \<forall>w' \<in> set m. set (snd (snd w)) \<inter> set (snd (snd w')) \<noteq> {} \<longrightarrow> w' \<in> set k"
    and pick: "pick_inner p v now = Ret (Some (map window_output k, get_expired_ssts (sv_levels (cv_ssts v)) (cv_ttl v) now, b))"
    by (rule picked_windows [OF assms])
  have free: "set (snd (snd w)) \<subseteq> free_files v now" if "w \<in> set k" for w
    using windows_of_entry(2) [OF m assms(2,4), of "fst w" "fst (snd w)" "snd (snd w)"] that k
    by (auto simp: free_files_def in_window_def)
  have window: "\<exists>w. f \<in> set (snd (snd w)) \<and> (\<forall>w'. w' \<in> set m \<and> output_covers (window_output w') t \<longleftrightarrow> w' = w)"
    if "f \<in> free_files v now" "fst (fh_time_range f) \<le> t" "t \<le> snd (fh_time_range f)" for f t
    using windows_partition [OF m assms(2,4), of f t] that unfolding window_output_covers free_files_def
    by (metis (mono_tags, lifting) mem_Collect_eq snd_conv)
  have picked: "\<exists>w \<in> set k. f \<in> set (snd (snd w))"
    if "f \<in> free_files v now" "fst (fh_time_range f) \<le> t" "t \<le> snd (fh_time_range f)"
      "case wp_time_range p of None \<Rightarrow> True | Some r \<Rightarrow> gr_contains r t" for f t
  proof -
    from window [OF that(1-3)] obtain w where w: "f \<in> set (snd (snd w))" "w \<in> set m" "output_covers (window_output w) t" by blast
    have "case wp_time_range p of None \<Rightarrow> True | Some r \<Rightarrow> window_in_range r (fst w) (fst (snd w))"
      using that(4) w(3) range_window [of _ t "fst w" "fst (snd w)"] by (auto simp: window_output_covers split: option.splits)
    with range_kept w show ?thesis by blast
  qed
  have part: "(\<exists>!out. out \<in> set (map window_output k) \<and> output_covers out t)
      \<and> (\<forall>out \<in> set (map window_output k). output_covers out t \<longrightarrow> f \<in> set (co_inputs out))"
    if h: "w0 \<in> set k" "f \<in> set (snd (snd w0))" "fst (fh_time_range f) \<le> t" "t \<le> snd (fh_time_range f)" for w0 f t
  proof -
    from window [OF _ h(3,4)] free [OF h(1)] h(2) obtain w where w: "f \<in> set (snd (snd w))"
      "\<forall>w'. w' \<in> set m \<and> output_covers (window_output w') t \<longleftrightarrow> w' = w" by blast
    then have "w \<in> set k" using file_kept h(1,2) by blast
    with w(2) k have "out \<in> set (map window_output k) \<and> output_covers out t \<longleftrightarrow> out = window_output w" for out
      unfolding set_map image_iff by (metis subsetD)
    with w(1) show ?thesis using co_inputs_window_output [of w] by metis
  qed
  show ?thesis
    by (intro exI [of _ "map window_output k"] conjI pick)
      (use free picked part in \<open>auto simp: co_inputs_window_output\<close>)
qed

theorem windowed_outputs_partition_witness:
  "let f = fh_new (file_meta_default\<lparr>fm_file_id := 7, fm_time_range := (ts_new 5 Second, ts_new 15 Second)\<rparr>);
       v = \<lparr>cv_ssts = \<lparr>sv_levels = [\<lparr>lm_level = 0, lm_files = [(7, f)]\<rparr>]\<rparr>, cv_ttl = None, cv_compaction_time_window = None\<rparr>;
       p = \<lparr>wp_time_window_seconds = Some 10, wp_time_range = Some \<lparr>gr_start = None, gr_end = Some (ts_new 8 Second)\<rparr>\<rparr>
   in \<exists>outs. pick_inner p v (ts_new 0 Second) = Ret (Some (outs, [], 10))
        \<and> (\<exists>!out. out \<in> set outs \<and> output_covers out (ts_new 12 Second))"
proof -
  let ?f = "fh_new (file_meta_default\<lparr>fm_file_id := 7, fm_time_range := (ts_new 5 Second, ts_new 15 Second)\<rparr>)"
  let ?v = "\<lparr>cv_ssts = \<lparr>sv_levels = [\<lparr>lm_level = 0, lm_files = [(7, ?f)]\<rparr>]\<rparr>, cv_ttl = None, cv_compaction_time_window = None\<rparr> :: compaction_version"
  let ?p = "\<lparr>wp_time_window_seconds = Some 10, wp_time_range = Some \<lparr>gr_start = None, gr_end = Some (ts_new 8 Second)\<rparr>\<rparr> :: windowed_picker"
  have live: "get_expired_ssts (sv_levels (cv_ssts ?v)) (cv_ttl ?v) (ts_new 0 Second) = []" "live_files ?v [] = [?f]"
    by (simp_all add: get_expired_ssts_def live_files_def hmap_values_def)
  have free: "?f \<in> free_files ?v (ts_new 0 Second)" unfolding free_files_def live by simp
  have ok: "calculate_time_window ?p ?v = Ret 10" "0 < (10 :: int)" "in_i64 10"
    "\<forall>f \<in> set (live_files ?v (get_expired_ssts (sv_levels (cv_ssts ?v)) (cv_ttl ?v) (ts_new 0 Second))). file_range_ok 10 f"
    unfolding live by (simp_all add: calculate_time_window_def i64_defs file_range_ok_def ts_wf_def first_sec_def last_sec_def
        instant_ns_def ts_order span_bounded_def)
  have t: "fst (fh_time_range ?f) \<le> ts_new 5 Second" "ts_new 5 Second \<le> snd (fh_time_range ?f)"
    "gr_contains \<lparr>gr_start = None, gr_end = Some (ts_new 8 Second)\<rparr> (ts_new 5 Second)"
    "fst (fh_time_range ?f) \<le> ts_new 12 Second" "ts_new 12 Second \<le> snd (fh_time_range ?f)"
    by (simp_all add: ts_order instant_ns_def gr_contains_def)
  from windowed_outputs_partition [OF ok, unfolded live] obtain outs where
    o: "pick_inner ?p ?v (ts_new 0 Second) = Ret (Some (outs, [], 10))"
    and picked: "\<exists>out \<in> set outs. ?f \<in> set (co_inputs out)"
    and part: "\<And>out. out \<in> set outs \<Longrightarrow> ?f \<in> set (co_inputs out) \<Longrightarrow> \<exists>!out. out \<in> set outs \<and> output_covers out (ts_new 12 Second)"
    using free t by (auto simp del: fh_new_simps)
  from picked part have "\<exists>!out. out \<in> set outs \<and> output_covers out (ts_new 12 Second)" by blast
  with o show ?thesis unfolding Let_def by blast
qed

text \<open>
  C29. Restricting compaction to a time range keeps exactly the windows that meet the range and
  those reached from them through files that span several windows; it never panics. So a file in a
  kept window has all its windows kept, and rewriting it loses no rows.
\<close>

theorem filter_windows_closure:
  assumes "bmap_wf windows"
  shows "filter_time_windows windows (Some r) = Ret (filter (\<lambda>w. \<exists>w0 \<in> set windows.
      window_in_range r (fst w0) (fst (snd w0)) \<and> (shares_file windows)\<^sup>*\<^sup>* (fst w0) (fst w)) windows)"
  by (rule filter_windows_reachable [OF assms])

theorem filter_windows_closure_witness:
  "let f = fh_new (file_meta_default\<lparr>fm_file_id := 7\<rparr>); g = fh_new (file_meta_default\<lparr>fm_file_id := 8\<rparr>);
       m = [(0, 10, [f]), (10, 20, [f, g]), (20, 30, [g])];
       r = \<lparr>gr_start = None, gr_end = Some (ts_new 5 Second)\<rparr>
   in filter_time_windows m (Some r) = Ret (filter (\<lambda>w. \<exists>w0 \<in> set m.
        window_in_range r (fst w0) (fst (snd w0)) \<and> (shares_file m)\<^sup>*\<^sup>* (fst w0) (fst w)) m)"
  unfolding Let_def by (rule filter_windows_closure) (simp add: bmap_wf_def)

end
