(* ===== verification/Compaction_Twcs.thy ===== *)
theory Compaction_Twcs
  imports Compaction_Sweep Compaction_Plan Region_Options
begin

text \<open>
  Time window compaction, from \<open>src/src/mito2/src/compaction/twcs.rs\<close>, and the choice of a picker from
  \<open>src/src/mito2/src/compaction/picker.rs\<close>. The limit on input files, which the code reads from the
  environment once, is the argument \<open>max_input_files\<close> of the functions that use it. Sizes and counts
  are \<open>usize\<close> values with the wrapping and saturating operations of the source. Tasks spawned on
  blocking threads only read, so their results are computed in the order they are joined.
\<close>

section \<open>Definitions\<close>

definition LEVEL_COMPACTED :: level where "LEVEL_COMPACTED = 1"
definition MAX_L1_L0_ROW_RATIO :: nat where "MAX_L1_L0_ROW_RATIO = 2"
definition DEFAULT_MAX_INPUT_FILES :: nat where "DEFAULT_MAX_INPUT_FILES = 32"

definition parse_max_input_files :: "string option \<Rightarrow> nat" where
  "parse_max_input_files env_value =
     (case env_value of
        None \<Rightarrow> DEFAULT_MAX_INPUT_FILES
      | Some s \<Rightarrow>
          (case parse_u64 s of
             None \<Rightarrow> DEFAULT_MAX_INPUT_FILES
           | Some n \<Rightarrow> if n \<ge> 2 then n else DEFAULT_MAX_INPUT_FILES))"

record twcs_picker =
  tw_trigger_file_num :: nat
  tw_time_window_seconds :: "int option"
  tw_max_output_file_size :: "nat option"
  tw_append_mode :: bool
  tw_max_background_tasks :: "nat option"
  tw_time_range :: "timestamp generic_range option"

subsection \<open>Candidates\<close>

record ordered_file =
  of_file :: file_handle
  of_run_id :: nat
  of_position_in_run :: nat

record candidate =
  c_num_files :: nat
  c_total_size :: nat
  c_largest_file_size :: nat
  c_overlap_participants :: nat
  c_l0_rows :: nat
  c_l1_rows :: nat
  c_has_l0 :: bool
  c_has_l1 :: bool
  c_has_unknown_rows :: bool

definition candidate_default :: candidate where
  "candidate_default =
     \<lparr>c_num_files = 0, c_total_size = 0, c_largest_file_size = 0, c_overlap_participants = 0,
      c_l0_rows = 0, c_l1_rows = 0, c_has_l0 = False, c_has_l1 = False, c_has_unknown_rows = False\<rparr>"

definition absorb_level_rows :: "file_handle \<Rightarrow> candidate \<Rightarrow> candidate" where
  "absorb_level_rows f c =
     (let num_rows = fm_num_rows (fh_meta f);
          c = c\<lparr>c_has_unknown_rows := c_has_unknown_rows c \<or> num_rows = 0\<rparr>
      in if fh_level f = 0
         then c\<lparr>c_has_l0 := True, c_l0_rows := saturating_add_usize (c_l0_rows c) num_rows\<rparr>
         else c\<lparr>c_has_l1 := True, c_l1_rows := saturating_add_usize (c_l1_rows c) num_rows\<rparr>)"

text \<open>One round of the loop over the preceding files: the participations, their count, and whether the file overlaps.\<close>

definition absorb_overlap ::
  "ordered_file \<Rightarrow> nat \<times> ordered_file \<Rightarrow> bool list \<times> nat \<times> bool \<Rightarrow> (bool list \<times> nat \<times> bool) outcome" where
  "absorb_overlap file entry st =
     (case (entry, st) of ((offset, other), (participations, num, participates)) \<Rightarrow>
        if of_run_id file \<noteq> of_run_id other \<and> file_overlap_inclusive (of_file file) (of_file other)
        then if offset \<ge> length participations then Panic
             else if \<not> participations ! offset
             then Ret (participations[offset := True], usize_add num 1, True)
             else Ret (participations, num, True)
        else Ret (participations, num, participates))"

definition absorb ::
  "ordered_file \<Rightarrow> ordered_file list \<Rightarrow> candidate \<times> bool list \<Rightarrow> (candidate \<times> bool list) outcome" where
  "absorb file preceding st =
     (case st of (c, participations) \<Rightarrow>
        (let file_size = fm_file_size (fh_meta (of_file file));
             c = c\<lparr>c_num_files := usize_add (c_num_files c) 1,
                   c_total_size := usize_add (c_total_size c) file_size,
                   c_largest_file_size := max (c_largest_file_size c) file_size\<rparr>;
             c = absorb_level_rows (of_file file) c
         in bind_outcome (fold_outcome (absorb_overlap file) (enumerate 0 preceding)
                            (participations, c_overlap_participants c, False)) (\<lambda>(participations, num, participates).
            Ret (c\<lparr>c_overlap_participants := if participates then usize_add num 1 else num\<rparr>,
                 participations @ [participates]))))"

definition usize_div_ceil :: "nat \<Rightarrow> nat \<Rightarrow> nat" where
  "usize_div_ceil a b = (if a mod b > 0 then a div b + 1 else a div b)"

definition predicted_output_files :: "nat option \<Rightarrow> candidate \<Rightarrow> nat" where
  "predicted_output_files max_output_file_size c =
     (case max_output_file_size of
        Some m \<Rightarrow> if m > 0 then max (usize_div_ceil (c_total_size c) m) 1 else 1
      | None \<Rightarrow> 1)"

definition file_reduction :: "nat option \<Rightarrow> candidate \<Rightarrow> nat" where
  "file_reduction max_output_file_size c = c_num_files c - predicted_output_files max_output_file_size c"

definition is_balanced :: "candidate \<Rightarrow> bool" where
  "is_balanced c \<longleftrightarrow> c_largest_file_size c \<le> usize_sub (c_total_size c) (c_largest_file_size c)"

definition has_balanced_level_rows :: "candidate \<Rightarrow> bool" where
  "has_balanced_level_rows c \<longleftrightarrow>
     \<not> c_has_l0 c \<or> \<not> c_has_l1 c \<or> c_has_unknown_rows c
     \<or> c_l1_rows c \<le> saturating_mul_usize (c_l0_rows c) MAX_L1_L0_ROW_RATIO"

definition has_mixed_levels :: "candidate \<Rightarrow> bool" where
  "has_mixed_levels c \<longleftrightarrow> c_has_l0 c \<and> c_has_l1 c"

definition makes_progress :: "nat option \<Rightarrow> candidate \<Rightarrow> bool" where
  "makes_progress max_output_file_size c \<longleftrightarrow>
     file_reduction max_output_file_size c > 0 \<or> c_overlap_participants c > 0"

record candidate_score =
  cs_file_reduction :: nat
  cs_overlap_participants :: nat
  cs_total_size :: nat

definition score :: "nat option \<Rightarrow> candidate \<Rightarrow> candidate_score" where
  "score max_output_file_size c =
     \<lparr>cs_file_reduction = file_reduction max_output_file_size c,
      cs_overlap_participants = c_overlap_participants c,
      cs_total_size = c_total_size c\<rparr>"

definition is_better_than :: "candidate_score \<Rightarrow> candidate_score \<Rightarrow> bool" where
  "is_better_than a b \<longleftrightarrow>
     then_cmp (cmp_of (cs_file_reduction a) (cs_file_reduction b))
       (then_cmp (cmp_of (cs_overlap_participants a) (cs_overlap_participants b))
          (cmp_of (cs_total_size b) (cs_total_size a))) = Greater"

subsection \<open>The search over intervals\<close>

definition ordered_le :: "ordered_file \<Rightarrow> ordered_file \<Rightarrow> bool" where
  "ordered_le lhs rhs \<longleftrightarrow>
     then_cmp (ts_cmp (fst (fh_time_range (of_file lhs))) (fst (fh_time_range (of_file rhs))))
       (then_cmp (ts_cmp (snd (fh_time_range (of_file rhs))) (snd (fh_time_range (of_file lhs))))
          (then_cmp (cmp_of (of_run_id lhs) (of_run_id rhs))
             (cmp_of (of_position_in_run lhs) (of_position_in_run rhs)))) \<noteq> Greater"

definition ordered_files :: "file_handle sorted_run list \<Rightarrow> ordered_file list" where
  "ordered_files sorted_runs =
     sort_by ordered_le (concat (map (\<lambda>(run_id, run).
       map (\<lambda>(position_in_run, file).
         \<lparr>of_file = file, of_run_id = run_id, of_position_in_run = position_in_run\<rparr>)
         (enumerate 0 (sr_items run))) (enumerate 0 sorted_runs)))"

text \<open>The slice from \<open>left\<close> up to but not including \<open>right\<close>.\<close>

definition slice :: "nat \<Rightarrow> nat \<Rightarrow> 'a list \<Rightarrow> 'a list" where
  "slice left right xs = take (right - left) (drop left xs)"

type_synonym best = "(candidate_score \<times> ordered_file list) option"

definition consider_right ::
  "(candidate \<Rightarrow> bool) \<Rightarrow> nat option \<Rightarrow> ordered_file list \<Rightarrow> nat \<Rightarrow> nat
     \<Rightarrow> candidate \<times> bool list \<times> best \<Rightarrow> (candidate \<times> bool list \<times> best) outcome" where
  "consider_right is_eligible max_output_file_size files left right st =
     (case st of (c, participations, best) \<Rightarrow>
        bind_outcome (absorb (files ! right) (slice left right files) (c, participations)) (\<lambda>(c, participations).
        if c_num_files c < 2 \<or> \<not> is_balanced c \<or> \<not> is_eligible c \<or> \<not> has_balanced_level_rows c
           \<or> \<not> makes_progress max_output_file_size c
        then Ret (c, participations, best)
        else let s = score max_output_file_size c
             in if (case best of None \<Rightarrow> True | Some (best_score, _) \<Rightarrow> is_better_than s best_score)
                then Ret (c, participations, Some (s, slice left (right + 1) files))
                else Ret (c, participations, best)))"

definition consider_left ::
  "nat \<Rightarrow> (candidate \<Rightarrow> bool) \<Rightarrow> nat option \<Rightarrow> ordered_file list \<Rightarrow> nat \<Rightarrow> best \<Rightarrow> best outcome" where
  "consider_left max_input_files is_eligible max_output_file_size files left best =
     (let right_bound = min (saturating_add_usize left max_input_files) (length files)
      in bind_outcome (fold_outcome (consider_right is_eligible max_output_file_size files left)
                         [left..<right_bound] (candidate_default, [], best)) (\<lambda>(_, _, best). Ret best))"

definition pick_count_first_where ::
  "nat \<Rightarrow> (candidate \<Rightarrow> bool) \<Rightarrow> file_handle sorted_run list \<Rightarrow> nat option \<Rightarrow> file_handle list outcome" where
  "pick_count_first_where max_input_files is_eligible sorted_runs max_output_file_size =
     (let files = ordered_files sorted_runs
      in bind_outcome (fold_outcome (consider_left max_input_files is_eligible max_output_file_size files)
                         [0..<length files] None) (\<lambda>best.
         Ret (case best of None \<Rightarrow> [] | Some (_, best) \<Rightarrow> map of_file best)))"

definition pick_count_first ::
  "nat \<Rightarrow> file_handle sorted_run list \<Rightarrow> nat option \<Rightarrow> file_handle list outcome" where
  "pick_count_first max_input_files sorted_runs max_output_file_size =
     pick_count_first_where max_input_files (\<lambda>_. True) sorted_runs max_output_file_size"

definition pick_mixed_count_first ::
  "nat \<Rightarrow> file_handle sorted_run list \<Rightarrow> nat option \<Rightarrow> file_handle list outcome" where
  "pick_mixed_count_first max_input_files sorted_runs max_output_file_size =
     pick_count_first_where max_input_files has_mixed_levels sorted_runs max_output_file_size"

text \<open>The second component is the number of sorted runs, which is only logged.\<close>

definition pick_candidate_files ::
  "(file_handle sorted_run list \<Rightarrow> nat option \<Rightarrow> file_handle list outcome)
     \<Rightarrow> file_handle list \<Rightarrow> nat option \<Rightarrow> (file_handle list \<times> nat) outcome" where
  "pick_candidate_files picker files max_output_file_size =
     (let sorted_runs = (if length files < 1024 then find_sorted_runs file_item files
                         else find_sorted_runs_by_time_range file_item files)
      in bind_outcome (picker sorted_runs max_output_file_size) (\<lambda>picked. Ret (picked, length sorted_runs)))"

subsection \<open>Windows\<close>

record window =
  w_start :: timestamp
  w_end :: timestamp
  w_files :: "file_handle list"
  w_time_window :: int
  w_primary_key_range :: "(bytes \<times> bytes) option"

definition new_with_file :: "file_handle \<Rightarrow> window" where
  "new_with_file f =
     \<lparr>w_start = fst (fh_time_range f), w_end = snd (fh_time_range f), w_files = [f], w_time_window = 0,
      w_primary_key_range = fh_primary_key_range f\<rparr>"

definition window_range :: "window \<Rightarrow> timestamp \<times> timestamp" where
  "window_range w = (w_start w, w_end w)"

definition window_add_file :: "file_handle \<Rightarrow> window \<Rightarrow> window" where
  "window_add_file f w =
     (let (start, end_ts) = fh_time_range f
      in w\<lparr>w_start := ts_min (w_start w) start,
           w_end := ts_max (w_end w) end_ts,
           w_primary_key_range := merge_primary_key_ranges (w_primary_key_range w) (fh_primary_key_range f),
           w_files := w_files w @ [f]\<rparr>)"

type_synonym windows = "(int \<times> window) list"

definition file_time_window :: "int \<Rightarrow> file_handle \<Rightarrow> int outcome" where
  "file_time_window time_window_size f =
     bind_outcome (unwrap (convert_to (snd (fh_time_range f)) Second)) (\<lambda>end_sec.
     bind_outcome (align_to_ceil_by_bucket (ts_value end_sec) time_window_size) (\<lambda>aligned.
     Ret (case aligned of None \<Rightarrow> i64_min | Some w \<Rightarrow> w)))"

definition assign_to_window :: "int \<Rightarrow> file_handle \<Rightarrow> (int, window) hmap \<Rightarrow> (int, window) hmap outcome" where
  "assign_to_window time_window_size f windows =
     (if fh_compacting f then Ret windows
      else bind_outcome (file_time_window time_window_size f) (\<lambda>time_window.
           Ret (case hmap_get windows time_window of
                  Some w \<Rightarrow> hmap_insert time_window (window_add_file f w) windows
                | None \<Rightarrow> hmap_insert time_window ((new_with_file f)\<lparr>w_time_window := time_window\<rparr>) windows)))"

definition assign_to_windows :: "file_handle list \<Rightarrow> int \<Rightarrow> windows outcome" where
  "assign_to_windows files time_window_size =
     bind_outcome (fold_outcome (assign_to_window time_window_size) files []) (\<lambda>windows.
     Ret (fold (\<lambda>(k, w). bmap_update k (\<lambda>_. w)) windows []))"

text \<open>\<open>Ret None\<close> of the parts is the early return of \<open>false\<close>.\<close>

definition range_first_window :: "int \<Rightarrow> timestamp option \<Rightarrow> int option outcome" where
  "range_first_window time_window_size start =
     (case start of
        None \<Rightarrow> Ret (Some i64_min)
      | Some start \<Rightarrow>
          (case convert_to start Second of
             None \<Rightarrow> Ret None
           | Some t \<Rightarrow> align_to_ceil_by_bucket (ts_value t) time_window_size))"

definition range_last_window :: "int \<Rightarrow> timestamp option \<Rightarrow> int option outcome" where
  "range_last_window time_window_size range_end =
     (case range_end of
        None \<Rightarrow> Ret (Some i64_max)
      | Some range_end \<Rightarrow>
          (case convert_to_ceil range_end Second of
             None \<Rightarrow> Ret None
           | Some t \<Rightarrow>
               (case checked_sub_i64 (ts_value t) 1 of
                  None \<Rightarrow> Ret None
                | Some v \<Rightarrow> align_to_ceil_by_bucket v time_window_size)))"

definition time_window_intersects_range :: "int \<Rightarrow> int \<Rightarrow> timestamp generic_range \<Rightarrow> bool outcome" where
  "time_window_intersects_range window_end time_window_size time_range =
     bind_outcome (range_first_window time_window_size (gr_start time_range)) (\<lambda>first_window.
     case first_window of
       None \<Rightarrow> Ret False
     | Some first_window \<Rightarrow>
         bind_outcome (range_last_window time_window_size (gr_end time_range)) (\<lambda>last_window.
         case last_window of
           None \<Rightarrow> Ret False
         | Some last_window \<Rightarrow> Ret (first_window \<le> window_end \<and> window_end \<le> last_window)))"

definition window_has_overlap :: "window \<Rightarrow> windows \<Rightarrow> bool" where
  "window_has_overlap this windows =
     list_ex (\<lambda>that.
         overlaps (window_range this) (window_range that)
         \<and> (case (w_primary_key_range this, w_primary_key_range that) of
              (Some l, Some r) \<Rightarrow> primary_key_ranges_overlap l r
            | _ \<Rightarrow> True))
       (filter (\<lambda>that. w_time_window this \<noteq> w_time_window that) (map snd windows))"

definition find_latest_window_in_seconds :: "file_handle list \<Rightarrow> int \<Rightarrow> int option outcome" where
  "find_latest_window_in_seconds files time_window_size =
     (case fold (\<lambda>f latest_timestamp.
              case latest_timestamp of
                Some latest \<Rightarrow>
                  if snd (fh_time_range f) > latest then Some (snd (fh_time_range f)) else latest_timestamp
              | None \<Rightarrow> Some (snd (fh_time_range f))) files None of
        None \<Rightarrow> Ret None
      | Some ts \<Rightarrow>
          (case convert_to_ceil ts Second of
             None \<Rightarrow> Ret None
           | Some ts \<Rightarrow> align_to_ceil_by_bucket (ts_value ts) time_window_size))"

definition selected_overlaps_unselected :: "file_handle list \<Rightarrow> window \<Rightarrow> bool" where
  "selected_overlaps_unselected selected window =
     (case map fh_time_range selected of
        [] \<Rightarrow> False
      | r # rs \<Rightarrow>
          (let (span_start, span_end) =
                 fold (\<lambda>(start_b, end_b) (start_a, end_a). (ts_min start_a start_b, ts_max end_a end_b)) rs r;
               selected_file_ids = set (map fh_file_id selected)
           in list_ex (\<lambda>unselected. list_ex (\<lambda>s. file_overlap_inclusive s unselected) selected)
                (filter (\<lambda>f. fh_file_id f \<notin> selected_file_ids)
                  (filter (\<lambda>f. fst (fh_time_range f) \<le> span_end \<and> span_start \<le> snd (fh_time_range f))
                    (w_files window)))))"

subsection \<open>The picker\<close>

definition find_inputs :: "nat \<Rightarrow> twcs_picker \<Rightarrow> window \<Rightarrow> windows \<Rightarrow> (file_handle list \<times> bool) outcome" where
  "find_inputs max_input_files p files windows =
     (if length (w_files files) < tw_trigger_file_num p then Ret ([], False)
      else
        let files_to_merge =
              (case tw_max_output_file_size p of
                 Some max_size \<Rightarrow>
                   if tw_append_mode p then filter (\<lambda>f. fm_file_size (fh_meta f) \<le> max_size) (w_files files)
                   else w_files files
               | None \<Rightarrow> w_files files);
            l0_files = filter (\<lambda>f. fh_level f = 0) files_to_merge;
            l1_files = filter (\<lambda>f. fh_level f \<noteq> 0) files_to_merge;
            num_l0_files = length l0_files;
            num_l1_files = length l1_files;
            pick_l1 = pick_candidate_files (pick_count_first max_input_files) l1_files (tw_max_output_file_size p)
        in bind_outcome
             (if num_l0_files \<ge> tw_trigger_file_num p
              then bind_outcome (pick_candidate_files (pick_count_first max_input_files) l0_files
                                   (tw_max_output_file_size p)) (\<lambda>l0_pick.
                   if fst l0_pick = [] \<and> num_l1_files \<ge> tw_trigger_file_num p then pick_l1 else Ret l0_pick)
              else if num_l1_files \<ge> tw_trigger_file_num p then pick_l1
              else let picker = (if num_l0_files > 0 \<and> num_l1_files > 0 then pick_mixed_count_first max_input_files
                                 else pick_count_first max_input_files)
                   in pick_candidate_files picker (l0_files @ l1_files) (tw_max_output_file_size p))
             (\<lambda>(inputs, found_runs).
                let filter_deleted = (\<not> tw_append_mode p \<and> \<not> window_has_overlap files windows
                                      \<and> \<not> selected_overlaps_unselected inputs files)
                in Ret (inputs, filter_deleted)))"

text \<open>\<open>slice::chunks\<close> for a positive size.\<close>

function chunks :: "nat \<Rightarrow> 'a list \<Rightarrow> 'a list list" where
  "chunks n xs = (if xs = [] \<or> n = 0 then [] else take n xs # chunks n (drop n xs))"
  by pat_completeness auto
termination
  by (relation "measure (\<lambda>(n, xs). length xs)") auto

declare chunks.simps [simp del]

text \<open>The joined results of a chunk; the flag says that the limit on background tasks ended the search.\<close>

fun process_results ::
  "nat option \<Rightarrow> (compaction_error + (file_handle list \<times> bool) option) list \<Rightarrow> compaction_output list
     \<Rightarrow> compaction_error + compaction_output list \<times> bool" where
  "process_results max_background_tasks [] out = Inr (out, False)"
| "process_results max_background_tasks (Inl e # rs) out = Inl e"
| "process_results max_background_tasks (Inr None # rs) out = process_results max_background_tasks rs out"
| "process_results max_background_tasks (Inr (Some (inputs, filter_deleted)) # rs) out =
     (if inputs = [] then process_results max_background_tasks rs out
      else let out = out @ [\<lparr>co_output_level = LEVEL_COMPACTED, co_inputs = inputs,
                             co_filter_deleted = filter_deleted, co_output_time_range = None\<rparr>]
           in if (case max_background_tasks of None \<Rightarrow> False | Some n \<Rightarrow> length out \<ge> n) then Inr (out, True)
              else process_results max_background_tasks rs out)"

fun process_chunks ::
  "nat option \<Rightarrow> (int \<Rightarrow> compaction_error + (file_handle list \<times> bool) option) \<Rightarrow> int list list
     \<Rightarrow> compaction_output list \<Rightarrow> compaction_error + compaction_output list" where
  "process_chunks max_background_tasks task [] out = Inr out"
| "process_chunks max_background_tasks task (chunk # rest) out =
     (case process_results max_background_tasks (map task chunk) out of
        Inl e \<Rightarrow> Inl e
      | Inr (out, stop) \<Rightarrow> if stop then Inr out else process_chunks max_background_tasks task rest out)"

definition candidate_windows :: "twcs_picker \<Rightarrow> windows \<Rightarrow> int option \<Rightarrow> int list outcome" where
  "candidate_windows p time_windows time_window_size =
     fold_outcome (\<lambda>window acc.
         bind_outcome
           (if w_files window = [] then Ret False
            else case (tw_time_range p, time_window_size) of
                   (Some time_range, Some sz) \<Rightarrow>
                     time_window_intersects_range (w_time_window window) sz time_range
                 | _ \<Rightarrow> Ret True) (\<lambda>keep.
         Ret (if keep then acc @ [w_time_window window] else acc)))
       (rev (map snd time_windows)) []"

definition build_output_with_time_range ::
  "nat \<Rightarrow> twcs_picker \<Rightarrow> windows \<Rightarrow> int option \<Rightarrow> (compaction_error, compaction_output list) fallible" where
  "build_output_with_time_range max_input_files p time_windows time_window_size =
     bind_outcome (candidate_windows p time_windows time_window_size) (\<lambda>windows.
     let chunk_size = max (case tw_max_background_tasks p of None \<Rightarrow> length windows | Some n \<Rightarrow> n) 1
     in Ret (process_chunks (tw_max_background_tasks p)
          (\<lambda>window. case map_of time_windows window of
             None \<Rightarrow> Inr None
           | Some w \<Rightarrow>
               (case join_blocking (find_inputs max_input_files p w time_windows) of
                  Inl e \<Rightarrow> Inl e
                | Inr r \<Rightarrow> Inr (Some r)))
          (chunks chunk_size windows) []))"

definition twcs_time_window :: "twcs_picker \<Rightarrow> compaction_version \<Rightarrow> int outcome" where
  "twcs_time_window p v =
     (case cv_compaction_time_window v of
        Some w \<Rightarrow> Ret (wrap_i64 (duration_as Second w))
      | None \<Rightarrow>
          (case tw_time_window_seconds p of
             Some w \<Rightarrow> Ret w
           | None \<Rightarrow> bind_outcome (level0_files (cv_ssts v)) infer_time_bucket))"

text \<open>The part that runs on a blocking thread; the latest window it returns is only logged.\<close>

definition twcs_windows ::
  "twcs_picker \<Rightarrow> compaction_version \<Rightarrow> time_to_live option \<Rightarrow> timestamp
     \<Rightarrow> (file_handle list \<times> int \<times> int option \<times> windows) outcome" where
  "twcs_windows p v ttl now =
     (let expired_ssts = get_expired_ssts (sv_levels (cv_ssts v)) ttl now
      in bind_outcome (twcs_time_window p v) (\<lambda>time_window_size.
         bind_outcome (level0_files (cv_ssts v)) (\<lambda>files.
         bind_outcome (find_latest_window_in_seconds files time_window_size) (\<lambda>active_window.
         bind_outcome (assign_to_windows (live_files v expired_ssts) time_window_size) (\<lambda>windows.
         Ret (expired_ssts, time_window_size, active_window, windows))))))"

definition twcs_pick ::
  "nat \<Rightarrow> twcs_picker \<Rightarrow> compaction_version \<Rightarrow> time_to_live option \<Rightarrow> timestamp
     \<Rightarrow> (compaction_error, picker_output option) fallible" where
  "twcs_pick max_input_files p v ttl now =
     bind_fallible (Ret (join_blocking (twcs_windows p v ttl now)))
       (\<lambda>(expired_ssts, time_window_size, active_window, windows).
     bind_fallible (build_output_with_time_range max_input_files p windows (Some time_window_size)) (\<lambda>outputs.
     if outputs = [] \<and> expired_ssts = [] then Ret (Inr None)
     else Ret (Inr (Some \<lparr>po_outputs = outputs, po_expired_ssts = expired_ssts,
                         po_time_window_size = time_window_size,
                         po_max_file_size = tw_max_output_file_size p\<rparr>))))"

datatype compact_request_options = Regular | StrictWindow int

datatype picker = WindowedPicker windowed_picker | TwcsPicker twcs_picker

definition new_picker ::
  "compact_request_options \<Rightarrow> compaction_options \<Rightarrow> bool \<Rightarrow> nat option \<Rightarrow> timestamp generic_range option \<Rightarrow> picker" where
  "new_picker compact_request_options compaction_options append_mode max_background_tasks time_range =
     (case compact_request_options of
        StrictWindow window_seconds \<Rightarrow>
          WindowedPicker \<lparr>wp_time_window_seconds = (if window_seconds = 0 then None else Some window_seconds),
                          wp_time_range = time_range\<rparr>
      | Regular \<Rightarrow>
          (case compaction_options of
             TwcsCompaction twcs_opts \<Rightarrow>
               TwcsPicker \<lparr>tw_trigger_file_num = to_trigger_file_num twcs_opts,
                           tw_time_window_seconds = time_window_seconds twcs_opts,
                           tw_max_output_file_size = to_max_output_file_size twcs_opts,
                           tw_append_mode = append_mode,
                           tw_max_background_tasks = max_background_tasks,
                           tw_time_range = time_range\<rparr>))"

section \<open>Lemmas\<close>

end
