(* ===== verification/Compaction_Pick.thy ===== *)
theory Compaction_Pick
  imports Compaction_Twcs
begin

text \<open>
  What the search of \<open>Compaction_Twcs\<close> picks. The metrics of a candidate, which the code updates one
  file at a time, are those of the interval as a whole; the search returns the best eligible
  interval; and it stops after the allowed number of outputs however the windows are chunked.
\<close>

section \<open>Definitions\<close>

definition conflicts :: "ordered_file \<Rightarrow> ordered_file \<Rightarrow> bool" where
  "conflicts x y \<longleftrightarrow> of_run_id x \<noteq> of_run_id y \<and> file_overlap_inclusive (of_file x) (of_file y)"

definition num_true :: "bool list \<Rightarrow> nat" where
  "num_true ps = length (filter id ps)"

definition participations :: "ordered_file list \<Rightarrow> bool list" where
  "participations fs = map (\<lambda>x. list_ex (conflicts x) fs) fs"

abbreviation of_rows :: "ordered_file \<Rightarrow> nat" where
  "of_rows x \<equiv> fm_num_rows (fh_meta (of_file x))"

abbreviation of_size :: "ordered_file \<Rightarrow> nat" where
  "of_size x \<equiv> fm_file_size (fh_meta (of_file x))"

abbreviation of_level :: "ordered_file \<Rightarrow> nat" where
  "of_level x \<equiv> fh_level (of_file x)"

text \<open>The metrics of an interval, from its files alone.\<close>

definition interval_candidate :: "ordered_file list \<Rightarrow> candidate" where
  "interval_candidate fs =
     \<lparr>c_num_files = length fs,
      c_total_size = wrap_usize (sum_list (map of_size fs)),
      c_largest_file_size = fold max (map of_size fs) 0,
      c_overlap_participants = num_true (participations fs),
      c_l0_rows = min usize_max (sum_list (map of_rows (filter (\<lambda>x. of_level x = 0) fs))),
      c_l1_rows = min usize_max (sum_list (map of_rows (filter (\<lambda>x. of_level x \<noteq> 0) fs))),
      c_has_l0 = list_ex (\<lambda>x. of_level x = 0) fs,
      c_has_l1 = list_ex (\<lambda>x. of_level x \<noteq> 0) fs,
      c_has_unknown_rows = list_ex (\<lambda>x. of_rows x = 0) fs\<rparr>"

definition worth_compacting :: "(candidate \<Rightarrow> bool) \<Rightarrow> nat option \<Rightarrow> candidate \<Rightarrow> bool" where
  "worth_compacting is_eligible m c \<longleftrightarrow>
     c_num_files c \<ge> 2 \<and> is_balanced c \<and> is_eligible c \<and> has_balanced_level_rows c \<and> makes_progress m c"

definition intervals :: "nat \<Rightarrow> nat \<Rightarrow> (nat \<times> nat) list" where
  "intervals max_input_files n =
     concat (map (\<lambda>l. map (\<lambda>r. (l, r + 1)) [l..<min (l + max_input_files) n]) [0..<n])"

section \<open>Lemmas\<close>

subsection \<open>Metrics of a candidate\<close>

lemma primary_key_ranges_overlap_sym: "primary_key_ranges_overlap a b = primary_key_ranges_overlap b a"
  by (simp add: primary_key_ranges_overlap_def max.commute min.commute)

lemma file_overlap_inclusive_sym: "file_overlap_inclusive a b = file_overlap_inclusive b a"
  by (auto simp: file_overlap_inclusive_def Let_def ts_order max.commute min.commute
      primary_key_ranges_overlap_sym split: prod.splits option.splits)

lemma conflicts_sym: "conflicts x y = conflicts y x"
  by (auto simp: conflicts_def file_overlap_inclusive_sym)

lemma enumerate_snoc: "enumerate n (xs @ [x]) = enumerate n xs @ [(n + length xs, x)]"
  by (induction xs arbitrary: n) auto

lemma num_true_le: "num_true ps \<le> length ps"
  by (simp add: num_true_def)

lemma num_true_append [simp]: "num_true (ps @ [b]) = num_true ps + (if b then 1 else 0)"
  by (simp add: num_true_def)

lemma num_true_update:
  "i < length ps \<Longrightarrow> num_true (ps[i := True]) = (if ps ! i then num_true ps else Suc (num_true ps))"
proof (induction ps arbitrary: i)
  case (Cons p ps)
  then show ?case by (cases i) (auto simp: num_true_def)
qed simp

lemma usize_add_1: "n < usize_max \<Longrightarrow> usize_add n (Suc 0) = Suc n"
  by (simp add: usize_add_def wrap_usize_def usize_max_def)

definition mark :: "ordered_file \<Rightarrow> ordered_file list \<Rightarrow> bool list \<Rightarrow> nat \<Rightarrow> bool list" where
  "mark f fs ps k = map (\<lambda>i. ps ! i \<or> i < k \<and> conflicts f (fs ! i)) [0..<length ps]"

lemma mark_simps: "mark f fs ps 0 = ps" "length (mark f fs ps k) = length ps"
  "i < length ps \<Longrightarrow> mark f fs ps k ! i \<longleftrightarrow> ps ! i \<or> i < k \<and> conflicts f (fs ! i)"
  by (simp_all add: mark_def map_nth)

lemma mark_Suc:
  "k < length ps \<Longrightarrow> mark f fs ps (Suc k) = (if conflicts f (fs ! k) then (mark f fs ps k)[k := True] else mark f fs ps k)"
  by (rule nth_equalityI) (auto simp: mark_simps nth_list_update less_Suc_eq split: if_splits)

text \<open>The loop over the preceding files marks those that conflict with the new file.\<close>

lemma absorb_overlap_eq:
  "absorb_overlap f (i, g) (ps, n, b) =
     (if conflicts f g
      then if i \<ge> length ps then Panic
           else Ret (ps[i := True], if ps ! i then n else usize_add n 1, True)
      else Ret (ps, n, b))"
proof -
  have "ps ! i \<Longrightarrow> ps[i := True] = ps" using list_update_id [of ps i] by simp
  then show ?thesis by (auto simp: absorb_overlap_def conflicts_def)
qed

lemma absorb_overlaps:
  assumes "length ps = length fs" and "k \<le> length fs" and "length fs < usize_max"
  shows "fold_outcome (absorb_overlap f) (enumerate 0 (take k fs)) (ps, num_true ps, False)
      = Ret (mark f fs ps k, num_true (mark f fs ps k), list_ex (conflicts f) (take k fs))"
  using assms(2)
proof (induction k)
  case 0
  show ?case by (simp add: mark_simps)
next
  case (Suc k)
  have k: "k < length fs" using Suc by simp
  have take: "take (Suc k) fs = take k fs @ [fs ! k]" using k by (simp add: take_Suc_conv_app_nth)
  have "num_true (mark f fs ps k) < usize_max"
    using num_true_le [of "mark f fs ps k"] assms(1,3) by (simp add: mark_simps)
  then have "absorb_overlap f (k, fs ! k) (mark f fs ps k, num_true (mark f fs ps k), list_ex (conflicts f) (take k fs))
      = Ret (mark f fs ps (Suc k), num_true (mark f fs ps (Suc k)), list_ex (conflicts f) (take (Suc k) fs))"
    using k assms(1) by (simp add: absorb_overlap_eq mark_Suc mark_simps take num_true_update usize_add_1)
  moreover have "enumerate 0 (take (Suc k) fs) = enumerate 0 (take k fs) @ [(k, fs ! k)]"
    using k by (simp add: take enumerate_snoc)
  ultimately show ?case using Suc by (simp add: fold_outcome_append)
qed

lemma wrap_usize_add: "usize_add (wrap_usize a) b = wrap_usize (a + b)"
  by (simp add: usize_add_def wrap_usize_def mod_add_left_eq)

lemma saturating_add_min: "saturating_add_usize (min usize_max a) b = min usize_max (a + b)"
  by (simp add: saturating_add_usize_def)

lemma participations_snoc:
  "participations (fs @ [f]) = mark f fs (participations fs) (length fs) @ [list_ex (conflicts f) fs]"
proof -
  have "mark f fs (participations fs) (length fs) = map (\<lambda>x. list_ex (conflicts x) fs \<or> conflicts x f) fs"
    by (rule nth_equalityI) (simp_all add: mark_simps participations_def conflicts_sym [of f])
  moreover have "\<not> conflicts f f" by (simp add: conflicts_def)
  ultimately show ?thesis by (simp add: participations_def)
qed

lemma absorb_interval:
  assumes "length fs < usize_max"
  shows "absorb f fs (interval_candidate fs, participations fs)
    = Ret (interval_candidate (fs @ [f]), participations (fs @ [f]))"
proof -
  let ?ps = "mark f fs (participations fs) (length fs)"
  have loop: "fold_outcome (absorb_overlap f) (enumerate 0 fs) (participations fs, num_true (participations fs), False)
      = Ret (?ps, num_true ?ps, list_ex (conflicts f) fs)"
    using absorb_overlaps [of "participations fs" fs "length fs" f] assms by (simp add: participations_def)
  have "num_true ?ps < usize_max"
    using num_true_le [of ?ps] assms by (simp add: mark_simps participations_def)
  then show ?thesis
    by (simp add: absorb_def interval_candidate_def absorb_level_rows_def loop participations_snoc usize_add_1 assms
        wrap_usize_add saturating_add_min Let_def add.commute max.commute)
qed

subsection \<open>The search\<close>

definition offer ::
  "(candidate \<Rightarrow> bool) \<Rightarrow> nat option \<Rightarrow> ordered_file list \<Rightarrow> nat \<times> nat \<Rightarrow> best \<Rightarrow> best" where
  "offer is_eligible m files i best =
     (let fs = slice (fst i) (snd i) files; c = interval_candidate fs
      in if worth_compacting is_eligible m c
            \<and> (case best of None \<Rightarrow> True | Some (b, _) \<Rightarrow> is_better_than (score m c) b)
         then Some (score m c, fs) else best)"

lemma slice_Suc: "l \<le> r \<Longrightarrow> r < length xs \<Longrightarrow> slice l (Suc r) xs = slice l r xs @ [xs ! r]"
  by (simp add: slice_def Suc_diff_le take_Suc_conv_app_nth)

lemma length_slice: "r \<le> length xs \<Longrightarrow> length (slice l r xs) = r - l"
  by (simp add: slice_def)

lemma slice_same [simp]: "slice l l xs = []"
  by (simp add: slice_def)

lemma interval_candidate_Nil: "interval_candidate [] = candidate_default" "participations [] = []"
  by (simp_all add: interval_candidate_def candidate_default_def participations_def wrap_usize_def num_true_def)

lemma consider_right_offer:
  assumes "l \<le> r" and "r < length files" and "length files \<le> usize_max"
  shows "consider_right E m files l r (interval_candidate (slice l r files), participations (slice l r files), best)
    = Ret (interval_candidate (slice l (Suc r) files), participations (slice l (Suc r) files),
           offer E m files (l, Suc r) best)"
proof -
  have "length (slice l r files) < usize_max" using assms length_slice [of r files l] by simp
  then have "absorb (files ! r) (slice l r files) (interval_candidate (slice l r files), participations (slice l r files))
      = Ret (interval_candidate (slice l (Suc r) files), participations (slice l (Suc r) files))"
    using assms absorb_interval by (simp add: slice_Suc)
  then show ?thesis
    by (auto simp: consider_right_def offer_def worth_compacting_def Let_def not_less split: option.splits)
qed

lemma consider_rights:
  assumes "l \<le> b" and "b \<le> length files" and "length files \<le> usize_max"
  shows "fold_outcome (consider_right E m files l) [l..<b] (candidate_default, [], best)
    = Ret (interval_candidate (slice l b files), participations (slice l b files),
           fold (offer E m files) (map (\<lambda>r. (l, Suc r)) [l..<b]) best)"
  using assms(1,2)
proof (induction b)
  case (Suc b)
  then show ?case
    using consider_right_offer [of l b files E m] assms(3)
    by (cases "l = Suc b") (simp_all add: fold_outcome_append interval_candidate_Nil le_Suc_eq)
qed (simp add: interval_candidate_Nil)

lemma consider_left_offers:
  assumes "l < length files" and "length files \<le> usize_max"
  shows "consider_left k E m files l best
    = Ret (fold (offer E m files) (map (\<lambda>r. (l, Suc r)) [l..<min (l + k) (length files)]) best)"
proof -
  have "min (saturating_add_usize l k) (length files) = min (l + k) (length files)"
    using assms(2) by (simp add: saturating_add_usize_def min_def)
  then show ?thesis
    using consider_rights [of l "min (l + k) (length files)" files E m best] assms
    by (simp add: consider_left_def)
qed

lemma search_offers:
  assumes "length files \<le> usize_max"
  shows "fold_outcome (consider_left k E m files) [0..<length files] best
    = Ret (fold (offer E m files) (intervals k (length files)) best)"
proof -
  have "fold_outcome (consider_left k E m files) ls best
      = Ret (fold (offer E m files) (concat (map (\<lambda>l. map (\<lambda>r. (l, r + 1)) [l..<min (l + k) (length files)]) ls)) best)"
    if "set ls \<subseteq> {..<length files}" for ls best
    using that by (induction ls arbitrary: best) (simp_all add: consider_left_offers assms)
  from this [of "[0..<length files]" best] show ?thesis by (simp add: intervals_def subset_iff)
qed

lemma set_intervals: "(l, r) \<in> set (intervals k n) \<longleftrightarrow> l < r \<and> r \<le> l + k \<and> r \<le> n"
  by (auto simp: intervals_def image_iff intro!: bexI [of _ l] bexI [of _ "r - 1"])

abbreviation before :: "nat \<times> nat \<Rightarrow> nat \<times> nat \<Rightarrow> bool" where
  "before i j \<equiv> fst i < fst j \<or> fst i = fst j \<and> snd i < snd j"

lemma sorted_intervals: "sorted_wrt before (intervals k n)"
proof -
  have "sorted_wrt before (concat (map (\<lambda>l. map (\<lambda>r. (l, r + 1)) [l..<f l]) ls))" if "sorted_wrt (<) ls"
    for ls :: "nat list" and f
    using that by (induction ls) (auto simp: sorted_wrt_append sorted_wrt_map)
  then show ?thesis by (simp add: intervals_def)
qed

lemma is_better_than_trans:
  "is_better_than a b \<Longrightarrow> is_better_than b c \<Longrightarrow> is_better_than a c"
  "is_better_than a b \<Longrightarrow> \<not> is_better_than c b \<Longrightarrow> is_better_than a c"
  by (auto simp: is_better_than_def then_cmp_iffs)

lemma is_better_than_irrefl: "\<not> is_better_than a a"
  by (simp add: is_better_than_def then_cmp_iffs)

text \<open>Offering the intervals in order keeps the best of those worth compacting, the first among equals.\<close>

lemma fold_offer_best:
  fixes files :: "ordered_file list" and m :: "nat option"
  defines "cand \<equiv> \<lambda>i. interval_candidate (slice (fst i) (snd i) files)"
  shows "case fold (offer E m files) xs None of
      None \<Rightarrow> \<forall>i \<in> set xs. \<not> worth_compacting E m (cand i)
    | Some (s, fs) \<Rightarrow> \<exists>as i bs. xs = as @ i # bs \<and> worth_compacting E m (cand i) \<and> s = score m (cand i)
        \<and> fs = slice (fst i) (snd i) files
        \<and> (\<forall>j \<in> set as. worth_compacting E m (cand j) \<longrightarrow> is_better_than s (score m (cand j)))
        \<and> (\<forall>j \<in> set bs. worth_compacting E m (cand j) \<longrightarrow> \<not> is_better_than (score m (cand j)) s)"
proof (induction xs rule: rev_induct)
  case (snoc x xs)
  show ?case
  proof (cases "fold (offer E m files) xs None")
    case None
    then have none: "\<forall>i \<in> set xs. \<not> worth_compacting E m (cand i)" using snoc by simp
    show ?thesis
    proof (cases "worth_compacting E m (cand x)")
      case True
      then have "fold (offer E m files) (xs @ [x]) None = Some (score m (cand x), slice (fst x) (snd x) files)"
        using None by (simp add: offer_def cand_def Let_def)
      moreover have "xs @ [x] = xs @ x # []" by simp
      ultimately show ?thesis using none True by (simp only: option.case prod.case) (metis empty_iff empty_set)
    next
      case False
      then have "fold (offer E m files) (xs @ [x]) None = None"
        using None by (simp add: offer_def cand_def Let_def)
      then show ?thesis using none False by simp
    qed
  next
    case (Some b)
    obtain s fs where b: "b = (s, fs)" by (cases b)
    obtain as i bs where ih: "xs = as @ i # bs" "worth_compacting E m (cand i)" "s = score m (cand i)"
        "fs = slice (fst i) (snd i) files"
        "\<forall>j \<in> set as. worth_compacting E m (cand j) \<longrightarrow> is_better_than s (score m (cand j))"
        "\<forall>j \<in> set bs. worth_compacting E m (cand j) \<longrightarrow> \<not> is_better_than (score m (cand j)) s"
      using snoc Some b by auto
    show ?thesis
    proof (cases "worth_compacting E m (cand x) \<and> is_better_than (score m (cand x)) s")
      case True
      then have "fold (offer E m files) (xs @ [x]) None = Some (score m (cand x), slice (fst x) (snd x) files)"
        using Some b by (simp add: offer_def cand_def Let_def)
      moreover have "\<forall>j \<in> set xs. worth_compacting E m (cand j) \<longrightarrow> is_better_than (score m (cand x)) (score m (cand j))"
      proof (intro ballI impI)
        fix j assume "j \<in> set xs" and j: "worth_compacting E m (cand j)"
        then have "j \<in> set as \<or> j = i \<or> j \<in> set bs" using ih(1) by auto
        then show "is_better_than (score m (cand x)) (score m (cand j))"
          using True j ih(3,5,6) is_better_than_trans [of "score m (cand x)" s "score m (cand j)"] by blast
      qed
      moreover have "xs @ [x] = xs @ x # []" by simp
      ultimately show ?thesis using True by (simp only: option.case prod.case) (metis empty_iff empty_set)
    next
      case False
      then have "fold (offer E m files) (xs @ [x]) None = Some (s, fs)"
        using Some b by (auto simp: offer_def cand_def Let_def)
      moreover have "xs @ [x] = as @ i # (bs @ [x])" using ih(1) by simp
      moreover have "\<forall>j \<in> set (bs @ [x]). worth_compacting E m (cand j) \<longrightarrow> \<not> is_better_than (score m (cand j)) s"
        using ih(6) False by auto
      ultimately show ?thesis using ih(2-5) by (simp only: option.case prod.case) blast
    qed
  qed
qed simp

subsection \<open>The files the search looks at\<close>

abbreviation runs_items :: "'a sorted_run list \<Rightarrow> 'a multiset" where
  "runs_items rs \<equiv> \<Sum>r \<in># mset rs. mset (sr_items r)"

lemma runs_items_concat: "mset (concat (map sr_items rs)) = runs_items rs"
  by (induction rs) auto

lemma pop_ended_mset: "mset (fst (pop_ended s h1 h2)) + mset (snd (pop_ended s h1 h2)) = mset h1 + mset h2"
  by (induction s h1 h2 rule: pop_ended.induct) auto

lemma sweep_item_items:
  "sweep_item I x (h1, h2, i) = (h1', h2', i') \<Longrightarrow>
   runs_items (map ir_run (h1' @ h2')) = add_mset x (runs_items (map ir_run (h1 @ h2)))"
proof -
  assume sweep: "sweep_item I x (h1, h2, i) = (h1', h2', i')"
  obtain a b where ab: "pop_ended (it_start I x) h1 h2 = (a, b)" by fastforce
  have "image_mset ir_run (mset a) + image_mset ir_run (mset b) = image_mset ir_run (mset h1) + image_mset ir_run (mset h2)"
    using pop_ended_mset [of "it_start I x" h1 h2] by (simp add: ab flip: image_mset_union)
  then have "runs_items (map ir_run (a @ b)) = runs_items (map ir_run (h1 @ h2))"
    by (simp flip: image_mset_union)
  moreover have "runs_items (map ir_run (h1' @ h2')) = add_mset x (runs_items (map ir_run (a @ b)))"
    using sweep by (cases b) (auto simp: ab idx_run_new_def idx_run_push_def)
  ultimately show ?thesis by simp
qed

lemma sweep_items:
  "fold (sweep_item I) xs (h1, h2, i) = (h1', h2', i') \<Longrightarrow>
   runs_items (map ir_run (h1' @ h2')) = mset xs + runs_items (map ir_run (h1 @ h2))"
proof (induction xs arbitrary: h1 h2 i)
  case (Cons x xs)
  obtain a b j where step: "sweep_item I x (h1, h2, i) = (a, b, j)" by (metis prod_cases3)
  then have "runs_items (map ir_run (h1' @ h2')) = mset xs + runs_items (map ir_run (a @ b))"
    using Cons by (intro Cons.IH) simp
  then show ?case by (simp only: sweep_item_items [OF step]) simp
qed simp

lemma sorted_runs_items:
  "runs_items (find_sorted_runs file_item items) = mset items"
  "runs_items (find_sorted_runs_by_time_range I items) = mset items"
proof -
  show "runs_items (find_sorted_runs file_item items) = mset items"
    unfolding runs_items_concat [symmetric]
    by (simp add: files.find_sorted_runs_first_fit o_def mset_first_fit)
  obtain a b j where sweep: "fold (sweep_item I) (sort_ranged_items I items) ([], [], 0) = (a, b, j)"
    by (metis prod_cases3)
  have "mset (map ir_run (sort_by (\<lambda>x y. ir_i x \<le> ir_i y) (a @ b))) = mset (map ir_run (a @ b))" by simp
  then show "runs_items (find_sorted_runs_by_time_range I items) = mset items"
    using sweep_items [OF sweep] by (simp add: find_sorted_runs_by_time_range_def sweep)
qed

lemma mset_ordered_files: "mset (map of_file (ordered_files runs)) = runs_items runs"
proof -
  have "mset (map of_file (ordered_files runs)) =
      mset (map of_file (concat (map (\<lambda>(run_id, run). map (\<lambda>(pos, file).
        \<lparr>of_file = file, of_run_id = run_id, of_position_in_run = pos\<rparr>) (enumerate 0 (sr_items run))) (enumerate 0 runs))))"
    unfolding mset_map ordered_files_def mset_sort_by ..
  also have "map of_file (concat (map (\<lambda>(run_id, run). map (\<lambda>(pos, file).
        \<lparr>of_file = file, of_run_id = run_id, of_position_in_run = pos\<rparr>) (enumerate 0 (sr_items run))) (enumerate 0 runs)))
      = concat (map (sr_items \<circ> snd) (enumerate 0 runs))"
    by (simp add: map_concat o_def case_prod_beta map_snd_enumerate cong: map_cong)
  also have "\<dots> = concat (map sr_items runs)"
    by (simp flip: map_map)
  finally show ?thesis by (simp add: runs_items_concat)
qed

text \<open>Whatever the picker, the files it returns are among those it is given.\<close>

lemma set_slice: "set (slice l r xs) \<subseteq> set xs"
  unfolding slice_def by (meson order_trans set_drop_subset set_take_subset)

lemma pick_where_files:
  assumes "length (ordered_files runs) \<le> usize_max"
  shows "\<exists>picked. pick_count_first_where k E runs m = Ret picked \<and> set picked \<subseteq> set_mset (runs_items runs)"
proof -
  let ?files = "ordered_files runs"
  have files: "set_mset (runs_items runs) = of_file ` set ?files"
    unfolding mset_ordered_files [symmetric] by simp
  obtain best where best: "fold (offer E m ?files) (intervals k (length ?files)) None = best" by simp
  have "case best of None \<Rightarrow> True | Some b \<Rightarrow> set (snd b) \<subseteq> set ?files"
    unfolding best [symmetric]
    by (rule fold_invariant_set) (simp_all add: offer_def Let_def set_slice)
  then have "set (case best of None \<Rightarrow> [] | Some (_, fs) \<Rightarrow> map of_file fs) \<subseteq> of_file ` set ?files"
    by (cases best) (auto simp: case_prod_beta)
  then show ?thesis
    unfolding files by (simp add: pick_count_first_where_def search_offers [OF assms] best)
qed

lemma pick_candidate_files_subset:
  assumes "length files \<le> usize_max" and "picker = pick_count_first_where k E"
  shows "\<exists>picked n. pick_candidate_files picker files m = Ret (picked, n) \<and> set picked \<subseteq> set files"
proof -
  let ?runs = "if length files < 1024 then find_sorted_runs file_item files
    else find_sorted_runs_by_time_range file_item files"
  have items: "runs_items ?runs = mset files" by (simp add: sorted_runs_items)
  then have "length (ordered_files ?runs) = length files"
    using mset_ordered_files [of ?runs] by (metis length_map size_mset)
  then have "length (ordered_files ?runs) \<le> usize_max" using assms(1) by simp
  from pick_where_files [OF this, of k E m] obtain picked where
    "pick_count_first_where k E ?runs m = Ret picked" "set picked \<subseteq> set_mset (runs_items ?runs)" by blast
  then show ?thesis unfolding items by (simp add: pick_candidate_files_def assms(2) Let_def)
qed

text \<open>The search of a window returns files of the window.\<close>

lemma find_inputs_files:
  assumes "length (w_files w) \<le> usize_max"
  shows "\<exists>inputs fd. find_inputs k p w ws = Ret (inputs, fd) \<and> set inputs \<subseteq> set (w_files w)
    \<and> (fd \<longrightarrow> \<not> tw_append_mode p \<and> \<not> window_has_overlap w ws \<and> \<not> selected_overlaps_unselected inputs w)"
proof (cases "length (w_files w) < tw_trigger_file_num p")
  case True
  then show ?thesis by (auto simp: find_inputs_def)
next
  case False
  define merge where "merge = (case tw_max_output_file_size p of
      Some max_size \<Rightarrow> if tw_append_mode p then filter (\<lambda>f. fm_file_size (fh_meta f) \<le> max_size) (w_files w) else w_files w
    | None \<Rightarrow> w_files w)"
  let ?l0 = "filter (\<lambda>f. fh_level f = 0) merge" and ?l1 = "filter (\<lambda>f. fh_level f \<noteq> 0) merge"
  let ?m = "tw_max_output_file_size p"
  have merge: "set merge \<subseteq> set (w_files w)" "length merge \<le> usize_max"
    using assms length_filter_le [of _ "w_files w"]
    by (auto simp: merge_def split: option.splits intro: order_trans [OF length_filter_le])
  have len: "length (?l0 @ ?l1) \<le> usize_max"
    using merge(2) sum_length_filter_compl [of "\<lambda>f. fh_level f = 0" merge] by simp
  have some: "\<exists>picked n. pick_candidate_files (pick_count_first_where k E) fs ?m = Ret (picked, n)
      \<and> set picked \<subseteq> set (w_files w)" if "fs \<in> {?l0, ?l1, ?l0 @ ?l1}" for E fs
  proof -
    have fs: "set fs \<subseteq> set (w_files w)" and "length fs \<le> usize_max" using that merge len by auto
    from pick_candidate_files_subset [OF this(2) refl, of k E ?m] fs show ?thesis by (meson order_trans)
  qed
  have "pick_count_first k = pick_count_first_where k (\<lambda>_. True)"
    and "pick_mixed_count_first k = pick_count_first_where k has_mixed_levels"
    by (simp_all add: fun_eq_iff pick_count_first_def pick_mixed_count_first_def)
  moreover obtain p0 n0 where
    "pick_candidate_files (pick_count_first_where k (\<lambda>_. True)) ?l0 ?m = Ret (p0, n0)" "set p0 \<subseteq> set (w_files w)"
    using some [of ?l0 "\<lambda>_. True"] by blast
  moreover obtain p1 n1 where
    "pick_candidate_files (pick_count_first_where k (\<lambda>_. True)) ?l1 ?m = Ret (p1, n1)" "set p1 \<subseteq> set (w_files w)"
    using some [of ?l1 "\<lambda>_. True"] by blast
  moreover obtain pm nm where
    "pick_candidate_files (pick_count_first_where k has_mixed_levels) (?l0 @ ?l1) ?m = Ret (pm, nm)" "set pm \<subseteq> set (w_files w)"
    using some [of "?l0 @ ?l1" has_mixed_levels] by blast
  moreover obtain pa na where
    "pick_candidate_files (pick_count_first_where k (\<lambda>_. True)) (?l0 @ ?l1) ?m = Ret (pa, na)" "set pa \<subseteq> set (w_files w)"
    using some [of "?l0 @ ?l1" "\<lambda>_. True"] by blast
  ultimately show ?thesis
    using False by (simp add: find_inputs_def Let_def merge_def [symmetric])
qed

text \<open>
  C14. The search never panics and picks the best interval: among the intervals of at most
  \<open>max_input_files\<close> consecutive files, in the order of their time ranges, that hold two files or
  more, are balanced, eligible and make progress, it returns the one with the best score, and the
  earliest of them when scores are equal; it returns nothing only when there is none. The metrics
  the score is computed from are those of the interval as a whole.
\<close>

theorem picks_best_interval:
  assumes "length (ordered_files runs) \<le> usize_max"
  shows "let files = ordered_files runs;
             interval = (\<lambda>l r. l < r \<and> r \<le> l + max_input_files \<and> r \<le> length files);
             cand = (\<lambda>l r. interval_candidate (slice l r files));
             good = (\<lambda>l r. interval l r \<and> worth_compacting is_eligible m (cand l r))
         in \<exists>picked. pick_count_first_where max_input_files is_eligible runs m = Ret picked
            \<and> (if picked = [] then \<forall>l r. \<not> good l r
               else \<exists>l r. good l r \<and> picked = map of_file (slice l r files)
                  \<and> (\<forall>l' r'. good l' r' \<longrightarrow>
                       \<not> is_better_than (score m (cand l' r')) (score m (cand l r))
                       \<and> (l' < l \<or> l' = l \<and> r' < r \<longrightarrow>
                            is_better_than (score m (cand l r)) (score m (cand l' r')))))"
proof -
  let ?files = "ordered_files runs"
  let ?xs = "intervals max_input_files (length ?files)"
  let ?cand = "\<lambda>l r. interval_candidate (slice l r ?files)"
  have picked: "pick_count_first_where max_input_files is_eligible runs m
      = Ret (case fold (offer is_eligible m ?files) ?xs None of None \<Rightarrow> [] | Some (_, fs) \<Rightarrow> map of_file fs)"
    by (simp add: pick_count_first_where_def search_offers [OF assms] Let_def)
  show ?thesis
  proof (cases "fold (offer is_eligible m ?files) ?xs None")
    case None
    then have "\<not> worth_compacting is_eligible m (?cand l r)" if "(l, r) \<in> set ?xs" for l r
      using fold_offer_best [where E = is_eligible and m = m and files = ?files and xs = ?xs] that by fastforce
    then show ?thesis using picked None by (simp add: set_intervals Let_def)
  next
    case (Some b)
    let ?c = "\<lambda>i. interval_candidate (slice (fst i) (snd i) ?files)"
    obtain as i bs where i: "?xs = as @ i # bs" "worth_compacting is_eligible m (?c i)" "fst b = score m (?c i)"
        "snd b = slice (fst i) (snd i) ?files"
        "\<forall>j \<in> set as. worth_compacting is_eligible m (?c j) \<longrightarrow> is_better_than (fst b) (score m (?c j))"
        "\<forall>j \<in> set bs. worth_compacting is_eligible m (?c j) \<longrightarrow> \<not> is_better_than (score m (?c j)) (fst b)"
      using fold_offer_best [where E = is_eligible and m = m and files = ?files and xs = ?xs]
      unfolding Some option.case case_prod_beta by blast
    obtain l r where lr: "i = (l, r)" by (cases i)
    have split: "?xs = as @ (l, r) # bs" "worth_compacting is_eligible m (?cand l r)" "snd b = slice l r ?files"
      using i(1,2,4) by (simp_all add: lr)
    have ahead: "is_better_than (score m (?cand l r)) (score m (?cand l' r'))"
      if "(l', r') \<in> set as" "worth_compacting is_eligible m (?cand l' r')" for l' r'
      using bspec [OF i(5) that(1)] that(2) i(3) by (simp add: lr)
    have behind: "\<not> is_better_than (score m (?cand l' r')) (score m (?cand l r))"
      if "(l', r') \<in> set bs" "worth_compacting is_eligible m (?cand l' r')" for l' r'
      using bspec [OF i(6) that(1)] that(2) i(3) by (simp add: lr)
    have "(l, r) \<in> set ?xs" using split(1) by simp
    then have interval: "l < r" "r \<le> l + max_input_files" "r \<le> length ?files" by (auto simp: set_intervals)
    have sorted: "\<forall>j \<in> set bs. before (l, r) j"
      using sorted_intervals [of max_input_files "length ?files"] by (simp add: split(1) sorted_wrt_append)
    have best: "\<not> is_better_than (score m (?cand l' r')) (score m (?cand l r))
        \<and> (l' < l \<or> l' = l \<and> r' < r \<longrightarrow> is_better_than (score m (?cand l r)) (score m (?cand l' r')))"
      if h: "(l', r') \<in> set ?xs" "worth_compacting is_eligible m (?cand l' r')" for l' r'
    proof -
      have "(l', r') \<in> set as \<or> (l', r') = (l, r) \<or> (l', r') \<in> set bs" using h(1) split(1) by auto
      then show ?thesis
        using ahead [of l' r'] behind [of l' r'] h(2) sorted is_better_than_irrefl
          is_better_than_trans(1) [of "score m (?cand l r)" "score m (?cand l' r')" "score m (?cand l r)"]
        by fastforce
    qed
    have "slice l r ?files \<noteq> []" using interval length_slice [of r ?files l] by force
    then show ?thesis
      using picked Some split(2,3) interval best
      by (cases b) (simp add: Let_def set_intervals, blast)
  qed
qed

theorem picks_best_interval_witness:
  "\<exists>picked. pick_count_first_where 32 (\<lambda>_. True)
     [run_from file_item [fh_new (file_meta_default\<lparr>fm_file_id := 1, fm_file_size := 10\<rparr>),
                          fh_new (file_meta_default\<lparr>fm_file_id := 2, fm_file_size := 10\<rparr>)]] None = Ret picked
     \<and> picked \<noteq> []"
proof -
  let ?runs = "[run_from file_item [fh_new (file_meta_default\<lparr>fm_file_id := 1, fm_file_size := 10\<rparr>),
                          fh_new (file_meta_default\<lparr>fm_file_id := 2, fm_file_size := 10\<rparr>)]]"
  have files: "ordered_files ?runs =
      [\<lparr>of_file = fh_new (file_meta_default\<lparr>fm_file_id := 1, fm_file_size := 10\<rparr>), of_run_id = 0, of_position_in_run = 0\<rparr>,
       \<lparr>of_file = fh_new (file_meta_default\<lparr>fm_file_id := 2, fm_file_size := 10\<rparr>), of_run_id = 0, of_position_in_run = 1\<rparr>]"
    by (simp add: ordered_files_def ordered_le_def ts_cmp_instant cmp_of_def file_meta_default_def)
  have "worth_compacting (\<lambda>_. True) None (interval_candidate (slice 0 2 (ordered_files ?runs)))"
    unfolding files
    by (simp add: slice_def worth_compacting_def interval_candidate_def is_balanced_def usize_sub_def
        wrap_usize_def has_balanced_level_rows_def makes_progress_def file_reduction_def
        predicted_output_files_def file_meta_default_def)
  moreover have "length (ordered_files ?runs) = 2" by (simp add: files)
  ultimately show ?thesis
    using picks_best_interval [of ?runs 32 "\<lambda>_. True" None]
    by (simp add: Let_def usize_max_def split: if_splits) (metis zero_less_numeral order_refl)
qed

end
