(* ===== verification/Compaction_Safety.thy ===== *)
theory Compaction_Safety
  imports Compaction_Pick
begin

text \<open>
  The windows of the time window compaction: each file is in the window of its greatest timestamp,
  deletion markers are dropped only when no other file can hold a row they delete, a requested time
  range reaches every file that ends in it, and the outputs do not depend on how the windows are
  distributed over background tasks.
\<close>

section \<open>Definitions\<close>

text \<open>The window of a file: the second of its end rounded up to a multiple of the window size.\<close>

definition window_key :: "int \<Rightarrow> file_handle \<Rightarrow> int" where
  "window_key b f =
     (let c = - ((- (instant_ns (snd (fh_time_range f)) div 1000000000)) div b) * b
      in if in_i64 c then c else i64_min)"

definition covers_file :: "window \<Rightarrow> file_handle \<Rightarrow> bool" where
  "covers_file w f \<longleftrightarrow>
     w_start w \<le> fst (fh_time_range f) \<and> snd (fh_time_range f) \<le> w_end w
     \<and> (case w_primary_key_range w of
          None \<Rightarrow> True
        | Some r \<Rightarrow> (case fh_primary_key_range f of None \<Rightarrow> False | Some q \<Rightarrow> fst r \<le> fst q \<and> snd q \<le> snd r))"

definition in_key :: "int \<Rightarrow> int \<Rightarrow> file_handle \<Rightarrow> bool" where
  "in_key b k f \<longleftrightarrow> \<not> fh_compacting f \<and> window_key b f = k"

definition window_ok :: "int \<Rightarrow> file_handle list \<Rightarrow> int \<Rightarrow> window \<Rightarrow> bool" where
  "window_ok b fs k w \<longleftrightarrow>
     w_time_window w = k \<and> w_files w = filter (in_key b k) fs \<and> w_files w \<noteq> []
     \<and> (\<forall>f \<in> set (w_files w). covers_file w f)"

definition assigned :: "int \<Rightarrow> file_handle list \<Rightarrow> (int \<rightharpoonup> window) \<Rightarrow> bool" where
  "assigned b fs m \<longleftrightarrow> (\<forall>k. case m k of None \<Rightarrow> filter (in_key b k) fs = [] | Some w \<Rightarrow> window_ok b fs k w)"

section \<open>Lemmas\<close>

subsection \<open>Windows\<close>

lemma file_time_window_key:
  assumes "0 < b" and "ts_wf (snd (fh_time_range f))"
  shows "file_time_window b f = Ret (window_key b f)"
  using assms by (simp add: file_time_window_def convert_to_second align_to_ceil_by_bucket_eq window_key_def
      Let_def try_i64_def)

lemma covers_new_file: "covers_file ((new_with_file f)\<lparr>w_time_window := k\<rparr>) f"
  by (simp add: covers_file_def new_with_file_def ts_order split: option.split)

lemma covers_added_file: "covers_file (window_add_file f w) f"
  by (cases "w_primary_key_range w"; cases "fh_primary_key_range f")
    (auto simp: covers_file_def window_add_file_def ts_order split: prod.splits)

lemma covers_kept_file: "covers_file w g \<Longrightarrow> covers_file (window_add_file f w) g"
  by (cases "w_primary_key_range w"; cases "fh_primary_key_range f")
    (auto simp: covers_file_def window_add_file_def ts_order min.coboundedI1 max.coboundedI1
      split: prod.splits option.splits)

lemma window_simps:
  "w_files (window_add_file f w) = w_files w @ [f]" "w_time_window (window_add_file f w) = w_time_window w"
  "w_files (new_with_file f) = [f]"
  by (simp_all add: window_add_file_def new_with_file_def split: prod.split)

lemma assign_to_window_ok:
  assumes "0 < b" and "ts_wf (snd (fh_time_range f))" and "assigned b fs (map_of m)"
  shows "\<exists>m'. assign_to_window b f m = Ret m' \<and> assigned b (fs @ [f]) (map_of m')
    \<and> (hmap_wf m \<longrightarrow> hmap_wf m')"
proof (cases "fh_compacting f")
  case True
  then have "\<not> in_key b k f" for k by (simp add: in_key_def)
  then have "assigned b (fs @ [f]) (map_of m)"
    using assms(3) by (simp add: assigned_def window_ok_def cong: option.case_cong)
  then show ?thesis using True by (simp add: assign_to_window_def)
next
  case False
  let ?k = "window_key b f"
  define w where "w = (case map_of m ?k of Some w \<Rightarrow> window_add_file f w | None \<Rightarrow> (new_with_file f)\<lparr>w_time_window := ?k\<rparr>)"
  have run: "assign_to_window b f m = Ret (hmap_insert ?k w m)"
    using False by (simp add: assign_to_window_def file_time_window_key assms(1,2) w_def split: option.split)
  have snoc: "in_key b k f \<longleftrightarrow> k = ?k" for k
    using False by (auto simp: in_key_def)
  have old: "case map_of m ?k of None \<Rightarrow> filter (in_key b ?k) fs = [] | Some w \<Rightarrow> window_ok b fs ?k w"
    using assms(3) by (simp add: assigned_def)
  have "window_ok b (fs @ [f]) ?k w"
    using old by (auto simp: w_def window_ok_def snoc window_simps covers_new_file covers_added_file covers_kept_file
        split: option.splits)
  moreover have "case map_of m k of None \<Rightarrow> filter (in_key b k) (fs @ [f]) = [] | Some w \<Rightarrow> window_ok b (fs @ [f]) k w"
    if "k \<noteq> ?k" for k
    using assms(3) that by (auto simp: assigned_def window_ok_def snoc dest!: spec [of _ k] split: option.splits)
  ultimately have "assigned b (fs @ [f]) (map_of (hmap_insert ?k w m))"
    unfolding assigned_def by (simp add: hmap_simps)
  then show ?thesis using run by simp
qed

lemma assign_all_ok:
  assumes "0 < b" and "\<forall>f \<in> set fs. ts_wf (snd (fh_time_range f))"
  shows "\<exists>m. fold_outcome (assign_to_window b) fs [] = Ret m \<and> assigned b fs (map_of m) \<and> hmap_wf m"
  using assms(2)
proof (induction fs rule: rev_induct)
  case Nil
  show ?case by (simp add: assigned_def)
next
  case (snoc f fs)
  then obtain m where "fold_outcome (assign_to_window b) fs [] = Ret m" "assigned b fs (map_of m)" "hmap_wf m" by auto
  moreover obtain m' where "assign_to_window b f m = Ret m'"
      "assigned b (fs @ [f]) (map_of m')" "hmap_wf m \<longrightarrow> hmap_wf m'"
    using assign_to_window_ok [OF assms(1) _ calculation(2), of f] snoc.prems by auto
  ultimately show ?case by (simp add: fold_outcome_append)
qed

lemma collect_bmap:
  assumes "bmap_wf acc" and "hmap_wf m"
  shows "bmap_wf (fold (\<lambda>(k, w). bmap_update k (\<lambda>_. w)) m acc)
    \<and> map_of (fold (\<lambda>(k, w). bmap_update k (\<lambda>_. w)) m acc) = map_of acc ++ map_of m"
  using assms
proof (induction m arbitrary: acc)
  case (Cons e m)
  obtain k w where e: "e = (k, w)" by (cases e)
  have "k \<notin> dom (map_of m)" using Cons.prems(2) by (simp add: e hmap_wf_def dom_map_of_conv_image_fst)
  moreover have "map_of (bmap_update k (\<lambda>_. w) acc) = (map_of acc)(k \<mapsto> w)"
    using Cons.prems(1) by (simp add: fun_eq_iff map_of_bmap_update)
  ultimately show ?case
    using Cons.IH [OF bmap_wf_update [OF Cons.prems(1), of k "\<lambda>_. w"]] Cons.prems(2)
    by (auto simp: e hmap_wf_def map_add_def fun_eq_iff split: option.splits)
qed simp

lemma assign_to_windows_ok:
  assumes "0 < b" and "\<forall>f \<in> set fs. ts_wf (snd (fh_time_range f))"
  shows "\<exists>ws. assign_to_windows fs b = Ret ws \<and> bmap_wf ws \<and> assigned b fs (map_of ws)"
proof -
  obtain m where m: "fold_outcome (assign_to_window b) fs [] = Ret m" "assigned b fs (map_of m)" "hmap_wf m"
    using assign_all_ok [OF assms] by blast
  have "bmap_wf ([] :: windows)" by (simp add: bmap_wf_def)
  from collect_bmap [OF this m(3)] m(1,2) show ?thesis by (simp add: assign_to_windows_def)
qed

text \<open>
  C26. Every file that is not being compacted is in exactly one window, the one of its greatest
  timestamp rounded up to the window size (files that cannot be rounded up share the least
  window), windows are ordered and not empty, and the time and key range of a window covers its files.
\<close>

theorem assign_to_windows_partition:
  assumes "0 < b" and "\<forall>f \<in> set fs. ts_wf (snd (fh_time_range f))"
  shows "\<exists>ws. assign_to_windows fs b = Ret ws \<and> sorted_wrt (<) (map fst ws)
    \<and> fst ` set ws = window_key b ` {f \<in> set fs. \<not> fh_compacting f}
    \<and> (\<forall>(k, w) \<in> set ws. w_time_window w = k
         \<and> w_files w = filter (\<lambda>f. \<not> fh_compacting f \<and> window_key b f = k) fs
         \<and> (\<forall>f \<in> set (w_files w). covers_file w f))"
proof -
  obtain ws where ws: "assign_to_windows fs b = Ret ws" "bmap_wf ws" "assigned b fs (map_of ws)"
    using assign_to_windows_ok [OF assms] by blast
  have entry: "window_ok b fs k w" if "(k, w) \<in> set ws" for k w
    using ws(2,3) that by (auto simp: assigned_def bmap_entry dest!: spec [of _ k])
  have "k \<in> fst ` set ws \<longleftrightarrow> filter (in_key b k) fs \<noteq> []" for k
  proof -
    have "k \<in> fst ` set ws \<longleftrightarrow> map_of ws k \<noteq> None" by (simp add: map_of_eq_None_iff)
    then show ?thesis using ws(3) by (auto simp: assigned_def window_ok_def dest!: spec [of _ k] split: option.splits)
  qed
  then have "fst ` set ws = window_key b ` {f \<in> set fs. \<not> fh_compacting f}"
    by (auto simp: set_eq_iff filter_empty_conv in_key_def image_iff)
  moreover have "sorted_wrt (<) (map fst ws)" using ws(2) by (simp add: bmap_wf_def)
  moreover have "in_key b k = (\<lambda>f. \<not> fh_compacting f \<and> window_key b f = k)" for k
    by (simp add: fun_eq_iff in_key_def)
  ultimately show ?thesis using ws(1) entry by (auto simp: window_ok_def)
qed

theorem assign_to_windows_partition_witness:
  "\<exists>ws. assign_to_windows [fh_new (file_meta_default\<lparr>fm_time_range := (new_second 5, new_second 15)\<rparr>)] 10 = Ret ws
     \<and> fst ` set ws = {20}"
proof -
  let ?f = "fh_new (file_meta_default\<lparr>fm_time_range := (new_second 5, new_second 15)\<rparr>)"
  have "window_key 10 ?f = 20" and "ts_wf (snd (fh_time_range ?f))"
    by (simp_all add: window_key_def instant_ns_def ts_wf_def i64_defs)
  moreover have "{f \<in> set [?f]. \<not> fh_compacting f} = {?f}" by auto
  ultimately show ?thesis using assign_to_windows_partition [of 10 "[?f]"] by auto
qed

subsection \<open>Deletion markers\<close>

lemma overlap_inclusive_iff:
  "file_overlap_inclusive a b \<longleftrightarrow>
     instant_ns (fst (fh_time_range a)) \<le> instant_ns (snd (fh_time_range a))
     \<and> instant_ns (fst (fh_time_range b)) \<le> instant_ns (snd (fh_time_range b))
     \<and> instant_ns (fst (fh_time_range a)) \<le> instant_ns (snd (fh_time_range b))
     \<and> instant_ns (fst (fh_time_range b)) \<le> instant_ns (snd (fh_time_range a))
     \<and> (case (fh_primary_key_range a, fh_primary_key_range b) of
          (Some l, Some r) \<Rightarrow> primary_key_ranges_overlap l r | _ \<Rightarrow> True)"
  by (auto simp: file_overlap_inclusive_def ts_order Let_def split: prod.splits)

lemma overlaps_iff:
  "overlaps l r \<longleftrightarrow> (if instant_ns (fst l) \<le> instant_ns (fst r) then instant_ns (fst r) \<le> instant_ns (snd l)
     else instant_ns (fst l) \<le> instant_ns (snd r))"
  by (auto simp: overlaps_def ts_order)

lemma primary_keys_within:
  assumes "fst r \<le> fst q" and "snd q \<le> snd r" and "fst r' \<le> fst q'" and "snd q' \<le> snd r'"
    and "primary_key_ranges_overlap q q'"
  shows "primary_key_ranges_overlap r r'"
  using assms unfolding primary_key_ranges_overlap_def by (meson max.mono min.mono order_trans)

text \<open>Windows that do not overlap hold files that do not overlap.\<close>

lemma window_overlap_complete:
  assumes "covers_file w f" and "covers_file w' g" and "file_overlap_inclusive f g"
  shows "overlaps (window_range w) (window_range w')
    \<and> (case (w_primary_key_range w, w_primary_key_range w') of
         (Some l, Some r) \<Rightarrow> primary_key_ranges_overlap l r | _ \<Rightarrow> True)"
proof
  show "overlaps (window_range w) (window_range w')"
    using assms by (auto simp: overlaps_iff window_range_def covers_file_def ts_order overlap_inclusive_iff)
  show "case (w_primary_key_range w, w_primary_key_range w') of
      (Some l, Some r) \<Rightarrow> primary_key_ranges_overlap l r | _ \<Rightarrow> True"
  proof (cases "w_primary_key_range w"; cases "w_primary_key_range w'")
    fix r r' assume r: "w_primary_key_range w = Some r" "w_primary_key_range w' = Some r'"
    obtain q q' where q: "fh_primary_key_range f = Some q" "fst r \<le> fst q" "snd q \<le> snd r"
        "fh_primary_key_range g = Some q'" "fst r' \<le> fst q'" "snd q' \<le> snd r'"
      using assms(1,2) r by (auto simp: covers_file_def split: option.splits)
    then have "primary_key_ranges_overlap q q'" using assms(3) by (simp add: overlap_inclusive_iff)
    with q r primary_keys_within [of r q r' q'] show ?thesis by simp
  qed simp_all
qed

lemma window_overlap_found:
  assumes "covers_file w f" and "file_overlap_inclusive f g" and "(k', w') \<in> set ws"
    and "covers_file w' g" and "w_time_window w \<noteq> w_time_window w'"
  shows "window_has_overlap w ws"
  using window_overlap_complete [OF assms(1,4,2)] assms(3,5)
  unfolding window_has_overlap_def list_ex_iff by (intro bexI [of _ w']) force+

lemma span_covers:
  assumes "(a, b) = fold (\<lambda>(start_b, end_b) (start_a, end_a). (ts_min start_a start_b, ts_max end_a end_b)) rs r"
    and "x \<in> insert r (set rs)"
  shows "instant_ns a \<le> instant_ns (fst x) \<and> instant_ns (snd x) \<le> instant_ns b"
  using assms
proof (induction rs arbitrary: r x)
  case (Cons q rs)
  let ?r = "(ts_min (fst r) (fst q), ts_max (snd r) (snd q))"
  have fold: "(a, b) = fold (\<lambda>(start_b, end_b) (start_a, end_a). (ts_min start_a start_b, ts_max end_a end_b)) rs ?r"
    using Cons.prems(1) by (cases r; cases q) simp
  show ?case
  proof (cases "x \<in> set rs")
    case True
    then show ?thesis using Cons.IH [OF fold] by blast
  next
    case False
    then have "x = r \<or> x = q" using Cons.prems(2) by auto
    then show ?thesis using Cons.IH [OF fold, of ?r] by auto
  qed
qed auto

lemma unselected_overlap_found:
  assumes "s \<in> set selected" and "f \<in> set (w_files w)" and "fh_file_id f \<notin> fh_file_id ` set selected"
    and "file_overlap_inclusive s f"
  shows "selected_overlaps_unselected selected w"
proof -
  obtain s0 ss where sel: "selected = s0 # ss" using assms(1) by (cases selected) auto
  obtain a b where span: "(a, b) = fold (\<lambda>(start_b, end_b) (start_a, end_a). (ts_min start_a start_b, ts_max end_a end_b))
      (map fh_time_range ss) (fh_time_range s0)"
    by (metis surj_pair)
  have "fh_time_range s \<in> insert (fh_time_range s0) (set (map fh_time_range ss))"
    using assms(1) by (auto simp: sel)
  then have "instant_ns a \<le> instant_ns (fst (fh_time_range s)) \<and> instant_ns (snd (fh_time_range s)) \<le> instant_ns b"
    by (rule span_covers [OF span])
  then have "fst (fh_time_range f) \<le> b \<and> a \<le> snd (fh_time_range f)"
    using assms(4) by (auto simp: overlap_inclusive_iff ts_order)
  then show ?thesis
    using assms by (auto simp: selected_overlaps_unselected_def sel span [symmetric] Let_def list_ex_iff)
qed

lemma picked_without_overlap:
  assumes "0 < b" and "\<forall>f \<in> set fs. ts_wf (snd (fh_time_range f))" and "length fs \<le> usize_max"
    and "assign_to_windows fs b = Ret ws" and "(k, w) \<in> set ws"
    and "find_inputs max_input_files p w ws = Ret (inputs, True)"
  shows "set inputs \<subseteq> {f \<in> set fs. \<not> fh_compacting f}
    \<and> (\<forall>f \<in> set fs. \<not> fh_compacting f \<and> fh_file_id f \<notin> fh_file_id ` set inputs
         \<longrightarrow> (\<forall>s \<in> set inputs. \<not> file_overlap_inclusive s f))"
proof -
  have ws: "bmap_wf ws" "assigned b fs (map_of ws)" using assign_to_windows_ok [OF assms(1,2)] assms(4) by auto
  have entry: "window_ok b fs k' w'" if "map_of ws k' = Some w'" for k' w'
    using ws(2) that by (auto simp: assigned_def dest!: spec [of _ k'])
  have w: "window_ok b fs k w" using entry ws(1) assms(5) by (simp add: bmap_entry)
  have "length (w_files w) \<le> usize_max"
    using w order_trans [OF length_filter_le assms(3), of "in_key b k"] by (simp add: window_ok_def)
  from find_inputs_files [OF this, of max_input_files p ws] assms(6)
  have inputs: "set inputs \<subseteq> set (w_files w)" "\<not> window_has_overlap w ws" "\<not> selected_overlaps_unselected inputs w"
    by auto
  have "\<not> file_overlap_inclusive s f"
    if f: "f \<in> set fs" "\<not> fh_compacting f" "fh_file_id f \<notin> fh_file_id ` set inputs" and s: "s \<in> set inputs" for f s
  proof
    assume overlap: "file_overlap_inclusive s f"
    have sw: "covers_file w s" using s inputs(1) w by (auto simp: window_ok_def)
    let ?k = "window_key b f"
    have "filter (in_key b ?k) fs \<noteq> []" using f(1,2) by (auto simp: filter_empty_conv in_key_def)
    then obtain w' where w': "map_of ws ?k = Some w'"
      using ws(2) by (auto simp: assigned_def dest!: spec [of _ ?k] split: option.splits)
    have ok: "window_ok b fs ?k w'" "f \<in> set (w_files w')"
      using entry [OF w'] f(1,2) by (auto simp: window_ok_def in_key_def)
    show False
    proof (cases "?k = k")
      case True
      then have "w' = w" using w' ws(1) assms(5) by (simp add: bmap_entry)
      then show False using unselected_overlap_found [OF s _ f(3) overlap] ok(2) inputs(3) by blast
    next
      case False
      then have "w_time_window w \<noteq> w_time_window w'" using w ok(1) by (simp add: window_ok_def)
      moreover have "(?k, w') \<in> set ws" using w' ws(1) by (simp add: bmap_entry)
      ultimately show False
        using window_overlap_found [OF sw overlap] ok inputs(2) by (auto simp: window_ok_def)
    qed
  qed
  moreover have "set inputs \<subseteq> {f \<in> set fs. \<not> fh_compacting f}"
    using inputs(1) w by (auto simp: window_ok_def in_key_def)
  ultimately show ?thesis by blast
qed

text \<open>Two files of one window that are picked together.\<close>

definition sample_file :: "file_id \<Rightarrow> file_handle" where
  "sample_file i = fh_new (file_meta_default\<lparr>fm_file_id := i, fm_file_size := 10\<rparr>)"

definition sample_picker :: twcs_picker where
  "sample_picker =
     \<lparr>tw_trigger_file_num = 2, tw_time_window_seconds = None, tw_max_output_file_size = None,
      tw_append_mode = False, tw_max_background_tasks = None, tw_time_range = None\<rparr>"

definition sample_window :: window where
  "sample_window = window_add_file (sample_file 2) ((new_with_file (sample_file 1))\<lparr>w_time_window := 0\<rparr>)"

lemma sample_file_meta:
  "fh_time_range (sample_file i) = (ts_default, ts_default)" "fm_file_size (fh_meta (sample_file i)) = 10"
  "fh_level (sample_file i) = 0" "fm_num_rows (fh_meta (sample_file i)) = 0" "\<not> fh_compacting (sample_file i)"
  "fh_file_id (sample_file i) = fh_file_id (sample_file j) \<longleftrightarrow> i = j" "ts_wf ts_default" "instant_ns ts_default = 0"
  by (simp_all add: sample_file_def file_meta_default_def ts_default_def ts_wf_def i64_defs instant_ns_def fh_file_id_def)

lemma sample_pick:
  "assign_to_windows [sample_file 1, sample_file 2] 10 = Ret [(0, sample_window)]"
  "find_inputs 32 sample_picker sample_window [(0, sample_window)] = Ret ([sample_file 1, sample_file 2], True)"
proof -
  obtain f g where fg: "f = sample_file 1" "g = sample_file 2" by simp
  note meta = sample_file_meta(1-5) [of 1, folded fg] sample_file_meta(1-5) [of 2, folded fg] sample_file_meta(7,8)
  have ids: "fh_file_id f \<noteq> fh_file_id g" unfolding fg sample_file_meta(6) by simp
  define w where "w = window_add_file g ((new_with_file f)\<lparr>w_time_window := 0\<rparr>)"
  have w: "w_files w = [f, g]" "w_time_window w = 0" by (simp_all add: w_def window_simps)
  have ws: "assign_to_windows [f, g] 10 = Ret [(0, w)]"
    by (simp add: assign_to_windows_def assign_to_window_def file_time_window_key meta window_key_def i64_defs
        w_def window_simps)
  have runs: "find_sorted_runs file_item [f, g] = [run_from file_item [f, g]]"
  proof -
    have "it_range file_item = fh_time_range" "it_overlap file_item = file_overlap" by (simp_all add: file_item_def)
    then show ?thesis
      by (simp add: files.find_sorted_runs_first_fit sort_ranged_items_def ranged_le_iff first_fit_def
          file_overlap_def meta ts_order)
  qed
  have files: "ordered_files [run_from file_item [f, g]] =
      [\<lparr>of_file = f, of_run_id = 0, of_position_in_run = 0\<rparr>, \<lparr>of_file = g, of_run_id = 0, of_position_in_run = 1\<rparr>]"
    by (simp add: ordered_files_def ordered_le_def ts_cmp_instant cmp_of_def meta)
  have len: "length (ordered_files [run_from file_item [f, g]]) \<le> usize_max" by (simp add: files usize_max_def)
  have "pick_count_first 32 [run_from file_item [f, g]] None = Ret [f, g]"
    unfolding pick_count_first_def pick_count_first_where_def Let_def search_offers [OF len]
    unfolding files
    by (simp add: intervals_def offer_def slice_def worth_compacting_def
        interval_candidate_def is_balanced_def usize_sub_def wrap_usize_def has_balanced_level_rows_def
        makes_progress_def file_reduction_def predicted_output_files_def meta upt_rec Let_def num_true_def
        participations_def conflicts_def)
  then have pick: "find_inputs 32 sample_picker w [(0, w)] = Ret ([f, g], True)"
    by (simp add: find_inputs_def w meta pick_candidate_files_def runs window_has_overlap_def
        selected_overlaps_unselected_def sample_picker_def ids)
  have e: "sample_window = w" by (simp add: sample_window_def w_def fg)
  show "assign_to_windows [sample_file 1, sample_file 2] 10 = Ret [(0, sample_window)]"
    "find_inputs 32 sample_picker sample_window [(0, sample_window)] = Ret ([sample_file 1, sample_file 2], True)"
    using ws pick unfolding e fg by simp_all
qed

text \<open>
  C6. Deletion markers are dropped only when it is safe: if the picker lets a compaction filter
  deleted rows, then no other file of the region that is not being compacted, in whichever window,
  overlaps one of the files it compacts in time and primary key, so no row remains that a dropped
  marker deletes.
\<close>

theorem filter_deleted_safe:
  assumes "0 < b" and "\<forall>f \<in> set fs. ts_wf (snd (fh_time_range f))" and "length fs \<le> usize_max"
    and "assign_to_windows fs b = Ret ws" and "(k, w) \<in> set ws"
    and "find_inputs max_input_files p w ws = Ret (inputs, True)"
  shows "set inputs \<subseteq> {f \<in> set fs. \<not> fh_compacting f}
    \<and> (\<forall>f \<in> set fs. \<not> fh_compacting f \<and> fh_file_id f \<notin> fh_file_id ` set inputs
         \<longrightarrow> (\<forall>s \<in> set inputs. \<not> file_overlap_inclusive s f))"
  by (rule picked_without_overlap [OF assms])

theorem filter_deleted_safe_witness:
  "assign_to_windows [sample_file 1, sample_file 2] 10 = Ret [(0, sample_window)]
    \<and> find_inputs 32 sample_picker sample_window [(0, sample_window)] = Ret ([sample_file 1, sample_file 2], True)
    \<and> set [sample_file 1, sample_file 2] \<subseteq> {f \<in> set [sample_file 1, sample_file 2]. \<not> fh_compacting f}"
proof -
  have "length [sample_file 1, sample_file 2] \<le> usize_max" "(0, sample_window) \<in> set [(0, sample_window)]" by (simp_all add: usize_max_def)
  from filter_deleted_safe [OF _ _ this(1) sample_pick(1) this(2) sample_pick(2)] sample_pick sample_file_meta show ?thesis by simp
qed

subsection \<open>Outputs and background tasks\<close>

lemma process_results_append:
  "process_results m (xs @ ys) out =
     (case process_results m xs out of
        Inl e \<Rightarrow> Inl e
      | Inr (out, stop) \<Rightarrow> if stop then Inr (out, True) else process_results m ys out)"
  by (induction m xs out rule: process_results.induct) (simp_all add: Let_def)

lemma process_chunks_concat:
  "process_chunks m task cs out = map_sum id fst (process_results m (map task (concat cs)) out)"
  by (induction cs arbitrary: out) (auto simp: process_results_append split: sum.splits)

lemma concat_chunks: "0 < n \<Longrightarrow> concat (chunks n xs) = xs"
proof (induction "length xs" arbitrary: xs rule: less_induct)
  case less
  show ?case
  proof (cases "xs = []")
    case True
    then show ?thesis by (simp add: chunks.simps)
  next
    case False
    then have "concat (chunks n (drop n xs)) = drop n xs" using less by simp
    then show ?thesis using False less.prems by (subst chunks.simps) simp
  qed
qed

definition output_of :: "(file_handle list \<times> bool) option \<Rightarrow> compaction_output list" where
  "output_of r = (case r of
     Some (inputs, filter_deleted) \<Rightarrow>
       if inputs = [] then []
       else [\<lparr>co_output_level = LEVEL_COMPACTED, co_inputs = inputs, co_filter_deleted = filter_deleted,
              co_output_time_range = None\<rparr>]
   | None \<Rightarrow> [])"

lemma process_results_unlimited:
  "map_sum id fst (process_results None (map Inr rs) out) = Inr (out @ concat (map output_of rs))"
proof (induction rs arbitrary: out)
  case (Cons r rs)
  then show ?case by (cases r) (auto simp: output_of_def)
qed simp

lemma process_results_limited:
  "length out < max n 1 \<Longrightarrow>
   map_sum id fst (process_results (Some n) (map Inr rs) out) = Inr (take (max n 1) (out @ concat (map output_of rs)))"
proof (induction rs arbitrary: out)
  case (Cons r rs)
  show ?case
  proof (cases "output_of r")
    case Nil
    then show ?thesis using Cons by (cases r) (auto simp: output_of_def split: if_splits)
  next
    case (Cons o1 os)
    then have o1: "output_of r = [o1]" by (cases r) (auto simp: output_of_def split: if_splits)
    show ?thesis
    proof (cases "n \<le> length out + 1")
      case True
      then have "max n 1 = length out + 1" using Cons.prems by simp
      then show ?thesis using True o1 by (cases r) (auto simp: output_of_def split: if_splits)
    next
      case False
      then have "length (out @ [o1]) < max n 1" by simp
      from Cons.IH [OF this] False o1 show ?thesis by (cases r) (auto simp: output_of_def split: if_splits)
    qed
  qed
qed simp

lemma intersects_returns: "0 < b \<Longrightarrow> \<exists>v. time_window_intersects_range k b r = Ret v"
  by (auto simp: time_window_intersects_range_def range_first_window_def range_last_window_def
      align_to_ceil_by_bucket_eq split: option.splits)

definition keeps_window :: "twcs_picker \<Rightarrow> int \<Rightarrow> window \<Rightarrow> bool" where
  "keeps_window p b w \<longleftrightarrow> w_files w \<noteq> []
     \<and> (case tw_time_range p of None \<Rightarrow> True | Some r \<Rightarrow> time_window_intersects_range (w_time_window w) b r = Ret True)"

lemma candidate_windows_eq:
  assumes "0 < b"
  shows "candidate_windows p ws (Some b) = Ret (map w_time_window (filter (keeps_window p b) (rev (map snd ws))))"
proof -
  let ?step = "\<lambda>window acc. bind_outcome
      (if w_files window = [] then Ret False
       else case (tw_time_range p, Some b) of
              (Some time_range, Some sz) \<Rightarrow> time_window_intersects_range (w_time_window window) sz time_range
            | _ \<Rightarrow> Ret True) (\<lambda>keep. Ret (if keep then acc @ [w_time_window window] else acc))"
  have step: "?step w acc = Ret (if keeps_window p b w then acc @ [w_time_window w] else acc)" for w acc
  proof (cases "tw_time_range p")
    case (Some r)
    then show ?thesis
      using intersects_returns [OF assms, of "w_time_window w" r] by (auto simp: keeps_window_def)
  qed (simp add: keeps_window_def)
  have "fold_outcome ?step vs acc = Ret (acc @ map w_time_window (filter (keeps_window p b) vs))" for vs acc
    by (induction vs arbitrary: acc) (simp_all only: fold_outcome.simps step bind_outcome.simps, simp_all)
  then show ?thesis unfolding candidate_windows_def by simp
qed

text \<open>The output, if any, of the window with the given key.\<close>

definition window_outputs :: "nat \<Rightarrow> twcs_picker \<Rightarrow> windows \<Rightarrow> int \<Rightarrow> compaction_output list" where
  "window_outputs max_input_files p ws k =
     (case map_of ws k of
        Some w \<Rightarrow> (case find_inputs max_input_files p w ws of Ret r \<Rightarrow> output_of (Some r) | Panic \<Rightarrow> [])
      | None \<Rightarrow> [])"

text \<open>
  C27. The outputs of the picker are those of its windows, from the latest window to the earliest,
  up to the allowed number of background tasks (at least one); how the windows are divided into
  concurrent chunks makes no difference, and no task fails.
\<close>

theorem twcs_outputs_in_order:
  assumes "0 < b" and "\<forall>f \<in> set fs. ts_wf (snd (fh_time_range f))" and "length fs \<le> usize_max"
    and "assign_to_windows fs b = Ret ws"
  shows "\<exists>keys. candidate_windows p ws (Some b) = Ret keys \<and> sorted_wrt (>) keys \<and> set keys \<subseteq> fst ` set ws
    \<and> build_output_with_time_range max_input_files p ws (Some b) =
        Ret (Inr (let outputs = concat (map (window_outputs max_input_files p ws) keys)
                  in case tw_max_background_tasks p of None \<Rightarrow> outputs | Some n \<Rightarrow> take (max n 1) outputs))"
proof -
  have ws: "bmap_wf ws" "assigned b fs (map_of ws)" using assign_to_windows_ok [OF assms(1,2)] assms(4) by auto
  have entry: "window_ok b fs k w" if "map_of ws k = Some w" for k w
    using ws(2) that by (auto simp: assigned_def dest!: spec [of _ k])
  have keys_of: "map w_time_window (map snd ws) = map fst ws"
    using entry ws(1) by (auto simp: bmap_entry [OF ws(1), symmetric] window_ok_def)
  let ?keys = "map w_time_window (filter (keeps_window p b) (rev (map snd ws)))"
  have "sorted_wrt (>) (map w_time_window (rev (map snd ws)))"
    using ws(1) unfolding rev_map [symmetric] keys_of by (simp add: sorted_wrt_rev bmap_wf_def)
  then have sorted: "sorted_wrt (>) ?keys"
    by (metis (no_types, lifting) sorted_wrt_map sorted_wrt_filter)
  have subset: "set ?keys \<subseteq> fst ` set ws"
    using arg_cong [OF keys_of, of set] by auto
  let ?task = "\<lambda>window. case map_of ws window of None \<Rightarrow> Inr None
    | Some w \<Rightarrow> (case join_blocking (find_inputs max_input_files p w ws) of Inl e \<Rightarrow> Inl e | Inr r \<Rightarrow> Inr (Some r))"
  define result where "result k = (case map_of ws k of None \<Rightarrow> None | Some w \<Rightarrow>
    (case find_inputs max_input_files p w ws of Ret r \<Rightarrow> Some r | Panic \<Rightarrow> None))" for k
  have task: "?task k = Inr (result k)" for k
  proof (cases "map_of ws k")
    case (Some w)
    have "length (w_files w) \<le> usize_max"
      using entry [OF Some] order_trans [OF length_filter_le assms(3), of "in_key b k"] by (simp add: window_ok_def)
    from find_inputs_files [OF this, of max_input_files p ws] show ?thesis by (auto simp: result_def Some)
  qed (simp add: result_def)
  have "output_of (result k) = window_outputs max_input_files p ws k" for k
    by (auto simp: result_def window_outputs_def output_of_def split: option.split outcome.split)
  then have outputs: "map output_of (map result ks) = map (window_outputs max_input_files p ws) ks" for ks
    by simp
  let ?n = "max (case tw_max_background_tasks p of None \<Rightarrow> length ?keys | Some n \<Rightarrow> n) 1"
  have "build_output_with_time_range max_input_files p ws (Some b) =
      Ret (map_sum id fst (process_results (tw_max_background_tasks p) (map Inr (map result ?keys)) []))"
    by (simp add: build_output_with_time_range_def candidate_windows_eq [OF assms(1)] task process_chunks_concat
        concat_chunks o_def)
  also have "\<dots> = Ret (Inr (let outputs = concat (map (window_outputs max_input_files p ws) ?keys)
                  in case tw_max_background_tasks p of None \<Rightarrow> outputs | Some n \<Rightarrow> take (max n 1) outputs))"
    by (cases "tw_max_background_tasks p")
      (simp_all add: process_results_unlimited process_results_limited outputs Let_def del: map_map)
  finally show ?thesis using candidate_windows_eq [OF assms(1)] sorted subset by blast
qed

theorem twcs_outputs_in_order_witness:
  "\<exists>ws keys. assign_to_windows [fh_new file_meta_default] 10 = Ret ws
     \<and> candidate_windows \<lparr>tw_trigger_file_num = 4, tw_time_window_seconds = None, tw_max_output_file_size = None,
          tw_append_mode = False, tw_max_background_tasks = Some 1, tw_time_range = None\<rparr> ws (Some 10) = Ret keys
     \<and> sorted_wrt (>) keys"
proof -
  let ?f = "fh_new file_meta_default"
  have wf: "\<forall>f \<in> set [?f]. ts_wf (snd (fh_time_range f))"
    by (simp add: file_meta_default_def ts_default_def ts_wf_def i64_defs)
  then obtain ws where ws: "assign_to_windows [?f] 10 = Ret ws" using assign_to_windows_ok [of 10 "[?f]"] by auto
  from twcs_outputs_in_order [OF _ wf _ ws, of "\<lparr>tw_trigger_file_num = 4, tw_time_window_seconds = None,
      tw_max_output_file_size = None, tw_append_mode = False, tw_max_background_tasks = Some 1, tw_time_range = None\<rparr>"]
  show ?thesis using ws by (auto simp: usize_max_def)
qed

subsection \<open>Time ranges\<close>

lemma ceil_bucket_mono:
  fixes x y b :: int
  assumes "0 < b" and "x \<le> y"
  shows "- ((- x) div b) * b \<le> - ((- y) div b) * b"
  using assms zdiv_mono1 [of "- y" "- x" b] by (intro mult_right_mono) auto

text \<open>
  C28. A compaction of a time range looks at every file that ends in the range: the window of such a
  file intersects the range, unless the end of the range is so late that its own window cannot be
  represented, in which case no window at all is found to intersect it.
\<close>

theorem time_range_reaches_file:
  assumes "0 < b" and "ts_wf (snd (fh_time_range f))"
    and "\<forall>t. gr_start r = Some t \<or> gr_end r = Some t \<longrightarrow> ts_wf t"
    and "gr_contains r (snd (fh_time_range f))"
    and "in_i64 (- ((- (instant_ns (snd (fh_time_range f)) div 1000000000)) div b) * b)"
  shows "time_window_intersects_range (window_key b f) b r = Ret (range_last_window b (gr_end r) \<noteq> Ret None)
    \<and> (range_last_window b (gr_end r) = Ret None \<longrightarrow> (\<forall>k. time_window_intersects_range k b r = Ret False))"
proof -
  define t where "t = instant_ns (snd (fh_time_range f)) div 1000000000"
  define c where "c x = - ((- x) div b) * b" for x
  have key: "window_key b f = c t" "in_i64 (c t)" using assms(5) by (simp_all add: window_key_def t_def c_def)
  have mono: "x \<le> y \<Longrightarrow> c x \<le> c y" for x y using ceil_bucket_mono [OF assms(1)] by (simp add: c_def)
  have first: "\<exists>l. range_first_window b (gr_start r) = Ret (Some l) \<and> l \<le> c t"
  proof (cases "gr_start r")
    case None
    then show ?thesis using key(2) by (simp add: range_first_window_def in_i64_def)
  next
    case (Some s)
    have s: "ts_wf s" using assms(3) Some by blast
    let ?s = "instant_ns s div 1000000000"
    have "instant_ns s \<le> instant_ns (snd (fh_time_range f))"
      using assms(4) Some by (auto simp: gr_contains_def ts_order split: option.splits)
    then have le: "?s \<le> t" by (simp add: t_def zdiv_mono1)
    have "in_i64 ?s" using convert_to_second [OF s] convert_to_SomeD(2) [OF s] by (force simp: ts_wf_def)
    then have "in_i64 (c ?s)"
      using mono [OF le] key(2) ceil_bucket_bounds(1) [OF assms(1), of ?s] by (simp add: c_def in_i64_def)
    then show ?thesis
      using mono [OF le] by (simp add: range_first_window_def Some convert_to_second [OF s]
          align_to_ceil_by_bucket_eq assms(1) c_def try_i64_def)
  qed
  have last: "range_last_window b (gr_end r) = Ret None \<or> (\<exists>u. range_last_window b (gr_end r) = Ret (Some u) \<and> c t \<le> u)"
  proof (cases "gr_end r")
    case None
    then show ?thesis using key(2) by (simp add: range_last_window_def in_i64_def)
  next
    case (Some e)
    have e: "ts_wf e" using assms(3) Some by blast
    let ?e = "- ((- instant_ns e) div 1000000000)"
    have "instant_ns (snd (fh_time_range f)) < instant_ns e"
      using assms(4) Some by (auto simp: gr_contains_def ts_order split: option.splits)
    then have le: "t \<le> ?e - 1"
      using ceil_bucket_bounds(1) [of 1000000000 "instant_ns e"] floor_bucket_bounds(1) [of 1000000000 "instant_ns (snd (fh_time_range f))"]
      by (simp add: t_def)
    show ?thesis
      using mono [OF le] by (auto simp: range_last_window_def Some convert_to_ceil_eq [OF e] checked_ops
          align_to_ceil_by_bucket_eq assms(1) c_def try_i64_def split: if_splits)
  qed
  show ?thesis using first last by (auto simp: time_window_intersects_range_def key)
qed

theorem time_range_reaches_file_witness:
  "let f = fh_new (file_meta_default\<lparr>fm_time_range := (new_second 5, new_second 15)\<rparr>)
   in time_window_intersects_range (window_key 10 f) 10 \<lparr>gr_start = Some (new_second 12), gr_end = Some (new_second 18)\<rparr>
        = Ret True
      \<and> time_window_intersects_range (window_key 10 f) 10 \<lparr>gr_start = Some (new_second 12), gr_end = Some (new_second i64_max)\<rparr>
        = Ret False"
proof -
  let ?f = "fh_new (file_meta_default\<lparr>fm_time_range := (new_second 5, new_second 15)\<rparr>)"
  have "range_last_window 10 (Some (new_second 18)) = Ret (Some 20)"
    and "range_last_window 10 (Some (new_second i64_max)) = Ret None"
    by (simp_all add: range_last_window_def convert_to_ceil_def checked_ops try_i64_def i64_defs
        align_to_ceil_by_bucket_eq)
  moreover have "time_window_intersects_range (window_key 10 ?f) 10 \<lparr>gr_start = Some (new_second 12), gr_end = Some (new_second e)\<rparr>
      = Ret (range_last_window 10 (Some (new_second e)) \<noteq> Ret None)" if "e = 18 \<or> e = i64_max" for e
    using time_range_reaches_file [of 10 ?f "\<lparr>gr_start = Some (new_second 12), gr_end = Some (new_second e)\<rparr>"] that
    by (fastforce simp: ts_wf_def i64_defs gr_contains_def ts_order instant_ns_def)
  ultimately show ?thesis by (simp add: Let_def)
qed

end
