(* ===== verification/Read_Merge.thy ===== *)
theory Read_Merge
  imports Region_Write
begin

text \<open>
  Merging the sorted sources of a region, from \<open>src/src/mito2/src/read/flat_merge.rs\<close>. A record batch is
  the list of its rows; a source is a list of batches or errors. The Arrow kernel that gathers rows
  of several batches is a parameter. A binary heap is the list of its nodes from the first to the
  last, where a new node goes behind the nodes equal to it. The loops take fuel; the number of rows
  of the sources is enough of it.
\<close>

section \<open>Definitions\<close>

subsection \<open>Rows\<close>

record 'v flat_row =
  fr_primary_key :: bytes
  fr_timestamp :: int
  fr_sequence :: nat
  fr_op_type :: op_type
  fr_fields :: "'v option list"

type_synonym 'v batch = "'v flat_row list"

text \<open>The order of cursors: by primary key, time index and descending sequence.\<close>

definition row_le :: "'v flat_row \<Rightarrow> 'v flat_row \<Rightarrow> bool" where
  "row_le a b \<longleftrightarrow>
     fr_primary_key a < fr_primary_key b
     \<or> fr_primary_key a = fr_primary_key b
       \<and> (fr_timestamp a < fr_timestamp b \<or> fr_timestamp a = fr_timestamp b \<and> fr_sequence b \<le> fr_sequence a)"

definition key_after :: "'v flat_row \<Rightarrow> 'v flat_row \<Rightarrow> bool" where
  "key_after a b \<longleftrightarrow>
     fr_primary_key b < fr_primary_key a \<or> fr_primary_key a = fr_primary_key b \<and> fr_timestamp b < fr_timestamp a"

subsection \<open>Building batches\<close>

text \<open>Each cursor is the index of a batch and of a row in it.\<close>

record 'v batch_builder =
  bb_batches :: "(nat \<times> 'v batch) list"
  bb_cursors :: "(nat \<times> nat) list"
  bb_indices :: "(nat \<times> nat) list"

definition builder_new :: "nat \<Rightarrow> 'v batch_builder" where
  "builder_new stream_count = \<lparr>bb_batches = [], bb_cursors = replicate stream_count (0, 0), bb_indices = []\<rparr>"

definition builder_push_batch :: "nat \<Rightarrow> 'v batch \<Rightarrow> 'v batch_builder \<Rightarrow> 'v batch_builder" where
  "builder_push_batch stream batch b =
     b\<lparr>bb_batches := bb_batches b @ [(stream, batch)],
       bb_cursors := (bb_cursors b)[stream := (length (bb_batches b), 0)]\<rparr>"

definition builder_push_row :: "nat \<Rightarrow> 'v batch_builder \<Rightarrow> 'v batch_builder" where
  "builder_push_row stream b =
     (let (batch_idx, row_idx) = bb_cursors b ! stream
      in b\<lparr>bb_cursors := (bb_cursors b)[stream := (batch_idx, row_idx + 1)],
           bb_indices := bb_indices b @ [(batch_idx, row_idx)]\<rparr>)"

text \<open>The batches that cursors still point to, with the cursors renumbered.\<close>

fun retain_loop ::
  "nat \<Rightarrow> nat \<Rightarrow> (nat \<times> 'v batch) list \<Rightarrow> (nat \<times> nat) list \<Rightarrow> (nat \<times> 'v batch) list \<times> (nat \<times> nat) list" where
  "retain_loop batch_idx retained [] cursors = ([], cursors)"
| "retain_loop batch_idx retained ((stream, batch) # batches) cursors =
     (if fst (cursors ! stream) = batch_idx
      then (let (kept, cursors') =
                  retain_loop (batch_idx + 1) (retained + 1) batches (cursors[stream := (retained, snd (cursors ! stream))])
            in ((stream, batch) # kept, cursors'))
      else retain_loop (batch_idx + 1) retained batches cursors)"

definition retain_batches :: "'v batch_builder \<Rightarrow> 'v batch_builder" where
  "retain_batches b =
     (let (batches, cursors) = retain_loop 0 0 (bb_batches b) (bb_cursors b)
      in b\<lparr>bb_batches := batches, bb_cursors := cursors\<rparr>)"

text \<open>
  The kernel gathers the rows that the indices select from the batches. In the reader it is
  \<open>checked_interleave\<close> below, the kernel behind the check of its offsets.
\<close>

type_synonym ('e, 'v) interleave = "'v batch list \<Rightarrow> (nat \<times> nat) list \<Rightarrow> 'e + 'v batch"

definition build_record_batch ::
  "('e, 'v) interleave \<Rightarrow> 'v batch_builder \<Rightarrow> 'e + ('v batch option \<times> 'v batch_builder)" where
  "build_record_batch il b =
     (if bb_indices b = [] then Inr (None, b)
      else (case il (map snd (bb_batches b)) (bb_indices b) of
              Inl err \<Rightarrow> Inl err
            | Inr rows \<Rightarrow> Inr (Some rows, retain_batches (b\<lparr>bb_indices := []\<rparr>))))"

definition take_remaining_rows ::
  "nat \<Rightarrow> 'v batch option \<Rightarrow> 'v batch_builder \<Rightarrow> 'v batch \<times> 'v batch_builder" where
  "take_remaining_rows stream next_batch b =
     (let (batch_idx, row_idx) = bb_cursors b ! stream;
          batch = snd (bb_batches b ! batch_idx);
          b1 = b\<lparr>bb_cursors := (bb_cursors b)[stream := (batch_idx, length batch)]\<rparr>
      in (drop row_idx batch,
          case next_batch of
            Some n \<Rightarrow> retain_batches (builder_push_batch stream n b1)
          | None \<Rightarrow> b1))"

subsection \<open>Nodes\<close>

text \<open>The cursor of a node is the offset in its current batch, and the batch.\<close>

record ('e, 'v) merge_node =
  mn_index :: nat
  mn_iter :: "('e + 'v batch) list"
  mn_cursor :: "(nat \<times> 'v batch) option"

definition first_row :: "('e, 'v) merge_node \<Rightarrow> 'v flat_row" where
  "first_row n = (case the (mn_cursor n) of (offset, batch) \<Rightarrow> batch ! offset)"

definition last_row :: "('e, 'v) merge_node \<Rightarrow> 'v flat_row" where
  "last_row n = last (snd (the (mn_cursor n)))"

definition is_behind :: "('e, 'v) merge_node \<Rightarrow> ('e, 'v) merge_node \<Rightarrow> bool" where
  "is_behind a b = key_after (first_row a) (last_row b)"

fun advance_inner_iter :: "('e + 'v batch) list \<Rightarrow> 'e + ('v batch option \<times> ('e + 'v batch) list)" where
  "advance_inner_iter [] = Inr (None, [])"
| "advance_inner_iter (Inl err # iter) = Inl err"
| "advance_inner_iter (Inr batch # iter) = (if batch \<noteq> [] then Inr (Some batch, iter) else advance_inner_iter iter)"

definition advance_batch :: "('e, 'v) merge_node \<Rightarrow> 'e + ('v batch option \<times> ('e, 'v) merge_node)" where
  "advance_batch n =
     (case advance_inner_iter (mn_iter n) of
        Inl err \<Rightarrow> Inl err
      | Inr (batch, iter) \<Rightarrow> Inr (batch, n\<lparr>mn_iter := iter, mn_cursor := map_option (Pair 0) batch\<rparr>))"

definition advance_row :: "('e, 'v) merge_node \<Rightarrow> 'e + ('v batch option \<times> ('e, 'v) merge_node)" where
  "advance_row n =
     (case the (mn_cursor n) of (offset, batch) \<Rightarrow>
        if offset + 1 < length batch then Inr (None, n\<lparr>mn_cursor := Some (offset + 1, batch)\<rparr>)
        else advance_batch (n\<lparr>mn_cursor := Some (offset + 1, batch)\<rparr>))"

subsection \<open>Heaps\<close>

fun heap_insert :: "('e, 'v) merge_node \<Rightarrow> ('e, 'v) merge_node list \<Rightarrow> ('e, 'v) merge_node list" where
  "heap_insert n [] = [n]"
| "heap_insert n (m # heap) = (if row_le (first_row m) (first_row n) then m # heap_insert n heap else n # m # heap)"

fun refill_hot ::
  "('e, 'v) merge_node list \<Rightarrow> ('e, 'v) merge_node list \<Rightarrow> ('e, 'v) merge_node list \<times> ('e, 'v) merge_node list" where
  "refill_hot hot [] = (hot, [])"
| "refill_hot hot (warmest # cold) =
     (if hot \<noteq> [] \<and> is_behind warmest (hd hot) then (hot, warmest # cold)
      else refill_hot (heap_insert warmest hot) cold)"

definition reheap ::
  "('e, 'v) merge_node \<Rightarrow> ('e, 'v) merge_node list \<Rightarrow> ('e, 'v) merge_node list
     \<Rightarrow> ('e, 'v) merge_node list \<times> ('e, 'v) merge_node list" where
  "reheap n hot cold =
     (if mn_cursor n = None then refill_hot hot cold
      else if hot = [] \<or> is_behind n (hd hot) then refill_hot hot (heap_insert n cold)
      else refill_hot (heap_insert n hot) cold)"

definition merge_algo_new ::
  "('e, 'v) merge_node list \<Rightarrow> ('e, 'v) merge_node list \<times> ('e, 'v) merge_node list" where
  "merge_algo_new nodes = refill_hot [] (foldr heap_insert (filter (\<lambda>n. mn_cursor n \<noteq> None) nodes) [])"

subsection \<open>The merge iterator\<close>

record ('e, 'v) merge_state =
  mg_hot :: "('e, 'v) merge_node list"
  mg_cold :: "('e, 'v) merge_node list"
  mg_in_progress :: "'v batch_builder"
  mg_output :: "'v batch option"
  mg_batch_size :: nat

fun init_nodes ::
  "nat \<Rightarrow> ('e + 'v batch) list list \<Rightarrow> 'v batch_builder \<Rightarrow> 'e + (('e, 'v) merge_node list \<times> 'v batch_builder)" where
  "init_nodes i [] b = Inr ([], b)"
| "init_nodes i (iter # iters) b =
     (case advance_batch \<lparr>mn_index = i, mn_iter = iter, mn_cursor = None\<rparr> of
        Inl err \<Rightarrow> Inl err
      | Inr (None, _) \<Rightarrow> init_nodes (i + 1) iters b
      | Inr (Some batch, n) \<Rightarrow>
          (case init_nodes (i + 1) iters (builder_push_batch i batch b) of
             Inl err \<Rightarrow> Inl err
           | Inr (nodes, b') \<Rightarrow> Inr (n # nodes, b')))"

definition merge_new :: "nat \<Rightarrow> ('e + 'v batch) list list \<Rightarrow> 'e + ('e, 'v) merge_state" where
  "merge_new batch_size iters =
     (case init_nodes 0 iters (builder_new (length iters)) of
        Inl err \<Rightarrow> Inl err
      | Inr (nodes, b) \<Rightarrow>
          (let (hot, cold) = merge_algo_new nodes
           in Inr \<lparr>mg_hot = hot, mg_cold = cold, mg_in_progress = b, mg_output = None, mg_batch_size = batch_size\<rparr>))"

definition maybe_output_batch :: "'v batch \<Rightarrow> 'v batch option \<Rightarrow> 'v batch option" where
  "maybe_output_batch batch output = (if batch \<noteq> [] then Some batch else output)"

definition fetch_batch_from_hottest :: "('e, 'v) merge_state \<Rightarrow> 'e + ('e, 'v) merge_state" where
  "fetch_batch_from_hottest st =
     (case advance_batch (hd (mg_hot st)) of
        Inl err \<Rightarrow> Inl err
      | Inr (next_batch, n) \<Rightarrow>
          (let (batch, b) = take_remaining_rows (mn_index n) next_batch (mg_in_progress st);
               (hot, cold) = reheap n (tl (mg_hot st)) (mg_cold st)
           in Inr (st\<lparr>mg_hot := hot, mg_cold := cold, mg_in_progress := b,
                      mg_output := maybe_output_batch batch (mg_output st)\<rparr>)))"

definition fetch_row_from_hottest :: "('e, 'v) interleave \<Rightarrow> ('e, 'v) merge_state \<Rightarrow> 'e + ('e, 'v) merge_state" where
  "fetch_row_from_hottest il st =
     (let hottest = hd (mg_hot st);
          b = builder_push_row (mn_index hottest) (mg_in_progress st)
      in case (if length (bb_indices b) \<ge> mg_batch_size st then build_record_batch il b else Inr (None, b)) of
           Inl err \<Rightarrow> Inl err
         | Inr (output, b1) \<Rightarrow>
             (let output' = (case output of Some rows \<Rightarrow> maybe_output_batch rows (mg_output st) | None \<Rightarrow> mg_output st)
              in case advance_row hottest of
                   Inl err \<Rightarrow> Inl err
                 | Inr (next_batch, n) \<Rightarrow>
                     (let b2 = (case next_batch of Some rows \<Rightarrow> builder_push_batch (mn_index n) rows b1 | None \<Rightarrow> b1);
                          (hot, cold) = reheap n (tl (mg_hot st)) (mg_cold st)
                      in Inr (st\<lparr>mg_hot := hot, mg_cold := cold, mg_in_progress := b2, mg_output := output'\<rparr>))))"

text \<open>One iteration of the loop of \<open>next_batch\<close>.\<close>

definition merge_step :: "('e, 'v) interleave \<Rightarrow> ('e, 'v) merge_state \<Rightarrow> 'e + ('e, 'v) merge_state" where
  "merge_step il st =
     (if length (mg_hot st) = 1 \<and> bb_indices (mg_in_progress st) \<noteq> []
      then (case build_record_batch il (mg_in_progress st) of
              Inl err \<Rightarrow> Inl err
            | Inr (output, b) \<Rightarrow> Inr (st\<lparr>mg_output := output, mg_in_progress := b\<rparr>))
      else if length (mg_hot st) = 1 then fetch_batch_from_hottest st
      else fetch_row_from_hottest il st)"

fun merge_next_batch ::
  "('e, 'v) interleave \<Rightarrow> nat \<Rightarrow> ('e, 'v) merge_state \<Rightarrow> ('e + ('v batch option \<times> ('e, 'v) merge_state)) option" where
  "merge_next_batch il 0 st = None"
| "merge_next_batch il (Suc fuel) st =
     (if mg_hot st \<noteq> [] \<and> mg_output st = None
      then (case merge_step il st of
              Inl err \<Rightarrow> Some (Inl err)
            | Inr st' \<Rightarrow> merge_next_batch il fuel st')
      else Some (Inr (mg_output st, st\<lparr>mg_output := None\<rparr>)))"

text \<open>The stream of the reader: batches until there is none, or an error.\<close>

fun merge_batches ::
  "('e, 'v) interleave \<Rightarrow> nat \<Rightarrow> nat \<Rightarrow> ('e, 'v) merge_state \<Rightarrow> ('e + 'v batch list) option" where
  "merge_batches il inner 0 st = None"
| "merge_batches il inner (Suc fuel) st =
     (case merge_next_batch il inner st of
        None \<Rightarrow> None
      | Some (Inl err) \<Rightarrow> Some (Inl err)
      | Some (Inr (None, _)) \<Rightarrow> Some (Inr [])
      | Some (Inr (Some batch, st')) \<Rightarrow>
          map_option (\<lambda>r. case r of Inl err \<Rightarrow> Inl err | Inr batches \<Rightarrow> Inr (batch # batches)) (merge_batches il inner fuel st'))"

text \<open>
  Before the kernel runs, the offsets of the columns of strings and binaries are checked. Of such a
  column the model has the length of the value data of an array and the length of the value in a
  row; the width of its offsets is 32 bits.
\<close>

record 'v byte_column =
  bc_value_data :: "'v batch \<Rightarrow> nat"
  bc_value_len :: "'v flat_row \<Rightarrow> nat"

definition offset_max :: nat where
  "offset_max = 2 ^ 31 - 1"

fun check_offsets :: "('v flat_row \<Rightarrow> nat) \<Rightarrow> 'v batch list \<Rightarrow> nat \<Rightarrow> (nat \<times> nat) list \<Rightarrow> nat option" where
  "check_offsets element_len batches capacity [] = None"
| "check_offsets element_len batches capacity ((a, b) # indices) =
     (let capacity' = capacity + element_len (batches ! a ! b)
      in if capacity' \<le> offset_max then check_offsets element_len batches capacity' indices else Some capacity')"

definition check_interleave_bytes_overflow ::
  "'v byte_column \<Rightarrow> 'v batch list \<Rightarrow> (nat \<times> nat) list \<Rightarrow> nat option" where
  "check_interleave_bytes_overflow col batches indices =
     (if sum_list (map (bc_value_data col) batches) \<le> offset_max then None
      else check_offsets (bc_value_len col) batches 0 indices)"

fun check_interleave_overflow :: "'v byte_column list \<Rightarrow> 'v batch list \<Rightarrow> (nat \<times> nat) list \<Rightarrow> nat option" where
  "check_interleave_overflow [] batches indices = None"
| "check_interleave_overflow (col # cols) batches indices =
     (case check_interleave_bytes_overflow col batches indices of
        Some capacity \<Rightarrow> Some capacity
      | None \<Rightarrow> check_interleave_overflow cols batches indices)"

definition checked_interleave ::
  "(nat \<Rightarrow> 'e) \<Rightarrow> 'v byte_column list \<Rightarrow> ('e, 'v) interleave \<Rightarrow> ('e, 'v) interleave" where
  "checked_interleave overflow cols il batches indices =
     (case check_interleave_overflow cols batches indices of
        Some capacity \<Rightarrow> Inl (overflow capacity)
      | None \<Rightarrow> il batches indices)"

definition flat_merge ::
  "(nat \<Rightarrow> 'e) \<Rightarrow> 'v byte_column list \<Rightarrow> ('e, 'v) interleave \<Rightarrow> nat \<Rightarrow> nat \<Rightarrow> ('e + 'v batch) list list
     \<Rightarrow> ('e + 'v batch list) option" where
  "flat_merge overflow cols il fuel batch_size iters =
     (case merge_new batch_size iters of
        Inl err \<Rightarrow> Some (Inl err)
      | Inr st \<Rightarrow> merge_batches (checked_interleave overflow cols il) fuel fuel st)"

section \<open>The order of rows\<close>

lemma row_le_refl [simp]: "row_le a a"
  by (simp add: row_le_def)

lemma row_le_trans: "row_le a b \<Longrightarrow> row_le b c \<Longrightarrow> row_le a c"
  by (auto simp: row_le_def)

lemma row_le_total: "row_le a b \<or> row_le b a"
  by (auto simp: row_le_def)

lemma key_after_le: "key_after b a \<Longrightarrow> row_le a b"
  by (auto simp: row_le_def key_after_def)

lemma row_le_key_after: "row_le a b \<Longrightarrow> key_after c b \<Longrightarrow> key_after c a"
  by (auto simp: row_le_def key_after_def)

abbreviation sorted_rows :: "'v flat_row list \<Rightarrow> bool" where
  "sorted_rows \<equiv> sorted_wrt row_le"

abbreviation sorted_nodes :: "('e, 'v) merge_node list \<Rightarrow> bool" where
  "sorted_nodes \<equiv> sorted_wrt (\<lambda>a b. row_le (first_row a) (first_row b))"

section \<open>The batch builder\<close>

text \<open>The cursor of a stream is at a row of a batch.\<close>

definition cursor_at :: "'v batch_builder \<Rightarrow> nat \<Rightarrow> nat \<Rightarrow> 'v batch \<Rightarrow> bool" where
  "cursor_at b i row batch \<longleftrightarrow>
     i < length (bb_cursors b)
     \<and> (\<exists>bi. bb_cursors b ! i = (bi, row) \<and> bi < length (bb_batches b) \<and> bb_batches b ! bi = (i, batch))"

definition streams_ok :: "'v batch_builder \<Rightarrow> bool" where
  "streams_ok b \<longleftrightarrow> (\<forall>(stream, _) \<in> set (bb_batches b). stream < length (bb_cursors b))"

definition indices_ok :: "'v batch_builder \<Rightarrow> bool" where
  "indices_ok b \<longleftrightarrow> (\<forall>(a, r) \<in> set (bb_indices b). a < length (bb_batches b) \<and> r < length (snd (bb_batches b ! a)))"

definition pending :: "'v batch_builder \<Rightarrow> 'v flat_row list" where
  "pending b = map (\<lambda>(a, r). snd (bb_batches b ! a) ! r) (bb_indices b)"

definition builder_ok :: "'v batch_builder \<Rightarrow> bool" where
  "builder_ok b \<longleftrightarrow> streams_ok b \<and> indices_ok b"

definition interleave_ok :: "('e, 'v) interleave \<Rightarrow> bool" where
  "interleave_ok il \<longleftrightarrow>
     (\<forall>bs is. (\<forall>(a, r) \<in> set is. a < length bs \<and> r < length (bs ! a)) \<longrightarrow> il bs is = Inr (map (\<lambda>(a, r). bs ! a ! r) is))"

lemma push_batch_ok:
  assumes "builder_ok b" and "i < length (bb_cursors b)"
  shows "builder_ok (builder_push_batch i batch b)" and "pending (builder_push_batch i batch b) = pending b"
    and "cursor_at (builder_push_batch i batch b) i 0 batch"
    and "j \<noteq> i \<Longrightarrow> cursor_at b j row batch' \<Longrightarrow> cursor_at (builder_push_batch i batch b) j row batch'"
    and "length (bb_cursors (builder_push_batch i batch b)) = length (bb_cursors b)"
  using assms
  by (auto simp: builder_ok_def streams_ok_def indices_ok_def pending_def builder_push_batch_def cursor_at_def nth_append split: prod.splits)

lemma push_row_ok:
  assumes "builder_ok b" and "cursor_at b i row batch" and "row < length batch"
  shows "builder_ok (builder_push_row i b)" and "pending (builder_push_row i b) = pending b @ [batch ! row]"
    and "cursor_at (builder_push_row i b) i (row + 1) batch"
    and "j \<noteq> i \<Longrightarrow> cursor_at b j row' batch' \<Longrightarrow> cursor_at (builder_push_row i b) j row' batch'"
    and "length (bb_cursors (builder_push_row i b)) = length (bb_cursors b)"
    and "bb_indices (builder_push_row i b) \<noteq> []"
  using assms
  by (auto simp: builder_ok_def streams_ok_def indices_ok_def pending_def builder_push_row_def cursor_at_def split: prod.splits)

text \<open>Renumbering keeps every cursor at its row.\<close>

lemma retain_loop_sizes:
  "retain_loop k r bs cs = (bs', cs') \<Longrightarrow> length cs' = length cs \<and> set bs' \<subseteq> set bs"
proof (induction k r bs cs arbitrary: bs' cs' rule: retain_loop.induct)
  case (2 k r s bt bs cs)
  then show ?case by (cases "fst (cs ! s) = k") (auto split: prod.splits)
qed simp

lemma retain_loop_done:
  "retain_loop k r bs cs = (bs', cs') \<Longrightarrow> r \<le> k \<Longrightarrow> fst (cs ! i) < k \<Longrightarrow> cs' ! i = cs ! i"
proof (induction k r bs cs arbitrary: bs' cs' rule: retain_loop.induct)
  case (2 k r s bt bs cs)
  show ?case
  proof (cases "fst (cs ! s) = k")
    case True
    let ?cs = "cs[s := (r, snd (cs ! s))]"
    obtain kept where kept: "retain_loop (k + 1) (r + 1) bs ?cs = (kept, cs')"
      using "2.prems"(1) True by (auto split: prod.splits)
    have "?cs ! i = cs ! i" using "2.prems"(3) True by (metis nat_neq_iff nth_list_update_neq)
    with "2.IH"(1) [OF True kept] "2.prems"(2,3) show ?thesis by simp
  next
    case False
    with "2.IH"(2) [OF False] "2.prems" show ?thesis by simp
  qed
qed simp

lemma retain_loop_at:
  "retain_loop k r bs cs = (bs', cs') \<Longrightarrow> r \<le> k \<Longrightarrow> i < length cs \<Longrightarrow> cs ! i = (k + d, row) \<Longrightarrow> d < length bs \<Longrightarrow> bs ! d = (i, batch) \<Longrightarrow>
   \<exists>d'. cs' ! i = (r + d', row) \<and> d' < length bs' \<and> bs' ! d' = (i, batch)"
proof (induction k r bs cs arbitrary: bs' cs' d rule: retain_loop.induct)
  case (2 k r s bt bs cs)
  show ?case
  proof (cases "fst (cs ! s) = k")
    case True
    let ?cs = "cs[s := (r, snd (cs ! s))]"
    obtain kept where kept: "retain_loop (k + 1) (r + 1) bs ?cs = (kept, cs')" "bs' = (s, bt) # kept"
      using "2.prems"(1) True by (auto split: prod.splits)
    show ?thesis
    proof (cases d)
      case 0
      with "2.prems"(6) have e: "s = i" "bt = batch" by auto
      have "?cs ! i = (r, row)" using e 0 "2.prems"(3,4) by simp
      with retain_loop_done [OF kept(1), of i] "2.prems"(2) have "cs' ! i = (r, row)" by simp
      with kept(2) e show ?thesis by (intro exI [of _ 0]) simp
    next
      case (Suc e)
      have "fst (cs ! i) = Suc (k + e)" using Suc "2.prems"(4) by simp
      then have "s \<noteq> i" using True by auto
      then have "?cs ! i = (k + 1 + e, row)" using "2.prems"(4) Suc by simp
      then obtain d' where "cs' ! i = (r + 1 + d', row)" "d' < length kept" "kept ! d' = (i, batch)"
        using "2.IH"(1) [OF True kept(1), of e] "2.prems"(2,3,5,6) Suc by auto
      with kept(2) show ?thesis by (intro exI [of _ "Suc d'"]) simp
    qed
  next
    case False
    with "2.prems"(4,6) obtain e where e: "d = Suc e" by (cases d) auto
    with "2.IH"(2) [OF False, of bs' cs' e] "2.prems" False show ?thesis by auto
  qed
qed simp

lemma retain_batches_ok:
  assumes "builder_ok b" and "bb_indices b = []"
  shows "builder_ok (retain_batches b)" and "bb_indices (retain_batches b) = []"
    and "cursor_at b i row batch \<Longrightarrow> cursor_at (retain_batches b) i row batch"
    and "length (bb_cursors (retain_batches b)) = length (bb_cursors b)"
proof -
  obtain bs cs where l: "retain_loop 0 0 (bb_batches b) (bb_cursors b) = (bs, cs)" by fastforce
  have s: "\<forall>(s, _) \<in> set (bb_batches b). s < length (bb_cursors b)" using assms(1) by (simp add: builder_ok_def streams_ok_def)
  note r = retain_loop_sizes [OF l]
  show "builder_ok (retain_batches b)" using assms r s
    by (auto simp: builder_ok_def streams_ok_def indices_ok_def retain_batches_def l)
  show "bb_indices (retain_batches b) = []" using assms(2) by (simp add: retain_batches_def l)
  show "length (bb_cursors (retain_batches b)) = length (bb_cursors b)" by (simp add: retain_batches_def l r)
  show "cursor_at b i row batch \<Longrightarrow> cursor_at (retain_batches b) i row batch"
    using r retain_loop_at [OF l, of i _ row batch] by (auto simp: cursor_at_def retain_batches_def l)
qed

section \<open>Nodes and heaps\<close>

definition iter_rows :: "('e + 'v batch) list \<Rightarrow> 'v flat_row list" where
  "iter_rows iter = concat (map projr iter)"

definition ok_iter :: "('e + 'v batch) list \<Rightarrow> bool" where
  "ok_iter iter \<longleftrightarrow> (\<forall>x \<in> set iter. \<not> isl x)"

definition node_rows :: "('e, 'v) merge_node \<Rightarrow> 'v flat_row list" where
  "node_rows n = (case mn_cursor n of Some (offset, batch) \<Rightarrow> drop offset batch | None \<Rightarrow> []) @ iter_rows (mn_iter n)"

definition node_ok :: "'v batch_builder \<Rightarrow> ('e, 'v) merge_node \<Rightarrow> bool" where
  "node_ok b n \<longleftrightarrow>
     ok_iter (mn_iter n) \<and> sorted_rows (node_rows n)
     \<and> (\<exists>offset batch. mn_cursor n = Some (offset, batch) \<and> offset < length batch \<and> cursor_at b (mn_index n) offset batch)"

lemma advance_inner_iter_ok:
  assumes "ok_iter iter"
  shows "\<exists>batch iter'. advance_inner_iter iter = Inr (batch, iter') \<and> ok_iter iter' \<and> batch \<noteq> Some []
    \<and> iter_rows iter = (case batch of Some rows \<Rightarrow> rows | None \<Rightarrow> []) @ iter_rows iter'
    \<and> (batch = None \<longrightarrow> iter' = [])"
  using assms
proof (induction iter rule: advance_inner_iter.induct)
  case (3 batch iter)
  then show ?case by (cases "batch = []") (auto simp: ok_iter_def iter_rows_def)
qed (auto simp: ok_iter_def iter_rows_def)

lemma node_first_row:
  assumes "node_ok b n"
  shows "first_row n \<in> set (node_rows n)" and "x \<in> set (node_rows n) \<Longrightarrow> row_le (first_row n) x" and "node_rows n \<noteq> []"
proof -
  obtain offset batch where n: "mn_cursor n = Some (offset, batch)" "offset < length batch" "sorted_rows (node_rows n)"
    using assms by (auto simp: node_ok_def)
  have e: "node_rows n = first_row n # drop (Suc offset) batch @ iter_rows (mn_iter n)"
    using n(1,2) by (simp add: node_rows_def first_row_def Cons_nth_drop_Suc)
  show "first_row n \<in> set (node_rows n)" "node_rows n \<noteq> []" by (simp_all add: e)
  show "x \<in> set (node_rows n) \<Longrightarrow> row_le (first_row n) x" using n(3) by (auto simp: e)
qed

lemma sorted_rows_last: "sorted_rows xs \<Longrightarrow> x \<in> set xs \<Longrightarrow> row_le x (last xs)"
  by (induction xs) auto

lemma node_last_row:
  assumes "node_ok b n" and "mn_cursor n = Some (offset, batch)"
  shows "last_row n \<in> set (drop offset batch)" and "x \<in> set (drop offset batch) \<Longrightarrow> row_le x (last_row n)"
proof -
  have o: "offset < length batch" and s: "sorted_rows (drop offset batch)"
    using assms by (auto simp: node_ok_def node_rows_def sorted_wrt_append)
  have l: "last_row n = last (drop offset batch)" using o assms(2) by (simp add: last_row_def)
  show "last_row n \<in> set (drop offset batch)" using o unfolding l by (intro last_in_set) simp
  show "x \<in> set (drop offset batch) \<Longrightarrow> row_le x (last_row n)" unfolding l by (rule sorted_rows_last [OF s])
qed

lemma heap_insert_mset [simp]: "mset (heap_insert n heap) = add_mset n (mset heap)"
  by (induction heap) auto

lemma heap_insert_set [simp]: "set (heap_insert n heap) = insert n (set heap)"
  by (metis heap_insert_mset set_mset_add_mset_insert set_mset_mset)

lemma heap_insert_sorted: "sorted_nodes heap \<Longrightarrow> sorted_nodes (heap_insert n heap)"
proof (induction heap)
  case (Cons m heap)
  show ?case
  proof (cases "row_le (first_row m) (first_row n)")
    case False
    then have "row_le (first_row n) (first_row m)" using row_le_total by blast
    with Cons.prems False show ?thesis by (auto intro: row_le_trans)
  qed (use Cons in auto)
qed simp

text \<open>The nodes outside the merge window are behind it.\<close>

definition hot_cold_ok :: "('e, 'v) merge_node list \<Rightarrow> ('e, 'v) merge_node list \<Rightarrow> bool" where
  "hot_cold_ok hot cold \<longleftrightarrow> sorted_nodes hot \<and> sorted_nodes cold \<and> (cold \<noteq> [] \<longrightarrow> hot \<noteq> [] \<and> is_behind (hd cold) (hd hot))"

lemma refill_hot_ok:
  assumes "sorted_nodes hot" and "sorted_nodes cold" and "refill_hot hot cold = (hot', cold')"
  shows "hot_cold_ok hot' cold' \<and> mset hot' + mset cold' = mset hot + mset cold \<and> (hot \<noteq> [] \<longrightarrow> hot' \<noteq> [])"
  using assms
proof (induction hot cold rule: refill_hot.induct)
  case (2 hot w cold)
  show ?case
  proof (cases "hot \<noteq> [] \<and> is_behind w (hd hot)")
    case True
    with 2 show ?thesis by (auto simp: hot_cold_ok_def)
  next
    case False
    have "heap_insert w hot \<noteq> []" by (cases hot) auto
    with False 2 show ?thesis by (auto simp: heap_insert_sorted)
  qed
qed (auto simp: hot_cold_ok_def)

lemma reheap_ok:
  assumes "sorted_nodes hot" and "sorted_nodes cold" and "reheap n hot cold = (hot', cold')"
  shows "hot_cold_ok hot' cold' \<and> mset hot' + mset cold' = mset hot + mset cold + (if mn_cursor n = None then {#} else {#n#})
    \<and> (hot \<noteq> [] \<longrightarrow> hot' \<noteq> [])"
proof -
  have "heap_insert n hot \<noteq> []" by (cases hot) auto
  with assms show ?thesis
    using refill_hot_ok [OF assms(1,2)] refill_hot_ok [OF assms(1) heap_insert_sorted [OF assms(2)], of n]
      refill_hot_ok [OF heap_insert_sorted [OF assms(1)] assms(2), of n]
    by (auto simp: reheap_def split: if_splits)
qed

section \<open>Steps of the iterator\<close>

definition remaining :: "('e, 'v) merge_state \<Rightarrow> 'v flat_row list" where
  "remaining st = concat (map node_rows (mg_hot st @ mg_cold st))"

definition merge_ok :: "('e, 'v) merge_state \<Rightarrow> bool" where
  "merge_ok st \<longleftrightarrow>
     builder_ok (mg_in_progress st) \<and> hot_cold_ok (mg_hot st) (mg_cold st)
     \<and> distinct (map mn_index (mg_hot st @ mg_cold st))
     \<and> (\<forall>n \<in> set (mg_hot st @ mg_cold st). node_ok (mg_in_progress st) n)
     \<and> (mg_hot st = [] \<longrightarrow> bb_indices (mg_in_progress st) = [])"

definition output_rows :: "('e, 'v) merge_state \<Rightarrow> 'v flat_row list" where
  "output_rows st = (case mg_output st of Some rows \<Rightarrow> rows | None \<Rightarrow> [])"

lemma mset_node_rows: "mset (concat (map node_rows ns)) = (\<Sum>n \<in># mset ns. mset (node_rows n))"
  by (induction ns) auto

lemma mset_remaining: "mset (remaining st) = (\<Sum>n \<in># mset (mg_hot st) + mset (mg_cold st). mset (node_rows n))"
  using mset_node_rows [of "mg_hot st @ mg_cold st"] by (simp add: remaining_def)

lemma node_ok_builder:
  "node_ok b n \<Longrightarrow> (\<And>row batch. cursor_at b (mn_index n) row batch \<Longrightarrow> cursor_at b' (mn_index n) row batch) \<Longrightarrow> node_ok b' n"
  by (auto simp: node_ok_def)

lemma build_ok:
  assumes "interleave_ok il" and "builder_ok b" and "bb_indices b \<noteq> []"
  obtains b' where "build_record_batch il b = Inr (Some (pending b), b')" and "builder_ok b'" and "bb_indices b' = []"
    and "\<forall>i row batch. cursor_at b i row batch \<longrightarrow> cursor_at b' i row batch"
    and "length (bb_cursors b') = length (bb_cursors b)"
proof -
  let ?b = "b\<lparr>bb_indices := []\<rparr>"
  have "\<forall>(a, r) \<in> set (bb_indices b). a < length (map snd (bb_batches b)) \<and> r < length (map snd (bb_batches b) ! a)"
    using assms(2) by (auto simp: builder_ok_def indices_ok_def)
  then have "il (map snd (bb_batches b)) (bb_indices b) = Inr (map (\<lambda>(a, r). map snd (bb_batches b) ! a ! r) (bb_indices b))"
    using assms(1) by (auto simp: interleave_ok_def)
  moreover have "map (\<lambda>(a, r). map snd (bb_batches b) ! a ! r) (bb_indices b) = pending b"
    using assms(2) by (auto simp: pending_def builder_ok_def indices_ok_def)
  ultimately have e: "build_record_batch il b = Inr (Some (pending b), retain_batches ?b)"
    using assms(3) by (simp add: build_record_batch_def)
  have ok: "builder_ok ?b" "bb_indices ?b = []" using assms(2) by (simp_all add: builder_ok_def streams_ok_def indices_ok_def)
  have c: "cursor_at ?b i row batch" if "cursor_at b i row batch" for i row batch using that by (simp add: cursor_at_def)
  show thesis
    by (rule that [OF e retain_batches_ok(1,2) [OF ok]]) (use retain_batches_ok(3) [OF ok c] retain_batches_ok(4) [OF ok] in auto)
qed

lemma take_remaining_ok:
  assumes "builder_ok b" and "bb_indices b = []" and "cursor_at b i row batch"
  obtains b' where "take_remaining_rows i next_batch b = (drop row batch, b')" and "builder_ok b'" and "bb_indices b' = []"
    and "\<forall>rows. next_batch = Some rows \<longrightarrow> cursor_at b' i 0 rows"
    and "\<forall>j r x. j \<noteq> i \<longrightarrow> cursor_at b j r x \<longrightarrow> cursor_at b' j r x"
proof -
  obtain bi where bi: "i < length (bb_cursors b)" "bb_cursors b ! i = (bi, row)" "bi < length (bb_batches b)" "bb_batches b ! bi = (i, batch)"
    using assms(3) by (auto simp: cursor_at_def)
  define b1 where "b1 = b\<lparr>bb_cursors := (bb_cursors b)[i := (bi, length batch)]\<rparr>"
  have ok: "builder_ok b1" "bb_indices b1 = []" "i < length (bb_cursors b1)"
    using assms(1,2) bi(1) by (simp_all add: b1_def builder_ok_def streams_ok_def indices_ok_def)
  have c: "cursor_at b1 j r x" if "j \<noteq> i" "cursor_at b j r x" for j r x using that by (simp add: b1_def cursor_at_def)
  have e: "take_remaining_rows i next_batch b = (drop row batch,
      case next_batch of Some n \<Rightarrow> retain_batches (builder_push_batch i n b1) | None \<Rightarrow> b1)"
    using bi by (simp add: take_remaining_rows_def b1_def Let_def split: option.split)
  show thesis
  proof (cases next_batch)
    case None
    with that [of b1] e ok c show ?thesis by simp
  next
    case (Some rows)
    note p = push_batch_ok [OF ok(1,3), where batch = rows]
    have i: "bb_indices (builder_push_batch i rows b1) = []" using ok(2) by (simp add: builder_push_batch_def)
    note r = retain_batches_ok [OF p(1) i]
    show ?thesis
      using that [of "retain_batches (builder_push_batch i rows b1)"] e Some r(1,2) r(3) [OF p(3)] r(3) [OF p(4) [OF _ c]] by auto
  qed
qed

text \<open>The rows of the hottest node come first.\<close>

lemma hottest_first:
  assumes "merge_ok st" and "mg_hot st = h # hs"
  shows "n \<in> set hs \<Longrightarrow> y \<in> set (node_rows n) \<Longrightarrow> row_le (first_row h) y"
    and "n \<in> set (mg_cold st) \<Longrightarrow> y \<in> set (node_rows n) \<Longrightarrow> row_le x (last_row h) \<Longrightarrow> row_le x y"
proof -
  have ok: "\<forall>n \<in> set (mg_hot st @ mg_cold st). node_ok (mg_in_progress st) n" and hp: "hot_cold_ok (mg_hot st) (mg_cold st)"
    using assms(1) by (simp_all add: merge_ok_def)
  {
    assume "n \<in> set hs" "y \<in> set (node_rows n)"
    with ok hp assms(2) node_first_row(2) [of _ n y] show "row_le (first_row h) y"
      by (auto simp: hot_cold_ok_def intro: row_le_trans)
  next
    assume n: "n \<in> set (mg_cold st)" and y: "y \<in> set (node_rows n)" and x: "row_le x (last_row h)"
    obtain c cs where c: "mg_cold st = c # cs" using n by (cases "mg_cold st") auto
    have "key_after (first_row c) (last_row h)" using hp c assms(2) by (simp add: hot_cold_ok_def is_behind_def)
    then have "row_le x (first_row c)" using x key_after_le row_le_trans by blast
    moreover have "row_le (first_row c) (first_row n)" using hp n c by (auto simp: hot_cold_ok_def)
    moreover have "row_le (first_row n) y" using ok n y node_first_row(2) by auto
    ultimately show "row_le x y" using row_le_trans by blast
  }
qed

lemma advance_batch_ok:
  assumes "ok_iter (mn_iter h)"
  obtains nb n where "advance_batch h = Inr (nb, n)" and "mn_index n = mn_index h" and "ok_iter (mn_iter n)"
    and "node_rows n = iter_rows (mn_iter h)" and "nb \<noteq> Some []" and "mn_cursor n = map_option (Pair 0) nb"
    and "mn_cursor n = None \<longrightarrow> node_rows n = []"
proof -
  obtain nb iter' where e: "advance_inner_iter (mn_iter h) = Inr (nb, iter')" "ok_iter iter'" "nb \<noteq> Some []"
    "iter_rows (mn_iter h) = (case nb of Some rows \<Rightarrow> rows | None \<Rightarrow> []) @ iter_rows iter'" "nb = None \<longrightarrow> iter' = []"
    using advance_inner_iter_ok [OF assms] by blast
  show thesis
    by (rule that [of nb "h\<lparr>mn_iter := iter', mn_cursor := map_option (Pair 0) nb\<rparr>"])
      (use e in \<open>auto simp: advance_batch_def node_rows_def iter_rows_def split: option.splits\<close>)
qed

lemma advance_row_ok:
  assumes "node_ok b h" and "mn_cursor h = Some (offset, batch)"
  obtains nb n where "advance_row h = Inr (nb, n)" and "mn_index n = mn_index h" and "ok_iter (mn_iter n)"
    and "node_rows h = first_row h # node_rows n" and "nb \<noteq> Some []"
    and "case nb of Some rows \<Rightarrow> mn_cursor n = Some (0, rows)
       | None \<Rightarrow> mn_cursor n = None \<or> mn_cursor n = Some (offset + 1, batch) \<and> offset + 1 < length batch"
    and "mn_cursor n = None \<longrightarrow> node_rows n = []"
proof -
  have h: "ok_iter (mn_iter h)" "offset < length batch" using assms by (auto simp: node_ok_def)
  have r: "node_rows h = first_row h # drop (Suc offset) batch @ iter_rows (mn_iter h)"
    using h(2) assms(2) by (simp add: node_rows_def first_row_def Cons_nth_drop_Suc)
  show thesis
  proof (cases "offset + 1 < length batch")
    case True
    show ?thesis
      by (rule that [of None "h\<lparr>mn_cursor := Some (offset + 1, batch)\<rparr>"])
        (use True assms(2) h r in \<open>auto simp: advance_row_def node_rows_def\<close>)
  next
    case False
    let ?h = "h\<lparr>mn_cursor := Some (offset + 1, batch)\<rparr>"
    have "ok_iter (mn_iter ?h)" using h(1) by simp
    then obtain nb n where a: "advance_batch ?h = Inr (nb, n)" "mn_index n = mn_index ?h" "ok_iter (mn_iter n)"
      "node_rows n = iter_rows (mn_iter ?h)" "nb \<noteq> Some []" "mn_cursor n = map_option (Pair 0) nb"
      "mn_cursor n = None \<longrightarrow> node_rows n = []"
      by (rule advance_batch_ok)
    show ?thesis
      by (rule that [of nb n]) (use False a assms(2) r in \<open>auto simp: advance_row_def split: option.splits\<close>)
  qed
qed

text \<open>
  What a node becomes after some of its rows were taken: the new state of the iterator, given what
  the builder keeps of the cursors.
\<close>

lemma merge_ok_reheap:
  assumes "merge_ok st" and "mg_hot st = h # hs"
    and "mn_index n = mn_index h" and "ok_iter (mn_iter n)" and "node_rows h = moved @ node_rows n"
    and "mn_cursor n \<noteq> None \<longrightarrow> node_ok b n"
    and "builder_ok b" and "\<forall>j r x. j \<noteq> mn_index h \<longrightarrow> cursor_at (mg_in_progress st) j r x \<longrightarrow> cursor_at b j r x"
    and "mn_cursor n = None \<longrightarrow> node_rows n = []"
    and "hs = [] \<Longrightarrow> bb_indices b = []"
    and "reheap n hs (mg_cold st) = (hot, cold)"
    and "\<And>x. x \<in> set moved \<Longrightarrow> row_le x (last_row h)" and "hs \<noteq> [] \<Longrightarrow> moved = [first_row h]"
    and st': "st' = st\<lparr>mg_hot := hot, mg_cold := cold, mg_in_progress := b, mg_output := out\<rparr>"
  shows "merge_ok st'"
    and "mset moved + mset (remaining st') = mset (remaining st)" and "sorted_rows moved"
    and "\<And>x y. x \<in> set moved \<Longrightarrow> y \<in> set (remaining st') \<Longrightarrow> row_le x y"
proof -
  have ok: "\<forall>n \<in> set (mg_hot st @ mg_cold st). node_ok (mg_in_progress st) n" and d: "distinct (map mn_index (mg_hot st @ mg_cold st))"
    and hp: "hot_cold_ok (mg_hot st) (mg_cold st)" using assms(1) by (simp_all add: merge_ok_def)
  have srt: "sorted_nodes hs" "sorted_nodes (mg_cold st)" using hp assms(2) by (auto simp: hot_cold_ok_def)
  note rh = reheap_ok [OF srt assms(11)]
  let ?new = "if mn_cursor n = None then {#} else {#n#}"
  have ms: "mset hot + mset cold = mset (hs @ mg_cold st) + ?new" using rh by simp
  then have st: "set hot \<union> set cold = set (hs @ mg_cold st) \<union> (if mn_cursor n = None then {} else {n})"
    by (metis (mono_tags, lifting) set_mset_add_mset_insert set_mset_empty set_mset_mset set_mset_union)
  have other: "mn_index m \<noteq> mn_index h \<and> node_ok b m" if "m \<in> set (hs @ mg_cold st)" for m
  proof
    show i: "mn_index m \<noteq> mn_index h" using that d assms(2) by (metis Un_iff append_Cons distinct.simps(2) imageI list.map(2) list.set_map set_append)
    have "node_ok (mg_in_progress st) m" using that ok assms(2) by auto
    then show "node_ok b m" by (rule node_ok_builder) (use assms(8) i in blast)
  qed
  have "mset (map mn_index (hot @ cold)) = mset (map mn_index (hs @ mg_cold st)) + image_mset mn_index ?new"
    using arg_cong [OF ms, of "image_mset mn_index"] by simp
  then have "mset (map mn_index (hot @ cold)) = mset (map mn_index (hs @ mg_cold st @ (if mn_cursor n = None then [] else [n])))" by auto
  moreover have "distinct (map mn_index (hs @ mg_cold st @ (if mn_cursor n = None then [] else [n])))"
    using d assms(2,3) other by auto
  ultimately have dist: "distinct (map mn_index (hot @ cold))" using mset_eq_imp_distinct_iff by blast
  show "merge_ok st'"
    using rh dist st other assms(6,7,10) by (auto simp: merge_ok_def st' split: if_splits)
  have nr: "(\<Sum>m \<in># ?new. mset (node_rows m)) = mset (node_rows n)" using assms(9) by simp
  have "mset (remaining st') = (\<Sum>m \<in># mset (hs @ mg_cold st). mset (node_rows m)) + mset (node_rows n)"
    using arg_cong [OF ms, of "\<lambda>M. \<Sum>m \<in># M. mset (node_rows m)"] nr by (simp add: mset_remaining st')
  then show rem: "mset moved + mset (remaining st') = mset (remaining st)"
    using assms(2,5) by (simp add: mset_remaining)
  have h: "node_ok (mg_in_progress st) h" using ok assms(2) by simp
  have sr: "sorted_rows (moved @ node_rows n)" using h assms(5) by (simp add: node_ok_def)
  then show "sorted_rows moved" by (simp add: sorted_wrt_append)
  fix x y
  assume x: "x \<in> set moved" and "y \<in> set (remaining st')"
  then obtain m where m: "m \<in> set hot \<union> set cold" "y \<in> set (node_rows m)" by (auto simp: remaining_def st')
  then consider "m = n" | "m \<in> set hs" | "m \<in> set (mg_cold st)" using st by (auto split: if_splits)
  then show "row_le x y"
  proof cases
    case 1
    with sr x m(2) show ?thesis by (simp add: sorted_wrt_append)
  next
    case 2
    then have "x = first_row h" using assms(13) x by (cases hs) auto
    with hottest_first(1) [OF assms(1,2) 2 m(2)] show ?thesis by simp
  next
    case 3
    from hottest_first(2) [OF assms(1,2) 3 m(2) assms(12) [OF x]] show ?thesis .
  qed
qed

lemma node_ok_fresh:
  assumes "ok_iter (mn_iter n)" and "sorted_rows (node_rows n)" and "mn_cursor n = Some (row, batch)" and "row < length batch"
    and "cursor_at b (mn_index n) row batch"
  shows "node_ok b n"
  using assms by (simp add: node_ok_def)

lemma fetch_batch_ok:
  assumes "merge_ok st" and "mg_hot st = [h]" and "bb_indices (mg_in_progress st) = []" and "mg_output st = None"
  obtains st' moved where "fetch_batch_from_hottest st = Inr st'" and "merge_ok st'" and "mg_output st' = Some moved" and "moved \<noteq> []"
    and "bb_indices (mg_in_progress st') = []" and "mset moved + mset (remaining st') = mset (remaining st)" and "sorted_rows moved"
    and "\<And>x y. x \<in> set moved \<Longrightarrow> y \<in> set (remaining st') \<Longrightarrow> row_le x y"
proof -
  have h: "node_ok (mg_in_progress st) h" and b: "builder_ok (mg_in_progress st)" using assms(1,2) by (simp_all add: merge_ok_def)
  then obtain offset batch where c: "mn_cursor h = Some (offset, batch)" "offset < length batch"
    "cursor_at (mg_in_progress st) (mn_index h) offset batch" and i: "ok_iter (mn_iter h)"
    by (auto simp: node_ok_def)
  obtain nb n where a: "advance_batch h = Inr (nb, n)" "mn_index n = mn_index h" "ok_iter (mn_iter n)"
    "node_rows n = iter_rows (mn_iter h)" "nb \<noteq> Some []" "mn_cursor n = map_option (Pair 0) nb"
    "mn_cursor n = None \<longrightarrow> node_rows n = []"
    using advance_batch_ok [OF i] .
  obtain b' where t: "take_remaining_rows (mn_index h) nb (mg_in_progress st) = (drop offset batch, b')" "builder_ok b'" "bb_indices b' = []"
    "\<forall>rows. nb = Some rows \<longrightarrow> cursor_at b' (mn_index h) 0 rows"
    "\<forall>j r x. j \<noteq> mn_index h \<longrightarrow> cursor_at (mg_in_progress st) j r x \<longrightarrow> cursor_at b' j r x"
    using take_remaining_ok [OF b assms(3) c(3), where next_batch = nb] .
  obtain hot cold where rh: "reheap n [] (mg_cold st) = (hot, cold)" by fastforce
  define st' where "st' = st\<lparr>mg_hot := hot, mg_cold := cold, mg_in_progress := b', mg_output := Some (drop offset batch)\<rparr>"
  have nr: "node_rows h = drop offset batch @ node_rows n" using c(1) a(4) by (simp add: node_rows_def)
  have f: "fetch_batch_from_hottest st = Inr st'"
    using assms(2) a(1,2) t(1) rh c(2) by (simp add: fetch_batch_from_hottest_def st'_def maybe_output_batch_def)
  have n: "mn_cursor n \<noteq> None \<longrightarrow> node_ok b' n"
  proof
    assume nc: "mn_cursor n \<noteq> None"
    obtain rows where rows: "nb = Some rows" "rows \<noteq> []" using nc a(5,6) by (cases nb) auto
    have "sorted_rows (node_rows n)" using h nr by (simp add: node_ok_def sorted_wrt_append)
    then show "node_ok b' n" by (rule node_ok_fresh [OF a(3)]) (use rows a(2,6) t(4) in auto)
  qed
  have l: "row_le x (last_row h)" if "x \<in> set (drop offset batch)" for x using node_last_row(2) [OF h c(1) that] .
  note m = merge_ok_reheap [OF assms(1,2) a(2,3) nr n t(2,5) a(7) _ rh l _ st'_def]
  show thesis using that [OF f, of "drop offset batch"] m t(3) c(2) by (simp add: st'_def)
qed

text \<open>A row is pushed; the rows are built into a batch when there are enough of them.\<close>

lemma push_row_build_ok:
  assumes "interleave_ok il" and "builder_ok b" and "cursor_at b i row batch" and "row < length batch"
  obtains out b' where
    "(if length (bb_indices (builder_push_row i b)) \<ge> batch_size then build_record_batch il (builder_push_row i b)
      else Inr (None, builder_push_row i b)) = Inr (out, b')"
    and "builder_ok b'" and "cursor_at b' i (row + 1) batch"
    and "\<forall>j r x. j \<noteq> i \<longrightarrow> cursor_at b j r x \<longrightarrow> cursor_at b' j r x"
    and "(case out of Some rows \<Rightarrow> rows | None \<Rightarrow> []) @ pending b' = pending b @ [batch ! row]" and "out \<noteq> Some []"
    and "length (bb_cursors b') = length (bb_cursors b)"
proof (cases "length (bb_indices (builder_push_row i b)) \<ge> batch_size")
  case True
  note p = push_row_ok [OF assms(2-4)]
  obtain b' where b': "build_record_batch il (builder_push_row i b) = Inr (Some (pending (builder_push_row i b)), b')" "builder_ok b'"
    "bb_indices b' = []" "\<forall>j r x. cursor_at (builder_push_row i b) j r x \<longrightarrow> cursor_at b' j r x"
    "length (bb_cursors b') = length (bb_cursors (builder_push_row i b))"
    using build_ok [OF assms(1) p(1,6)] .
  have "pending b' = []" using b'(3) by (simp add: pending_def)
  with that [of "Some (pending (builder_push_row i b))" b'] True b' p show ?thesis by auto
next
  case False
  with that [of None "builder_push_row i b"] push_row_ok [OF assms(2-4)] show ?thesis by auto
qed

lemma fetch_row_ok:
  assumes "interleave_ok il" and "merge_ok st" and "mg_hot st = h # hs" and "hs \<noteq> []" and "mg_output st = None"
  obtains st' where "fetch_row_from_hottest il st = Inr st'" and "merge_ok st'" and "mg_output st' \<noteq> Some []"
    and "output_rows st' @ pending (mg_in_progress st') = pending (mg_in_progress st) @ [first_row h]"
    and "add_mset (first_row h) (mset (remaining st')) = mset (remaining st)"
    and "\<forall>y \<in> set (remaining st'). row_le (first_row h) y"
proof -
  have h: "node_ok (mg_in_progress st) h" and b: "builder_ok (mg_in_progress st)" using assms(2,3) by (simp_all add: merge_ok_def)
  then obtain offset batch where c: "mn_cursor h = Some (offset, batch)" "offset < length batch"
    "cursor_at (mg_in_progress st) (mn_index h) offset batch"
    by (auto simp: node_ok_def)
  have fr: "batch ! offset = first_row h" using c(1) by (simp add: first_row_def)
  obtain out b1 where p: "(if length (bb_indices (builder_push_row (mn_index h) (mg_in_progress st))) \<ge> mg_batch_size st
      then build_record_batch il (builder_push_row (mn_index h) (mg_in_progress st))
      else Inr (None, builder_push_row (mn_index h) (mg_in_progress st))) = Inr (out, b1)"
    "builder_ok b1" "cursor_at b1 (mn_index h) (offset + 1) batch"
    "\<forall>j r x. j \<noteq> mn_index h \<longrightarrow> cursor_at (mg_in_progress st) j r x \<longrightarrow> cursor_at b1 j r x"
    "(case out of Some rows \<Rightarrow> rows | None \<Rightarrow> []) @ pending b1 = pending (mg_in_progress st) @ [batch ! offset]" "out \<noteq> Some []"
    "length (bb_cursors b1) = length (bb_cursors (mg_in_progress st))"
    using push_row_build_ok [OF assms(1) b c(3,2), where batch_size = "mg_batch_size st"] .
  obtain nb n where a: "advance_row h = Inr (nb, n)" "mn_index n = mn_index h" "ok_iter (mn_iter n)"
    "node_rows h = first_row h # node_rows n" "nb \<noteq> Some []"
    "case nb of Some rows \<Rightarrow> mn_cursor n = Some (0, rows)
       | None \<Rightarrow> mn_cursor n = None \<or> mn_cursor n = Some (offset + 1, batch) \<and> offset + 1 < length batch"
    "mn_cursor n = None \<longrightarrow> node_rows n = []"
    using advance_row_ok [OF h c(1)] .
  define b2 where "b2 = (case nb of Some rows \<Rightarrow> builder_push_batch (mn_index n) rows b1 | None \<Rightarrow> b1)"
  obtain hot cold where rh: "reheap n hs (mg_cold st) = (hot, cold)" by fastforce
  define st' where "st' = st\<lparr>mg_hot := hot, mg_cold := cold, mg_in_progress := b2, mg_output := out\<rparr>"
  have i: "mn_index n < length (bb_cursors b1)" using p(3) a(2) by (simp add: cursor_at_def)
  note pb = push_batch_ok [OF p(2) i]
  have b2: "builder_ok b2" "pending b2 = pending b1" "\<forall>j r x. j \<noteq> mn_index h \<longrightarrow> cursor_at (mg_in_progress st) j r x \<longrightarrow> cursor_at b2 j r x"
    using p(2,4) pb a(2) by (auto simp: b2_def split: option.splits)
  have out: "(case out of Some rows \<Rightarrow> maybe_output_batch rows (mg_output st) | None \<Rightarrow> mg_output st) = out"
    using p(6) assms(5) by (auto simp: maybe_output_batch_def split: option.splits)
  have f: "fetch_row_from_hottest il st = Inr st'"
    using assms(3) p(1) a(1) rh out by (simp add: fetch_row_from_hottest_def st'_def b2_def)
  have "node_ok b2 n" if nc: "mn_cursor n \<noteq> None"
  proof -
    have s: "sorted_rows (node_rows n)" using h a(4) by (simp add: node_ok_def)
    show ?thesis
    proof (cases nb)
      case None
      with nc a(6) p(3) a(2) show ?thesis by (intro node_ok_fresh [OF a(3) s, of "offset + 1" batch]) (auto simp: b2_def)
    next
      case (Some rows)
      with a(5,6) pb(3) show ?thesis by (intro node_ok_fresh [OF a(3) s, of 0 rows]) (auto simp: b2_def)
    qed
  qed
  then have n: "mn_cursor n \<noteq> None \<longrightarrow> node_ok b2 n" by simp
  have nr: "node_rows h = [first_row h] @ node_rows n" using a(4) by simp
  have l: "row_le x (last_row h)" if "x \<in> set [first_row h]" for x
    using that node_last_row(2) [OF h c(1), of "first_row h"] Cons_nth_drop_Suc [OF c(2)] fr
    by (metis empty_iff list.set_intros(1) set_ConsD list.set(1))
  note m = merge_ok_reheap [OF assms(2,3) a(2,3) nr n b2(1,3) a(7) _ rh l _ st'_def]
  show thesis
    using that [OF f] m assms(4) p(5,6) b2(2) fr by (auto simp: st'_def output_rows_def)
qed

lemma merge_step_ok:
  assumes "interleave_ok il" and "merge_ok st" and "mg_hot st \<noteq> []" and "mg_output st = None"
  obtains st' moved where "merge_step il st = Inr st'" and "merge_ok st'" and "mg_output st' \<noteq> Some []"
    and "output_rows st' @ pending (mg_in_progress st') = pending (mg_in_progress st) @ moved"
    and "mset moved + mset (remaining st') = mset (remaining st)" and "sorted_rows moved"
    and "\<forall>x \<in> set moved. \<forall>y \<in> set (remaining st'). row_le x y" and "moved = [] \<longrightarrow> mg_output st' \<noteq> None"
proof -
  obtain h hs where hs: "mg_hot st = h # hs" using assms(3) by (cases "mg_hot st") auto
  consider (build) "hs = []" "bb_indices (mg_in_progress st) \<noteq> []" | (batch) "hs = []" "bb_indices (mg_in_progress st) = []" | (row) "hs \<noteq> []"
    by blast
  then show thesis
  proof cases
    case build
    have b: "builder_ok (mg_in_progress st)" using assms(2) by (simp add: merge_ok_def)
    obtain b' where b': "build_record_batch il (mg_in_progress st) = Inr (Some (pending (mg_in_progress st)), b')" "builder_ok b'"
      "bb_indices b' = []" "\<forall>i r x. cursor_at (mg_in_progress st) i r x \<longrightarrow> cursor_at b' i r x"
      "length (bb_cursors b') = length (bb_cursors (mg_in_progress st))"
      using build_ok [OF assms(1) b build(2)] .
    let ?st = "st\<lparr>mg_output := Some (pending (mg_in_progress st)), mg_in_progress := b'\<rparr>"
    have "merge_ok ?st" using assms(2) b'(2-4) by (auto simp: merge_ok_def intro: node_ok_builder)
    then show ?thesis
      using build b'(1,3) hs by (intro that [of ?st "[]"]) (auto simp: merge_step_def output_rows_def pending_def remaining_def)
  next
    case batch
    obtain st' moved where f: "fetch_batch_from_hottest st = Inr st'" "merge_ok st'" "mg_output st' = Some moved" "moved \<noteq> []"
      "bb_indices (mg_in_progress st') = []" "mset moved + mset (remaining st') = mset (remaining st)" "sorted_rows moved"
      "\<And>x y. x \<in> set moved \<Longrightarrow> y \<in> set (remaining st') \<Longrightarrow> row_le x y"
      using fetch_batch_ok [OF assms(2) _ batch(2) assms(4)] hs batch(1) by metis
    then show ?thesis
      using batch hs by (intro that [of st' moved]) (auto simp: merge_step_def output_rows_def pending_def)
  next
    case row
    obtain st' where f: "fetch_row_from_hottest il st = Inr st'" "merge_ok st'" "mg_output st' \<noteq> Some []"
      "output_rows st' @ pending (mg_in_progress st') = pending (mg_in_progress st) @ [first_row h]"
      "add_mset (first_row h) (mset (remaining st')) = mset (remaining st)" "\<forall>y \<in> set (remaining st'). row_le (first_row h) y"
      using fetch_row_ok [OF assms(1,2) hs row assms(4)] .
    then show ?thesis
      using row hs by (intro that [of st' "[first_row h]"]) (auto simp: merge_step_def)
  qed
qed

text \<open>
  The state of a reader that has returned the rows \<open>done\<close>: the rows returned, the output and the
  pending rows are sorted and come before the rows that remain.
\<close>

definition reader_ok :: "'v flat_row list \<Rightarrow> ('e, 'v) merge_state \<Rightarrow> bool" where
  "reader_ok returned st \<longleftrightarrow>
     merge_ok st \<and> mg_output st \<noteq> Some []
     \<and> sorted_rows (returned @ output_rows st @ pending (mg_in_progress st))
     \<and> (\<forall>x \<in> set (returned @ output_rows st @ pending (mg_in_progress st)). \<forall>y \<in> set (remaining st). row_le x y)"

definition held :: "('e, 'v) merge_state \<Rightarrow> 'v flat_row multiset" where
  "held st = mset (output_rows st) + mset (pending (mg_in_progress st)) + mset (remaining st)"

lemma reader_step:
  assumes "interleave_ok il" and "reader_ok returned st" and "mg_hot st \<noteq> []" and "mg_output st = None"
  shows "\<exists>st'. merge_step il st = Inr st' \<and> reader_ok returned st' \<and> held st' = held st
     \<and> (mg_output st' = None \<longrightarrow> length (remaining st') < length (remaining st)) \<and> length (remaining st') \<le> length (remaining st)"
proof -
  have ok: "merge_ok st" using assms(2) by (simp add: reader_ok_def)
  obtain st' moved where m: "merge_step il st = Inr st'" "merge_ok st'" "mg_output st' \<noteq> Some []"
    "output_rows st' @ pending (mg_in_progress st') = pending (mg_in_progress st) @ moved"
    "mset moved + mset (remaining st') = mset (remaining st)" "sorted_rows moved"
    "\<forall>x \<in> set moved. \<forall>y \<in> set (remaining st'). row_le x y" "moved = [] \<longrightarrow> mg_output st' \<noteq> None"
    using merge_step_ok [OF assms(1) ok assms(3,4)] .
  have s: "set (remaining st) = set moved \<union> set (remaining st')" using arg_cong [OF m(5), of set_mset] by simp
  have o: "output_rows st = []" using assms(4) by (simp add: output_rows_def)
  have l: "length moved + length (remaining st') = length (remaining st)" using arg_cong [OF m(5), of size] by simp
  have "reader_ok returned st'"
    using assms(2) m(2,3,6,7) s o unfolding reader_ok_def m(4) by (auto simp: sorted_wrt_append)
  moreover have "held st' = held st"
    using arg_cong [OF m(4), of mset] m(5) o by (simp add: held_def add.assoc)
  moreover have "mg_output st' = None \<longrightarrow> length (remaining st') < length (remaining st)" using m(8) l by (cases moved) auto
  ultimately show ?thesis using m(1) l by auto
qed

lemma hot_remaining: "merge_ok st \<Longrightarrow> mg_hot st \<noteq> [] \<Longrightarrow> remaining st \<noteq> []"
  using node_first_row(3) by (cases "mg_hot st") (auto simp: remaining_def merge_ok_def)

lemma cold_empty: "merge_ok st \<Longrightarrow> mg_hot st = [] \<Longrightarrow> remaining st = [] \<and> pending (mg_in_progress st) = []"
  by (auto simp: merge_ok_def hot_cold_ok_def remaining_def pending_def)

lemma take_output:
  assumes "reader_ok returned st" and "mg_output st = Some rows"
  shows "reader_ok (returned @ rows) (st\<lparr>mg_output := None\<rparr>)" and "rows \<noteq> []"
    and "mset rows + held (st\<lparr>mg_output := None\<rparr>) = held st" and "remaining (st\<lparr>mg_output := None\<rparr>) = remaining st"
  using assms by (auto simp: reader_ok_def held_def output_rows_def remaining_def merge_ok_def add.assoc)

lemma next_batch_ok:
  assumes "interleave_ok il" and "reader_ok returned st" and "length (remaining st) + 1 < fuel"
  shows "\<exists>out st'. merge_next_batch il fuel st = Some (Inr (out, st')) \<and> mg_output st' = None
     \<and> length (remaining st') \<le> length (remaining st)
     \<and> (case out of
          Some rows \<Rightarrow> rows \<noteq> [] \<and> reader_ok (returned @ rows) st' \<and> mset rows + held st' = held st
        | None \<Rightarrow> held st = {#})"
  using assms(2,3)
proof (induction fuel arbitrary: st)
  case (Suc fuel)
  show ?case
  proof (cases "mg_hot st \<noteq> [] \<and> mg_output st = None")
    case True
    obtain st1 where st1: "merge_step il st = Inr st1" "reader_ok returned st1" "held st1 = held st"
      "mg_output st1 = None \<longrightarrow> length (remaining st1) < length (remaining st)" "length (remaining st1) \<le> length (remaining st)"
      using reader_step [OF assms(1) Suc.prems(1) conjunct1 [OF True] conjunct2 [OF True]]
      by (elim exE conjE) (rule that; assumption)
    show ?thesis
    proof (cases "mg_output st1")
      case None
      then have len: "length (remaining st1) + 1 < fuel" using st1(4) Suc.prems(2) by simp
      have e: "merge_next_batch il (Suc fuel) st = merge_next_batch il fuel st1" using True st1(1) by simp
      obtain out st' where o: "merge_next_batch il fuel st1 = Some (Inr (out, st'))" "mg_output st' = None"
        "length (remaining st') \<le> length (remaining st1)"
        "case out of Some rows \<Rightarrow> rows \<noteq> [] \<and> reader_ok (returned @ rows) st' \<and> mset rows + held st' = held st1 | None \<Rightarrow> held st1 = {#}"
        using Suc.IH [OF st1(2) len] by (elim exE conjE) (rule that; assumption)
      show ?thesis unfolding e by (intro exI [of _ out] exI [of _ st'] conjI) (use o st1(3,5) in \<open>auto split: option.splits\<close>)
    next
      case (Some rows)
      have "remaining st \<noteq> []" using hot_remaining Suc.prems(1) True by (auto simp: reader_ok_def)
      then obtain f where f: "fuel = Suc f" using Suc.prems(2) by (cases fuel) auto
      have "merge_next_batch il (Suc fuel) st = Some (Inr (Some rows, st1\<lparr>mg_output := None\<rparr>))"
        using True st1(1) Some f by simp
      then show ?thesis using take_output [OF st1(2) Some] st1(3,5) by auto
    qed
  next
    case False
    show ?thesis
    proof (cases "mg_output st")
      case None
      with False Suc.prems(1) cold_empty [of st] show ?thesis
        by (auto simp: reader_ok_def held_def output_rows_def remaining_def)
    next
      case (Some rows)
      with take_output [OF Suc.prems(1)] show ?thesis by auto
    qed
  qed
qed simp

lemma merge_batches_ok:
  assumes "interleave_ok il" and "reader_ok returned st" and "length (remaining st) + 1 < inner" and "size (held st) < fuel"
  shows "\<exists>batches. merge_batches il inner fuel st = Some (Inr batches) \<and> [] \<notin> set batches
     \<and> sorted_rows (returned @ concat batches) \<and> mset (concat batches) = held st"
  using assms(2-4)
proof (induction fuel arbitrary: returned st)
  case (Suc fuel)
  obtain out st' where n: "merge_next_batch il inner st = Some (Inr (out, st'))" "length (remaining st') \<le> length (remaining st)"
    "case out of Some rows \<Rightarrow> rows \<noteq> [] \<and> reader_ok (returned @ rows) st' \<and> mset rows + held st' = held st | None \<Rightarrow> held st = {#}"
    using next_batch_ok [OF assms(1) Suc.prems(1,2)] by (elim exE conjE) (rule that; assumption)
  show ?case
  proof (cases out)
    case None
    with n Suc.prems(1) show ?thesis by (auto simp: reader_ok_def sorted_wrt_append)
  next
    case (Some rows)
    then have r: "rows \<noteq> []" "reader_ok (returned @ rows) st'" "mset rows + held st' = held st" using n(3) by simp_all
    have "size (held st) = length rows + size (held st')" using arg_cong [OF r(3), of size] by simp
    then have "size (held st') < fuel" using r(1) Suc.prems(3) by (cases rows) auto
    with Suc.IH [OF r(2)] n(2) Suc.prems(2) obtain batches where "merge_batches il inner fuel st' = Some (Inr batches)" "[] \<notin> set batches"
      "sorted_rows ((returned @ rows) @ concat batches)" "mset (concat batches) = held st'" by fastforce
    with n(1) Some r show ?thesis by auto
  qed
qed simp

subsection \<open>Initialisation\<close>

lemma init_nodes_ok:
  assumes "builder_ok b" and "bb_indices b = []" and "i + length iters \<le> length (bb_cursors b)"
    and "\<forall>iter \<in> set iters. ok_iter iter \<and> sorted_rows (iter_rows iter)"
  shows "\<exists>nodes b'. init_nodes i iters b = Inr (nodes, b') \<and> builder_ok b' \<and> bb_indices b' = []
     \<and> length (bb_cursors b') = length (bb_cursors b)
     \<and> (\<forall>j row x. j < i \<longrightarrow> cursor_at b j row x \<longrightarrow> cursor_at b' j row x)
     \<and> distinct (map mn_index nodes) \<and> (\<forall>n \<in> set nodes. i \<le> mn_index n \<and> node_ok b' n)
     \<and> mset (concat (map node_rows nodes)) = mset (concat (map iter_rows iters))"
  using assms
proof (induction i iters b rule: init_nodes.induct)
  case (2 i iter iters b)
  define h where "h = \<lparr>mn_index = i, mn_iter = iter, mn_cursor = None\<rparr>"
  have "ok_iter (mn_iter h)" using "2.prems"(4) by (simp add: h_def)
  then obtain nb n where a: "advance_batch h = Inr (nb, n)" "mn_index n = mn_index h" "ok_iter (mn_iter n)"
    "node_rows n = iter_rows (mn_iter h)" "nb \<noteq> Some []" "mn_cursor n = map_option (Pair 0) nb" "mn_cursor n = None \<longrightarrow> node_rows n = []"
    by (rule advance_batch_ok)
  have i: "i < length (bb_cursors b)" using "2.prems"(3) by simp
  show ?case
  proof (cases nb)
    case None
    with a(4,6,7) have "iter_rows iter = []" by (simp add: h_def)
    moreover obtain nodes b' where "init_nodes (i + 1) iters b = Inr (nodes, b')" "builder_ok b'" "bb_indices b' = []"
      "length (bb_cursors b') = length (bb_cursors b)" "\<forall>j row x. j < i + 1 \<longrightarrow> cursor_at b j row x \<longrightarrow> cursor_at b' j row x"
      "distinct (map mn_index nodes)" "\<forall>n \<in> set nodes. i + 1 \<le> mn_index n \<and> node_ok b' n"
      "mset (concat (map node_rows nodes)) = mset (concat (map iter_rows iters))"
      using "2.IH"(1) [of "(nb, n)" nb n] a(1) None "2.prems" by (fastforce simp: h_def)
    ultimately show ?thesis using a(1) None by (fastforce simp: h_def)
  next
    case (Some rows)
    let ?b = "builder_push_batch i rows b"
    note p = push_batch_ok [OF "2.prems"(1) i, where batch = rows]
    have pi: "bb_indices ?b = []" using "2.prems"(2) by (simp add: builder_push_batch_def)
    obtain nodes b' where r: "init_nodes (i + 1) iters ?b = Inr (nodes, b')" "builder_ok b'" "bb_indices b' = []"
      "length (bb_cursors b') = length (bb_cursors ?b)" "\<forall>j row x. j < i + 1 \<longrightarrow> cursor_at ?b j row x \<longrightarrow> cursor_at b' j row x"
      "distinct (map mn_index nodes)" "\<forall>n \<in> set nodes. i + 1 \<le> mn_index n \<and> node_ok b' n"
      "mset (concat (map node_rows nodes)) = mset (concat (map iter_rows iters))"
      using "2.IH"(2) [of "(nb, n)" nb n rows] a(1) Some "2.prems" p(1,5) pi by (fastforce simp: h_def)
    have "node_ok b' n"
      by (rule node_ok_fresh [OF a(3), of 0 rows]) (use a Some p(3) r(5) "2.prems"(4) in \<open>auto simp: h_def\<close>)
    moreover have "mn_index n = i" "node_rows n = iter_rows iter" using a(2,4) by (simp_all add: h_def)
    moreover have "\<forall>m \<in> set nodes. mn_index m \<noteq> i" using r(7) by fastforce
    ultimately show ?thesis
      using a(1) Some r p(4,5) by (auto simp: h_def image_iff)
  qed
qed simp

lemma foldr_heap_insert: "sorted_nodes (foldr heap_insert nodes []) \<and> mset (foldr heap_insert nodes []) = mset nodes"
  by (induction nodes) (auto simp: heap_insert_sorted)

lemma merge_new_ok:
  assumes "\<forall>iter \<in> set iters. ok_iter iter \<and> sorted_rows (iter_rows iter)"
  shows "\<exists>st. merge_new batch_size iters = Inr st \<and> reader_ok [] st \<and> held st = mset (concat (map iter_rows iters))
     \<and> length (remaining st) = length (concat (map iter_rows iters))"
proof -
  let ?b = "builder_new (length iters)"
  have b: "builder_ok ?b" "bb_indices ?b = []" "0 + length iters \<le> length (bb_cursors ?b)"
    by (simp_all add: builder_new_def builder_ok_def streams_ok_def indices_ok_def)
  obtain nodes b' where n: "init_nodes 0 iters ?b = Inr (nodes, b')" "builder_ok b'" "bb_indices b' = []"
    "distinct (map mn_index nodes)" "\<forall>n \<in> set nodes. node_ok b' n"
    "mset (concat (map node_rows nodes)) = mset (concat (map iter_rows iters))"
    using init_nodes_ok [OF b assms] by blast
  have f: "filter (\<lambda>n. mn_cursor n \<noteq> None) nodes = nodes" using n(5) by (auto simp: filter_id_conv node_ok_def)
  obtain hot cold where h: "merge_algo_new nodes = (hot, cold)" by fastforce
  have r: "refill_hot [] (foldr heap_insert nodes []) = (hot, cold)" using h unfolding merge_algo_new_def f .
  have s: "sorted_nodes (foldr heap_insert nodes [])" and m: "mset (foldr heap_insert nodes []) = mset nodes"
    using foldr_heap_insert by blast+
  have rh: "hot_cold_ok hot cold" "mset (hot @ cold) = mset nodes" using refill_hot_ok [OF _ s r] m by simp_all
  define st where
    "st = \<lparr>mg_hot = hot, mg_cold = cold, mg_in_progress = b', mg_output = None, mg_batch_size = batch_size\<rparr>"
  have e: "merge_new batch_size iters = Inr st" by (simp add: merge_new_def n(1) h st_def)
  have "set (hot @ cold) = set nodes" using rh(2) mset_eq_setD by blast
  moreover have "distinct (map mn_index (hot @ cold))"
    using n(4) mset_eq_imp_distinct_iff [of "map mn_index (hot @ cold)" "map mn_index nodes"] rh(2) by (metis mset_map)
  ultimately have "merge_ok st" using n(2,3,5) rh(1) by (auto simp: merge_ok_def st_def)
  moreover have p: "pending b' = []" using n(3) by (simp add: pending_def)
  ultimately have "reader_ok [] st" by (simp add: reader_ok_def st_def output_rows_def)
  moreover have rem: "mset (remaining st) = mset (concat (map iter_rows iters))"
    using mset_node_rows [of "hot @ cold"] mset_node_rows [of nodes] n(6) unfolding rh(2) by (simp add: remaining_def st_def)
  moreover have "length (remaining st) = length (concat (map iter_rows iters))" using arg_cong [OF rem, of size] by simp
  ultimately show ?thesis using e p by (auto simp: held_def output_rows_def st_def)
qed

end
