(* ===== verification/Read_Dedup.thy ===== *)
theory Read_Dedup
  imports Read_Merge
begin

text \<open>
  Removing duplicate rows from a sorted stream, from \<open>src/src/mito2/src/read/flat_dedup.rs\<close>: the strategies
  \<open>FlatLastRow\<close> and \<open>FlatLastNonNull\<close>, and the reader that drives a strategy over a stream of batches.
  The Arrow kernels are parameters, collected in a record, with what they compute as a hypothesis. A
  batch is the list of its rows, so that slicing it is \<open>take\<close> and \<open>drop\<close>; the columns of a batch from
  \<open>field_column_start\<close> on are the fields of its rows. Metrics are left out.
\<close>

section \<open>Definitions\<close>

definition row_key :: "'v flat_row \<Rightarrow> bytes \<times> int" where
  "row_key row = (fr_primary_key row, fr_timestamp row)"

text \<open>
  The kernels: \<open>distinct\<close> compares two arrays by position, \<open>partition\<close> gives the ranges of equal rows of
  its columns, \<open>take\<close> gathers the positions of an array or a batch, \<open>filter_record_batch\<close> keeps the rows
  of a mask and \<open>concat_batches\<close> joins batches.
\<close>

record ('e, 'v) kernels =
  k_distinct :: "int list \<Rightarrow> int list \<Rightarrow> 'e + bool list"
  k_partition :: "(bytes \<times> int) list \<Rightarrow> 'e + (nat \<times> nat) list"
  k_take :: "'v option list \<Rightarrow> nat list \<Rightarrow> 'e + 'v option list"
  k_take_record_batch :: "'v batch \<Rightarrow> nat list \<Rightarrow> 'e + 'v batch"
  k_filter_record_batch :: "'v batch \<Rightarrow> bool list \<Rightarrow> 'e + 'v batch"
  k_concat_batches :: "'v batch list \<Rightarrow> 'e + 'v batch"

definition bind_result :: "'e + 'a \<Rightarrow> ('a \<Rightarrow> 'e + 'b) \<Rightarrow> 'e + 'b" where
  "bind_result r f = (case r of Inl err \<Rightarrow> Inl err | Inr x \<Rightarrow> f x)"

lemma bind_result_simps [simp]: "bind_result (Inl err) f = Inl err" "bind_result (Inr x) f = f x"
  by (simp_all add: bind_result_def)

subsection \<open>Shared functions\<close>

text \<open>The last row of a batch that is not empty.\<close>

definition try_new :: "'v batch \<Rightarrow> 'v batch option" where
  "try_new batch = (if batch \<noteq> [] then Some batch else None)"

definition is_last_row_duplicated :: "'v batch \<Rightarrow> 'v batch \<Rightarrow> bool" where
  "is_last_row_duplicated last_batch batch =
     (if batch = [] then False
      else if fr_timestamp (hd batch) \<noteq> fr_timestamp (last last_batch) then False
      else fr_primary_key (last last_batch) = fr_primary_key (hd batch))"

definition find_boundaries :: "('e, 'v) kernels \<Rightarrow> int list \<Rightarrow> 'e + bool list" where
  "find_boundaries ks v = k_distinct ks (take (length v - 1) v) (drop 1 v)"

definition filter_deleted_from_batch :: "('e, 'v) kernels \<Rightarrow> 'v batch \<Rightarrow> 'e + 'v batch" where
  "filter_deleted_from_batch ks batch =
     (if \<not> (\<exists>op \<in> set (map fr_op_type batch). op \<noteq> OpPut) then Inr batch
      else k_filter_record_batch ks batch (map (\<lambda>op. op \<noteq> OpDelete) (map fr_op_type batch)))"

definition maybe_filter_deleted :: "('e, 'v) kernels \<Rightarrow> 'v batch \<Rightarrow> bool \<Rightarrow> 'e + 'v batch option" where
  "maybe_filter_deleted ks batch filter_deleted =
     (if \<not> filter_deleted then Inr (Some batch)
      else bind_result (filter_deleted_from_batch ks batch)
             (\<lambda>batch. if batch = [] then Inr None else Inr (Some batch)))"

subsection \<open>Keeping the last row\<close>

record 'v flat_last_row =
  lr_prev_batch :: "'v batch option"
  lr_filter_deleted :: bool

definition last_row_new :: "bool \<Rightarrow> 'v flat_last_row" where
  "last_row_new filter_deleted = \<lparr>lr_prev_batch = None, lr_filter_deleted = filter_deleted\<rparr>"

definition lr_dedup_by_partitions :: "('e, 'v) kernels \<Rightarrow> 'v batch \<Rightarrow> (nat \<times> nat) list \<Rightarrow> 'e + 'v batch" where
  "lr_dedup_by_partitions ks batch ranges =
     (if sum_list (map (\<lambda>(start, end). end - start - 1) ranges) = 0 then Inr batch
      else k_take_record_batch ks batch (map fst ranges))"

definition lr_dedup_one_batch :: "('e, 'v) kernels \<Rightarrow> 'v batch \<Rightarrow> 'e + 'v batch" where
  "lr_dedup_one_batch ks batch =
     (if length batch < 2 then Inr batch
      else bind_result (find_boundaries ks (map fr_timestamp batch)) (\<lambda>mask.
        if length (filter id mask) = length batch - 1 then Inr batch
        else bind_result (k_partition ks (map row_key batch)) (\<lambda>ranges.
          lr_dedup_by_partitions ks batch ranges)))"

definition lr_push_batch ::
  "('e, 'v) kernels \<Rightarrow> 'v flat_last_row \<Rightarrow> 'v batch \<Rightarrow> 'e + ('v batch option \<times> 'v flat_last_row)" where
  "lr_push_batch ks s batch =
     (if batch = [] then Inr (None, s)
      else bind_result (lr_dedup_one_batch ks batch) (\<lambda>batch1.
        let batch2 = (case lr_prev_batch s of
                        Some prev_batch \<Rightarrow> if is_last_row_duplicated prev_batch batch1 then drop 1 batch1 else batch1
                      | None \<Rightarrow> batch1)
        in case try_new batch2 of
             None \<Rightarrow> Inr (None, s)
           | Some batch_last_row \<Rightarrow>
               bind_result (maybe_filter_deleted ks batch2 (lr_filter_deleted s)) (\<lambda>result.
                 Inr (result, s\<lparr>lr_prev_batch := Some batch_last_row\<rparr>))))"

definition lr_finish :: "'v flat_last_row \<Rightarrow> 'e + ('v batch option \<times> 'v flat_last_row)" where
  "lr_finish s = Inr (None, s)"

subsection \<open>Keeping the last non-null fields\<close>

record 'v flat_last_non_null =
  nn_filter_deleted :: bool
  nn_buffer :: "'v batch option"
  nn_contains_delete :: bool

definition last_non_null_new :: "bool \<Rightarrow> 'v flat_last_non_null" where
  "last_non_null_new filter_deleted = \<lparr>nn_filter_deleted = filter_deleted, nn_buffer = None, nn_contains_delete = False\<rparr>"

definition last_range_has_delete :: "(nat \<times> nat) list \<Rightarrow> op_type list \<Rightarrow> bool" where
  "last_range_has_delete ranges op_types =
     (if ranges = [] then False
      else (case last ranges of (start, end) \<Rightarrow> \<exists>i \<in> set [start..<end]. op_types ! i = OpDelete))"

text \<open>The first valid value of a range before a delete; the start of the range when there is none.\<close>

fun field_index_loop :: "nat \<Rightarrow> nat list \<Rightarrow> 'v option list \<Rightarrow> op_type list \<Rightarrow> nat" where
  "field_index_loop value_index [] field_array op_types = value_index"
| "field_index_loop value_index (i # is) field_array op_types =
     (if op_types ! i = OpDelete then value_index
      else if field_array ! i \<noteq> None then i
      else field_index_loop value_index is field_array op_types)"

definition compute_field_indices :: "(nat \<times> nat) list \<Rightarrow> 'v option list \<Rightarrow> op_type list \<Rightarrow> bool \<Rightarrow> nat list" where
  "compute_field_indices ranges field_array op_types first_range_contains_delete =
     map (\<lambda>(range_idx, (start, end)).
            if range_idx = 0 \<and> first_range_contains_delete then start
            else field_index_loop start [start..<end] field_array op_types)
       (enumerate 0 ranges)"

fun collect_results :: "('e + 'a) list \<Rightarrow> 'e + 'a list" where
  "collect_results [] = Inr []"
| "collect_results (r # rs) = bind_result r (\<lambda>x. bind_result (collect_results rs) (\<lambda>xs. Inr (x # xs)))"

definition field_column :: "'v batch \<Rightarrow> nat \<Rightarrow> 'v option list" where
  "field_column batch c = map (\<lambda>row. fr_fields row ! c) batch"

definition nn_dedup_by_partitions ::
  "('e, 'v) kernels \<Rightarrow> 'v batch \<Rightarrow> (nat \<times> nat) list \<Rightarrow> op_type list \<Rightarrow> bool \<Rightarrow> 'e + ('v batch \<times> bool)" where
  "nn_dedup_by_partitions ks batch ranges op_types first_range_contains_delete =
     (let contains_delete = last_range_has_delete ranges op_types
      in if sum_list (map (\<lambda>(start, end). end - start - 1) ranges) = 0 then Inr (batch, contains_delete)
         else bind_result (collect_results (map (\<lambda>c.
                k_take ks (field_column batch c)
                  (compute_field_indices ranges (field_column batch c) op_types first_range_contains_delete))
                [0..<length (fr_fields (hd batch))])) (\<lambda>fields.
              bind_result (k_take_record_batch ks batch (map fst ranges)) (\<lambda>rows.
                Inr (map (\<lambda>(i, row). row\<lparr>fr_fields := map (\<lambda>column. column ! i) fields\<rparr>) (enumerate 0 rows), contains_delete))))"

definition nn_dedup_one_batch :: "('e, 'v) kernels \<Rightarrow> 'v batch \<Rightarrow> bool \<Rightarrow> 'e + ('v batch \<times> bool)" where
  "nn_dedup_one_batch ks batch prev_batch_contains_delete =
     (let op_types = map fr_op_type batch; num_rows = length batch
      in if num_rows < 2 then Inr (batch, if num_rows > 0 then op_types ! 0 = OpDelete else False)
         else bind_result (find_boundaries ks (map fr_timestamp batch)) (\<lambda>mask.
           if length (filter id mask) = num_rows - 1 then Inr (batch, op_types ! (num_rows - 1) = OpDelete)
           else bind_result (k_partition ks (map row_key batch)) (\<lambda>ranges.
             nn_dedup_by_partitions ks batch ranges op_types prev_batch_contains_delete)))"

definition nn_push_batch ::
  "('e, 'v) kernels \<Rightarrow> 'v flat_last_non_null \<Rightarrow> 'v batch \<Rightarrow> 'e + ('v batch option \<times> 'v flat_last_non_null)" where
  "nn_push_batch ks s batch =
     (if batch = [] then Inr (None, s)
      else case nn_buffer s of
        None \<Rightarrow>
          bind_result (nn_dedup_one_batch ks batch False) (\<lambda>(record_batch, contains_delete).
            Inr (None, s\<lparr>nn_buffer := try_new record_batch, nn_contains_delete := contains_delete\<rparr>))
      | Some buffer \<Rightarrow>
          if \<not> is_last_row_duplicated buffer batch
          then bind_result (nn_dedup_one_batch ks batch False) (\<lambda>(record_batch, contains_delete).
                 bind_result (maybe_filter_deleted ks buffer (nn_filter_deleted s)) (\<lambda>result.
                   Inr (result, s\<lparr>nn_buffer := try_new record_batch, nn_contains_delete := contains_delete\<rparr>)))
          else bind_result (if length buffer > 1 then maybe_filter_deleted ks (take (length buffer - 1) buffer) (nn_filter_deleted s)
                            else Inr None) (\<lambda>output.
                 bind_result (k_concat_batches ks [drop (length buffer - 1) buffer, batch]) (\<lambda>merged.
                 bind_result (nn_dedup_one_batch ks merged (nn_contains_delete s)) (\<lambda>(record_batch, contains_delete).
                   Inr (output, s\<lparr>nn_buffer := try_new record_batch, nn_contains_delete := contains_delete\<rparr>)))))"

definition nn_finish :: "('e, 'v) kernels \<Rightarrow> 'v flat_last_non_null \<Rightarrow> 'e + ('v batch option \<times> 'v flat_last_non_null)" where
  "nn_finish ks s =
     (case nn_buffer s of
        None \<Rightarrow> Inr (None, s)
      | Some buffer \<Rightarrow>
          bind_result (maybe_filter_deleted ks buffer (nn_filter_deleted s)) (\<lambda>result.
            Inr (result, s\<lparr>nn_buffer := None\<rparr>)))"

subsection \<open>The reader\<close>

text \<open>A strategy is the pair of its operations; a reader is a strategy, its state and its stream.\<close>

type_synonym ('e, 'v, 's) push = "'s \<Rightarrow> 'v batch \<Rightarrow> 'e + ('v batch option \<times> 's)"
type_synonym ('e, 'v, 's) finish = "'s \<Rightarrow> 'e + ('v batch option \<times> 's)"

fun fetch_next_batch ::
  "('e, 'v, 's) push \<Rightarrow> ('e, 'v, 's) finish \<Rightarrow> 's \<Rightarrow> ('e + 'v batch) list
     \<Rightarrow> 'e + ('v batch option \<times> 's \<times> ('e + 'v batch) list)" where
  "fetch_next_batch push finish s [] = bind_result (finish s) (\<lambda>(result, s'). Inr (result, s', []))"
| "fetch_next_batch push finish s (Inl err # stream) = Inl err"
| "fetch_next_batch push finish s (Inr batch # stream) =
     bind_result (push s batch) (\<lambda>(result, s').
       case result of
         Some batch' \<Rightarrow> Inr (Some batch', s', stream)
       | None \<Rightarrow> fetch_next_batch push finish s' stream)"

text \<open>The stream of the reader: batches until there is none, or an error.\<close>

fun dedup_stream ::
  "('e, 'v, 's) push \<Rightarrow> ('e, 'v, 's) finish \<Rightarrow> nat \<Rightarrow> 's \<Rightarrow> ('e + 'v batch) list \<Rightarrow> ('e + 'v batch list) option" where
  "dedup_stream push finish 0 s stream = None"
| "dedup_stream push finish (Suc fuel) s stream =
     (case fetch_next_batch push finish s stream of
        Inl err \<Rightarrow> Some (Inl err)
      | Inr (None, _) \<Rightarrow> Some (Inr [])
      | Inr (Some batch, s', stream') \<Rightarrow>
          map_option (\<lambda>r. bind_result r (\<lambda>batches. Inr (batch # batches))) (dedup_stream push finish fuel s' stream'))"

end
