(* ===== verification/Read_Groups.thy ===== *)
theory Read_Groups
  imports Read_Dedup
begin

text \<open>
  Runs of rows with one key, the law of the Arrow kernels in terms of them, and what the
  deduplication of one batch computes: the first row of each run, or the row that combines a run.
\<close>

section \<open>Runs of equal keys\<close>

fun groups :: "('a \<Rightarrow> 'k) \<Rightarrow> 'a list \<Rightarrow> 'a list list" where
  "groups key [] = []"
| "groups key (x # xs) =
     (case groups key xs of
        [] \<Rightarrow> [[x]]
      | g # gs \<Rightarrow> if key x = key (hd g) then (x # g) # gs else [x] # g # gs)"

lemma concat_groups [simp]: "concat (groups key xs) = xs"
  by (induction xs) (auto split: list.splits)

lemma groups_Nil_iff [simp]: "groups key xs = [] \<longleftrightarrow> xs = []"
  by (cases xs) (auto split: list.splits)

lemma groups_nonempty: "g \<in> set (groups key xs) \<Longrightarrow> g \<noteq> []"
  by (induction xs arbitrary: g) (auto split: list.splits if_splits)

lemma groups_first:
  assumes "xs \<noteq> []"
  obtains g gs where "groups key xs = g # gs" and "g \<noteq> []" and "hd g = hd xs"
proof (cases "groups key xs")
  case (Cons g gs)
  moreover have "g \<noteq> []" using Cons groups_nonempty [of g key xs] by simp
  moreover have "xs = g @ concat gs" using Cons concat_groups [of key xs] by simp
  then have "hd g = hd xs" using \<open>g \<noteq> []\<close> by simp
  ultimately show thesis using that by blast
qed (use assms in simp)

lemma groups_same_key: "g \<in> set (groups key xs) \<Longrightarrow> x \<in> set g \<Longrightarrow> key x = key (hd g)"
  by (induction xs arbitrary: g x) (auto split: list.splits if_splits)

lemma groups_last:
  assumes "xs \<noteq> []"
  shows "last (last (groups key xs)) = last xs" and "last (groups key xs) \<noteq> []"
proof -
  have n: "groups key xs \<noteq> []" using assms by simp
  then show g: "last (groups key xs) \<noteq> []" using groups_nonempty [OF last_in_set] by blast
  have "concat (groups key xs) = concat (butlast (groups key xs) @ [last (groups key xs)])"
    unfolding append_butlast_last_id [OF n] ..
  then have "xs = concat (butlast (groups key xs)) @ last (groups key xs)" by simp
  from arg_cong [OF this, of last] g show "last (last (groups key xs)) = last xs" by simp
qed

lemma groups_last_key:
  assumes "xs \<noteq> []" and "x \<in> set (last (groups key xs))"
  shows "key x = key (last xs)"
proof -
  have g: "last (groups key xs) \<in> set (groups key xs)" using assms(1) by (intro last_in_set) simp
  have "last xs \<in> set (last (groups key xs))" using groups_last [OF assms(1), of key] last_in_set by metis
  with groups_same_key [OF g] assms(2) show ?thesis by metis
qed

lemma groups_append_other:
  "xs \<noteq> [] \<Longrightarrow> ys \<noteq> [] \<Longrightarrow> key (last xs) \<noteq> key (hd ys) \<Longrightarrow> groups key (xs @ ys) = groups key xs @ groups key ys"
proof (induction xs)
  case (Cons x xs)
  show ?case
  proof (cases "xs = []")
    case True
    obtain g gs where "groups key ys = g # gs" "hd g = hd ys" using groups_first [OF Cons.prems(2)] by metis
    with True Cons.prems(3) show ?thesis by simp
  next
    case False
    with Cons obtain g gs where "groups key xs = g # gs" "groups key (xs @ ys) = groups key xs @ groups key ys"
      by (cases "groups key xs") auto
    then show ?thesis by simp
  qed
qed simp

lemma groups_append_same:
  "xs \<noteq> [] \<Longrightarrow> ys \<noteq> [] \<Longrightarrow> key (last xs) = key (hd ys) \<Longrightarrow>
     groups key (xs @ ys) = butlast (groups key xs) @ (last (groups key xs) @ hd (groups key ys)) # tl (groups key ys)"
proof (induction xs)
  case (Cons x xs)
  show ?case
  proof (cases "xs = []")
    case True
    obtain g gs where "groups key ys = g # gs" "hd g = hd ys" using groups_first [OF Cons.prems(2)] by metis
    with True Cons.prems(3) show ?thesis by simp
  next
    case False
    then obtain g gs where g: "groups key xs = g # gs" "g \<noteq> []" using groups_first [of xs key] by metis
    have "groups key (xs @ ys) = butlast (groups key xs) @ (last (groups key xs) @ hd (groups key ys)) # tl (groups key ys)"
      using Cons False by simp
    with g show ?thesis by (cases gs) auto
  qed
qed simp

lemma groups_map: "groups id (map f xs) = map (map f) (groups f xs)"
proof (induction xs)
  case (Cons x xs)
  show ?case
  proof (cases "xs = []")
    case False
    then obtain g gs where g: "groups f xs = g # gs" "g \<noteq> []" using groups_first [of xs f] by metis
    with Cons show ?thesis by (simp add: hd_map)
  qed simp
qed simp

lemma groups_single: "successively (\<lambda>a b. key a \<noteq> key b) xs \<Longrightarrow> groups key xs = map (\<lambda>x. [x]) xs"
proof (induction xs)
  case (Cons x xs)
  then show ?case by (cases xs) auto
qed simp

text \<open>In a list that is sorted by key, all elements with one key are in one run.\<close>

lemma groups_keys_distinct:
  assumes "\<And>a b. le a b \<Longrightarrow> le b a \<Longrightarrow> a = b" and "sorted_wrt (\<lambda>a b. le (key a) (key b)) xs"
  shows "distinct (map (\<lambda>g. key (hd g)) (groups key xs))"
  using assms(2)
proof (induction xs)
  case (Cons x xs)
  show ?case
  proof (cases "xs = []")
    case False
    then obtain g gs where g: "groups key xs = g # gs" "hd g = hd xs" using groups_first [of xs key] by metis
    have d: "distinct (map (\<lambda>g. key (hd g)) (groups key xs))" using Cons by simp
    show ?thesis
    proof (cases "key x = key (hd g)")
      case True
      with d g(1) show ?thesis by simp
    next
      case other: False
      have "\<forall>h \<in> set (groups key xs). key (hd h) \<noteq> key x"
      proof (intro ballI notI)
        fix h
        assume h: "h \<in> set (groups key xs)"
        assume k: "key (hd h) = key x"
        have "hd h \<in> set (concat (groups key xs))" using h groups_nonempty [OF h] by (auto simp del: concat_groups intro!: bexI [of _ h])
        then have m: "hd h \<in> set xs" by simp
        then have "hd h = hd xs \<or> le (key (hd xs)) (key (hd h))" using Cons.prems False by (cases xs) auto
        moreover have "le (key x) (key (hd xs))" using Cons.prems False by (cases xs) auto
        ultimately show False using assms(1) k g(2) other by metis
      qed
      with d g(1) other show ?thesis by auto
    qed
  qed simp
qed simp

lemma groups_collect:
  assumes "distinct (map (\<lambda>g. key (hd g)) (groups key xs))" and g: "g \<in> set (groups key xs)" and "y \<in> set xs" and "key y = key (hd g)"
  shows "y \<in> set g"
proof -
  have "y \<in> set (concat (groups key xs))" using assms(3) by simp
  then obtain h where h: "h \<in> set (groups key xs)" "y \<in> set h" by (auto simp del: concat_groups)
  have "key (hd h) = key (hd g)" using groups_same_key [OF h] assms(4) by simp
  then have "h = g" using assms(1) h(1) g by (simp add: distinct_map inj_on_def)
  with h(2) show ?thesis by simp
qed

text \<open>The ranges of consecutive groups.\<close>

fun group_ranges :: "nat \<Rightarrow> 'a list list \<Rightarrow> (nat \<times> nat) list" where
  "group_ranges i [] = []"
| "group_ranges i (g # gs) = (i, i + length g) # group_ranges (i + length g) gs"

lemma group_ranges_map [simp]: "group_ranges i (map (map f) gs) = group_ranges i gs"
  by (induction gs arbitrary: i) auto

lemma length_group_ranges [simp]: "length (group_ranges i gs) = length gs"
  by (induction gs arbitrary: i) auto

lemma group_ranges_nth:
  "k < length gs \<Longrightarrow> group_ranges i gs ! k = (i + length (concat (take k gs)), i + length (concat (take (Suc k) gs)))"
proof (induction gs arbitrary: i k)
  case (Cons g gs)
  then show ?case by (cases k) auto
qed simp

lemma concat_take_nth:
  assumes "k < length gs" and "j < length (gs ! k)"
  shows "length (concat (take k gs)) + j < length (concat gs)" and "concat gs ! (length (concat (take k gs)) + j) = gs ! k ! j"
proof -
  have "concat gs = concat (take k gs) @ gs ! k @ concat (drop (Suc k) gs)"
    using assms(1) by (metis concat.simps(2) concat_append id_take_nth_drop)
  with assms(2) show "concat gs ! (length (concat (take k gs)) + j) = gs ! k ! j"
    "length (concat (take k gs)) + j < length (concat gs)"
    by (simp_all add: nth_append)
qed

lemma group_ranges_no_duplication:
  "[] \<notin> set gs \<Longrightarrow> sum_list (map (\<lambda>(start, end). end - start - 1) (group_ranges i gs)) = 0 \<Longrightarrow> \<forall>g \<in> set gs. length g = 1"
proof (induction gs arbitrary: i)
  case (Cons g gs)
  then show ?case by (cases g) auto
qed simp

lemma group_ranges_starts:
  assumes "[] \<notin> set gs"
  shows "map (\<lambda>i. concat gs ! i) (map fst (group_ranges 0 gs)) = map hd gs" and "\<forall>i \<in> set (map fst (group_ranges 0 gs)). i < length (concat gs)"
proof -
  have k: "0 < length (gs ! k)" if "k < length gs" for k using assms that nth_mem [OF that] by (cases "gs ! k") auto
  have r: "fst (group_ranges 0 gs ! k) = length (concat (take k gs)) + 0" if "k < length gs" for k
    using group_ranges_nth [OF that, of 0] by simp
  have e: "concat gs ! fst (group_ranges 0 gs ! k) = hd (gs ! k)" if "k < length gs" for k
    unfolding r [OF that] concat_take_nth(2) [OF that k [OF that]] using k [OF that] by (simp add: hd_conv_nth)
  have b: "fst (group_ranges 0 gs ! k) < length (concat gs)" if "k < length gs" for k
    unfolding r [OF that] by (rule concat_take_nth(1) [OF that k [OF that]])
  show "map (\<lambda>i. concat gs ! i) (map fst (group_ranges 0 gs)) = map hd gs" by (rule nth_equalityI) (simp_all add: e)
  show "\<forall>i \<in> set (map fst (group_ranges 0 gs)). i < length (concat gs)"
  proof
    fix i
    assume "i \<in> set (map fst (group_ranges 0 gs))"
    then obtain k where "k < length gs" "i = fst (group_ranges 0 gs ! k)" by (auto simp: in_set_conv_nth)
    with b show "i < length (concat gs)" by simp
  qed
qed

section \<open>The kernels\<close>

text \<open>
  What the Arrow documentation says of each kernel, on inputs of matching lengths and positions. The
  concatenation of batches is idealised: it may fail in Arrow when the offsets of a byte column
  exceed 32 bits.
\<close>

definition kernels_ok :: "('e, 'v) kernels \<Rightarrow> bool" where
  "kernels_ok ks \<longleftrightarrow>
     (\<forall>v1 v2. length v1 = length v2 \<longrightarrow> k_distinct ks v1 v2 = Inr (map2 (\<noteq>) v1 v2))
     \<and> (\<forall>keys. keys \<noteq> [] \<longrightarrow> k_partition ks keys = Inr (group_ranges 0 (groups id keys)))
     \<and> (\<forall>column positions. (\<forall>i \<in> set positions. i < length column) \<longrightarrow> k_take ks column positions = Inr (map (\<lambda>i. column ! i) positions))
     \<and> (\<forall>batch positions. (\<forall>i \<in> set positions. i < length batch)
          \<longrightarrow> k_take_record_batch ks batch positions = Inr (map (\<lambda>i. batch ! i) positions))
     \<and> (\<forall>batch mask. length mask = length batch \<longrightarrow> k_filter_record_batch ks batch mask = Inr (map fst (filter snd (zip batch mask))))
     \<and> (\<forall>batches. k_concat_batches ks batches = Inr (concat batches))"

lemma kernelsD:
  assumes "kernels_ok ks"
  shows "length v1 = length v2 \<Longrightarrow> k_distinct ks v1 v2 = Inr (map2 (\<noteq>) v1 v2)"
    and "keys \<noteq> [] \<Longrightarrow> k_partition ks keys = Inr (group_ranges 0 (groups id keys))"
    and "\<forall>i \<in> set positions. i < length column \<Longrightarrow> k_take ks column positions = Inr (map (\<lambda>i. column ! i) positions)"
    and "\<forall>i \<in> set positions. i < length batch \<Longrightarrow> k_take_record_batch ks batch positions = Inr (map (\<lambda>i. batch ! i) positions)"
    and "length selected = length batch \<Longrightarrow> k_filter_record_batch ks batch selected = Inr (map fst (filter snd (zip batch selected)))"
    and "k_concat_batches ks batches = Inr (concat batches)"
  using assms unfolding kernels_ok_def by blast+

definition kept :: "bool \<Rightarrow> 'v flat_row \<Rightarrow> bool" where
  "kept filter_deleted row \<longleftrightarrow> (filter_deleted \<longrightarrow> fr_op_type row \<noteq> OpDelete)"

definition opt_rows :: "'v batch option \<Rightarrow> 'v batch" where
  "opt_rows result = (case result of Some batch \<Rightarrow> batch | None \<Rightarrow> [])"

lemma opt_rows_simps [simp]: "opt_rows None = []" "opt_rows (Some batch) = batch"
  by (simp_all add: opt_rows_def)

lemma filter_zip_mask: "map fst (filter snd (zip xs (map P xs))) = filter P xs"
  by (induction xs) auto

lemma filter_deleted_ok:
  assumes "kernels_ok ks"
  shows "filter_deleted_from_batch ks batch = Inr (filter (kept True) batch)"
proof -
  have m: "map (\<lambda>op. op \<noteq> OpDelete) (map fr_op_type batch) = map (kept True) batch" by (simp add: kept_def)
  have "filter (kept True) batch = batch" if "\<not> (\<exists>op \<in> set (map fr_op_type batch). op \<noteq> OpPut)"
    using that by (auto simp: kept_def filter_id_conv)
  then show ?thesis unfolding filter_deleted_from_batch_def m by (auto simp: kernelsD(5) [OF assms] filter_zip_mask)
qed

lemma maybe_filter_ok:
  assumes "kernels_ok ks" and "batch \<noteq> []"
  obtains result where "maybe_filter_deleted ks batch filter_deleted = Inr result"
    and "opt_rows result = filter (kept filter_deleted) batch" and "result \<noteq> Some []"
proof (cases "filter_deleted")
  case True
  with that [of None] that [of "Some (filter (kept True) batch)"] show ?thesis
    by (cases "filter (kept True) batch = []") (auto simp: maybe_filter_deleted_def filter_deleted_ok [OF assms(1)])
next
  case False
  with that [of "Some batch"] assms(2) show ?thesis by (simp add: maybe_filter_deleted_def kept_def)
qed

lemma boundaries_all:
  assumes "length xs = length ys" and "length (filter id (map2 (\<noteq>) xs ys)) = length xs" and "i < length xs"
  shows "xs ! i \<noteq> ys ! i"
proof (rule ccontr)
  assume "\<not> xs ! i \<noteq> ys ! i"
  then have i: "\<not> id (map2 (\<noteq>) xs ys ! i)" "i < length (map2 (\<noteq>) xs ys)" using assms(1,3) by simp_all
  have "length (filter id (map2 (\<noteq>) xs ys)) < length (map2 (\<noteq>) xs ys)"
    using length_filter_less [OF nth_mem [OF i(2)], of id] i(1) by simp
  with assms(1,2) show False by (simp only: length_map length_zip min.idem)
qed

lemma boundaries_single:
  assumes "kernels_ok ks" and "batch \<noteq> []" and "find_boundaries ks (map fr_timestamp batch) = Inr bounds"
    and "length (filter id bounds) = length batch - 1"
  shows "groups row_key batch = map (\<lambda>row. [row]) batch"
proof (rule groups_single)
  let ?ts = "map fr_timestamp batch"
  have m: "bounds = map2 (\<noteq>) (take (length ?ts - 1) ?ts) (drop 1 ?ts)"
    using assms(3) by (simp add: find_boundaries_def kernelsD(1) [OF assms(1)])
  have "?ts ! i \<noteq> ?ts ! Suc i" if "Suc i < length batch" for i
    using boundaries_all [of "take (length ?ts - 1) ?ts" "drop 1 ?ts" i] assms(4) that unfolding m by simp
  then have "row_key (batch ! i) \<noteq> row_key (batch ! Suc i)" if "Suc i < length batch" for i
    using that by (simp add: row_key_def)
  then show "successively (\<lambda>a b. row_key a \<noteq> row_key b) batch" unfolding successively_conv_nth by blast
qed

lemma find_boundaries_ok: "kernels_ok ks \<Longrightarrow> \<exists>bounds. find_boundaries ks v = Inr bounds"
  by (simp add: find_boundaries_def kernelsD(1))

lemma partition_ok: "kernels_ok ks \<Longrightarrow> batch \<noteq> [] \<Longrightarrow> k_partition ks (map row_key batch) = Inr (group_ranges 0 (groups row_key batch))"
  by (simp add: kernelsD(2) groups_map)

lemma groups_no_empty: "[] \<notin> set (groups key xs)"
  using groups_nonempty by fastforce

lemma all_single: "\<forall>g \<in> set gs. length g = 1 \<Longrightarrow> gs = map (\<lambda>x. [x]) (concat gs)"
proof (induction gs)
  case (Cons g gs)
  then show ?case by (cases g) auto
qed simp

lemma short_single: "length batch < 2 \<Longrightarrow> groups key batch = map (\<lambda>x. [x]) batch"
  by (cases batch) auto

lemma no_duplication_single:
  "sum_list (map (\<lambda>(start, end). end - start - 1) (group_ranges 0 (groups key xs))) = 0 \<Longrightarrow> groups key xs = map (\<lambda>x. [x]) xs"
  using all_single [OF group_ranges_no_duplication [OF groups_no_empty]] unfolding concat_groups .

section \<open>One batch\<close>

lemma take_starts:
  assumes "kernels_ok ks"
  shows "k_take_record_batch ks batch (map fst (group_ranges 0 (groups row_key batch))) = Inr (map hd (groups row_key batch))"
proof -
  note starts = group_ranges_starts [OF groups_no_empty, of row_key batch, unfolded concat_groups]
  show ?thesis unfolding kernelsD(4) [OF assms starts(2)] starts(1) ..
qed

lemma lr_dedup_one_batch_ok:
  assumes "kernels_ok ks"
  shows "lr_dedup_one_batch ks batch = Inr (map hd (groups row_key batch))"
proof (cases "length batch < 2")
  case True
  then show ?thesis by (simp add: lr_dedup_one_batch_def short_single comp_def)
next
  case False
  then have n: "batch \<noteq> []" by auto
  obtain bounds where m: "find_boundaries ks (map fr_timestamp batch) = Inr bounds" using find_boundaries_ok [OF assms] by blast
  show ?thesis
  proof (cases "length (filter id bounds) = length batch - 1")
    case True
    with False m boundaries_single [OF assms n m] show ?thesis by (simp add: lr_dedup_one_batch_def comp_def)
  next
    case dup: False
    show ?thesis
      using False m dup partition_ok [OF assms n] no_duplication_single [of row_key batch] take_starts [OF assms, of batch]
      by (auto simp: lr_dedup_one_batch_def lr_dedup_by_partitions_def comp_def)
  qed
qed

text \<open>
  The row of a run with the last non-null fields: each field is the first value that is not null in
  the rows before a delete, and the value of the first row when there is none.
\<close>

fun pick :: "'v option \<Rightarrow> nat \<Rightarrow> 'v flat_row list \<Rightarrow> 'v option" where
  "pick d c [] = d"
| "pick d c (row # rows) =
     (if fr_op_type row = OpDelete then d
      else if fr_fields row ! c \<noteq> None then fr_fields row ! c
      else pick d c rows)"

definition merge_group :: "'v flat_row list \<Rightarrow> 'v flat_row" where
  "merge_group g = (hd g)\<lparr>fr_fields := map (\<lambda>c. pick (fr_fields (hd g) ! c) c g) [0..<length (fr_fields (hd g))]\<rparr>"

definition has_delete :: "'v flat_row list \<Rightarrow> bool" where
  "has_delete g \<longleftrightarrow> (\<exists>row \<in> set g. fr_op_type row = OpDelete)"

definition combine :: "bool \<Rightarrow> 'v flat_row list list \<Rightarrow> 'v flat_row list" where
  "combine first_contains_delete gs =
     (case gs of [] \<Rightarrow> [] | g # gs' \<Rightarrow> (if first_contains_delete then hd g else merge_group g) # map merge_group gs')"

definition width :: "nat \<Rightarrow> 'v flat_row list \<Rightarrow> bool" where
  "width n rows \<longleftrightarrow> (\<forall>row \<in> set rows. length (fr_fields row) = n)"

lemma merge_group_single [simp]: "merge_group [row] = row"
proof -
  have "map (\<lambda>c. pick (fr_fields row ! c) c [row]) [0..<length (fr_fields row)] = fr_fields row"
    by (rule nth_equalityI) auto
  then show ?thesis by (simp add: merge_group_def)
qed

lemma merge_group_sel [simp]:
  "row_key (merge_group g) = row_key (hd g)" "fr_op_type (merge_group g) = fr_op_type (hd g)"
  "length (fr_fields (merge_group g)) = length (fr_fields (hd g))"
  by (simp_all add: merge_group_def row_key_def)

lemma merge_group_field: "c < length (fr_fields (hd g)) \<Longrightarrow> fr_fields (merge_group g) ! c = pick (fr_fields (hd g) ! c) c g"
  by (simp add: merge_group_def)

lemma field_index_loop_in: "field_index_loop v is column ops = v \<or> field_index_loop v is column ops \<in> set is"
  by (induction "is") auto

lemma field_index_loop_pick:
  "\<forall>i \<in> set is. i < length batch \<Longrightarrow>
     field_column batch c ! field_index_loop v is (field_column batch c) (map fr_op_type batch)
       = pick (field_column batch c ! v) c (map (\<lambda>i. batch ! i) is)"
  by (induction "is") (auto simp: field_column_def)

lemma map_nth_range:
  assumes "k < length gs"
  shows "map (\<lambda>i. concat gs ! i) [length (concat (take k gs))..<length (concat (take (Suc k) gs))] = gs ! k"
proof (rule nth_equalityI)
  have t: "length (concat (take (Suc k) gs)) = length (concat (take k gs)) + length (gs ! k)"
    using assms by (simp add: take_Suc_conv_app_nth)
  then show "length (map (\<lambda>i. concat gs ! i) [length (concat (take k gs))..<length (concat (take (Suc k) gs))]) = length (gs ! k)" by simp
  fix j
  assume "j < length (map (\<lambda>i. concat gs ! i) [length (concat (take k gs))..<length (concat (take (Suc k) gs))])"
  with t concat_take_nth(2) [OF assms, of j]
  show "map (\<lambda>i. concat gs ! i) [length (concat (take k gs))..<length (concat (take (Suc k) gs))] ! j = gs ! k ! j" by simp
qed

lemma range_bound: "k < length gs \<Longrightarrow> length (concat (take (Suc k) gs)) \<le> length (concat gs)"
  by (metis append_take_drop_id concat_append length_append le_add1)

text \<open>The columns that are taken at the computed positions hold the fields of the combined rows.\<close>

lemma compute_field_indices_ok:
  assumes "gs = groups row_key batch" and "width n batch" and "c < n"
  shows "\<forall>i \<in> set (compute_field_indices (group_ranges 0 gs) (field_column batch c) (map fr_op_type batch) first). i < length (field_column batch c)"
    and "k < length gs \<Longrightarrow>
      field_column batch c ! (compute_field_indices (group_ranges 0 gs) (field_column batch c) (map fr_op_type batch) first ! k)
        = fr_fields (combine first gs ! k) ! c"
proof -
  have cg: "concat gs = batch" and ne: "[] \<notin> set gs" using assms(1) groups_no_empty by simp_all
  let ?ix = "compute_field_indices (group_ranges 0 gs) (field_column batch c) (map fr_op_type batch) first"
  have len: "length ?ix = length gs" by (simp add: compute_field_indices_def)
  have main: "?ix ! k < length batch \<and> field_column batch c ! (?ix ! k) = fr_fields (combine first gs ! k) ! c" if k: "k < length gs" for k
  proof -
    let ?s = "length (concat (take k gs))" and ?e = "length (concat (take (Suc k) gs))"
    have g: "0 < length (gs ! k)" using ne nth_mem [OF k] by (cases "gs ! k") auto
    have s: "?s < length batch" "batch ! ?s = hd (gs ! k)"
      using concat_take_nth [OF k g] g unfolding cg by (simp_all add: hd_conv_nth)
    have e: "\<forall>i \<in> set [?s..<?e]. i < length batch" using range_bound [OF k] unfolding cg by auto
    have w: "length (fr_fields (hd (gs ! k))) = n" using assms(2) s nth_mem [OF s(1)] by (simp add: width_def)
    have col: "field_column batch c ! ?s = fr_fields (hd (gs ! k)) ! c" using s by (simp add: field_column_def)
    have ix: "?ix ! k = (if k = 0 \<and> first then ?s else field_index_loop ?s [?s..<?e] (field_column batch c) (map fr_op_type batch))"
      using k by (simp add: compute_field_indices_def nth_enumerate_eq group_ranges_nth)
    have comb: "combine first gs ! k = (if k = 0 \<and> first then hd (gs ! k) else merge_group (gs ! k))"
      using k by (cases gs; cases k) (simp_all add: combine_def)
    have "field_column batch c ! field_index_loop ?s [?s..<?e] (field_column batch c) (map fr_op_type batch)
        = fr_fields (merge_group (gs ! k)) ! c"
      unfolding field_index_loop_pick [OF e] col map_nth_range [OF k, unfolded cg] using merge_group_field [of c "gs ! k"] w assms(3) by simp
    moreover have "field_index_loop ?s [?s..<?e] (field_column batch c) (map fr_op_type batch) < length batch"
      using field_index_loop_in [of ?s "[?s..<?e]"] s(1) e by metis
    ultimately show ?thesis unfolding ix comb using s(1) col by auto
  qed
  then show "k < length gs \<Longrightarrow> field_column batch c ! (?ix ! k) = fr_fields (combine first gs ! k) ! c" by blast
  show "\<forall>i \<in> set ?ix. i < length (field_column batch c)"
    using main len by (auto simp: in_set_conv_nth field_column_def)
qed

lemma collect_results_Inr: "collect_results (map (\<lambda>c. Inr (f c)) cs) = Inr (map f cs)"
  by (induction cs) auto

lemma combine_nth:
  assumes "k < length gs"
  shows "combine first gs ! k = (if k = 0 \<and> first then hd (gs ! k) else merge_group (gs ! k))"
  using assms by (cases gs; cases k) (simp_all add: combine_def)

lemma length_combine [simp]: "length (combine first gs) = length gs"
  by (cases gs) (simp_all add: combine_def)

lemma combine_fields:
  assumes "gs = groups row_key batch" and "width n batch" and "k < length gs"
  shows "combine first gs ! k = (hd (gs ! k))\<lparr>fr_fields := fr_fields (combine first gs ! k)\<rparr>"
    and "length (fr_fields (combine first gs ! k)) = n"
proof -
  have m: "gs ! k \<in> set (groups row_key batch)" using assms(1) nth_mem [OF assms(3)] by simp
  have "hd (gs ! k) \<in> set (concat (groups row_key batch))" using m groups_nonempty [OF m] by (auto simp del: concat_groups intro!: bexI [of _ "gs ! k"])
  then have "hd (gs ! k) \<in> set batch" by simp
  then have "length (fr_fields (hd (gs ! k))) = n" using assms(2) by (simp add: width_def)
  then show "length (fr_fields (combine first gs ! k)) = n" using combine_nth [OF assms(3), of first] by auto
  show "combine first gs ! k = (hd (gs ! k))\<lparr>fr_fields := fr_fields (combine first gs ! k)\<rparr>"
    using combine_nth [OF assms(3), of first] by (simp add: merge_group_def)
qed

lemma combine_single [simp]: "combine first (map (\<lambda>row. [row]) rows) = rows"
  by (cases rows) (simp_all add: combine_def comp_def)

lemma last_range_has_delete_ok:
  assumes "gs = groups row_key batch" and "batch \<noteq> []"
  shows "last_range_has_delete (group_ranges 0 gs) (map fr_op_type batch) = has_delete (last gs)"
proof -
  have cg: "concat gs = batch" and gs: "gs \<noteq> []" using assms by simp_all
  let ?k = "length gs - 1"
  have k: "?k < length gs" using gs by simp
  let ?s = "length (concat (take ?k gs))" and ?e = "length (concat (take (Suc ?k) gs))"
  have l: "last gs = map (\<lambda>i. batch ! i) [?s..<?e]" using map_nth_range [OF k] gs unfolding cg by (simp add: last_conv_nth)
  have g: "group_ranges 0 gs \<noteq> []" using gs by (cases gs) auto
  have "last (group_ranges 0 gs) = (?s, ?e)"
    using last_conv_nth [OF g] group_ranges_nth [OF k, of 0] by simp
  moreover have "i < length batch" if "i < ?e" for i using range_bound [OF k] that unfolding cg by simp
  ultimately show ?thesis using g unfolding last_range_has_delete_def l has_delete_def by auto
qed

lemma nn_dedup_by_partitions_ok:
  assumes "kernels_ok ks" and "batch \<noteq> []" and "width n batch" and gs: "gs = groups row_key batch"
  shows "nn_dedup_by_partitions ks batch (group_ranges 0 gs) (map fr_op_type batch) first = Inr (combine first gs, has_delete (last gs))"
proof (cases "sum_list (map (\<lambda>(start, end). end - start - 1) (group_ranges 0 gs)) = 0")
  case True
  then have "gs = map (\<lambda>x. [x]) batch" using no_duplication_single gs by metis
  with True show ?thesis using last_range_has_delete_ok [OF gs assms(2)] by (simp add: nn_dedup_by_partitions_def Let_def)
next
  case False
  let ?ix = "\<lambda>c. compute_field_indices (group_ranges 0 gs) (field_column batch c) (map fr_op_type batch) first"
  let ?column = "\<lambda>c. map (\<lambda>i. field_column batch c ! i) (?ix c)"
  have n: "length (fr_fields (hd batch)) = n" using assms(2,3) by (simp add: width_def)
  have c: "map (\<lambda>c. k_take ks (field_column batch c) (?ix c)) [0..<n] = map (\<lambda>c. Inr (?column c)) [0..<n]"
    by (rule map_cong) (auto intro!: kernelsD(3) [OF assms(1)] compute_field_indices_ok(1) [OF gs assms(3)])
  have t: "k_take_record_batch ks batch (map fst (group_ranges 0 gs)) = Inr (map hd gs)" using take_starts [OF assms(1)] gs by simp
  have rows: "map (\<lambda>(i, row). row\<lparr>fr_fields := map (\<lambda>column. column ! i) (map ?column [0..<n])\<rparr>) (enumerate 0 (map hd gs)) = combine first gs"
  proof (rule nth_equalityI)
    fix k
    assume "k < length (map (\<lambda>(i, row). row\<lparr>fr_fields := map (\<lambda>column. column ! i) (map ?column [0..<n])\<rparr>) (enumerate 0 (map hd gs)))"
    then have k: "k < length gs" by simp
    have len: "length (?ix c) = length gs" for c by (simp add: compute_field_indices_def)
    have "map (\<lambda>column. column ! k) (map ?column [0..<n]) = fr_fields (combine first gs ! k)"
      by (rule nth_equalityI) (use combine_fields(2) [OF gs assms(3) k] k len compute_field_indices_ok(2) [OF gs assms(3) _ k] in auto)
    then show "map (\<lambda>(i, row). row\<lparr>fr_fields := map (\<lambda>column. column ! i) (map ?column [0..<n])\<rparr>) (enumerate 0 (map hd gs)) ! k
        = combine first gs ! k"
      using combine_fields(1) [OF gs assms(3) k, of first] k by (simp add: nth_enumerate_eq)
  qed simp
  show ?thesis
    unfolding nn_dedup_by_partitions_def Let_def if_not_P [OF False] n c collect_results_Inr bind_result_simps t rows
      last_range_has_delete_ok [OF gs assms(2)] ..
qed

lemma nn_dedup_one_batch_ok:
  assumes "kernels_ok ks" and "batch \<noteq> []" and "width n batch"
  shows "nn_dedup_one_batch ks batch first = Inr (combine first (groups row_key batch), has_delete (last (groups row_key batch)))"
proof -
  have single: ?thesis if s: "groups row_key batch = map (\<lambda>row. [row]) batch"
    and r: "nn_dedup_one_batch ks batch first = Inr (batch, fr_op_type (last batch) = OpDelete)"
    unfolding r s using assms(2) by (simp add: last_map has_delete_def)
  show ?thesis
  proof (cases "length batch < 2")
    case True
    then obtain row where "batch = [row]" using assms(2) by (cases batch) auto
    then show ?thesis by (simp add: nn_dedup_one_batch_def combine_def has_delete_def)
  next
    case False
    obtain bounds where m: "find_boundaries ks (map fr_timestamp batch) = Inr bounds" using find_boundaries_ok [OF assms(1)] by blast
    show ?thesis
    proof (cases "length (filter id bounds) = length batch - 1")
      case True
      with False m assms(2) show ?thesis
        by (intro single boundaries_single [OF assms(1,2) m True]) (simp add: nn_dedup_one_batch_def Let_def last_conv_nth)
    next
      case dup: False
      with False m partition_ok [OF assms(1,2)] nn_dedup_by_partitions_ok [OF assms refl] show ?thesis
        by (simp add: nn_dedup_one_batch_def Let_def)
    qed
  qed
qed

section \<open>Kernels that compute\<close>

definition arrow_kernels :: "('e, 'v) kernels" where
  "arrow_kernels =
     \<lparr>k_distinct = (\<lambda>v1 v2. Inr (map2 (\<noteq>) v1 v2)),
      k_partition = (\<lambda>keys. Inr (group_ranges 0 (groups id keys))),
      k_take = (\<lambda>column positions. Inr (map (\<lambda>i. column ! i) positions)),
      k_take_record_batch = (\<lambda>batch positions. Inr (map (\<lambda>i. batch ! i) positions)),
      k_filter_record_batch = (\<lambda>batch selected. Inr (map fst (filter snd (zip batch selected)))),
      k_concat_batches = (\<lambda>batches. Inr (concat batches))\<rparr>"

lemma arrow_kernels_ok [simp]: "kernels_ok arrow_kernels"
  by (simp add: kernels_ok_def arrow_kernels_def)

end
