(* ===== verification/Read_Strategy.thy ===== *)
theory Read_Strategy
  imports Read_Groups
begin

text \<open>
  The contract of a strategy for duplicates (\<open>RecordBatchDedupStrategy\<close> in
  \<open>src/src/mito2/src/read/flat_dedup.rs\<close>), what the reader gets from it, and that both strategies keep it.
\<close>

section \<open>The contract\<close>

fun admissible_run :: "('v batch \<Rightarrow> 'v batch \<Rightarrow> bool) \<Rightarrow> 'v batch \<Rightarrow> 'v batch list \<Rightarrow> bool" where
  "admissible_run admissible seen [] \<longleftrightarrow> True"
| "admissible_run admissible seen (batch # batches) \<longleftrightarrow>
     admissible seen batch \<and> admissible_run admissible (seen @ batch) batches"

text \<open>
  The invariant relates the rows pushed and the rows returned to the state; at the end the rows
  returned are those of the specification. Which batches may follow depends on the rows before.
\<close>

locale dedup_strategy =
  fixes push :: "('e, 'v, 's) push" and finish :: "('e, 'v, 's) finish" and init :: 's
    and admissible :: "'v batch \<Rightarrow> 'v batch \<Rightarrow> bool" and spec :: "'v batch \<Rightarrow> 'v batch"
    and inv :: "'v batch \<Rightarrow> 'v batch \<Rightarrow> 's \<Rightarrow> bool"
  assumes inv_new: "inv [] [] init"
    and inv_push: "inv seen out s \<Longrightarrow> admissible seen batch \<Longrightarrow>
      \<exists>result s'. push s batch = Inr (result, s') \<and> result \<noteq> Some [] \<and> inv (seen @ batch) (out @ opt_rows result) s'"
    and inv_finish: "inv seen out s \<Longrightarrow>
      \<exists>result s'. finish s = Inr (result, s') \<and> result \<noteq> Some [] \<and> out @ opt_rows result = spec seen \<and> finish s' = Inr (None, s')"
begin

lemma fetch_ok:
  assumes "inv seen out s" and "admissible_run admissible seen batches"
  shows "(\<exists>used batch rest s'. fetch_next_batch push finish s (map Inr batches) = Inr (Some batch, s', map Inr rest)
       \<and> batches = used @ rest \<and> used \<noteq> [] \<and> batch \<noteq> [] \<and> inv (seen @ concat used) (out @ batch) s'
       \<and> admissible_run admissible (seen @ concat used) rest)
    \<or> (\<exists>result s'. fetch_next_batch push finish s (map Inr batches) = Inr (result, s', [])
       \<and> result \<noteq> Some [] \<and> out @ opt_rows result = spec (seen @ concat batches) \<and> finish s' = Inr (None, s'))"
  using assms
proof (induction batches arbitrary: seen s)
  case Nil
  with inv_finish [of seen out s] show ?case by fastforce
next
  case (Cons b batches)
  have a: "admissible seen b" "admissible_run admissible (seen @ b) batches" using Cons.prems(2) by simp_all
  obtain result s1 where p: "push s b = Inr (result, s1)" "result \<noteq> Some []" "inv (seen @ b) (out @ opt_rows result) s1"
    using inv_push [OF Cons.prems(1) a(1)] by blast
  show ?case
  proof (cases result)
    case None
    with p(3) have i: "inv (seen @ b) out s1" by simp
    have f: "fetch_next_batch push finish s (map Inr (b # batches)) = fetch_next_batch push finish s1 (map Inr batches)"
      using p(1) None by simp
    from Cons.IH [OF i a(2)] show ?thesis
    proof (elim disjE exE conjE)
      fix used batch rest s'
      assume "fetch_next_batch push finish s1 (map Inr batches) = Inr (Some batch, s', map Inr rest)" "batches = used @ rest"
        "batch \<noteq> []" "inv ((seen @ b) @ concat used) (out @ batch) s'" "admissible_run admissible ((seen @ b) @ concat used) rest"
      note r = this
      show ?thesis
        by (rule disjI1, rule exI [of _ "b # used"], rule exI [of _ batch], rule exI [of _ rest], rule exI [of _ s']) (use r f in simp)
    qed (use f in simp)
  next
    case (Some batch)
    show ?thesis
      by (rule disjI1, rule exI [of _ "[b]"], rule exI [of _ batch], rule exI [of _ batches], rule exI [of _ s1]) (use p a Some in simp)
  qed
qed

lemma stream_from:
  assumes "inv seen out s" and "admissible_run admissible seen batches" and "length batches + 1 < fuel"
  shows "\<exists>results. dedup_stream push finish fuel s (map Inr batches) = Some (Inr results)
    \<and> [] \<notin> set results \<and> out @ concat results = spec (seen @ concat batches)"
  using assms
proof (induction fuel arbitrary: seen out s batches)
  case (Suc fuel)
  from fetch_ok [OF Suc.prems(1,2)] show ?case
  proof (elim disjE exE conjE)
    fix used batch rest s'
    assume f: "fetch_next_batch push finish s (map Inr batches) = Inr (Some batch, s', map Inr rest)" "batches = used @ rest" "used \<noteq> []"
      "batch \<noteq> []" "inv (seen @ concat used) (out @ batch) s'" "admissible_run admissible (seen @ concat used) rest"
    have "length rest + 1 < fuel" using f(2,3) Suc.prems(3) by (cases used) auto
    from Suc.IH [OF f(5,6) this] obtain results where "dedup_stream push finish fuel s' (map Inr rest) = Some (Inr results)"
      "[] \<notin> set results" "(out @ batch) @ concat results = spec ((seen @ concat used) @ concat rest)" by blast
    with f show ?thesis by (intro exI [of _ "batch # results"]) simp
  next
    fix result s'
    assume f: "fetch_next_batch push finish s (map Inr batches) = Inr (result, s', [])" "result \<noteq> Some []"
      "out @ opt_rows result = spec (seen @ concat batches)" "finish s' = Inr (None, s')"
    show ?thesis
    proof (cases result)
      case None
      with f show ?thesis by simp
    next
      case (Some batch)
      obtain k where "fuel = Suc k" using Suc.prems(3) by (cases fuel) auto
      with f Some show ?thesis by (intro exI [of _ "[batch]"]) simp
    qed
  qed
qed simp

lemma stream_ok:
  assumes "admissible_run admissible [] batches" and "length batches + 1 < fuel"
  shows "\<exists>results. dedup_stream push finish fuel init (map Inr batches) = Some (Inr results)
    \<and> [] \<notin> set results \<and> concat results = spec (concat batches)"
  using stream_from [OF inv_new assms] by simp

end

section \<open>The last row\<close>

definition last_row_spec :: "bool \<Rightarrow> 'v batch \<Rightarrow> 'v batch" where
  "last_row_spec filter_deleted rows = filter (kept filter_deleted) (map hd (groups row_key rows))"

definition lr_inv :: "bool \<Rightarrow> 'v batch \<Rightarrow> 'v batch \<Rightarrow> 'v flat_last_row \<Rightarrow> bool" where
  "lr_inv filter_deleted seen out s \<longleftrightarrow>
     lr_filter_deleted s = filter_deleted \<and> out = last_row_spec filter_deleted seen
     \<and> (case lr_prev_batch s of
          None \<Rightarrow> seen = []
        | Some prev_batch \<Rightarrow> prev_batch \<noteq> [] \<and> seen \<noteq> [] \<and> row_key (last prev_batch) = row_key (last seen))"

lemma duplicated_iff: "batch \<noteq> [] \<Longrightarrow> is_last_row_duplicated prev_batch batch \<longleftrightarrow> row_key (last prev_batch) = row_key (hd batch)"
  by (auto simp: is_last_row_duplicated_def row_key_def)

text \<open>The first rows of the runs of a longer stream.\<close>

lemma heads_append:
  assumes "seen \<noteq> []" and "batch \<noteq> []"
  shows "map hd (groups row_key (seen @ batch)) = map hd (groups row_key seen)
    @ (if row_key (last seen) = row_key (hd batch) then drop 1 (map hd (groups row_key batch)) else map hd (groups row_key batch))"
proof (cases "row_key (last seen) = row_key (hd batch)")
  case True
  have "hd (last (groups row_key seen) @ hd (groups row_key batch)) = hd (last (groups row_key seen))"
    using groups_last(2) [OF assms(1), of row_key] by simp
  moreover have "map hd (groups row_key seen) = map hd (butlast (groups row_key seen)) @ [hd (last (groups row_key seen))]"
    using assms(1) by (metis append_butlast_last_id groups_Nil_iff list.simps(8,9) map_append)
  ultimately show ?thesis using True groups_append_same [OF assms True] by (simp add: drop_Suc map_tl)
next
  case False
  with groups_append_other [OF assms False] show ?thesis by simp
qed

lemma heads_last:
  assumes "batch \<noteq> []"
  shows "row_key (last (map hd (groups row_key batch))) = row_key (last batch)" and "row_key (hd (map hd (groups row_key batch))) = row_key (hd batch)"
proof -
  have "hd (last (groups row_key batch)) \<in> set (last (groups row_key batch))" using groups_last(2) [OF assms, of row_key] by simp
  from groups_last_key [OF assms this] show "row_key (last (map hd (groups row_key batch))) = row_key (last batch)"
    using assms by (simp add: last_map)
  obtain g gs where "groups row_key batch = g # gs" "hd g = hd batch" using groups_first [OF assms] by metis
  then show "row_key (hd (map hd (groups row_key batch))) = row_key (hd batch)" by simp
qed

lemma lr_push_batch_ok:
  assumes "kernels_ok ks" and "lr_inv filter_deleted seen out s"
  shows "\<exists>result s'. lr_push_batch ks s batch = Inr (result, s') \<and> result \<noteq> Some [] \<and> lr_inv filter_deleted (seen @ batch) (out @ opt_rows result) s'"
proof (cases "batch = []")
  case True
  with assms(2) show ?thesis by (simp add: lr_push_batch_def)
next
  case False
  let ?h = "map hd (groups row_key batch)"
  have h: "?h \<noteq> []" using False by simp
  let ?dup = "seen \<noteq> [] \<and> row_key (last seen) = row_key (hd batch)"
  define new where "new = (if ?dup then drop 1 ?h else ?h)"
  have heads: "map hd (groups row_key (seen @ batch)) = map hd (groups row_key seen) @ new"
    using heads_append [OF _ False, of seen] by (cases "seen = []") (auto simp: new_def)
  have new: "(case lr_prev_batch s of Some prev_batch \<Rightarrow> if is_last_row_duplicated prev_batch ?h then drop 1 ?h else ?h | None \<Rightarrow> ?h) = new"
    using assms(2) heads_last(2) [OF False] by (auto simp: new_def lr_inv_def duplicated_iff [OF h] simp del: list.map split: option.splits)
  have step: "lr_push_batch ks s batch = (case try_new new of None \<Rightarrow> Inr (None, s)
      | Some b \<Rightarrow> bind_result (maybe_filter_deleted ks new (lr_filter_deleted s)) (\<lambda>result. Inr (result, s\<lparr>lr_prev_batch := Some b\<rparr>)))"
    using False unfolding lr_push_batch_def lr_dedup_one_batch_ok [OF assms(1)] bind_result_simps Let_def new by simp
  show ?thesis
  proof (cases "new = []")
    case True
    then have d: ?dup "drop 1 ?h = []" using h by (auto simp: new_def split: if_splits)
    obtain x where x: "?h = [x]" using h d(2) by (metis append_Nil2 append_take_drop_id length_Cons list.size(3) neq_Nil_conv take_0 take_Suc_Cons One_nat_def)
    have "row_key (last batch) = row_key (last seen)" using heads_last [OF False] d(1) unfolding x by simp
    with True assms(2) d heads show ?thesis unfolding step by (auto simp: lr_inv_def try_new_def last_row_spec_def False split: option.splits)
  next
    case n: False
    obtain result where r: "maybe_filter_deleted ks new filter_deleted = Inr result" "opt_rows result = filter (kept filter_deleted) new" "result \<noteq> Some []"
      using maybe_filter_ok [OF assms(1) n] .
    have "last new = last ?h" using n h by (auto simp: new_def last_drop)
    then have "row_key (last new) = row_key (last batch)" using heads_last(1) [OF False] by simp
    with r n False assms(2) heads show ?thesis unfolding step
      by (auto simp: lr_inv_def try_new_def last_row_spec_def)
  qed
qed

lemma lr_strategy:
  fixes ks :: "('e, 'v) kernels"
  assumes "kernels_ok ks"
  shows "dedup_strategy (lr_push_batch ks) lr_finish (last_row_new filter_deleted) (\<lambda>_ _. True) (last_row_spec filter_deleted) (lr_inv filter_deleted)"
proof
  show "lr_inv filter_deleted [] [] (last_row_new filter_deleted)" by (simp add: lr_inv_def last_row_new_def last_row_spec_def)
next
  fix seen out :: "'v batch" and s batch
  assume i: "lr_inv filter_deleted seen out s"
  from lr_push_batch_ok [OF assms i]
  show "\<exists>result s'. lr_push_batch ks s batch = Inr (result, s') \<and> result \<noteq> Some [] \<and> lr_inv filter_deleted (seen @ batch) (out @ opt_rows result) s'" .
  show "\<exists>result s'. lr_finish s = Inr (result, s') \<and> result \<noteq> Some [] \<and> out @ opt_rows result = last_row_spec filter_deleted seen
      \<and> lr_finish s' = Inr (None, s')"
    using i by (simp add: lr_finish_def lr_inv_def)
qed

section \<open>The last non-null fields\<close>

definition last_non_null_spec :: "bool \<Rightarrow> 'v batch \<Rightarrow> 'v batch" where
  "last_non_null_spec filter_deleted rows = filter (kept filter_deleted) (map merge_group (groups row_key rows))"

text \<open>
  The batches on which the strategy is right: the rows have one number of fields, and a batch that
  lies within the run that the rows before it end with does not follow a delete inside that run.
\<close>

definition nn_admissible :: "nat \<Rightarrow> 'v batch \<Rightarrow> 'v batch \<Rightarrow> bool" where
  "nn_admissible n seen batch \<longleftrightarrow>
     width n batch
     \<and> (seen \<noteq> [] \<and> batch \<noteq> [] \<and> (\<forall>row \<in> set batch. row_key row = row_key (last seen))
          \<longrightarrow> \<not> has_delete (tl (last (groups row_key seen))))"

definition nn_inv :: "nat \<Rightarrow> bool \<Rightarrow> 'v batch \<Rightarrow> 'v batch \<Rightarrow> 'v flat_last_non_null \<Rightarrow> bool" where
  "nn_inv n filter_deleted seen out s \<longleftrightarrow>
     nn_filter_deleted s = filter_deleted
     \<and> (case nn_buffer s of
          None \<Rightarrow> seen = [] \<and> out = []
        | Some buffer \<Rightarrow>
            seen \<noteq> [] \<and> width n seen \<and> buffer \<noteq> [] \<and> nn_contains_delete s = has_delete (last (groups row_key seen))
            \<and> (\<exists>returned. map merge_group (groups row_key seen) = returned @ buffer \<and> out = filter (kept filter_deleted) returned))"

lemma width_append [simp]: "width n (xs @ ys) \<longleftrightarrow> width n xs \<and> width n ys"
  by (auto simp: width_def)

lemma pick_stop: "has_delete g1 \<Longrightarrow> pick d c (g1 @ g2) = pick d c g1"
  by (induction g1) (auto simp: has_delete_def)

lemma pick_append:
  "\<not> has_delete g1 \<Longrightarrow>
     pick d c (g1 @ g2) = (if \<forall>row \<in> set g1. fr_fields row ! c = None then pick d c g2 else pick d c g1)"
  by (induction g1) (auto simp: has_delete_def)

lemma pick_some: "\<not> has_delete g \<Longrightarrow> row \<in> set g \<Longrightarrow> fr_fields row ! c \<noteq> None \<Longrightarrow> pick d c g \<noteq> None"
  by (induction g) (auto simp: has_delete_def)

lemma pick_nulls: "\<not> has_delete g \<Longrightarrow> \<forall>row \<in> set g. fr_fields row ! c = None \<Longrightarrow> pick d c g = d"
  by (induction g) (auto simp: has_delete_def)

text \<open>A run may be combined in two steps.\<close>

lemma merge_group_step:
  assumes "g1 \<noteq> []"
  shows "has_delete g1 \<Longrightarrow> merge_group (g1 @ g2) = merge_group g1"
    and "\<not> has_delete g1 \<Longrightarrow> merge_group (g1 @ g2) = merge_group (merge_group g1 # g2)"
proof -
  show "has_delete g1 \<Longrightarrow> merge_group (g1 @ g2) = merge_group g1" using assms by (simp add: merge_group_def pick_stop)
  assume nd: "\<not> has_delete g1"
  let ?m = "merge_group g1" and ?n = "length (fr_fields (hd g1))"
  have op: "fr_op_type ?m \<noteq> OpDelete" using nd assms by (cases g1) (auto simp: has_delete_def)
  have "pick (fr_fields (hd g1) ! c) c (g1 @ g2) = pick (fr_fields ?m ! c) c (?m # g2)" if c: "c < ?n" for c
  proof (cases "\<forall>row \<in> set g1. fr_fields row ! c = None")
    case True
    then have h: "fr_fields (hd g1) ! c = None" using assms by simp
    have m: "fr_fields ?m ! c = None" unfolding merge_group_field [OF c] pick_nulls [OF nd True] h ..
    show ?thesis using pick_append [OF nd] True op h m by simp
  next
    case False
    then have m: "fr_fields ?m ! c \<noteq> None" unfolding merge_group_field [OF c] using pick_some [OF nd] by blast
    then show ?thesis using pick_append [OF nd, of _ c g2] False op merge_group_field [OF c] by auto
  qed
  then show "merge_group (g1 @ g2) = merge_group (?m # g2)"
    using assms by (simp add: merge_group_def [of "g1 @ g2"] merge_group_def [of "?m # g2"]) (simp add: merge_group_def [of g1])
qed

lemma has_delete_append [simp]: "has_delete (g1 @ g2) \<longleftrightarrow> has_delete g1 \<or> has_delete g2"
  by (auto simp: has_delete_def)

lemma combine_False: "combine False gs = map merge_group gs"
  by (cases gs) (simp_all add: combine_def)

text \<open>The batch that starts with the buffered row, when the run goes on.\<close>

lemma buffered_run:
  assumes "kernels_ok ks" and "seen \<noteq> []" and "batch \<noteq> []" and "row_key (last seen) = row_key (hd batch)"
    and "width n seen" and "nn_admissible n seen batch"
  shows "nn_dedup_one_batch ks (merge_group (last (groups row_key seen)) # batch) (has_delete (last (groups row_key seen)))
    = Inr (map merge_group ((last (groups row_key seen) @ hd (groups row_key batch)) # tl (groups row_key batch)),
           has_delete (last ((last (groups row_key seen) @ hd (groups row_key batch)) # tl (groups row_key batch))))"
proof -
  let ?g = "last (groups row_key seen)" and ?m = "merge_group (last (groups row_key seen))"
  obtain b bs where b: "groups row_key batch = b # bs" "b \<noteq> []" "hd b = hd batch" using groups_first [OF assms(3)] .
  have g: "?g \<noteq> []" using groups_last(2) [OF assms(2)] .
  have hg: "hd ?g \<in> set ?g" using g by simp
  have "hd ?g \<in> set (concat (groups row_key seen))" using hg assms(2) by (metis UN_I groups_Nil_iff last_in_set set_concat)
  then have w: "width n (?m # batch)" using assms(5,6) by (simp add: width_def nn_admissible_def)
  have k: "row_key ?m = row_key (hd batch)" using groups_last_key [OF assms(2) hg] assms(4) by simp
  have gs: "groups row_key (?m # batch) = (?m # b) # bs" using groups_append_same [of "[?m]" batch row_key] assms(3) k b(1) by simp
  have first: "(if has_delete ?g then ?m else merge_group (?m # b)) = merge_group (?g @ b)" using merge_group_step [OF g] by simp
  have "has_delete (last ((?m # b) # bs)) = has_delete (last ((?g @ b) # bs))"
  proof (cases bs)
    case Nil
    have "batch = b" using b(1) Nil concat_groups [of row_key batch] by simp
    moreover have "row_key row = row_key (hd b)" if "row \<in> set b" for row by (rule groups_same_key [OF _ that, of _ batch]) (simp add: b(1))
    ultimately have "\<forall>row \<in> set batch. row_key row = row_key (last seen)" unfolding b(3) assms(4) by blast
    then have "\<not> has_delete (tl ?g)" using assms(2,3,6) unfolding nn_admissible_def by blast
    then have "has_delete ?g \<longleftrightarrow> fr_op_type (hd ?g) = OpDelete" using g by (cases ?g) (auto simp: has_delete_def)
    then show ?thesis using Nil by (simp add: has_delete_def bex_Un)
  qed simp
  then show ?thesis
    using nn_dedup_one_batch_ok [OF assms(1) _ w, of "has_delete ?g"] first unfolding gs b(1)
    by (cases "has_delete ?g") (simp_all add: combine_def)
qed

lemma nn_push_batch_ok:
  assumes "kernels_ok ks" and "nn_inv n filter_deleted seen out s" and "nn_admissible n seen batch"
  shows "\<exists>result s'. nn_push_batch ks s batch = Inr (result, s') \<and> result \<noteq> Some []
    \<and> nn_inv n filter_deleted (seen @ batch) (out @ opt_rows result) s'"
proof (cases "batch = []")
  case True
  with assms(2) show ?thesis by (simp add: nn_push_batch_def)
next
  case False
  let ?G = "groups row_key seen" and ?B = "groups row_key batch"
  have w: "width n batch" using assms(3) by (simp add: nn_admissible_def)
  note one = nn_dedup_one_batch_ok [OF assms(1) False w, of False, unfolded combine_False]
  have mB: "try_new (map merge_group ?B) = Some (map merge_group ?B)" "?B \<noteq> []" using False by (simp_all add: try_new_def)
  have fd: "nn_filter_deleted s = filter_deleted" using assms(2) by (simp add: nn_inv_def)
  show ?thesis
  proof (cases "nn_buffer s")
    case None
    with assms(2) have "seen = []" "out = []" by (simp_all add: nn_inv_def)
    with None False one mB w fd show ?thesis by (simp add: nn_push_batch_def nn_inv_def)
  next
    case (Some buffer)
    with assms(2) obtain returned where i: "seen \<noteq> []" "width n seen" "buffer \<noteq> []" "nn_contains_delete s = has_delete (last ?G)"
      "map merge_group ?G = returned @ buffer" "out = filter (kept filter_deleted) returned" by (auto simp: nn_inv_def)
    have lb: "last buffer = merge_group (last ?G)" using i(1,3,5) by (metis groups_Nil_iff last_appendR last_map)
    have "hd (last ?G) \<in> set (last ?G)" using groups_last(2) [OF i(1), of row_key] by simp
    then have kb: "row_key (last buffer) = row_key (last seen)" unfolding lb using groups_last_key [OF i(1)] by simp
    show ?thesis
    proof (cases "row_key (last seen) = row_key (hd batch)")
      case new: False
      obtain result where r: "maybe_filter_deleted ks buffer filter_deleted = Inr result"
        "opt_rows result = filter (kept filter_deleted) buffer" "result \<noteq> Some []" using maybe_filter_ok [OF assms(1) i(3)] .
      have "groups row_key (seen @ batch) = ?G @ ?B" using groups_append_other [OF i(1) False new] .
      with new r i one mB w fd False Some kb show ?thesis
        by (auto simp: nn_push_batch_def nn_inv_def duplicated_iff [OF False] intro!: exI [of _ "returned @ buffer"])
    next
      case dup: True
      let ?M = "(last ?G @ hd ?B) # tl ?B"
      obtain result where r: "(if length buffer > 1 then maybe_filter_deleted ks (take (length buffer - 1) buffer) filter_deleted else Inr None) = Inr result"
        "opt_rows result = filter (kept filter_deleted) (butlast buffer)" "result \<noteq> Some []"
      proof (cases "length buffer > 1")
        case True
        then have "butlast buffer \<noteq> []" by (cases buffer) auto
        from maybe_filter_ok [OF assms(1) this, of filter_deleted] that True show ?thesis by (metis butlast_conv_take)
      next
        case False
        with that [of None] i(3) show ?thesis by (cases buffer) auto
      qed
      have l: "drop (length buffer - 1) buffer = [merge_group (last ?G)]" using i(3) lb by (metis append_butlast_last_id append_eq_conv_conj length_butlast)
      have c: "k_concat_batches ks [drop (length buffer - 1) buffer, batch] = Inr (merge_group (last ?G) # batch)"
        unfolding kernelsD(6) [OF assms(1)] l by simp
      have g: "groups row_key (seen @ batch) = butlast ?G @ ?M" using groups_append_same [OF i(1) False dup] .
      have "map merge_group (butlast ?G) = returned @ butlast buffer" using i(3,5) by (metis butlast_append map_butlast)
      then have m: "map merge_group (groups row_key (seen @ batch)) = (returned @ butlast buffer) @ map merge_group ?M" unfolding g by simp
      have h: "last (groups row_key (seen @ batch)) = last ?M" unfolding g by simp
      let ?s = "s\<lparr>nn_buffer := Some (map merge_group ?M), nn_contains_delete := has_delete (last ?M)\<rparr>"
      have "nn_push_batch ks s batch = Inr (result, ?s)"
        unfolding nn_push_batch_def Some option.case fd r(1) bind_result_simps c i(4) buffered_run [OF assms(1) i(1) False dup i(2) assms(3)]
        using False kb dup by (simp add: duplicated_iff try_new_def)
      moreover have "nn_inv n filter_deleted (seen @ batch) (out @ opt_rows result) ?s"
        unfolding nn_inv_def using fd i w r(2) m h by (auto intro!: exI [of _ "returned @ butlast buffer"])
      ultimately show ?thesis using r(3) by blast
    qed
  qed
qed

lemma nn_strategy:
  fixes ks :: "('e, 'v) kernels"
  assumes "kernels_ok ks"
  shows "dedup_strategy (nn_push_batch ks) (nn_finish ks) (last_non_null_new filter_deleted) (nn_admissible n)
    (last_non_null_spec filter_deleted) (nn_inv n filter_deleted)"
proof
  show "nn_inv n filter_deleted [] [] (last_non_null_new filter_deleted)" by (simp add: nn_inv_def last_non_null_new_def)
next
  fix seen out :: "'v batch" and s
  assume i: "nn_inv n filter_deleted seen out s"
  show "\<exists>result s'. nn_push_batch ks s batch = Inr (result, s') \<and> result \<noteq> Some []
      \<and> nn_inv n filter_deleted (seen @ batch) (out @ opt_rows result) s'" if "nn_admissible n seen batch" for batch
    using nn_push_batch_ok [OF assms i that] .
  show "\<exists>result s'. nn_finish ks s = Inr (result, s') \<and> result \<noteq> Some [] \<and> out @ opt_rows result = last_non_null_spec filter_deleted seen
      \<and> nn_finish ks s' = Inr (None, s')"
  proof (cases "nn_buffer s")
    case None
    with i show ?thesis by (simp add: nn_inv_def nn_finish_def last_non_null_spec_def)
  next
    case (Some buffer)
    with i obtain returned where b: "buffer \<noteq> []" "nn_filter_deleted s = filter_deleted"
      "map merge_group (groups row_key seen) = returned @ buffer" "out = filter (kept filter_deleted) returned" by (auto simp: nn_inv_def)
    obtain result where "maybe_filter_deleted ks buffer filter_deleted = Inr result"
      "opt_rows result = filter (kept filter_deleted) buffer" "result \<noteq> Some []" using maybe_filter_ok [OF assms b(1)] .
    with Some b show ?thesis by (simp add: nn_finish_def last_non_null_spec_def)
  qed
qed

section \<open>Both strategies on kernels that compute\<close>

interpretation last_row_strategy: dedup_strategy "lr_push_batch arrow_kernels" lr_finish "last_row_new filter_deleted"
  "\<lambda>_ _. True" "last_row_spec filter_deleted" "lr_inv filter_deleted"
  for filter_deleted
  by (rule lr_strategy) simp

interpretation last_non_null_strategy: dedup_strategy "nn_push_batch arrow_kernels" "nn_finish arrow_kernels"
  "last_non_null_new filter_deleted" "nn_admissible n" "last_non_null_spec filter_deleted" "nn_inv n filter_deleted"
  for filter_deleted and n
  by (rule nn_strategy) simp

section \<open>What the reader returns\<close>

lemma admissible_all: "admissible_run (\<lambda>_ _. True) seen batches"
  by (induction batches arbitrary: seen) simp_all

lemmas last_row_stream = dedup_strategy.stream_ok [OF lr_strategy admissible_all]
lemmas last_non_null_stream = dedup_strategy.stream_ok [OF nn_strategy]

text \<open>
  C12. Keeping the last non-null fields: whatever the batches the rows come in, as long as no batch
  lies wholly inside a run of one key that had a delete before behind its first row, the rows returned
  are one per run of equal keys: the first row, with each field the first value in the run that is not
  null and comes before a delete, and without the deleted rows when they are filtered. No batch
  returned is empty, and with fuel above the number of batches plus one the reader ends.
\<close>

theorem last_non_null_reader:
  assumes "kernels_ok ks" and "admissible_run (nn_admissible n) [] batches" and "length batches + 1 < fuel"
  shows "\<exists>results. dedup_stream (nn_push_batch ks) (nn_finish ks) fuel (last_non_null_new filter_deleted) (map Inr batches) = Some (Inr results)
    \<and> [] \<notin> set results \<and> concat results = last_non_null_spec filter_deleted (concat batches)"
  by (rule last_non_null_stream [OF assms])

definition sample_change :: "nat \<Rightarrow> op_type \<Rightarrow> nat option \<Rightarrow> nat flat_row" where
  "sample_change seq op field = \<lparr>fr_primary_key = [7], fr_timestamp = 100, fr_sequence = seq, fr_op_type = op, fr_fields = [field]\<rparr>"

theorem last_non_null_reader_witness:
  "\<exists>results. dedup_stream (nn_push_batch (arrow_kernels :: (nat, nat) kernels)) (nn_finish arrow_kernels) 4 (last_non_null_new True)
      (map Inr [[sample_change 9 OpPut None], [sample_change 8 OpPut (Some 3), sample_change 7 OpDelete None, sample_change 6 OpPut (Some 1)]])
      = Some (Inr results)
    \<and> [] \<notin> set results
    \<and> concat results = last_non_null_spec True
        (concat [[sample_change 9 OpPut None], [sample_change 8 OpPut (Some 3), sample_change 7 OpDelete None, sample_change 6 OpPut (Some 1)]])"
proof -
  have "admissible_run (nn_admissible 1) []
      [[sample_change 9 OpPut None], [sample_change 8 OpPut (Some 3), sample_change 7 OpDelete None, sample_change 6 OpPut (Some 1)]]"
    by (simp add: nn_admissible_def width_def sample_change_def has_delete_def)
  from last_non_null_reader [OF arrow_kernels_ok this, of 4 True] show ?thesis by simp
qed

text \<open>
  Across three batches the delete is forgotten: the flag of the last run is computed from the rows of
  the merged batch alone, so that the field of a row older than the delete comes back.
\<close>

lemma delete_forgotten_in_third_batch:
  "dedup_stream (nn_push_batch (arrow_kernels :: (nat, nat) kernels)) (nn_finish arrow_kernels) 5 (last_non_null_new True)
     (map Inr [[sample_change 9 OpPut None, sample_change 8 OpDelete None], [sample_change 7 OpPut None], [sample_change 6 OpPut (Some 1)]])
     = Some (Inr [[sample_change 9 OpPut (Some 1)]])"
  "last_non_null_spec True
     (concat [[sample_change 9 OpPut None, sample_change 8 OpDelete None], [sample_change 7 OpPut None], [sample_change 6 OpPut (Some 1)]])
     = [sample_change 9 OpPut None]"
  by (simp_all add: eval_nat_numeral last_non_null_new_def nn_push_batch_def nn_dedup_one_batch_def nn_dedup_by_partitions_def find_boundaries_def
      arrow_kernels_def sample_change_def row_key_def last_range_has_delete_def compute_field_indices_def field_column_def try_new_def
      is_last_row_duplicated_def nn_finish_def maybe_filter_deleted_def filter_deleted_from_batch_def Let_def
      last_non_null_spec_def merge_group_def kept_def atLeastLessThanSuc)

end
