(* ===== verification/Read_Offsets.thy ===== *)
theory Read_Offsets
  imports Read_Merge
begin

text \<open>
  The merge reader with the check of the offsets of its string and binary columns
  (\<open>check_interleave_overflow\<close> of \<open>src/src/mito2/src/read/flat_merge.rs\<close>): a run with the check is
  the run without it, or ends with an overflow of values that the sources really hold. With the
  lemmas of \<open>Read_Merge\<close> this gives what the reader returns on sorted sources.
\<close>

section \<open>The check of the offsets\<close>

text \<open>The error of a check: the values of a column of the rows at hand exceed its offsets.\<close>

definition overflow_of :: "(nat \<Rightarrow> 'e) \<Rightarrow> 'v byte_column list \<Rightarrow> 'v flat_row multiset \<Rightarrow> 'e \<Rightarrow> bool" where
  "overflow_of overflow cols rows err \<longleftrightarrow>
     (\<exists>col \<in> set cols. \<exists>capacity. err = overflow capacity \<and> offset_max < capacity \<and> capacity \<le> (\<Sum>row \<in># rows. bc_value_len col row))"

lemma overflow_of_mono:
  assumes "overflow_of overflow cols rows err" and "rows \<subseteq># rows'"
  shows "overflow_of overflow cols rows' err"
proof -
  obtain more where "rows' = rows + more" using assms(2) by (auto simp: mset_subset_eq_exists_conv)
  with assms(1) show ?thesis unfolding overflow_of_def by (auto intro: trans_le_add1)
qed

lemma check_offsets_some:
  "check_offsets len batches c indices = Some capacity
     \<Longrightarrow> offset_max < capacity \<and> capacity \<le> c + sum_list (map (\<lambda>(a, r). len (batches ! a ! r)) indices)"
  by (induction len batches c indices rule: check_offsets.induct) (fastforce simp: Let_def split: if_splits)+

lemma check_interleave_some:
  "check_interleave_overflow cols batches indices = Some capacity
     \<Longrightarrow> overflow_of overflow cols (mset (map (\<lambda>(a, r). batches ! a ! r) indices)) (overflow capacity)"
proof (induction cols batches indices rule: check_interleave_overflow.induct)
  case (2 col cols batches indices)
  show ?case
  proof (cases "check_interleave_bytes_overflow col batches indices")
    case None
    with 2 show ?thesis by (auto simp: overflow_of_def)
  next
    case (Some c)
    then have "check_offsets (bc_value_len col) batches 0 indices = Some capacity"
      using "2.prems" by (auto simp: check_interleave_bytes_overflow_def split: if_splits)
    from check_offsets_some [OF this] show ?thesis
      by (auto simp: overflow_of_def case_prod_unfold image_mset.compositionality comp_def sum_mset_sum_list [symmetric])
  qed
qed simp

lemma build_checked:
  assumes "builder_ok b"
  shows "build_record_batch (checked_interleave overflow cols il) b = build_record_batch il b
    \<or> (\<exists>err. build_record_batch (checked_interleave overflow cols il) b = Inl err \<and> overflow_of overflow cols (mset (pending b)) err)"
proof (cases "check_interleave_overflow cols (map snd (bb_batches b)) (bb_indices b)")
  case None
  then show ?thesis by (simp add: build_record_batch_def checked_interleave_def)
next
  case (Some capacity)
  have "map (\<lambda>(a, r). map snd (bb_batches b) ! a ! r) (bb_indices b) = pending b"
    using assms by (auto simp: pending_def builder_ok_def indices_ok_def)
  with check_interleave_some [OF Some, of overflow] Some show ?thesis by (simp add: build_record_batch_def checked_interleave_def)
qed

lemma fetch_row_checked:
  assumes "merge_ok st" and "mg_hot st = h # hs"
  shows "fetch_row_from_hottest (checked_interleave overflow cols il) st = fetch_row_from_hottest il st
    \<or> (\<exists>err. fetch_row_from_hottest (checked_interleave overflow cols il) st = Inl err \<and> overflow_of overflow cols (held st) err)"
proof -
  have h: "node_ok (mg_in_progress st) h" and b: "builder_ok (mg_in_progress st)" using assms by (simp_all add: merge_ok_def)
  obtain offset batch where c: "mn_cursor h = Some (offset, batch)" "offset < length batch"
    "cursor_at (mg_in_progress st) (mn_index h) offset batch"
    using h by (auto simp: node_ok_def)
  let ?b = "builder_push_row (mn_index h) (mg_in_progress st)"
  note p = push_row_ok [OF b c(3,2)]
  have "first_row h \<in># mset (remaining st)" using node_first_row(1) [OF h] assms(2) by (auto simp: remaining_def)
  then have "mset (pending ?b) \<subseteq># held st"
    using p(2) c(1) by (simp add: held_def first_row_def add.commute add.left_commute subset_mset.add_increasing2)
  with build_checked [OF p(1), of overflow cols il] show ?thesis
    unfolding fetch_row_from_hottest_def assms(2) by (auto simp: Let_def split: if_splits dest: overflow_of_mono)
qed

lemma merge_step_checked:
  assumes "merge_ok st" and "mg_hot st \<noteq> []"
  shows "merge_step (checked_interleave overflow cols il) st = merge_step il st
    \<or> (\<exists>err. merge_step (checked_interleave overflow cols il) st = Inl err \<and> overflow_of overflow cols (held st) err)"
proof -
  obtain h hs where hs: "mg_hot st = h # hs" using assms(2) by (cases "mg_hot st") auto
  have b: "builder_ok (mg_in_progress st)" using assms(1) by (simp add: merge_ok_def)
  have "mset (pending (mg_in_progress st)) \<subseteq># held st" by (simp add: held_def)
  with build_checked [OF b, of overflow cols il] fetch_row_checked [OF assms(1) hs, of overflow cols il] show ?thesis
    unfolding merge_step_def by (auto dest: overflow_of_mono)
qed

lemma next_batch_checked:
  assumes "interleave_ok il" and "reader_ok returned st"
  shows "merge_next_batch (checked_interleave overflow cols il) fuel st = merge_next_batch il fuel st
    \<or> (\<exists>err. merge_next_batch (checked_interleave overflow cols il) fuel st = Some (Inl err) \<and> overflow_of overflow cols (held st) err)"
  using assms(2)
proof (induction fuel arbitrary: st)
  case (Suc fuel)
  show ?case
  proof (cases "mg_hot st \<noteq> [] \<and> mg_output st = None")
    case True
    obtain st1 where st1: "merge_step il st = Inr st1" "reader_ok returned st1" "held st1 = held st"
      using reader_step [OF assms(1) Suc.prems conjunct1 [OF True] conjunct2 [OF True]] by (elim exE conjE) (rule that; assumption)
    have "merge_ok st" using Suc.prems by (simp add: reader_ok_def)
    from merge_step_checked [OF this conjunct1 [OF True], of overflow cols il] show ?thesis
    proof (elim disjE exE conjE)
      assume "merge_step (checked_interleave overflow cols il) st = merge_step il st"
      with True st1 Suc.IH [OF st1(2)] show ?thesis by simp
    qed (use True in simp)
  qed auto
qed simp

lemma merge_batches_checked:
  assumes "interleave_ok il" and "reader_ok returned st" and "length (remaining st) + 1 < inner" and "size (held st) < fuel"
  shows "merge_batches (checked_interleave overflow cols il) inner fuel st = merge_batches il inner fuel st
    \<or> (\<exists>err. merge_batches (checked_interleave overflow cols il) inner fuel st = Some (Inl err) \<and> overflow_of overflow cols (held st) err)"
  using assms(2-4)
proof (induction fuel arbitrary: returned st)
  case (Suc fuel)
  let ?il = "checked_interleave overflow cols il"
  obtain out st' where n: "merge_next_batch il inner st = Some (Inr (out, st'))" "length (remaining st') \<le> length (remaining st)"
    "case out of Some rows \<Rightarrow> rows \<noteq> [] \<and> reader_ok (returned @ rows) st' \<and> mset rows + held st' = held st | None \<Rightarrow> held st = {#}"
    using next_batch_ok [OF assms(1) Suc.prems(1,2)] by (elim exE conjE) (rule that; assumption)
  from next_batch_checked [OF assms(1) Suc.prems(1), of overflow cols inner] show ?case
  proof (elim disjE exE conjE)
    assume e: "merge_next_batch ?il inner st = merge_next_batch il inner st"
    show ?thesis
    proof (cases out)
      case None
      with e n(1) show ?thesis by simp
    next
      case (Some rows)
      then have r: "rows \<noteq> []" "reader_ok (returned @ rows) st'" "mset rows + held st' = held st" using n(3) by simp_all
      have "size (held st) = length rows + size (held st')" using arg_cong [OF r(3), of size] by simp
      then have "size (held st') < fuel" using r(1) Suc.prems(3) by (cases rows) auto
      moreover have "length (remaining st') + 1 < inner" using n(2) Suc.prems(2) by simp
      moreover have "held st' \<subseteq># held st" using r(3) mset_subset_eq_add_right by metis
      ultimately show ?thesis using Suc.IH [OF r(2)] e n(1) Some by (auto dest: overflow_of_mono)
    qed
  qed simp
qed simp

section \<open>What the reader returns\<close>

text \<open>The input of the reader: its sources give batches without errors, sorted over their batches.\<close>

definition good_source :: "('e + 'v batch) list \<Rightarrow> bool" where
  "good_source iter \<longleftrightarrow> ok_iter iter \<and> sorted_rows (iter_rows iter)"

lemma flat_merge_result:
  assumes "interleave_ok il" and "\<forall>iter \<in> set iters. good_source iter" and "length (concat (map iter_rows iters)) + 1 < fuel"
  shows "(\<exists>err. flat_merge overflow cols il fuel batch_size iters = Some (Inl err)
       \<and> overflow_of overflow cols (mset (concat (map iter_rows iters))) err)
    \<or> (\<exists>batches. flat_merge overflow cols il fuel batch_size iters = Some (Inr batches) \<and> [] \<notin> set batches
       \<and> sorted_rows (concat batches) \<and> mset (concat batches) = mset (concat (map iter_rows iters)))"
proof -
  obtain st where st: "merge_new batch_size iters = Inr st" "reader_ok [] st" "held st = mset (concat (map iter_rows iters))"
    "length (remaining st) = length (concat (map iter_rows iters))"
    using merge_new_ok [of iters batch_size] assms(2) unfolding good_source_def by blast
  have l: "length (remaining st) + 1 < fuel" "size (held st) < fuel" using st(3,4) assms(3) by simp_all
  obtain batches where b: "merge_batches il fuel fuel st = Some (Inr batches)" "[] \<notin> set batches"
    "sorted_rows (concat batches)" "mset (concat batches) = held st"
    using merge_batches_ok [OF assms(1) st(2) l] by auto
  from merge_batches_checked [OF assms(1) st(2) l, of overflow cols] show ?thesis
    using b st(1,3) by (auto simp: flat_merge_def)
qed

text \<open>
  C7. The merge reader sorts: on sources that are each sorted by key, time and descending sequence,
  whatever their batches, with fuel above the number of rows plus one, the reader ends; the batches it
  returns are not empty, their rows in order are sorted across batches, and they are exactly the rows
  of the sources, each as often as it occurs. The only error is that the offsets of a string or binary
  column overflow, and then the values of that column in the sources exceed 32-bit offsets.
\<close>

theorem flat_merge_sorts:
  assumes "interleave_ok il" and "\<forall>iter \<in> set iters. good_source iter" and "length (concat (map iter_rows iters)) + 1 < fuel"
  shows "\<exists>r. flat_merge overflow cols il fuel batch_size iters = Some r
    \<and> (case r of
         Inl err \<Rightarrow> overflow_of overflow cols (mset (concat (map iter_rows iters))) err
       | Inr batches \<Rightarrow> [] \<notin> set batches \<and> sorted_rows (concat batches) \<and> mset (concat batches) = mset (concat (map iter_rows iters)))"
  using flat_merge_result [OF assms, of overflow cols batch_size] by auto

definition sample_row :: "8 word \<Rightarrow> int \<Rightarrow> nat \<Rightarrow> nat flat_row" where
  "sample_row key ts seq = \<lparr>fr_primary_key = [key], fr_timestamp = ts, fr_sequence = seq, fr_op_type = OpPut, fr_fields = [Some seq]\<rparr>"

definition sample_sources :: "(nat + nat batch) list list" where
  "sample_sources =
     [[Inr [sample_row 1 10 3, sample_row 1 20 2], Inr [], Inr [sample_row 2 5 9]],
      [Inr [sample_row 1 10 7, sample_row 1 20 6]],
      [Inr [sample_row 3 1 1]]]"

definition sample_interleave :: "(nat, nat) interleave" where
  "sample_interleave batches indices = Inr (map (\<lambda>(a, r). batches ! a ! r) indices)"

definition sample_column :: "nat byte_column" where
  "sample_column = \<lparr>bc_value_data = (\<lambda>batch. 3 * length batch), bc_value_len = (\<lambda>_. 3)\<rparr>"

lemma sample_interleave_ok: "interleave_ok sample_interleave"
  by (simp add: interleave_ok_def sample_interleave_def)

lemma sample_good: "\<forall>iter \<in> set sample_sources. good_source iter"
  by (simp add: sample_sources_def good_source_def ok_iter_def iter_rows_def sample_row_def row_le_def)

theorem flat_merge_sorts_witness:
  "\<exists>r. flat_merge id [sample_column] sample_interleave 10 3 sample_sources = Some r
    \<and> (case r of
         Inl err \<Rightarrow> overflow_of id [sample_column] (mset (concat (map iter_rows sample_sources))) err
       | Inr batches \<Rightarrow> [] \<notin> set batches \<and> sorted_rows (concat batches)
           \<and> mset (concat batches) = mset (concat (map iter_rows sample_sources)))"
proof -
  have "length (concat (map iter_rows sample_sources)) + 1 < 10" by (simp add: sample_sources_def iter_rows_def)
  from flat_merge_sorts [OF sample_interleave_ok sample_good this, of id "[sample_column]" 3] show ?thesis .
qed

end
