(* ===== verification/Read_Selector.thy ===== *)
theory Read_Selector
  imports Read_Groups
begin

text \<open>
  The last rows of each time series: \<open>FlatLastTimestampSelector\<close> and \<open>FlatLastRowReader\<close> of
  \<open>src/src/mito2/src/read/last_row.rs\<close> and \<open>primary_key_offsets\<close> of \<open>src/src/mito2/src/sst/parquet/format.rs\<close>. The
  primary keys of a batch are a dictionary array, so that rows with one key may have different
  indices into the dictionary; the indices of a batch are a parameter.
\<close>

section \<open>Definitions\<close>

definition DEFAULT_READ_BATCH_SIZE :: nat where
  "DEFAULT_READ_BATCH_SIZE = 8 * 1024"

definition primary_key_offsets :: "nat list \<Rightarrow> nat list" where
  "primary_key_offsets pk_indices =
     (if pk_indices = [] then []
      else 0 # map Suc (filter (\<lambda>i. pk_indices ! i \<noteq> pk_indices ! (i + 1)) [0..<length pk_indices - 1]) @ [length pk_indices])"

text \<open>The start of the rows with the last timestamp of a range, by steps from its end.\<close>

primrec timestamp_start_loop :: "int list \<Rightarrow> nat \<Rightarrow> int \<Rightarrow> nat \<Rightarrow> nat" where
  "timestamp_start_loop ts_values range_start last_ts 0 = 0"
| "timestamp_start_loop ts_values range_start last_ts (Suc start) =
     (if Suc start > range_start \<and> ts_values ! start = last_ts
      then timestamp_start_loop ts_values range_start last_ts start
      else Suc start)"

definition last_timestamp_start :: "int list \<Rightarrow> nat \<Rightarrow> nat \<Rightarrow> nat" where
  "last_timestamp_start ts_values range_start range_end =
     timestamp_start_loop ts_values range_start (ts_values ! (range_end - 1)) (range_end - 1)"

record 'v last_key_state =
  lk_key :: bytes
  lk_last_timestamp :: int
  lk_slices :: "'v batch list"

record 'v batch_buffer =
  bf_batches :: "'v batch list"
  bf_num_rows :: nat

definition batch_buffer_new :: "'v batch_buffer" where
  "batch_buffer_new = \<lparr>bf_batches = [], bf_num_rows = 0\<rparr>"

definition is_full :: "'v batch_buffer \<Rightarrow> bool" where
  "is_full buffer \<longleftrightarrow> bf_num_rows buffer \<ge> DEFAULT_READ_BATCH_SIZE"

definition extend_from_slice :: "'v batch list \<Rightarrow> 'v batch_buffer \<Rightarrow> 'v batch_buffer" where
  "extend_from_slice batches buffer =
     \<lparr>bf_batches = bf_batches buffer @ batches, bf_num_rows = fold (\<lambda>batch n. n + length batch) batches (bf_num_rows buffer)\<rparr>"

definition concat_buffer :: "('e, 'v) kernels \<Rightarrow> 'v batch_buffer \<Rightarrow> 'e + ('v batch \<times> 'v batch_buffer)" where
  "concat_buffer ks buffer =
     bind_result (k_concat_batches ks (bf_batches buffer)) (\<lambda>merged. Inr (merged, batch_buffer_new))"

text \<open>The state of the selector is that of the current key, and the output buffer.\<close>

type_synonym 'v selector = "'v last_key_state option \<times> 'v batch_buffer"

definition flush_current_key :: "'v selector \<Rightarrow> 'v selector" where
  "flush_current_key sel =
     (case sel of
        (None, buffer) \<Rightarrow> (None, buffer)
      | (Some state, buffer) \<Rightarrow> (None, extend_from_slice (lk_slices state) buffer))"

definition on_range :: "'v batch \<Rightarrow> nat \<times> nat \<Rightarrow> 'v selector \<Rightarrow> 'v selector" where
  "on_range batch key_range sel =
     (let (range_start, range_end) = key_range;
          ts_values = map fr_timestamp batch;
          range_key = fr_primary_key (batch ! range_start);
          range_last_ts = ts_values ! (range_end - 1);
          range_last_ts_start = last_timestamp_start ts_values range_start range_end;
          range_slice = take (range_end - range_last_ts_start) (drop range_last_ts_start batch);
          fresh = \<lparr>lk_key = range_key, lk_last_timestamp = range_last_ts, lk_slices = [range_slice]\<rparr>
      in case fst sel of
           Some state \<Rightarrow>
             if lk_key state = range_key
             then (if range_last_ts > lk_last_timestamp state
                   then (Some (state\<lparr>lk_last_timestamp := range_last_ts, lk_slices := [range_slice]\<rparr>), snd sel)
                   else if range_last_ts = lk_last_timestamp state
                   then (Some (state\<lparr>lk_slices := lk_slices state @ [range_slice]\<rparr>), snd sel)
                   else sel)
             else (Some fresh, snd (flush_current_key sel))
         | None \<Rightarrow> (Some fresh, snd sel))"

definition on_next :: "('v batch \<Rightarrow> nat list) \<Rightarrow> 'v batch \<Rightarrow> 'v selector \<Rightarrow> 'v selector" where
  "on_next pk_indices batch sel =
     (if batch = [] then sel
      else (let offsets = primary_key_offsets (pk_indices batch)
            in if offsets = [] then sel
               else fold (\<lambda>i. on_range batch (offsets ! i, offsets ! (i + 1))) [0..<length offsets - 1] sel))"

fun last_row_stream_loop ::
  "('e, 'v) kernels \<Rightarrow> ('v batch \<Rightarrow> nat list) \<Rightarrow> 'v selector \<Rightarrow> ('e + 'v batch) list \<Rightarrow> 'e + 'v batch list" where
  "last_row_stream_loop ks pk_indices sel [] =
     (let sel' = flush_current_key sel
      in if bf_batches (snd sel') = [] then Inr []
         else bind_result (concat_buffer ks (snd sel')) (\<lambda>(merged, _). Inr [merged]))"
| "last_row_stream_loop ks pk_indices sel (Inl err # stream) = Inl err"
| "last_row_stream_loop ks pk_indices sel (Inr batch # stream) =
     (let sel' = on_next pk_indices batch sel
      in if is_full (snd sel')
         then bind_result (concat_buffer ks (snd sel')) (\<lambda>(merged, buffer).
                bind_result (last_row_stream_loop ks pk_indices (fst sel', buffer) stream) (\<lambda>batches. Inr (merged # batches)))
         else last_row_stream_loop ks pk_indices sel' stream)"

definition flat_last_row_reader ::
  "('e, 'v) kernels \<Rightarrow> ('v batch \<Rightarrow> nat list) \<Rightarrow> ('e + 'v batch) list \<Rightarrow> 'e + 'v batch list" where
  "flat_last_row_reader ks pk_indices stream = last_row_stream_loop ks pk_indices (None, batch_buffer_new) stream"

section \<open>Ranges of a batch\<close>

lemma group_ranges_Suc: "group_ranges (Suc i) gs = map (\<lambda>(a, b). (Suc a, Suc b)) (group_ranges i gs)"
  by (induction gs arbitrary: i) auto

lemma boundaries_Cons:
  "filter (\<lambda>i. (x # y # ys) ! i \<noteq> (x # y # ys) ! (i + 1)) [0..<length (x # y # ys) - 1]
     = (if x \<noteq> y then [0] else []) @ map Suc (filter (\<lambda>i. (y # ys) ! i \<noteq> (y # ys) ! (i + 1)) [0..<length (y # ys) - 1])"
proof -
  have "[0..<length (x # y # ys) - 1] = 0 # map Suc [0..<length (y # ys) - 1]" by (simp add: map_Suc_upt upt_conv_Cons del: upt_Suc)
  then show ?thesis by (simp add: filter_map comp_def del: upt_Suc)
qed

lemma offsets_ranges:
  "xs \<noteq> [] \<Longrightarrow> map Suc (filter (\<lambda>i. xs ! i \<noteq> xs ! (i + 1)) [0..<length xs - 1]) @ [length xs] = map snd (group_ranges 0 (groups id xs))"
proof (induction xs rule: induct_list012)
  case (3 x y ys)
  obtain g gs where g: "groups id (y # ys) = g # gs" "hd g = y" using groups_first [of "y # ys" id] by (metis list.sel(1) list.distinct(1))
  have "map Suc (filter (\<lambda>i. (x # y # ys) ! i \<noteq> (x # y # ys) ! (i + 1)) [0..<length (x # y # ys) - 1]) @ [length (x # y # ys)]
      = (if x \<noteq> y then [1] else []) @ map Suc (map snd (group_ranges 0 (g # gs)))"
    unfolding boundaries_Cons g(1) [symmetric] "3.IH"(2) [symmetric, OF list.distinct(2)] by (simp del: upt_Suc)
  also have "\<dots> = map snd (group_ranges 0 (groups id (x # y # ys)))"
    using g by (simp add: group_ranges_Suc case_prod_unfold comp_def del: groups.simps(2)) (simp add: group_ranges_Suc case_prod_unfold comp_def)
  finally show ?case .
qed simp_all

lemma zip_offsets:
  assumes "xs \<noteq> []"
  shows "map (\<lambda>i. (primary_key_offsets xs ! i, primary_key_offsets xs ! (i + 1))) [0..<length (primary_key_offsets xs) - 1]
    = group_ranges 0 (groups id xs)"
proof (rule nth_equalityI)
  have o: "primary_key_offsets xs = 0 # map snd (group_ranges 0 (groups id xs))"
    using assms offsets_ranges [OF assms] by (simp add: primary_key_offsets_def)
  then show "length (map (\<lambda>i. (primary_key_offsets xs ! i, primary_key_offsets xs ! (i + 1))) [0..<length (primary_key_offsets xs) - 1])
      = length (group_ranges 0 (groups id xs))" by simp
  fix k
  assume "k < length (map (\<lambda>i. (primary_key_offsets xs ! i, primary_key_offsets xs ! (i + 1))) [0..<length (primary_key_offsets xs) - 1])"
  then have k: "k < length (groups id xs)" using o by simp
  show "map (\<lambda>i. (primary_key_offsets xs ! i, primary_key_offsets xs ! (i + 1))) [0..<length (primary_key_offsets xs) - 1] ! k
      = group_ranges 0 (groups id xs) ! k"
    using k by (cases k) (simp_all add: o group_ranges_nth)
qed

text \<open>The pieces of a batch whose rows share an index into the dictionary.\<close>

definition dictionary_ok :: "('v batch \<Rightarrow> nat list) \<Rightarrow> 'v batch \<Rightarrow> bool" where
  "dictionary_ok pk_indices batch \<longleftrightarrow>
     length (pk_indices batch) = length batch
     \<and> (\<forall>i < length batch. \<forall>j < length batch.
          pk_indices batch ! i = pk_indices batch ! j \<longrightarrow> fr_primary_key (batch ! i) = fr_primary_key (batch ! j))"

definition index_chunks :: "('v batch \<Rightarrow> nat list) \<Rightarrow> 'v batch \<Rightarrow> 'v batch list" where
  "index_chunks pk_indices batch = map (map fst) (groups snd (zip batch (pk_indices batch)))"

lemma index_chunks_ok:
  assumes "dictionary_ok pk_indices batch"
  shows "concat (index_chunks pk_indices batch) = batch" and "[] \<notin> set (index_chunks pk_indices batch)"
    and "group_ranges 0 (index_chunks pk_indices batch) = group_ranges 0 (groups id (pk_indices batch))"
    and "chunk \<in> set (index_chunks pk_indices batch) \<Longrightarrow> row \<in> set chunk \<Longrightarrow> fr_primary_key row = fr_primary_key (hd chunk)"
proof -
  let ?Z = "zip batch (pk_indices batch)"
  have l: "length (pk_indices batch) = length batch" using assms by (simp add: dictionary_ok_def)
  show "concat (index_chunks pk_indices batch) = batch" using l by (simp add: index_chunks_def map_concat [symmetric])
  show "[] \<notin> set (index_chunks pk_indices batch)" using groups_no_empty [of snd ?Z] by (auto simp: index_chunks_def)
  have "groups id (pk_indices batch) = map (map snd) (groups snd ?Z)" using groups_map [of snd ?Z] l by simp
  then show "group_ranges 0 (index_chunks pk_indices batch) = group_ranges 0 (groups id (pk_indices batch))" by (simp add: index_chunks_def)
  assume "chunk \<in> set (index_chunks pk_indices batch)" and row: "row \<in> set chunk"
  then obtain g where g: "g \<in> set (groups snd ?Z)" "chunk = map fst g" by (auto simp: index_chunks_def)
  obtain p where p: "p \<in> set g" "row = fst p" using row g(2) by auto
  have n: "g \<noteq> []" using groups_nonempty [OF g(1)] .
  have sub: "set g \<subseteq> set ?Z" using g(1) concat_groups [of snd ?Z] by (metis UN_upper set_concat)
  have key: "snd p = snd (hd g)" using groups_same_key [OF g(1) p(1)] .
  have "p \<in> set ?Z" "hd g \<in> set ?Z" using sub p(1) hd_in_set [OF n] by blast+
  then obtain i j where i: "i < length batch" "batch ! i = fst p" "pk_indices batch ! i = snd p"
    and j: "j < length batch" "batch ! j = fst (hd g)" "pk_indices batch ! j = snd (hd g)"
    unfolding in_set_zip by blast
  have "pk_indices batch ! i = pk_indices batch ! j" using key i(3) j(3) by simp
  then have "fr_primary_key (batch ! i) = fr_primary_key (batch ! j)" using assms i(1) j(1) unfolding dictionary_ok_def by blast
  then have "fr_primary_key (fst p) = fr_primary_key (fst (hd g))" unfolding i(2) j(2) .
  then show "fr_primary_key row = fr_primary_key (hd chunk)" unfolding p(2) g(2) hd_map [OF n] .
qed

lemma timestamp_start_loop_ok:
  assumes "range_start \<le> start"
  shows "range_start \<le> timestamp_start_loop ts range_start last_ts start" and "timestamp_start_loop ts range_start last_ts start \<le> start"
    and "timestamp_start_loop ts range_start last_ts start \<le> j \<Longrightarrow> j < start \<Longrightarrow> ts ! j = last_ts"
    and "timestamp_start_loop ts range_start last_ts start = range_start \<or> ts ! (timestamp_start_loop ts range_start last_ts start - 1) \<noteq> last_ts"
proof -
  let ?l = "timestamp_start_loop ts range_start last_ts"
  have "range_start \<le> ?l start \<and> ?l start \<le> start \<and> (\<forall>j. ?l start \<le> j \<longrightarrow> j < start \<longrightarrow> ts ! j = last_ts)
      \<and> (?l start = range_start \<or> ts ! (?l start - 1) \<noteq> last_ts)"
    using assms
  proof (induction start)
    case (Suc start)
    then show ?case
      by (cases "Suc start > range_start \<and> ts ! start = last_ts") (auto simp: less_Suc_eq)
  qed simp
  then show "range_start \<le> ?l start" "?l start \<le> start" "?l start \<le> j \<Longrightarrow> j < start \<Longrightarrow> ts ! j = last_ts"
    "?l start = range_start \<or> ts ! (?l start - 1) \<noteq> last_ts" by blast+
qed

lemma last_suffix:
  assumes "sorted_wrt (\<lambda>a b. fr_timestamp a \<le> fr_timestamp b) rows" and "d < length rows"
    and "\<forall>j. d \<le> j \<longrightarrow> j < length rows \<longrightarrow> fr_timestamp (rows ! j) = last_ts"
    and "d = 0 \<or> fr_timestamp (rows ! (d - 1)) \<noteq> last_ts"
  shows "drop d rows = filter (\<lambda>row. fr_timestamp row = last_ts) rows"
proof -
  have after: "filter (\<lambda>row. fr_timestamp row = last_ts) (drop d rows) = drop d rows"
    using assms(3) by (auto simp: filter_id_conv in_set_conv_nth)
  have before: "fr_timestamp (rows ! j) \<noteq> last_ts" if "j < d" for j
  proof
    assume j: "fr_timestamp (rows ! j) = last_ts"
    have "fr_timestamp (rows ! j) \<le> fr_timestamp (rows ! (d - 1))"
      using assms(1,2) that by (cases "j = d - 1") (auto simp: sorted_wrt_iff_nth_less)
    moreover have "fr_timestamp (rows ! (d - 1)) \<le> fr_timestamp (rows ! d)" using assms(1,2) that by (simp add: sorted_wrt_iff_nth_less)
    moreover have "fr_timestamp (rows ! d) = last_ts" using assms(2,3) by simp
    ultimately have "fr_timestamp (rows ! (d - 1)) = last_ts" using j by simp
    with assms(4) that show False by simp
  qed
  have "fr_timestamp row \<noteq> last_ts" if row: "row \<in> set (take d rows)" for row
  proof -
    obtain i where "i < d" "row = rows ! i" using row assms(2) by (auto simp: in_set_conv_nth)
    then show ?thesis using before by blast
  qed
  then have "filter (\<lambda>row. fr_timestamp row = last_ts) (take d rows) = []" by (simp add: filter_empty_conv)
  with after have "filter (\<lambda>row. fr_timestamp row = last_ts) (take d rows @ drop d rows) = drop d rows" unfolding filter_append by simp
  then show ?thesis by simp
qed

section \<open>One piece of a batch\<close>

definition key_slice :: "'v batch \<Rightarrow> 'v batch" where
  "key_slice rows = filter (\<lambda>row. fr_timestamp row = fr_timestamp (last rows)) rows"

definition sel_step :: "'v batch \<Rightarrow> 'v selector \<Rightarrow> 'v selector" where
  "sel_step chunk sel =
     (let fresh = \<lparr>lk_key = fr_primary_key (hd chunk), lk_last_timestamp = fr_timestamp (last chunk), lk_slices = [key_slice chunk]\<rparr>
      in case fst sel of
           Some state \<Rightarrow>
             if lk_key state = fr_primary_key (hd chunk)
             then (if fr_timestamp (last chunk) > lk_last_timestamp state
                   then (Some (state\<lparr>lk_last_timestamp := fr_timestamp (last chunk), lk_slices := [key_slice chunk]\<rparr>), snd sel)
                   else if fr_timestamp (last chunk) = lk_last_timestamp state
                   then (Some (state\<lparr>lk_slices := lk_slices state @ [key_slice chunk]\<rparr>), snd sel)
                   else sel)
             else (Some fresh, snd (flush_current_key sel))
         | None \<Rightarrow> (Some fresh, snd sel))"

lemma on_range_step:
  assumes "k < length cs" and "batch = concat cs" and "cs ! k \<noteq> []" and "sorted_wrt (\<lambda>a b. fr_timestamp a \<le> fr_timestamp b) (cs ! k)"
  shows "on_range batch (group_ranges 0 cs ! k) = sel_step (cs ! k)"
proof
  fix sel
  let ?c = "cs ! k" and ?s = "length (concat (take k cs))" and ?ts = "map fr_timestamp batch"
  have e: "length (concat (take (Suc k) cs)) = ?s + length ?c" using assms(1) by (simp add: take_Suc_conv_app_nth)
  have r: "group_ranges 0 cs ! k = (?s, ?s + length ?c)" using group_ranges_nth [OF assms(1), of 0] e by simp
  have len: "0 < length ?c" using assms(3) by simp
  have n: "?s + j < length batch" "batch ! (?s + j) = ?c ! j" if "j < length ?c" for j
    using concat_take_nth [OF assms(1) that] assms(2) by simp_all
  have first: "batch ! ?s = hd ?c" using n(2) [OF len] assms(3) by (simp add: hd_conv_nth)
  have lt: "?ts ! (?s + length ?c - 1) = fr_timestamp (last ?c)"
    using n [of "length ?c - 1"] len assms(3) by (simp add: last_conv_nth)
  let ?l = "last_timestamp_start ?ts ?s (?s + length ?c)"
  have l: "?l = timestamp_start_loop ?ts ?s (fr_timestamp (last ?c)) (?s + length ?c - 1)" unfolding last_timestamp_start_def lt ..
  have "?s \<le> ?s + length ?c - 1" using len by arith
  note loop = timestamp_start_loop_ok [OF this, where ts = ?ts and last_ts = "fr_timestamp (last ?c)", folded l]
  define d where "d = ?l - ?s"
  have d: "?l = ?s + d" "d < length ?c" using loop(1,2) len unfolding d_def by arith+
  have same: "fr_timestamp (?c ! j) = fr_timestamp (last ?c)" if "d \<le> j" "j < length ?c" for j
  proof (cases "j = length ?c - 1")
    case False
    have "?l \<le> ?s + j" "?s + j < ?s + length ?c - 1" unfolding d(1) using that False by arith+
    from loop(3) [OF this] n [OF that(2)] show ?thesis by simp
  qed (use assms(3) in \<open>simp add: last_conv_nth\<close>)
  have other: "d = 0 \<or> fr_timestamp (?c ! (d - 1)) \<noteq> fr_timestamp (last ?c)"
  proof (cases d)
    case (Suc d')
    have d': "d' < length ?c" "?l - 1 = ?s + d'" "?l \<noteq> ?s" unfolding d(1) using Suc d(2) by arith+
    have "?ts ! (?l - 1) = fr_timestamp (?c ! d')" unfolding d'(2) using n [OF d'(1)] by simp
    then show ?thesis using loop(4) d'(3) Suc by simp
  qed simp
  have suffix: "drop d ?c = key_slice ?c"
    unfolding key_slice_def by (rule last_suffix [OF assms(4) d(2) _ other]) (simp add: same)
  have b: "batch = concat (take k cs) @ ?c @ concat (drop (Suc k) cs)"
    using arg_cong [OF id_take_nth_drop [OF assms(1)], of concat] unfolding assms(2) concat_append concat.simps .
  have "take (length ?c - d) (drop (?s + d) batch) = drop d ?c"
    using d(2) by (subst b) (simp add: drop_append)
  then have slice: "take (?s + length ?c - ?l) (drop ?l batch) = key_slice ?c" unfolding d(1) suffix by simp
  show "on_range batch (group_ranges 0 cs ! k) sel = sel_step ?c sel"
    unfolding on_range_def sel_step_def r prod.case Let_def first lt slice ..
qed

lemma on_next_steps:
  assumes "dictionary_ok pk_indices batch" and "\<forall>chunk \<in> set (index_chunks pk_indices batch). sorted_wrt (\<lambda>a b. fr_timestamp a \<le> fr_timestamp b) chunk"
  shows "on_next pk_indices batch sel = fold sel_step (index_chunks pk_indices batch) sel"
proof (cases "batch = []")
  case True
  then show ?thesis by (simp add: on_next_def index_chunks_def)
next
  case False
  let ?cs = "index_chunks pk_indices batch" and ?o = "primary_key_offsets (pk_indices batch)"
  have ix: "pk_indices batch \<noteq> []" using False assms(1) by (auto simp: dictionary_ok_def)
  have o: "?o \<noteq> []" using ix by (simp add: primary_key_offsets_def)
  note c = index_chunks_ok [OF assms(1)]
  have "map (\<lambda>i. on_range batch (?o ! i, ?o ! (i + 1))) [0..<length ?o - 1] = map (on_range batch) (group_ranges 0 ?cs)"
    unfolding c(3) zip_offsets [OF ix, symmetric] by simp
  also have "\<dots> = map sel_step ?cs"
  proof (rule nth_equalityI)
    fix k
    assume "k < length (map (on_range batch) (group_ranges 0 ?cs))"
    then have k: "k < length ?cs" by simp
    have "?cs ! k \<in> set ?cs" using k by simp
    then have "?cs ! k \<noteq> []" "sorted_wrt (\<lambda>a b. fr_timestamp a \<le> fr_timestamp b) (?cs ! k)" using c(2) assms(2) by metis+
    from on_range_step [OF k c(1) [symmetric] this] k show "map (on_range batch) (group_ranges 0 ?cs) ! k = map sel_step ?cs ! k" by simp
  qed simp
  finally have "fold (\<lambda>f. f) (map (\<lambda>i. on_range batch (?o ! i, ?o ! (i + 1))) [0..<length ?o - 1]) sel = fold (\<lambda>f. f) (map sel_step ?cs) sel" by simp
  then show ?thesis using False o by (simp add: on_next_def Let_def fold_map comp_def)
qed

section \<open>The selector\<close>

text \<open>The order of the rows of a scan, the sequences aside, and the last rows of the series.\<close>

definition series_le :: "'v flat_row \<Rightarrow> 'v flat_row \<Rightarrow> bool" where
  "series_le a b \<longleftrightarrow> fr_primary_key a < fr_primary_key b \<or> fr_primary_key a = fr_primary_key b \<and> fr_timestamp a \<le> fr_timestamp b"

definition last_series_rows :: "'v batch \<Rightarrow> 'v batch" where
  "last_series_rows rows = concat (map key_slice (groups fr_primary_key rows))"

definition buffer_ok :: "'v batch_buffer \<Rightarrow> bool" where
  "buffer_ok buffer \<longleftrightarrow> [] \<notin> set (bf_batches buffer) \<and> bf_num_rows buffer = length (concat (bf_batches buffer))"

definition sel_inv :: "'v batch \<Rightarrow> 'v batch \<Rightarrow> 'v selector \<Rightarrow> bool" where
  "sel_inv seen out sel \<longleftrightarrow>
     buffer_ok (snd sel)
     \<and> (case fst sel of
          None \<Rightarrow> seen = [] \<and> out = [] \<and> bf_batches (snd sel) = []
        | Some state \<Rightarrow>
            seen \<noteq> [] \<and> lk_key state = fr_primary_key (last seen) \<and> lk_last_timestamp state = fr_timestamp (last seen)
            \<and> [] \<notin> set (lk_slices state) \<and> lk_slices state \<noteq> []
            \<and> concat (lk_slices state) = key_slice (last (groups fr_primary_key seen))
            \<and> out @ concat (bf_batches (snd sel)) = concat (map key_slice (butlast (groups fr_primary_key seen))))"

lemma fold_lengths: "fold (\<lambda>batch n. n + length batch) batches (n :: nat) = n + length (concat batches)"
  by (induction batches arbitrary: n) simp_all

lemma extend_ok: "buffer_ok buffer \<Longrightarrow> [] \<notin> set batches \<Longrightarrow> buffer_ok (extend_from_slice batches buffer)"
  by (simp add: buffer_ok_def extend_from_slice_def fold_lengths)

lemma key_slice_Nil [simp]: "key_slice rows = [] \<longleftrightarrow> rows = []" "[] = key_slice rows \<longleftrightarrow> rows = []"
proof -
  show "key_slice rows = [] \<longleftrightarrow> rows = []" unfolding key_slice_def filter_empty_conv using last_in_set by auto
  then show "[] = key_slice rows \<longleftrightarrow> rows = []" by metis
qed

lemma concat_map_last: "gs \<noteq> [] \<Longrightarrow> concat (map f gs) = concat (map f (butlast gs)) @ f (last gs)"
  by (induction gs) auto

lemma groups_last_subset:
  assumes "xs \<noteq> []"
  shows "set (last (groups key xs)) \<subseteq> set xs"
proof -
  have "last (groups key xs) \<in> set (groups key xs)" using assms by (intro last_in_set) simp
  then have "set (last (groups key xs)) \<subseteq> set (concat (groups key xs))" by (auto simp del: concat_groups)
  then show ?thesis by simp
qed

lemma sorted_wrt_last: "sorted_wrt R xs \<Longrightarrow> x \<in> set xs \<Longrightarrow> x = last xs \<or> R x (last xs)"
  by (induction xs) auto

lemma groups_const: "xs \<noteq> [] \<Longrightarrow> \<forall>x \<in> set xs. key x = key (hd xs) \<Longrightarrow> groups key xs = [xs]"
proof (induction xs)
  case (Cons x xs)
  show ?case
  proof (cases "xs = []")
    case False
    have k: "key y = key x" if "y \<in> set xs" for y using Cons.prems(2) that by auto
    have h: "key (hd xs) = key x" by (rule k) (use False in simp)
    have "\<forall>y \<in> set xs. key y = key (hd xs)" unfolding h using k by blast
    from Cons.IH [OF False this] show ?thesis using h by simp
  qed simp
qed simp

lemma key_slice_append:
  assumes "g \<noteq> []" and "chunk \<noteq> []" and "\<forall>row \<in> set g. fr_timestamp row \<le> fr_timestamp (last g)"
  shows "fr_timestamp (last g) < fr_timestamp (last chunk) \<Longrightarrow> key_slice (g @ chunk) = key_slice chunk"
    and "fr_timestamp (last g) = fr_timestamp (last chunk) \<Longrightarrow> key_slice (g @ chunk) = key_slice g @ key_slice chunk"
proof -
  have e: "key_slice (g @ chunk) = filter (\<lambda>row. fr_timestamp row = fr_timestamp (last chunk)) g @ key_slice chunk"
    using assms(2) by (simp add: key_slice_def)
  show "key_slice (g @ chunk) = key_slice chunk" if "fr_timestamp (last g) < fr_timestamp (last chunk)"
  proof -
    have "fr_timestamp row \<noteq> fr_timestamp (last chunk)" if "row \<in> set g" for row
      using assms(3) that \<open>fr_timestamp (last g) < fr_timestamp (last chunk)\<close> by fastforce
    then show ?thesis unfolding e by (simp add: filter_empty_conv)
  qed
  show "key_slice (g @ chunk) = key_slice g @ key_slice chunk" if "fr_timestamp (last g) = fr_timestamp (last chunk)"
    unfolding e that [symmetric] by (simp add: key_slice_def)
qed

lemma sel_step_ok:
  assumes "sel_inv seen out sel" and "chunk \<noteq> []" and same: "\<forall>row \<in> set chunk. fr_primary_key row = fr_primary_key (hd chunk)"
    and "sorted_wrt series_le (seen @ chunk)"
  shows "sel_inv (seen @ chunk) out (sel_step chunk sel)"
proof -
  have c: "groups fr_primary_key chunk = [chunk]" by (rule groups_const [OF assms(2) same])
  have lc: "fr_primary_key (last chunk) = fr_primary_key (hd chunk)" using same assms(2) last_in_set by blast
  have b: "buffer_ok (snd sel)" using assms(1) by (simp add: sel_inv_def)
  show ?thesis
  proof (cases "fst sel")
    case None
    with assms(1,2) c lc b show ?thesis by (simp add: sel_inv_def sel_step_def)
  next
    case (Some state)
    let ?G = "groups fr_primary_key seen"
    have i: "seen \<noteq> []" "lk_key state = fr_primary_key (last seen)" "lk_last_timestamp state = fr_timestamp (last seen)"
      "[] \<notin> set (lk_slices state)" "lk_slices state \<noteq> []" "concat (lk_slices state) = key_slice (last ?G)"
      "out @ concat (bf_batches (snd sel)) = concat (map key_slice (butlast ?G))"
      using assms(1) Some by (simp_all add: sel_inv_def)
    note G = groups_last [OF i(1), of fr_primary_key]
    show ?thesis
    proof (cases "fr_primary_key (last seen) = fr_primary_key (hd chunk)")
      case False
      have g: "groups fr_primary_key (seen @ chunk) = ?G @ [chunk]" using groups_append_other [OF i(1) assms(2) False] c by simp
      have n: "?G \<noteq> []" using i(1) by simp
      have "concat (map key_slice ?G) = concat (map key_slice (butlast ?G)) @ key_slice (last ?G)" by (rule concat_map_last [OF n])
      with i False Some b g lc assms(2) extend_ok [OF b i(4)] show ?thesis
        by (simp add: sel_inv_def sel_step_def flush_current_key_def split_beta extend_from_slice_def)
    next
      case True
      have g: "groups fr_primary_key (seen @ chunk) = butlast ?G @ [last ?G @ chunk]"
        using groups_append_same [OF i(1) assms(2) True] c by simp
      have "fr_timestamp row \<le> fr_timestamp (last (last ?G))" if "row \<in> set (last ?G)" for row
      proof -
        have "row \<in> set seen" using groups_last_subset [OF i(1)] that by blast
        then have "row = last seen \<or> series_le row (last seen)" using sorted_wrt_last [of series_le seen] assms(4) by (simp add: sorted_wrt_append)
        moreover have "fr_primary_key row = fr_primary_key (last seen)" using groups_last_key [OF i(1) that] .
        ultimately show ?thesis unfolding G(1) by (auto simp: series_le_def)
      qed
      then have le: "\<forall>row \<in> set (last ?G). fr_timestamp row \<le> fr_timestamp (last (last ?G))" by blast
      have "series_le (last seen) (last chunk)" using assms(2,4) i(1) by (simp add: sorted_wrt_append)
      then have "fr_timestamp (last seen) \<le> fr_timestamp (last chunk)" using True lc by (simp add: series_le_def)
      then consider "fr_timestamp (last seen) < fr_timestamp (last chunk)" | "fr_timestamp (last seen) = fr_timestamp (last chunk)" by linarith
      then show ?thesis
      proof cases
        case 1
        with key_slice_append(1) [OF G(2) assms(2) le] i True Some b g lc assms(2) G(1) show ?thesis
          by (simp add: sel_inv_def sel_step_def)
      next
        case 2
        with key_slice_append(2) [OF G(2) assms(2) le] i True Some b g lc assms(2) G(1) show ?thesis
          by (simp add: sel_inv_def sel_step_def)
      qed
    qed
  qed
qed

section \<open>The reader\<close>

lemma sorted_wrt_concat_part: "sorted_wrt R (concat cs) \<Longrightarrow> c \<in> set cs \<Longrightarrow> sorted_wrt R c"
  by (induction cs) (auto simp: sorted_wrt_append)

lemma fold_steps_ok:
  assumes "sel_inv seen out sel" and "sorted_wrt series_le (seen @ concat cs)" and "[] \<notin> set cs"
    and "\<forall>chunk \<in> set cs. \<forall>row \<in> set chunk. fr_primary_key row = fr_primary_key (hd chunk)"
  shows "sel_inv (seen @ concat cs) out (fold sel_step cs sel)"
  using assms
proof (induction cs arbitrary: seen sel)
  case (Cons chunk cs)
  have "sorted_wrt series_le (seen @ chunk)" using Cons.prems(2) by (auto simp: sorted_wrt_append)
  then have s: "sel_inv (seen @ chunk) out (sel_step chunk sel)"
    by (rule sel_step_ok [OF Cons.prems(1), rotated 2]) (use Cons.prems(3,4) in auto)
  have "sel_inv ((seen @ chunk) @ concat cs) out (fold sel_step cs (sel_step chunk sel))"
    by (rule Cons.IH [OF s]) (use Cons.prems in simp_all)
  then show ?case by simp
qed simp

lemma on_next_ok:
  assumes "sel_inv seen out sel" and "dictionary_ok pk_indices batch" and "sorted_wrt series_le (seen @ batch)"
  shows "sel_inv (seen @ batch) out (on_next pk_indices batch sel)"
proof -
  note c = index_chunks_ok [OF assms(2)]
  let ?cs = "index_chunks pk_indices batch"
  have same: "\<forall>chunk \<in> set ?cs. \<forall>row \<in> set chunk. fr_primary_key row = fr_primary_key (hd chunk)" using c(4) by blast
  have "sorted_wrt series_le (concat ?cs)" unfolding c(1) using assms(3) by (simp add: sorted_wrt_append)
  then have sc: "sorted_wrt series_le chunk" if "chunk \<in> set ?cs" for chunk using sorted_wrt_concat_part that by blast
  have "sorted_wrt (\<lambda>a b. fr_timestamp a \<le> fr_timestamp b) chunk" if m: "chunk \<in> set ?cs" for chunk
  proof (rule sorted_wrt_mono_rel [OF _ sc [OF m]])
    fix a b
    assume "a \<in> set chunk" "b \<in> set chunk" and le: "series_le a b"
    then have "fr_primary_key a = fr_primary_key b" using same m by metis
    with le show "fr_timestamp a \<le> fr_timestamp b" by (simp add: series_le_def)
  qed
  then have "on_next pk_indices batch sel = fold sel_step ?cs sel" using on_next_steps [OF assms(2)] by blast
  with fold_steps_ok [OF assms(1) _ c(2) same] assms(3) c(1) show ?thesis by simp
qed

lemma stream_loop_ok:
  assumes "kernels_ok ks" and "sel_inv seen out sel" and "\<forall>batch \<in> set batches. dictionary_ok pk_indices batch"
    and "sorted_wrt series_le (seen @ concat batches)"
  shows "\<exists>results. last_row_stream_loop ks pk_indices sel (map Inr batches) = Inr results
    \<and> [] \<notin> set results \<and> out @ concat results = last_series_rows (seen @ concat batches)"
  using assms(2-4)
proof (induction batches arbitrary: seen out sel)
  case Nil
  show ?case
  proof (cases "fst sel")
    case None
    with Nil show ?thesis by (cases sel) (simp add: sel_inv_def flush_current_key_def last_series_rows_def)
  next
    case (Some state)
    let ?G = "groups fr_primary_key seen"
    have i: "seen \<noteq> []" "[] \<notin> set (lk_slices state)" "lk_slices state \<noteq> []" "[] \<notin> set (bf_batches (snd sel))"
      "concat (lk_slices state) = key_slice (last ?G)" "out @ concat (bf_batches (snd sel)) = concat (map key_slice (butlast ?G))"
      using Nil.prems(1) Some by (simp_all add: sel_inv_def buffer_ok_def)
    have f: "flush_current_key sel = (None, extend_from_slice (lk_slices state) (snd sel))"
      using Some by (cases sel) (simp add: flush_current_key_def)
    have "concat (map key_slice ?G) = concat (map key_slice (butlast ?G)) @ key_slice (last ?G)" using concat_map_last [of ?G key_slice] i(1) by simp
    moreover have "concat (bf_batches (snd sel)) @ concat (lk_slices state) \<noteq> []" using i(2,3) by (cases "lk_slices state") auto
    ultimately show ?thesis
      using i f by (simp add: extend_from_slice_def concat_buffer_def kernelsD(6) [OF assms(1)] last_series_rows_def flip: append_assoc)
  qed
next
  case (Cons batch batches)
  have "sorted_wrt series_le (seen @ batch)" using Cons.prems(3) by (auto simp: sorted_wrt_append)
  then have inv: "sel_inv (seen @ batch) out (on_next pk_indices batch sel)" using on_next_ok [OF Cons.prems(1)] Cons.prems(2) by simp
  have rest: "\<forall>b \<in> set batches. dictionary_ok pk_indices b" "sorted_wrt series_le ((seen @ batch) @ concat batches)" using Cons.prems(2,3) by simp_all
  let ?sel = "on_next pk_indices batch sel"
  show ?case
  proof (cases "is_full (snd ?sel)")
    case True
    let ?m = "concat (bf_batches (snd ?sel))"
    have rows: "bf_num_rows (snd ?sel) = length ?m" using inv unfolding sel_inv_def buffer_ok_def by blast
    have "0 < bf_num_rows (snd ?sel)" using True by (simp add: is_full_def DEFAULT_READ_BATCH_SIZE_def)
    then have m: "?m \<noteq> []" unfolding rows by (metis length_greater_0_conv)
    have "sel_inv (seen @ batch) (out @ ?m) (fst ?sel, batch_buffer_new)"
      using inv m by (auto simp: sel_inv_def buffer_ok_def batch_buffer_new_def split: option.splits)
    from Cons.IH [OF this rest] obtain results where "last_row_stream_loop ks pk_indices (fst ?sel, batch_buffer_new) (map Inr batches) = Inr results"
      "[] \<notin> set results" "(out @ ?m) @ concat results = last_series_rows ((seen @ batch) @ concat batches)" by blast
    with True m show ?thesis by (intro exI [of _ "?m # results"]) (simp add: Let_def concat_buffer_def kernelsD(6) [OF assms(1)])
  next
    case False
    with Cons.IH [OF inv rest] show ?thesis by (simp add: Let_def)
  qed
qed

text \<open>In the order of a scan, the last rows of the series are the rows that no row of their series follows in time.\<close>

lemma last_series_rows_latest:
  assumes "sorted_wrt series_le rows"
  shows "last_series_rows rows
    = filter (\<lambda>row. \<forall>other \<in> set rows. fr_primary_key other = fr_primary_key row \<longrightarrow> fr_timestamp other \<le> fr_timestamp row) rows"
proof -
  let ?P = "\<lambda>row. \<forall>other \<in> set rows. fr_primary_key other = fr_primary_key row \<longrightarrow> fr_timestamp other \<le> fr_timestamp row"
  let ?G = "groups fr_primary_key rows"
  have "sorted_wrt (\<lambda>a b. fr_primary_key a \<le> fr_primary_key b) rows"
    by (rule sorted_wrt_mono_rel [OF _ assms]) (auto simp: series_le_def)
  then have d: "distinct (map (\<lambda>g. fr_primary_key (hd g)) ?G)" by (intro groups_keys_distinct [where le = "(\<le>)"]) auto
  have "filter ?P g = key_slice g" if g: "g \<in> set ?G" for g
    unfolding key_slice_def
  proof (rule filter_cong [OF refl])
    fix row
    assume row: "row \<in> set g"
    have n: "g \<noteq> []" using groups_nonempty [OF g] .
    have sub: "set g \<subseteq> set rows" using g concat_groups [of fr_primary_key rows] by (metis UN_upper set_concat)
    have "sorted_wrt series_le g" using sorted_wrt_concat_part [OF _ g] assms by simp
    then have le: "fr_timestamp other \<le> fr_timestamp (last g)" if "other \<in> set g" for other
      using sorted_wrt_last [of series_le g other] groups_same_key [OF g that] groups_same_key [OF g last_in_set [OF n]] that
      by (auto simp: series_le_def)
    have key: "fr_primary_key x = fr_primary_key (hd g)" if "x \<in> set g" for x using groups_same_key [OF g that] .
    show "?P row = (fr_timestamp row = fr_timestamp (last g))"
    proof
      assume p: "?P row"
      have "fr_primary_key (last g) = fr_primary_key row" using key [OF last_in_set [OF n]] key [OF row] by simp
      then have "fr_timestamp (last g) \<le> fr_timestamp row" using p sub last_in_set [OF n] by blast
      with le [OF row] show "fr_timestamp row = fr_timestamp (last g)" by simp
    next
      assume t: "fr_timestamp row = fr_timestamp (last g)"
      show "?P row"
      proof (intro ballI impI)
        fix other
        assume o: "other \<in> set rows" "fr_primary_key other = fr_primary_key row"
        have "other \<in> set g" by (rule groups_collect [OF d g o(1)]) (use o(2) key [OF row] in simp)
        from le [OF this] show "fr_timestamp other \<le> fr_timestamp row" unfolding t .
      qed
    qed
  qed
  then have "map key_slice ?G = map (filter ?P) ?G" by simp
  then have "last_series_rows rows = filter ?P (concat ?G)" unfolding last_series_rows_def filter_concat by (rule arg_cong)
  then show ?thesis by simp
qed

text \<open>
  C13. The last rows of the series: on rows sorted by primary key and time, in whatever batches and
  with whatever dictionaries, the reader returns in order exactly the rows after which their series
  has no later row, and no empty batch.
\<close>

theorem last_rows_of_series:
  assumes "kernels_ok ks" and "\<forall>batch \<in> set batches. dictionary_ok pk_indices batch" and "sorted_wrt series_le (concat batches)"
  shows "\<exists>results. flat_last_row_reader ks pk_indices (map Inr batches) = Inr results
    \<and> [] \<notin> set results
    \<and> concat results = filter (\<lambda>row. \<forall>other \<in> set (concat batches).
        fr_primary_key other = fr_primary_key row \<longrightarrow> fr_timestamp other \<le> fr_timestamp row) (concat batches)"
proof -
  have "sel_inv [] [] (None, batch_buffer_new)" by (simp add: sel_inv_def buffer_ok_def batch_buffer_new_def)
  from stream_loop_ok [OF assms(1) this assms(2)] assms(3) show ?thesis
    unfolding last_series_rows_latest [OF assms(3), symmetric] flat_last_row_reader_def by simp
qed

definition sample_series :: "nat batch list" where
  "sample_series =
     [[\<lparr>fr_primary_key = [1], fr_timestamp = 10, fr_sequence = 1, fr_op_type = OpPut, fr_fields = [Some 4]\<rparr>,
       \<lparr>fr_primary_key = [1], fr_timestamp = 20, fr_sequence = 2, fr_op_type = OpPut, fr_fields = [Some 5]\<rparr>],
      [\<lparr>fr_primary_key = [1], fr_timestamp = 30, fr_sequence = 3, fr_op_type = OpPut, fr_fields = [Some 6]\<rparr>,
       \<lparr>fr_primary_key = [2], fr_timestamp = 10, fr_sequence = 4, fr_op_type = OpPut, fr_fields = [Some 7]\<rparr>]]"

theorem last_rows_of_series_witness:
  "\<exists>results. flat_last_row_reader (arrow_kernels :: (nat, nat) kernels) (\<lambda>batch. [0..<length batch]) (map Inr sample_series) = Inr results
    \<and> [] \<notin> set results
    \<and> concat results = filter (\<lambda>row. \<forall>other \<in> set (concat sample_series).
        fr_primary_key other = fr_primary_key row \<longrightarrow> fr_timestamp other \<le> fr_timestamp row) (concat sample_series)"
proof -
  have "\<forall>batch \<in> set sample_series. dictionary_ok (\<lambda>batch. [0..<length batch]) batch" by (auto simp: dictionary_ok_def)
  moreover have "sorted_wrt series_le (concat sample_series)" by (simp add: sample_series_def series_le_def)
  ultimately show ?thesis by (rule last_rows_of_series [OF arrow_kernels_ok])
qed

end
