(* ===== verification/Read_Path.thy ===== *)
theory Read_Path
  imports Read_Strategy Read_Offsets Read_Selector
begin

text \<open>
  The reader of a scan, from \<open>build_flat_reader_from_sources\<close> of \<open>src/src/mito2/src/read/seq_scan.rs\<close>: the sources
  are merged, duplicate rows are removed by the merge mode of the region, and the last rows of the
  series are selected when the query asks for them. A stream that ends with an error is represented
  by the error. Reading the sources in parallel does not change what each of them returns and is
  left out.
\<close>

section \<open>Definitions\<close>

record scan_input =
  si_append_mode :: bool
  si_merge_mode :: merge_mode
  si_filter_deleted :: bool
  si_batch_size :: nat
  si_last_row_selector :: bool

text \<open>The libraries that the reader calls, and what the columns of its batches look like.\<close>

record ('e, 'v) read_env =
  re_overflow :: "nat \<Rightarrow> 'e"
  re_byte_columns :: "'v byte_column list"
  re_interleave :: "('e, 'v) interleave"
  re_kernels :: "('e, 'v) kernels"
  re_pk_indices :: "'v batch \<Rightarrow> nat list"

definition stream_of :: "'e + 'v batch list \<Rightarrow> ('e + 'v batch) list" where
  "stream_of r = (case r of Inl err \<Rightarrow> [Inl err] | Inr batches \<Rightarrow> map Inr batches)"

definition merge_sources ::
  "('e, 'v) read_env \<Rightarrow> scan_input \<Rightarrow> nat \<Rightarrow> ('e + 'v batch) list list \<Rightarrow> ('e + 'v batch) list option" where
  "merge_sources env input fuel sources =
     (if length sources = 1 then Some (last sources)
      else map_option stream_of
             (flat_merge (re_overflow env) (re_byte_columns env) (re_interleave env) fuel (si_batch_size input) sources))"

definition dedup_rows ::
  "('e, 'v) read_env \<Rightarrow> scan_input \<Rightarrow> bool \<Rightarrow> nat \<Rightarrow> ('e + 'v batch) list \<Rightarrow> ('e + 'v batch) list option" where
  "dedup_rows env input skip_dedup fuel reader =
     (if \<not> skip_dedup \<and> \<not> si_append_mode input
      then (case si_merge_mode input of
              LastRow \<Rightarrow>
                map_option stream_of
                  (dedup_stream (lr_push_batch (re_kernels env)) lr_finish fuel (last_row_new (si_filter_deleted input)) reader)
            | LastNonNull \<Rightarrow>
                map_option stream_of
                  (dedup_stream (nn_push_batch (re_kernels env)) (nn_finish (re_kernels env)) fuel
                     (last_non_null_new (si_filter_deleted input)) reader))
      else Some reader)"

definition select_rows :: "('e, 'v) read_env \<Rightarrow> scan_input \<Rightarrow> ('e + 'v batch) list \<Rightarrow> ('e + 'v batch) list" where
  "select_rows env input reader =
     (if si_last_row_selector input then stream_of (flat_last_row_reader (re_kernels env) (re_pk_indices env) reader)
      else reader)"

definition build_flat_reader_from_sources ::
  "('e, 'v) read_env \<Rightarrow> scan_input \<Rightarrow> nat \<Rightarrow> bool \<Rightarrow> ('e + 'v batch) list list \<Rightarrow> ('e + 'v batch) list option" where
  "build_flat_reader_from_sources env input fuel skip_dedup sources =
     (case merge_sources env input fuel sources of
        None \<Rightarrow> None
      | Some merged \<Rightarrow>
          (case dedup_rows env input skip_dedup fuel merged of
             None \<Rightarrow> None
           | Some deduped \<Rightarrow> Some (select_rows env input deduped)))"

section \<open>The newest rows\<close>

text \<open>The rows of a set that no row with the same key is newer than, and that are not filtered.\<close>

definition newest :: "bool \<Rightarrow> 'v flat_row set \<Rightarrow> 'v flat_row set" where
  "newest filter_deleted rows =
     {row \<in> rows. kept filter_deleted row \<and> (\<forall>other \<in> rows. row_key other = row_key row \<longrightarrow> fr_sequence other \<le> fr_sequence row)}"

text \<open>A sequence number names one change of a key.\<close>

definition versioned :: "'v flat_row set \<Rightarrow> bool" where
  "versioned rows \<longleftrightarrow> (\<forall>a \<in> rows. \<forall>b \<in> rows. row_key a = row_key b \<longrightarrow> fr_sequence a = fr_sequence b \<longrightarrow> a = b)"

definition key_le :: "bytes \<times> int \<Rightarrow> bytes \<times> int \<Rightarrow> bool" where
  "key_le a b \<longleftrightarrow> fst a < fst b \<or> fst a = fst b \<and> snd a \<le> snd b"

lemma row_le_key: "row_le a b \<Longrightarrow> key_le (row_key a) (row_key b)"
  by (auto simp: row_le_def key_le_def row_key_def)

lemma row_le_sequence: "row_le a b \<Longrightarrow> row_key a = row_key b \<Longrightarrow> fr_sequence b \<le> fr_sequence a"
  by (auto simp: row_le_def row_key_def)

lemma key_after_iff: "key_after b a \<longleftrightarrow> key_le (row_key a) (row_key b) \<and> row_key a \<noteq> row_key b"
  by (auto simp: key_after_def key_le_def row_key_def)

lemma sorted_groups_distinct:
  assumes "sorted_rows rows"
  shows "distinct (map (\<lambda>g. row_key (hd g)) (groups row_key rows))"
proof (rule groups_keys_distinct)
  show "sorted_wrt (\<lambda>a b. key_le (row_key a) (row_key b)) rows" by (rule sorted_wrt_mono_rel [OF _ assms]) (rule row_le_key)
  show "a = b" if "key_le a b" "key_le b a" for a b using that by (cases a; cases b) (auto simp: key_le_def)
qed

lemma group_subset: "g \<in> set (groups key xs) \<Longrightarrow> set g \<subseteq> set xs"
  using concat_groups [of key xs] by (metis UN_upper set_concat)

lemma sorted_wrt_hd: "sorted_wrt R xs \<Longrightarrow> x \<in> set xs \<Longrightarrow> x = hd xs \<or> R (hd xs) x"
  by (cases xs) auto

text \<open>The first rows of the runs of sorted rows are the newest rows of the keys.\<close>

lemma heads_newest:
  assumes "sorted_rows rows" and "g \<in> set (groups row_key rows)" and "other \<in> set rows" and "row_key other = row_key (hd g)"
  shows "fr_sequence other \<le> fr_sequence (hd g)"
proof -
  have "other \<in> set g" by (rule groups_collect [OF sorted_groups_distinct [OF assms(1)] assms(2-4)])
  moreover have "sorted_rows g" using sorted_wrt_concat_part [OF _ assms(2)] assms(1) by simp
  ultimately have "other = hd g \<or> row_le (hd g) other" by (rule sorted_wrt_hd [rotated])
  then show ?thesis using row_le_sequence [of "hd g" other] assms(4) by auto
qed

lemma last_row_spec_newest:
  assumes "sorted_rows rows" and "versioned (set rows)"
  shows "set (last_row_spec filter_deleted rows) = newest filter_deleted (set rows)"
proof (intro set_eqI iffI)
  fix row
  assume "row \<in> set (last_row_spec filter_deleted rows)"
  then obtain g where g: "g \<in> set (groups row_key rows)" "row = hd g" "kept filter_deleted row" by (auto simp: last_row_spec_def)
  have "row \<in> set rows" using g(2) group_subset [OF g(1)] hd_in_set [OF groups_nonempty [OF g(1)]] by blast
  with g heads_newest [OF assms(1) g(1)] show "row \<in> newest filter_deleted (set rows)" by (simp add: newest_def)
next
  fix row
  assume row: "row \<in> newest filter_deleted (set rows)"
  then have "row \<in> set (concat (groups row_key rows))" by (simp add: newest_def)
  then obtain g where g: "g \<in> set (groups row_key rows)" "row \<in> set g" by (auto simp del: concat_groups)
  have h: "hd g \<in> set rows" using group_subset [OF g(1)] hd_in_set [OF groups_nonempty [OF g(1)]] by blast
  have k: "row_key row = row_key (hd g)" using groups_same_key [OF g] .
  have m: "row \<in> set rows" using row by (simp add: newest_def)
  have "fr_sequence (hd g) \<le> fr_sequence row" using row h k by (simp add: newest_def)
  moreover have "fr_sequence row \<le> fr_sequence (hd g)" by (rule heads_newest [OF assms(1) g(1) m k])
  ultimately have "row = hd g" using assms(2) h m k unfolding versioned_def by (metis order_antisym)
  with g(1) row show "row \<in> set (last_row_spec filter_deleted rows)" by (auto simp: last_row_spec_def newest_def)
qed

text \<open>The keys of the first rows strictly increase, which with their set determines their list.\<close>

lemma sorted_heads: "sorted_wrt R (concat gs) \<Longrightarrow> [] \<notin> set gs \<Longrightarrow> sorted_wrt R (map hd gs)"
proof (induction gs)
  case (Cons g gs)
  have "hd h \<in> set (concat gs)" if "h \<in> set gs" for h using that Cons.prems(2) by (auto intro!: bexI [of _ h] hd_in_set)
  moreover have "hd g \<in> set g" using Cons.prems(2) by (intro hd_in_set) auto
  ultimately have "\<forall>h \<in> set gs. R (hd g) (hd h)" using Cons.prems(1) unfolding concat.simps sorted_wrt_append by blast
  with Cons show ?case by (simp add: sorted_wrt_append)
qed simp

lemma sorted_strict: "sorted_rows hs \<Longrightarrow> distinct (map row_key hs) \<Longrightarrow> sorted_wrt (\<lambda>a b. key_after b a) hs"
proof (induction hs)
  case (Cons h hs)
  then show ?case by (auto simp: key_after_iff row_le_key)
qed simp

lemma last_row_spec_sorted:
  assumes "sorted_rows rows"
  shows "sorted_wrt (\<lambda>a b. key_after b a) (last_row_spec filter_deleted rows)"
proof -
  have "sorted_rows (map hd (groups row_key rows))" using sorted_heads [OF _ groups_no_empty, of row_le row_key rows] assms by simp
  moreover have "distinct (map row_key (map hd (groups row_key rows)))" using sorted_groups_distinct [OF assms] by (simp add: comp_def)
  ultimately show ?thesis unfolding last_row_spec_def by (intro sorted_wrt_filter sorted_strict)
qed

lemma strict_list_unique:
  assumes "\<And>a b. R a b \<Longrightarrow> \<not> R b a"
  shows "sorted_wrt R xs \<Longrightarrow> sorted_wrt R ys \<Longrightarrow> set xs = set ys \<Longrightarrow> xs = ys"
proof (induction xs arbitrary: ys)
  case (Cons x xs)
  obtain y ys' where y: "ys = y # ys'" using Cons.prems(3) by (cases ys) auto
  have "x = y" using Cons.prems assms unfolding y by (metis list.set_intros(1) set_ConsD sorted_wrt.simps(2))
  moreover have "x \<notin> set xs" "y \<notin> set ys'" using Cons.prems(1,2) assms unfolding y by auto
  ultimately have "set xs = set ys'" using Cons.prems(3) unfolding y by auto
  with Cons.IH [of ys'] Cons.prems(1,2) \<open>x = y\<close> show ?case unfolding y by simp
qed simp

lemma key_after_asym: "key_after a b \<Longrightarrow> \<not> key_after b a"
  by (auto simp: key_after_def)

section \<open>What a scan returns\<close>

definition plain_scan :: "scan_input \<Rightarrow> bool" where
  "plain_scan input \<longleftrightarrow> \<not> si_append_mode input \<and> si_merge_mode input = LastRow \<and> \<not> si_last_row_selector input"

definition read_env_ok :: "('e, 'v) read_env \<Rightarrow> bool" where
  "read_env_ok env \<longleftrightarrow> interleave_ok (re_interleave env) \<and> kernels_ok (re_kernels env)"

definition source_rows :: "('e + 'v batch) list list \<Rightarrow> 'v flat_row list" where
  "source_rows sources = concat (map iter_rows sources)"

definition enough_fuel :: "nat \<Rightarrow> ('e + 'v batch) list list \<Rightarrow> bool" where
  "enough_fuel fuel sources \<longleftrightarrow> length (source_rows sources) + 1 < fuel \<and> (\<forall>source \<in> set sources. length source + 1 < fuel)"

lemma ok_iter_map: "ok_iter iter \<Longrightarrow> iter = map Inr (map projr iter)"
  unfolding ok_iter_def by (induction iter) (auto simp: sum.collapse)

lemma batches_bound: "[] \<notin> set batches \<Longrightarrow> length batches \<le> length (concat batches)"
proof (induction batches)
  case (Cons b batches)
  then show ?case by (cases b) auto
qed simp

text \<open>The merged stream is an error, or the rows of all sources in order.\<close>

lemma merge_sources_ok:
  assumes "read_env_ok env" and "\<forall>source \<in> set sources. good_source source" and "enough_fuel fuel sources"
  obtains (error) err where "merge_sources env input fuel sources = Some [Inl err]"
      and "overflow_of (re_overflow env) (re_byte_columns env) (mset (source_rows sources)) err"
  | (rows) batches where "merge_sources env input fuel sources = Some (map Inr batches)" and "length batches + 1 < fuel"
      and "sorted_rows (concat batches)" and "mset (concat batches) = mset (source_rows sources)"
proof (cases "length sources = 1")
  case True
  then obtain source where s: "sources = [source]" by (cases sources) auto
  have ok: "ok_iter source" "sorted_rows (iter_rows source)" using assms(2) s by (simp_all add: good_source_def)
  have "merge_sources env input fuel sources = Some (map Inr (map projr source))"
    using s ok_iter_map [OF ok(1)] by (simp add: merge_sources_def)
  with rows [of "map projr source"] ok(2) assms(3) s show ?thesis
    by (simp add: iter_rows_def source_rows_def enough_fuel_def)
next
  case False
  let ?m = "flat_merge (re_overflow env) (re_byte_columns env) (re_interleave env) fuel (si_batch_size input) sources"
  have il: "interleave_ok (re_interleave env)" and f: "length (concat (map iter_rows sources)) + 1 < fuel"
    using assms(1,3) by (simp_all add: read_env_ok_def enough_fuel_def source_rows_def)
  from flat_merge_result [OF il assms(2) f, of "re_overflow env" "re_byte_columns env" "si_batch_size input"]
  show ?thesis
  proof (elim disjE exE conjE)
    fix err
    assume "?m = Some (Inl err)" "overflow_of (re_overflow env) (re_byte_columns env) (mset (concat (map iter_rows sources))) err"
    with False error [of err] show ?thesis by (simp add: merge_sources_def stream_of_def source_rows_def)
  next
    fix batches
    assume b: "?m = Some (Inr batches)" "[] \<notin> set batches" "sorted_rows (concat batches)" "mset (concat batches) = mset (concat (map iter_rows sources))"
    have "length (concat batches) = length (concat (map iter_rows sources))" using arg_cong [OF b(4), of size] unfolding size_mset .
    then have "length batches + 1 < fuel" using batches_bound [OF b(2)] f by linarith
    with b False rows [of batches] show ?thesis by (simp add: merge_sources_def stream_of_def source_rows_def)
  qed
qed

lemma plain_scan_ok:
  assumes "read_env_ok env" and "\<forall>source \<in> set sources. good_source source" and "enough_fuel fuel sources"
    and "plain_scan input" and "versioned (set (source_rows sources))"
  obtains (error) err where "build_flat_reader_from_sources env input fuel False sources = Some [Inl err]"
      and "overflow_of (re_overflow env) (re_byte_columns env) (mset (source_rows sources)) err"
  | (rows) batches where "build_flat_reader_from_sources env input fuel False sources = Some (map Inr batches)"
      and "[] \<notin> set batches" and "sorted_wrt (\<lambda>a b. key_after b a) (concat batches)"
      and "set (concat batches) = newest (si_filter_deleted input) (set (source_rows sources))"
proof -
  have p: "\<not> si_append_mode input" "si_merge_mode input = LastRow" "\<not> si_last_row_selector input" using assms(4) by (simp_all add: plain_scan_def)
  have ks: "kernels_ok (re_kernels env)" using assms(1) by (simp add: read_env_ok_def)
  obtain k where k: "fuel = Suc k" using assms(3) by (cases fuel) (auto simp: enough_fuel_def)
  show ?thesis
  proof (rule merge_sources_ok [OF assms(1-3), of input])
    fix err
    assume "merge_sources env input fuel sources = Some [Inl err]" "overflow_of (re_overflow env) (re_byte_columns env) (mset (source_rows sources)) err"
    with p k error [of err] show ?thesis
      by (simp add: build_flat_reader_from_sources_def dedup_rows_def select_rows_def stream_of_def)
  next
    fix merged
    assume m: "merge_sources env input fuel sources = Some (map Inr merged)" "length merged + 1 < fuel" "sorted_rows (concat merged)"
      "mset (concat merged) = mset (source_rows sources)"
    have s: "set (concat merged) = set (source_rows sources)" using m(4) mset_eq_setD by blast
    obtain batches where b: "dedup_stream (lr_push_batch (re_kernels env)) lr_finish fuel (last_row_new (si_filter_deleted input)) (map Inr merged)
        = Some (Inr batches)" "[] \<notin> set batches" "concat batches = last_row_spec (si_filter_deleted input) (concat merged)"
      using last_row_stream [OF ks m(2)] by blast
    show ?thesis
    proof (rule rows [OF _ b(2)])
      show "build_flat_reader_from_sources env input fuel False sources = Some (map Inr batches)"
        using m(1) p b(1) by (simp add: build_flat_reader_from_sources_def dedup_rows_def select_rows_def stream_of_def)
      show "sorted_wrt (\<lambda>a b. key_after b a) (concat batches)" unfolding b(3) by (rule last_row_spec_sorted [OF m(3)])
      show "set (concat batches) = newest (si_filter_deleted input) (set (source_rows sources))"
        unfolding b(3) s [symmetric] by (rule last_row_spec_newest [OF m(3)]) (use assms(5) s in simp)
    qed
  qed
qed

text \<open>
  C5. A scan returns the newest rows: for a region that keeps the last row, whatever sources and
  batches the changes come in, the rows a scan returns are, in strictly increasing order of primary
  key and time and with no empty batch, exactly those changes that no change of the same key is newer
  than, without deleted rows when these are filtered. The only error is an overflow of the offsets
  of a column. The sources are each sorted, and a sequence number names one change of a key.
\<close>

theorem scan_returns_newest_rows:
  assumes "read_env_ok env" and "\<forall>source \<in> set sources. good_source source" and "enough_fuel fuel sources"
    and "plain_scan input" and "versioned (set (source_rows sources))"
  shows "(\<exists>err. build_flat_reader_from_sources env input fuel False sources = Some [Inl err]
        \<and> overflow_of (re_overflow env) (re_byte_columns env) (mset (source_rows sources)) err)
    \<or> (\<exists>batches. build_flat_reader_from_sources env input fuel False sources = Some (map Inr batches)
        \<and> [] \<notin> set batches \<and> sorted_wrt (\<lambda>a b. key_after b a) (concat batches)
        \<and> set (concat batches) = newest (si_filter_deleted input) (set (source_rows sources)))"
  by (rule plain_scan_ok [OF assms]) blast+

definition sample_reader :: "(nat, nat) read_env" where
  "sample_reader =
     \<lparr>re_overflow = id, re_byte_columns = [sample_column], re_interleave = sample_interleave, re_kernels = arrow_kernels,
      re_pk_indices = (\<lambda>batch. [0..<length batch])\<rparr>"

definition sample_scan :: scan_input where
  "sample_scan =
     \<lparr>si_append_mode = False, si_merge_mode = LastRow, si_filter_deleted = True, si_batch_size = 2, si_last_row_selector = False\<rparr>"

lemma sample_reader_ok: "read_env_ok sample_reader"
  by (simp add: read_env_ok_def sample_reader_def sample_interleave_ok)

lemma sample_versioned: "versioned (set (source_rows sample_sources))"
  by (simp add: versioned_def source_rows_def iter_rows_def sample_sources_def sample_row_def row_key_def)

theorem scan_returns_newest_rows_witness:
  "(\<exists>err. build_flat_reader_from_sources sample_reader sample_scan 10 False sample_sources = Some [Inl err]
        \<and> overflow_of (re_overflow sample_reader) (re_byte_columns sample_reader) (mset (source_rows sample_sources)) err)
    \<or> (\<exists>batches. build_flat_reader_from_sources sample_reader sample_scan 10 False sample_sources = Some (map Inr batches)
        \<and> [] \<notin> set batches \<and> sorted_wrt (\<lambda>a b. key_after b a) (concat batches)
        \<and> set (concat batches) = newest (si_filter_deleted sample_scan) (set (source_rows sample_sources)))"
proof -
  have "enough_fuel 10 sample_sources" by (simp add: enough_fuel_def source_rows_def sample_sources_def iter_rows_def)
  moreover have "plain_scan sample_scan" by (simp add: plain_scan_def sample_scan_def)
  ultimately show ?thesis by (rule scan_returns_newest_rows [OF sample_reader_ok sample_good _ _ sample_versioned])
qed

section \<open>Replacing sources by what a scan of them returns\<close>

lemma newest_of_newest:
  assumes "finite A"
    and "inner \<longrightarrow> outer \<and> (\<forall>a \<in> A. \<forall>b \<in> B. row_key a = row_key b \<longrightarrow> fr_sequence a < fr_sequence b)"
  shows "newest outer (newest inner A \<union> B) = newest outer (A \<union> B)"
proof (intro set_eqI iffI)
  fix row
  assume row: "row \<in> newest outer (newest inner A \<union> B)"
  have "fr_sequence other \<le> fr_sequence row" if o: "other \<in> A" "row_key other = row_key row" for other
  proof -
    let ?K = "{x \<in> A. row_key x = row_key row}"
    have k: "finite (fr_sequence ` ?K)" "fr_sequence ` ?K \<noteq> {}" using assms(1) o by auto
    obtain m where m: "m \<in> ?K" "fr_sequence m = Max (fr_sequence ` ?K)" using Max_in [OF k] by (metis (no_types, lifting) imageE)
    have top: "\<forall>x \<in> ?K. fr_sequence x \<le> fr_sequence m" unfolding m(2) using Max_ge [OF k(1)] by blast
    show ?thesis
    proof (cases "kept inner m")
      case True
      with m(1) top have "m \<in> newest inner A" by (simp add: newest_def)
      with row m(1) have "fr_sequence m \<le> fr_sequence row" by (simp add: newest_def)
      moreover have "fr_sequence other \<le> fr_sequence m" using top o by simp
      ultimately show ?thesis by simp
    next
      case False
      then have "inner" by (simp add: kept_def)
      then have newer: "fr_sequence other \<le> fr_sequence row" if "row \<in> B" using assms(2) o that by (simp add: order_less_imp_le)
      have "fr_sequence other \<le> fr_sequence row" if "row \<in> newest inner A" using o that by (simp add: newest_def)
      with row newer show ?thesis by (auto simp: newest_def)
    qed
  qed
  with row show "row \<in> newest outer (A \<union> B)" by (auto simp: newest_def)
next
  fix row
  assume row: "row \<in> newest outer (A \<union> B)"
  show "row \<in> newest outer (newest inner A \<union> B)"
  proof (cases "row \<in> A")
    case True
    have "kept inner row" using row assms(2) by (auto simp: newest_def kept_def)
    with row True have "row \<in> newest inner A" by (simp add: newest_def)
    with row show ?thesis by (auto simp: newest_def)
  next
    case False
    with row show ?thesis by (auto simp: newest_def)
  qed
qed

end
