(* ===== verification/Compaction_Reads.thy ===== *)
theory Compaction_Reads
  imports Compaction_Safety Read_Path
begin

text \<open>
  Compaction as a reader sees it: the inputs that the picker chooses are read with the deletion
  filter that the picker chooses, what is read replaces them, and a later scan of the region returns
  the same rows. The rows of a file are a parameter: the source that a reader of the file returns.
\<close>

section \<open>Rows of files\<close>

text \<open>The time range and the key range in the metadata of a file cover its rows.\<close>

definition file_covers :: "time_unit \<Rightarrow> file_handle \<Rightarrow> 'v flat_row \<Rightarrow> bool" where
  "file_covers unit f row \<longleftrightarrow>
     fst (fh_time_range f) \<le> ts_new (fr_timestamp row) unit \<and> ts_new (fr_timestamp row) unit \<le> snd (fh_time_range f)
     \<and> (case fh_primary_key_range f of Some (low, high) \<Rightarrow> low \<le> fr_primary_key row \<and> fr_primary_key row \<le> high | None \<Rightarrow> True)"

lemma shared_key_overlaps:
  assumes "file_covers unit f a" and "file_covers unit g b" and "row_key a = row_key b"
  shows "file_overlap_inclusive f g"
proof -
  have e: "fr_primary_key a = fr_primary_key b" "fr_timestamp a = fr_timestamp b" using assms(3) by (simp_all add: row_key_def)
  have "case (fh_primary_key_range f, fh_primary_key_range g) of (Some l, Some r) \<Rightarrow> primary_key_ranges_overlap l r | _ \<Rightarrow> True"
    using assms(1,2) e unfolding file_covers_def primary_key_ranges_overlap_def by (auto split: option.splits intro: order_trans)
  with assms(1,2) e show ?thesis unfolding overlap_inclusive_iff file_covers_def ts_order by auto
qed

definition region_file :: "(file_handle \<Rightarrow> ('e + 'v batch) list) \<Rightarrow> time_unit \<Rightarrow> file_handle \<Rightarrow> bool" where
  "region_file source_of unit f \<longleftrightarrow>
     good_source (source_of f) \<and> (\<forall>row \<in> set (iter_rows (source_of f)). file_covers unit f row)"

lemma set_source_rows: "set (source_rows (map source_of fs)) = (\<Union>f \<in> set fs. set (iter_rows (source_of f)))"
  by (simp add: source_rows_def)

lemma source_rows_append: "source_rows (xs @ ys) = source_rows xs @ source_rows ys"
  by (simp add: source_rows_def)

lemma picked_from_files:
  assumes "0 < b" and "\<forall>f \<in> set fs. ts_wf (snd (fh_time_range f))" and "length fs \<le> usize_max"
    and "assign_to_windows fs b = Ret ws" and "(k, w) \<in> set ws" and "find_inputs max_input_files p w ws = Ret (inputs, fd)"
  shows "set inputs \<subseteq> set fs"
proof -
  have ws: "bmap_wf ws" "assigned b fs (map_of ws)" using assign_to_windows_ok [OF assms(1,2)] assms(4) by auto
  have "map_of ws k = Some w" using ws(1) assms(5) by (simp add: bmap_entry)
  then have "window_ok b fs k w" using ws(2) by (auto simp: assigned_def dest!: spec [of _ k])
  then have w: "w_files w = filter (in_key b k) fs" by (simp add: window_ok_def)
  have "length (w_files w) \<le> usize_max" unfolding w using order_trans [OF length_filter_le assms(3)] .
  from find_inputs_files [OF this, of max_input_files p ws] assms(6) have "set inputs \<subseteq> set (w_files w)" by auto
  then show ?thesis unfolding w by auto
qed

lemma picked_keys_disjoint:
  assumes "0 < b" and "\<forall>f \<in> set fs. ts_wf (snd (fh_time_range f))" and "length fs \<le> usize_max"
    and "assign_to_windows fs b = Ret ws" and "(k, w) \<in> set ws" and "find_inputs max_input_files p w ws = Ret (inputs, True)"
    and "\<forall>f \<in> set fs. \<not> fh_compacting f \<and> region_file source_of unit f"
    and "x \<in> set (source_rows (map source_of inputs))"
    and "y \<in> set (source_rows (map source_of (filter (\<lambda>f. fh_file_id f \<notin> fh_file_id ` set inputs) fs)))"
  shows "row_key x \<noteq> row_key y"
proof
  assume e: "row_key x = row_key y"
  obtain s where s: "s \<in> set inputs" "x \<in> set (iter_rows (source_of s))" using assms(8) by (auto simp: set_source_rows)
  obtain f where f: "f \<in> set fs" "fh_file_id f \<notin> fh_file_id ` set inputs" "y \<in> set (iter_rows (source_of f))"
    using assms(9) by (auto simp: set_source_rows)
  note p = picked_without_overlap [OF assms(1-6)]
  have "s \<in> set fs" using p s(1) by blast
  then have "file_covers unit s x" "file_covers unit f y" using assms(7) s(2) f(1,3) by (auto simp: region_file_def)
  from shared_key_overlaps [OF this e] have "file_overlap_inclusive s f" .
  moreover have "\<not> fh_compacting f" using assms(7) f(1) by blast
  ultimately show False using p s(1) f(1,2) by blast
qed

section \<open>Scans before and after\<close>

lemma versioned_mono: "versioned B \<Longrightarrow> A \<subseteq> B \<Longrightarrow> versioned A"
  by (auto simp: versioned_def)

lemma strict_good_source: "sorted_wrt (\<lambda>a b. key_after b a) (concat batches) \<Longrightarrow> good_source (map Inr batches)"
  by (auto simp: good_source_def ok_iter_def iter_rows_def comp_def key_after_le elim!: sorted_wrt_mono_rel [rotated])

text \<open>Sources may be replaced by what a scan returned of them, when the rows that stay do not need what the scan dropped.\<close>

lemma replaced_sources:
  assumes "read_env_ok env" and "\<forall>source \<in> set (old @ rest). good_source source" and "versioned (set (source_rows sources))"
    and "plain_scan cinput" and "plain_scan input"
    and "enough_fuel fuel old" and "enough_fuel fuel sources" and "enough_fuel fuel (map Inr outputs # rest)"
    and "build_flat_reader_from_sources env cinput fuel False old = Some (map Inr outputs)"
    and "build_flat_reader_from_sources env input fuel False sources = Some (map Inr prior)"
    and filt: "si_filter_deleted cinput \<longrightarrow> si_filter_deleted input
      \<and> (\<forall>a \<in> set (source_rows old). \<forall>b \<in> set (source_rows rest). row_key a = row_key b \<longrightarrow> fr_sequence a < fr_sequence b)"
    and "\<forall>source \<in> set sources. good_source source"
    and parts: "set (source_rows sources) = set (source_rows old) \<union> set (source_rows rest)"
  shows "(\<exists>err. build_flat_reader_from_sources env input fuel False (map Inr outputs # rest) = Some [Inl err]
        \<and> overflow_of (re_overflow env) (re_byte_columns env) (mset (source_rows (map Inr outputs # rest))) err)
    \<or> (\<exists>after. build_flat_reader_from_sources env input fuel False (map Inr outputs # rest) = Some (map Inr after)
        \<and> [] \<notin> set after \<and> concat after = concat prior)"
proof -
  have inj: "(map Inr xs :: ('e + 'v batch) list) = map Inr ys \<Longrightarrow> xs = ys" for xs ys by (auto simp: inj_map_eq_map inj_on_def)
  have ne: "(map Inr xs :: ('e + 'v batch) list) \<noteq> [Inl err]" for xs err by auto
  have v: "versioned (set (source_rows old))" using assms(3) by (rule versioned_mono) (simp add: parts)
  have g: "\<forall>source \<in> set old. good_source source" using assms(2) by simp
  have out: "sorted_wrt (\<lambda>a b. key_after b a) (concat outputs)"
    "set (concat outputs) = newest (si_filter_deleted cinput) (set (source_rows old))"
    by (rule plain_scan_ok [OF assms(1) g assms(6,4) v]; use assms(9) inj ne in fastforce)+
  have bef: "sorted_wrt (\<lambda>a b. key_after b a) (concat prior)"
    "set (concat prior) = newest (si_filter_deleted input) (set (source_rows sources))"
    by (rule plain_scan_ok [OF assms(1,12,7,5,3)]; use assms(10) inj ne in fastforce)+
  have sr: "set (source_rows (map Inr outputs # rest)) = set (concat outputs) \<union> set (source_rows rest)"
    by (simp add: source_rows_def iter_rows_def comp_def)
  have good: "\<forall>source \<in> set (map Inr outputs # rest). good_source source" using strict_good_source [OF out(1)] assms(2) by simp
  have "newest (si_filter_deleted cinput) (set (source_rows old)) \<subseteq> set (source_rows old)" by (auto simp: newest_def)
  then have ver: "versioned (set (source_rows (map Inr outputs # rest)))"
    unfolding sr out(2) by (intro versioned_mono [OF assms(3)]) (auto simp: parts)
  have new: "newest (si_filter_deleted input) (set (source_rows (map Inr outputs # rest))) = set (concat prior)"
    unfolding sr out(2) bef(2) using newest_of_newest [OF _ filt] by (simp add: parts)
  show ?thesis
  proof (rule plain_scan_ok [OF assms(1) good assms(8,5) ver])
    fix after
    assume a: "build_flat_reader_from_sources env input fuel False (map Inr outputs # rest) = Some (map Inr after)" "[] \<notin> set after"
      "sorted_wrt (\<lambda>a b. key_after b a) (concat after)"
      "set (concat after) = newest (si_filter_deleted input) (set (source_rows (map Inr outputs # rest)))"
    have "concat after = concat prior"
    proof (rule strict_list_unique [where R = "\<lambda>a b. key_after b a"])
      show "set (concat after) = set (concat prior)" unfolding a(4) new ..
    qed (use a(3) bef(1) key_after_asym in auto)
    with a(1,2) show ?thesis by blast
  qed blast
qed

text \<open>
  C2. Compaction preserves scans in the merge mode \<open>last_row\<close>: let the picker choose files of one window
  and whether deleted rows are dropped, let a scan with that choice read the chosen files, and let
  what it returns replace them. Then a scan of the region that filters deleted rows returns the same
  rows in the same order as before, or ends with an overflow of the offsets of a column. Both scans
  are plain (\<open>plain_scan\<close>: merge mode \<open>last_row\<close>, no append mode, no selector of last rows). No
  file is being compacted otherwise, metadata cover the rows of their files, the sources are sorted,
  rows with the same key have different sequence numbers, and the rows of memtables are newer than
  those of files with the same key. Nothing is claimed for the merge mode \<open>last_non_null\<close>, where
  merging only some of the files of a key can change what a scan returns.
\<close>

theorem compaction_preserves_scans:
  assumes "0 < b" and "\<forall>f \<in> set fs. ts_wf (snd (fh_time_range f))" and "length fs \<le> usize_max"
    and "assign_to_windows fs b = Ret ws" and "(k, w) \<in> set ws" and "find_inputs max_input_files p w ws = Ret (inputs, fd)"
    and "\<forall>f \<in> set fs. \<not> fh_compacting f \<and> region_file source_of unit f" and "inj_on fh_file_id (set fs)"
    and "\<forall>source \<in> set mem. good_source source"
    and "\<forall>a \<in> set (source_rows (map source_of fs)). \<forall>b \<in> set (source_rows mem). row_key a = row_key b \<longrightarrow> fr_sequence a < fr_sequence b"
    and "read_env_ok env" and "versioned (set (source_rows (map source_of fs @ mem)))"
    and "plain_scan cinput" and "si_filter_deleted cinput = fd" and "plain_scan input" and "si_filter_deleted input"
    and "rest = map source_of (filter (\<lambda>f. fh_file_id f \<notin> fh_file_id ` set inputs) fs) @ mem"
    and "enough_fuel fuel (map source_of inputs)" and "enough_fuel fuel (map source_of fs @ mem)" and "enough_fuel fuel (map Inr outputs # rest)"
    and "build_flat_reader_from_sources env cinput fuel False (map source_of inputs) = Some (map Inr outputs)"
    and "build_flat_reader_from_sources env input fuel False (map source_of fs @ mem) = Some (map Inr prior)"
  shows "(\<exists>err. build_flat_reader_from_sources env input fuel False (map Inr outputs # rest) = Some [Inl err]
        \<and> overflow_of (re_overflow env) (re_byte_columns env) (mset (source_rows (map Inr outputs # rest))) err)
    \<or> (\<exists>after. build_flat_reader_from_sources env input fuel False (map Inr outputs # rest) = Some (map Inr after)
        \<and> [] \<notin> set after \<and> concat after = concat prior)"
proof (rule replaced_sources [OF assms(11) _ assms(12,13,15,18-22)])
  let ?others = "filter (\<lambda>f. fh_file_id f \<notin> fh_file_id ` set inputs) fs"
  have sub: "set inputs \<subseteq> set fs" by (rule picked_from_files [OF assms(1-6)])
  show "\<forall>source \<in> set (map source_of inputs @ rest). good_source source"
    using sub assms(7,9) unfolding assms(17) by (auto simp: region_file_def)
  show "\<forall>source \<in> set (map source_of fs @ mem). good_source source" using assms(7,9) by (auto simp: region_file_def)
  have "set fs = set inputs \<union> set ?others" using sub assms(8) by (auto simp: inj_on_def)
  then show "set (source_rows (map source_of fs @ mem)) = set (source_rows (map source_of inputs)) \<union> set (source_rows rest)"
    unfolding assms(17) source_rows_append set_append set_source_rows by (simp only: UN_Un Un_assoc)
  have newer: "fr_sequence x < fr_sequence y"
    if fd: fd and x: "x \<in> set (source_rows (map source_of inputs))" and y: "y \<in> set (source_rows rest)" and k: "row_key x = row_key y" for x y
  proof (cases "y \<in> set (source_rows mem)")
    case True
    have "x \<in> set (source_rows (map source_of fs))" using x sub by (auto simp: set_source_rows)
    with True k assms(10) show ?thesis by blast
  next
    case False
    then have others: "y \<in> set (source_rows (map source_of ?others))" using y unfolding assms(17) source_rows_append by simp
    have "find_inputs max_input_files p w ws = Ret (inputs, True)" using assms(6) fd by simp
    from picked_keys_disjoint [OF assms(1-5) this assms(7) x others] k show ?thesis by simp
  qed
  then show "si_filter_deleted cinput \<longrightarrow> si_filter_deleted input
      \<and> (\<forall>a \<in> set (source_rows (map source_of inputs)). \<forall>b \<in> set (source_rows rest). row_key a = row_key b \<longrightarrow> fr_sequence a < fr_sequence b)"
    using assms(14,16) by blast
qed

text \<open>The two files of the picker hold a change each of one key, and the second one deletes it.\<close>

definition sample_change_row :: "nat \<Rightarrow> op_type \<Rightarrow> nat flat_row" where
  "sample_change_row seq op = \<lparr>fr_primary_key = [5], fr_timestamp = 0, fr_sequence = seq, fr_op_type = op, fr_fields = [Some seq]\<rparr>"

definition sample_source_of :: "file_handle \<Rightarrow> (nat + nat batch) list" where
  "sample_source_of f =
     (if fh_file_id f = fh_file_id (sample_file 1) then [Inr [sample_change_row 1 OpPut]] else [Inr [sample_change_row 2 OpDelete]])"

definition sample_read_env :: "(nat, nat) read_env" where
  "sample_read_env = sample_reader\<lparr>re_byte_columns := []\<rparr>"

lemma sample_region_files:
  "\<forall>f \<in> set [sample_file 1, sample_file 2]. \<not> fh_compacting f \<and> region_file sample_source_of Millisecond f"
  "inj_on fh_file_id (set [sample_file 1, sample_file 2])"
proof -
  have "fh_primary_key_range (sample_file i) = None" for i by (simp add: sample_file_def fh_new_def file_meta_default_def primary_key_range_def)
  then show "\<forall>f \<in> set [sample_file 1, sample_file 2]. \<not> fh_compacting f \<and> region_file sample_source_of Millisecond f"
    by (simp add: region_file_def sample_source_of_def sample_file_meta good_source_def ok_iter_def iter_rows_def file_covers_def
        sample_change_row_def ts_default_def ts_new_def ts_order)
  show "inj_on fh_file_id (set [sample_file 1, sample_file 2])" by (auto simp: inj_on_def sample_file_meta)
qed

lemma sample_read:
  assumes "\<forall>source \<in> set sources. good_source source" and "enough_fuel fuel sources" and "plain_scan input"
    and "versioned (set (source_rows sources))"
  obtains batches where "build_flat_reader_from_sources sample_read_env input fuel False sources = Some (map Inr batches)"
    and "[] \<notin> set batches" and "set (concat batches) = newest (si_filter_deleted input) (set (source_rows sources))"
proof (rule plain_scan_ok [OF _ assms])
  show "read_env_ok sample_read_env" using sample_reader_ok by (simp add: read_env_ok_def sample_read_env_def)
qed (auto simp: sample_read_env_def overflow_of_def intro: that)

theorem compaction_preserves_scans_witness:
  "\<exists>outputs prior.
     find_inputs 32 sample_picker sample_window [(0, sample_window)] = Ret ([sample_file 1, sample_file 2], True)
     \<and> build_flat_reader_from_sources sample_read_env sample_scan 9 False (map sample_source_of [sample_file 1, sample_file 2]) = Some (map Inr outputs)
     \<and> build_flat_reader_from_sources sample_read_env sample_scan 9 False (map sample_source_of [sample_file 1, sample_file 2] @ []) = Some (map Inr prior)
     \<and> ((\<exists>err. build_flat_reader_from_sources sample_read_env sample_scan 9 False [map Inr outputs] = Some [Inl err]
           \<and> overflow_of (re_overflow sample_read_env) (re_byte_columns sample_read_env) (mset (source_rows [map Inr outputs])) err)
        \<or> (\<exists>after. build_flat_reader_from_sources sample_read_env sample_scan 9 False [map Inr outputs] = Some (map Inr after)
           \<and> [] \<notin> set after \<and> concat after = concat prior))"
proof -
  let ?fs = "[sample_file 1, sample_file 2]"
  have rows: "source_rows (map sample_source_of ?fs) = [sample_change_row 1 OpPut, sample_change_row 2 OpDelete]"
    by (simp add: source_rows_def sample_source_of_def sample_file_meta iter_rows_def)
  have good: "\<forall>source \<in> set (map sample_source_of ?fs). good_source source" using sample_region_files(1) by (simp add: region_file_def)
  have ver: "versioned (set (source_rows (map sample_source_of ?fs)))"
    unfolding rows by (simp add: versioned_def sample_change_row_def)
  have fuel: "enough_fuel 9 (map sample_source_of ?fs)" unfolding enough_fuel_def rows by (simp add: sample_source_of_def)
  have scan: "plain_scan sample_scan" "si_filter_deleted sample_scan" by (simp_all add: plain_scan_def sample_scan_def)
  obtain outputs where o: "build_flat_reader_from_sources sample_read_env sample_scan 9 False (map sample_source_of ?fs) = Some (map Inr outputs)"
    "[] \<notin> set outputs" "set (concat outputs) = newest (si_filter_deleted sample_scan) (set (source_rows (map sample_source_of ?fs)))"
    using sample_read [OF good fuel scan(1) ver] .
  have "set (concat outputs) = {}" unfolding o(3) rows scan by (auto simp: newest_def kept_def sample_change_row_def row_key_def scan(2))
  then have e: "outputs = []" using o(2) by (cases outputs) auto
  have env: "read_env_ok sample_read_env" using sample_reader_ok by (simp add: read_env_ok_def sample_read_env_def)
  have "length ?fs \<le> usize_max" "(0, sample_window) \<in> set [(0, sample_window)]" by (simp_all add: usize_max_def)
  from compaction_preserves_scans [OF _ _ this(1) sample_pick(1) this(2) sample_pick(2) sample_region_files, where mem = "[]" and env = sample_read_env
      and cinput = sample_scan and input = sample_scan and fuel = 9 and outputs = outputs and prior = outputs and rest = "[]"] o(1) ver fuel env scan
  show ?thesis unfolding e
    by (intro exI [of _ "[]"]) (simp add: sample_pick sample_file_meta source_rows_def enough_fuel_def iter_rows_def)
qed

end
