(* ===== verification/Spec2Isabelle.thy ===== *)
theory Spec2Isabelle
  imports Bulk_Write Compaction_Overlap Region_Recovery Region_Edit Compaction_Reads
begin

text \<open>
  Verification development of the storage engine of GreptimeDB (\<open>src/src/mito2\<close> and the parts of
  \<open>src/src/common/time\<close>, \<open>src/src/common/wal\<close>, \<open>src/src/store-api\<close> and \<open>src/src/mito-codec\<close> it rests on).

  \<^bold>\<open>The program.\<close> A table is divided into regions. A region takes writes into time partitions of a
  mutable memtable after appending them to a log; flushes turn memtables into SST files; compaction
  replaces files by merged ones; a manifest, stored as numbered delta files and checkpoints in an
  object store, records files, schema and flushed positions, and is what a region is reopened from;
  scans merge the sorted sources of a region, remove duplicate rows and filter deletions. The
  development models these parts as functions on explicit states and proves that they do what they
  promise to each other: what is acknowledged survives a crash, a reopened region equals the one that
  was running, a compaction does not change what a scan returns, and each waiter of a request is
  answered once.

  \<^bold>\<open>Conventions.\<close> \<open>i64\<close> is \<open>int\<close> with the checked, saturating and wrapping operations of \<open>Prelude\<close>;
  \<open>usize\<close> and \<open>u64\<close> counters are \<open>nat\<close> with \<open>usize_add\<close> where the code adds; identifiers are words of
  their width. A hash map is an association list with distinct keys (\<open>hmap\<close>). A panic is the value
  \<open>Panic\<close> of \<open>outcome\<close>, an error is \<open>Inl\<close> of a sum, both together are \<open>fallible\<close>. Locks and channels
  disappear: a critical section is one function on the state, and where the code interleaves (the
  checkpoint task, the tasks of edits, spawned writes) the steps are explicit and come in any order.
  Code outside the repository (object store, log store, Arrow kernels, JSON, clocks, parsers of
  durations) is an argument of the definitions that call it; what is assumed of it is a named
  predicate (\<open>log_ok\<close>, \<open>codec_ok\<close>, \<open>kernels_ok\<close>, \<open>interleave_ok\<close>, \<open>dictionary_ok\<close>, \<open>order_ok\<close>), and
  each is met by a concrete instance in a witness. Two of these are idealised: \<open>kernels_ok\<close> lets the
  concatenation of batches always succeed, though 32-bit offsets of a column may overflow there, and
  \<open>log_ok\<close> lets a failed append leave the log as it was.

  \<^bold>\<open>Theories.\<close>
  \<^item> \<open>Prelude\<close>: integer arithmetic, outcomes, hash maps, stable sorting by a comparator.
  \<^item> \<open>Timestamp\<close>, \<open>Time_Range\<close> (\<open>common/time\<close>): units, conversion with rounding and overflow, comparison
    across units, alignment to buckets, time to live; half-open ranges. Comparison decides the order of
    the instants denoted; the locale \<open>total_key\<close> gives the algebra of ranges for both key types.
  \<^item> \<open>Region_Id\<close> (\<open>store-api/src/storage/descriptors.rs\<close>): packing of identifiers.
  \<^item> \<open>Sst_File\<close>, \<open>Sst_Version\<close> (\<open>sst/file.rs\<close>, \<open>sst/version.rs\<close>): metadata and handles of files and the
    files of a region by level. The locale \<open>file_store\<close> is the contract of a keyed collection of files;
    the files of a version and the files of a manifest both interpret it.
  \<^item> \<open>Manifest\<close>, \<open>Manifest_Path\<close> (\<open>manifest/action.rs\<close>, \<open>manifest/storage.rs\<close>): actions and the builder
    that applies them; names of delta and checkpoint files. No file is forgotten without a record,
    positions do not go back, merging edits is equivalent to applying them in turn.
  \<^item> \<open>Manifest_Manager\<close>, \<open>Manifest_Recovery\<close> (\<open>manifest/manager.rs\<close>, \<open>manifest/checkpointer.rs\<close>,
    \<open>manifest/storage/\<close>): creating, opening, updating and following a manifest, the checkpoint task one
    write at a time, the clean-up. A step relation with crashes between any two writes; in every
    reachable state of a region created with the flushed entry id 0 the directory opens to the
    manifest of the updates that succeeded.
  \<^item> \<open>Time_Partition\<close>, \<open>Bulk_Write\<close>, \<open>Memtable_Version\<close> (\<open>memtable/time_partition.rs\<close>,
    \<open>memtable/version.rs\<close>): routing of rows and of Arrow batches to partitions, freezing and forking.
    Each row is stored once, in the partition of its time, by memtables of time series and by bulk
    memtables. Memtable ids are 32-bit numbers that wrap; nothing rests on their being distinct but
    the invariant of \<open>Memtable_Version\<close>, which is kept as long as they do not.
  \<^item> \<open>Region_Options\<close> (\<open>region/options.rs\<close>): options from the map of a request, validation, defaults.
  \<^item> \<open>Region_Version\<close>, \<open>Region_Write\<close>, \<open>Region_Open\<close>, \<open>Region_Recovery\<close> (\<open>region/version.rs\<close>,
    \<open>region_write_ctx.rs\<close>, \<open>worker/handle_write.rs\<close>, \<open>region/opener.rs\<close>, \<open>region/catchup.rs\<close>): versions
    and their control, a round of writes, creating, opening and replaying. The locale \<open>batch_writer\<close> is
    the contract of a memtable write, met by writes of rows and of batches. A round is answered as a
    whole; the rows of the acknowledged rounds, spelled out with sequence numbers and operations, are
    in the memtables, and replaying the log restores exactly them.
  \<^item> \<open>Region_Role\<close> (\<open>region.rs\<close>): states of a leader, guarded updates of the manifest, demotion. A
    demoted region publishes nothing, and a compaction that crosses a full truncation never commits.
  \<^item> \<open>Region_Steps\<close> (\<open>worker/handle_truncate.rs\<close>, \<open>worker/handle_manifest.rs\<close>): the life of a region as
    a step relation over manager and version together; the version refines the manifest, for a region
    created with the flushed entry id 0 and edits that follow the discipline \<open>edit_ok\<close>.
  \<^item> \<open>Region_Edit\<close> (\<open>worker/handle_manifest.rs\<close>, \<open>request.rs\<close>): direct edits, their queue, their tasks and
    reports as a sequence of events in any order.
  \<^item> \<open>Compaction_Window\<close>, \<open>Compaction_Plan\<close> (\<open>compaction/window.rs\<close>, \<open>compaction/buckets.rs\<close>): compaction
    by strict windows; the outputs divide the instants of the inputs, also when a time range restricts
    the windows.
  \<^item> \<open>Compaction_Run\<close>, \<open>Compaction_Sweep\<close>, \<open>Compaction_Overlap\<close> (\<open>compaction/run.rs\<close>): sorted runs, the
    optimised sweep with two heaps against the original search, overlapping items of two runs. The
    locales \<open>ranged_item\<close> and \<open>inclusive_item\<close> are the trait \<open>Item\<close>; files interpret both.
  \<^item> \<open>Compaction_Twcs\<close>, \<open>Compaction_Pick\<close>, \<open>Compaction_Safety\<close> (\<open>compaction/twcs.rs\<close>,
    \<open>compaction/picker.rs\<close>): the picker by time windows, that its search returns a best interval, and
    that deletions are dropped only when no other file can hold a row they hide.
  \<^item> \<open>Read_Merge\<close>, \<open>Read_Offsets\<close> (\<open>read/flat_merge.rs\<close>): the merge of sorted sources with a hot and a cold
    heap and a batch builder; it sorts, and fails only on an overflow of the offsets of a column.
  \<^item> \<open>Read_Dedup\<close>, \<open>Read_Groups\<close>, \<open>Read_Strategy\<close> (\<open>read/flat_dedup.rs\<close>): the strategies that keep the
    last row or the last non-null fields of a key. The locale \<open>dedup_strategy\<close> is the trait they
    implement: a strategy that is right for one batch at a time is right for the stream, however it is
    cut into batches.
  \<^item> \<open>Read_Selector\<close> (\<open>read/last_row.rs\<close>, \<open>sst/parquet/format.rs\<close>): the last rows of each series.
  \<^item> \<open>Read_Path\<close> (\<open>read/seq_scan.rs\<close>): merge, duplicates and selection composed into the reader of a scan,
    which returns the newest rows.
  \<^item> \<open>Compaction_Reads\<close>: picker and reader composed: replacing the picked files by what reading them
    yields does not change a scan in the merge mode \<open>last_row\<close>.

  \<^bold>\<open>Bounds and fuel.\<close> All recursions are structural or have a termination proof but two kinds. The loop
  over the windows of a file may run forever in the code, so \<open>span_loop\<close> is a partial function into
  \<open>option\<close>: it is proved to return for every file that ends before the greatest second and whose
  windows can be reserved, and proved not to return when the file ends at that second and the bucket
  divides it. The readers are loops over streams with fuel; the theorems ask for fuel
  above the number of rows plus one (\<open>enough_fuel\<close>) and prove that the result then exists, so fuel only
  bounds the number of turns of the loop. The queue of edits drains in \<open>QUEUE_MAX_LEN + 2\<close> rounds.

  \<^bold>\<open>Not modelled.\<close> Metrics, logging, tracing and memory accounting are left out everywhere, as they do
  not influence results. Of \<open>mito2\<close>: the schedulers of flushes and compactions, the write and page
  caches and the manifest cache, encoding and decoding of Parquet files and of primary keys, indexes
  and pruning, planning and partitioning of scans, and the memtable implementations behind the
  partitions (a memtable is the list of its rows), which are mostly I/O, concurrency of external
  executors or formats of third-party crates. In the read path the twin iterators over memtables, the
  parallel sources and the readers of single row groups are left out. Outside the storage engine
  nothing is modelled: the query engine, SQL and PromQL, the servers, the distributed metadata and its
  procedures, flows, pipelines, the metric engine beyond its region groups, the log stores, the
  client, the command line and the test suites. They rest on DataFusion, gRPC, etcd and other code
  outside the repository, and the storage engine reaches them only through the requests and the
  parameters above.
\<close>

end
